(* ===== verification/Jjosh_Prelude.thy ===== *)
theory Jjosh_Prelude
  imports Main "HOL-Library.List_Lexorder" "HOL-Library.Char_ord" "HOL-Library.Multiset"
begin

text \<open>
  Shared vocabulary of the development.

  \<^item> \<open>'a exec\<close>: the outcome of code that may panic (\<open>assert!\<close>, \<open>unwrap\<close>, slice
    indexing). \<open>Returns x\<close> is a normal return, \<open>Panics\<close> an abort.
  \<^item> \<open>('e, 'a) result\<close>: Rust's \<open>Result<'a, 'e>\<close>, the error on the left.
  \<^item> \<open>step2\<close>: \<open>iter().step_by(2)\<close>; \<open>somes\<close>: \<open>iter().flatten()\<close> over options;
    \<open>rsplit_once\<close>: \<open>str::rsplit_once\<close> with a character.
  \<^item> \<open>scount\<close>: the signed number of occurrences of a value in a list whose terms
    alternate between positive and negative, the meaning of a \<open>Merge\<close>.
  \<^item> the interface locale \<open>keyed_store\<close>: a component of a state that is read and
    written by key.
\<close>

named_theorems exec_simps \<open>unfolding of outcomes that may panic\<close>
named_theorems view_simps \<open>what an operation on the view does to each of its fields\<close>

section \<open>Outcomes\<close>

datatype 'a exec = Panics | Returns 'a

fun exec_bind :: "'a exec \<Rightarrow> ('a \<Rightarrow> 'b exec) \<Rightarrow> 'b exec" where
  "exec_bind Panics f = Panics"
| "exec_bind (Returns x) f = f x"

declare exec_bind.simps [exec_simps]

lemma exec_bind_eq_Returns:
  "exec_bind m f = Returns y \<longleftrightarrow> (\<exists>x. m = Returns x \<and> f x = Returns y)"
  by (cases m) auto

lemma exec_bind_assoc: "exec_bind (exec_bind m f) g = exec_bind m (\<lambda>x. exec_bind (f x) g)"
  by (cases m) auto

definition unwrap :: "'a option \<Rightarrow> 'a exec" where
  "unwrap x = (case x of None \<Rightarrow> Panics | Some y \<Rightarrow> Returns y)"

text \<open>\<open>map\<close> over an iterator with a closure that may panic.\<close>

fun exec_map :: "('a \<Rightarrow> 'b exec) \<Rightarrow> 'a list \<Rightarrow> 'b list exec" where
  "exec_map f [] = Returns []"
| "exec_map f (x # xs) = exec_bind (f x) (\<lambda>y. exec_bind (exec_map f xs) (\<lambda>ys. Returns (y # ys)))"

lemma exec_map_Returns: "(\<And>x. x \<in> set xs \<Longrightarrow> f x = Returns (g x)) \<Longrightarrow> exec_map f xs = Returns (map g xs)"
  by (induction xs) simp_all

text \<open>Indexing a slice.\<close>

definition index_exec :: "'a list \<Rightarrow> nat \<Rightarrow> 'a exec" where
  "index_exec xs i = (if i < length xs then Returns (xs ! i) else Panics)"

type_synonym ('e, 'a) result = "'e + 'a"

fun res_bind :: "('e, 'a) result \<Rightarrow> ('a \<Rightarrow> ('e, 'b) result) \<Rightarrow> ('e, 'b) result" where
  "res_bind (Inl e) f = Inl e"
| "res_bind (Inr x) f = f x"

lemma res_bind_eq_Inr: "res_bind m f = Inr y \<longleftrightarrow> (\<exists>x. m = Inr x \<and> f x = Inr y)"
  by (cases m) auto

lemma res_bind_eq_Inl: "res_bind m f = Inl e \<longleftrightarrow> m = Inl e \<or> (\<exists>x. m = Inr x \<and> f x = Inl e)"
  by (cases m) auto

text \<open>\<open>Result::ok\<close> and \<open>Option::ok_or\<close>.\<close>

definition res_ok :: "('e, 'a) result \<Rightarrow> 'a option" where
  "res_ok r = (case r of Inl _ \<Rightarrow> None | Inr x \<Rightarrow> Some x)"

definition ok_or :: "'e \<Rightarrow> 'a option \<Rightarrow> ('e, 'a) result" where
  "ok_or e x = (case x of None \<Rightarrow> Inl e | Some y \<Rightarrow> Inr y)"

lemma res_ok_simps [simp]: "res_ok (Inl e) = None" "res_ok (Inr x) = Some x"
  by (simp_all add: res_ok_def)

lemma res_ok_eq_Some [simp]: "res_ok r = Some x \<longleftrightarrow> r = Inr x"
  by (cases r) auto

lemma ok_or_simps [simp]: "ok_or e None = Inl e" "ok_or e (Some x) = Inr x"
  by (simp_all add: ok_or_def)

lemma ok_or_eq_Inr [simp]: "ok_or e x = Inr y \<longleftrightarrow> x = Some y"
  by (cases x) auto

lemma ok_or_eq_Inl [simp]: "ok_or e x = Inl e' \<longleftrightarrow> x = None \<and> e = e'"
  by (cases x) auto

section \<open>Iterators\<close>

text \<open>\<open>split_inclusive\<close> of a slice or a string.\<close>

fun split_inclusive :: "('a \<Rightarrow> bool) \<Rightarrow> 'a list \<Rightarrow> 'a list list" where
  "split_inclusive P [] = []"
| "split_inclusive P (x # xs) =
     (if P x then [x] # split_inclusive P xs
      else case split_inclusive P xs of [] \<Rightarrow> [[x]] | l # ls \<Rightarrow> (x # l) # ls)"

lemma concat_split_inclusive: "concat (split_inclusive Q xs) = xs"
  by (induction xs) (auto split: list.splits)

fun step2 :: "'a list \<Rightarrow> 'a list" where
  "step2 [] = []"
| "step2 [x] = [x]"
| "step2 (x # y # zs) = x # step2 zs"

lemma step2_Cons: "step2 (x # xs) = x # step2 (tl xs)"
  by (cases xs) auto

lemma step2_eq_Nil [simp]: "step2 xs = [] \<longleftrightarrow> xs = []"
  by (cases xs rule: step2.cases) auto

lemma length_step2: "length (step2 xs) = (length xs + 1) div 2"
  by (induction xs rule: step2.induct) auto

lemma set_step2: "set (step2 xs) = {xs ! i | i. i < length xs \<and> even i}"
proof (induction xs rule: step2.induct)
  case (3 x y zs)
  have "{(x # y # zs) ! i | i. i < length (x # y # zs) \<and> even i} =
        insert x {zs ! i | i. i < length zs \<and> even i}"
    (is "?L = ?R")
  proof
    show "?L \<subseteq> ?R"
    proof
      fix v assume "v \<in> ?L"
      then obtain i where i: "v = (x # y # zs) ! i" "i < length (x # y # zs)" "even i" by blast
      show "v \<in> ?R"
      proof (cases i)
        case 0 with i show ?thesis by simp
      next
        case (Suc j)
        with i(3) obtain k where "i = Suc (Suc k)" "even k" by (cases j) auto
        with i(1,2) show ?thesis by auto
      qed
    qed
    show "?R \<subseteq> ?L"
    proof
      fix v assume "v \<in> ?R"
      then consider "v = x" | k where "v = zs ! k" "k < length zs" "even k" by blast
      then show "v \<in> ?L"
      proof cases
        case 1 then show ?thesis by (auto intro!: exI[of _ "0::nat"])
      next
        case 2
        then show ?thesis by (auto intro!: exI[of _ "Suc (Suc k)"])
      qed
    qed
  qed
  with 3 show ?case by simp
qed auto

lemma set_step2_tl: "set (step2 (tl xs)) = {xs ! i | i. i < length xs \<and> odd i}"
proof (intro set_eqI iffI)
  fix v assume "v \<in> set (step2 (tl xs))"
  then obtain i where "v = tl xs ! i" "i < length xs - 1" "even i" by (auto simp: set_step2)
  then have "v = xs ! Suc i \<and> Suc i < length xs \<and> odd (Suc i)" by (auto simp: nth_tl)
  then show "v \<in> {xs ! i | i. i < length xs \<and> odd i}" by blast
next
  fix v assume "v \<in> {xs ! i | i. i < length xs \<and> odd i}"
  then obtain i where "v = xs ! Suc (2 * i)" "Suc (2 * i) < length xs" by (auto elim!: oddE)
  then have "v = tl xs ! (2 * i) \<and> 2 * i < length (tl xs) \<and> even (2 * i)" by (auto simp: nth_tl)
  then show "v \<in> set (step2 (tl xs))" unfolding set_step2 by blast
qed

lemma set_step2_subset: "set (step2 xs) \<subseteq> set xs"
  by (induction xs rule: step2.induct) auto

lemma map_step2: "map f (step2 xs) = step2 (map f xs)"
  by (induction xs rule: step2.induct) auto

lemma step2_append_even: "even (length xs) \<Longrightarrow> step2 (xs @ ys) = step2 xs @ step2 ys"
  by (induction xs rule: step2.induct) auto

lemma step2_append_odd: "odd (length xs) \<Longrightarrow> step2 (xs @ ys) = step2 xs @ step2 (tl ys)"
  by (induction xs rule: step2.induct) (auto simp: step2_Cons)

lemma nth_step2: "i < length (step2 xs) \<Longrightarrow> step2 xs ! i = xs ! (2 * i)"
proof (induction xs arbitrary: i rule: step2.induct)
  case (3 x y zs)
  then show ?case by (cases i) auto
qed auto

definition somes :: "'a option list \<Rightarrow> 'a list" where
  "somes xs = List.map_filter (\<lambda>x. x) xs"

lemma somes_simps [simp]:
  "somes [] = []" "somes (None # xs) = somes xs" "somes (Some x # xs) = x # somes xs"
  by (simp_all add: somes_def List.map_filter_simps)

lemma set_somes [simp]: "set (somes xs) = {x. Some x \<in> set xs}"
proof (induction xs)
  case (Cons a xs)
  then show ?case by (cases a) auto
qed simp

lemma somes_append [simp]: "somes (xs @ ys) = somes xs @ somes ys"
proof (induction xs)
  case (Cons a xs)
  then show ?case by (cases a) auto
qed simp

section \<open>Strings\<close>

fun rsplit_once :: "char \<Rightarrow> string \<Rightarrow> (string \<times> string) option" where
  "rsplit_once c [] = None"
| "rsplit_once c (x # xs) =
     (case rsplit_once c xs of
        Some (a, b) \<Rightarrow> Some (x # a, b)
      | None \<Rightarrow> if x = c then Some ([], xs) else None)"

lemma rsplit_once_None: "rsplit_once c s = None \<longleftrightarrow> c \<notin> set s"
  by (induction s) (auto split: option.splits prod.splits)

lemma rsplit_once_Some:
  "rsplit_once c s = Some (a, b) \<longleftrightarrow> s = a @ c # b \<and> c \<notin> set b"
proof (induction s arbitrary: a b)
  case Nil
  then show ?case by simp
next
  case (Cons x xs)
  note IH = Cons.IH
  show ?case
  proof (cases "rsplit_once c xs")
    case None
    then have "c \<notin> set xs" by (simp add: rsplit_once_None)
    with None show ?thesis by (cases a) auto
  next
    case (Some p)
    obtain u v where p: "p = (u, v)" by force
    from Some p have uv: "xs = u @ c # v" "c \<notin> set v" using IH[of u v] by auto
    show ?thesis
    proof (cases a)
      case Nil
      with Some p uv show ?thesis by auto
    next
      case (Cons y ys)
      have "rsplit_once c (x # xs) = Some (a, b) \<longleftrightarrow> x = y \<and> rsplit_once c xs = Some (ys, b)"
        using Some p Cons by auto
      also have "\<dots> \<longleftrightarrow> x # xs = a @ c # b \<and> c \<notin> set b"
        using IH[of ys b] Cons by auto
      finally show ?thesis .
    qed
  qed
qed

section \<open>Signed occurrences\<close>

fun scount :: "'a list \<Rightarrow> 'a \<Rightarrow> int" where
  "scount [] v = 0"
| "scount (x # xs) v = (if x = v then 1 else 0) - scount xs v"

lemma scount_append:
  "scount (xs @ ys) v = scount xs v + (if even (length xs) then scount ys v else - scount ys v)"
  by (induction xs) auto

lemma scount_step2:
  "scount xs v = int (count_list (step2 xs) v) - int (count_list (step2 (tl xs)) v)"
  by (induction xs rule: step2.induct) (auto simp: step2_Cons)

lemma scount_bound: "\<bar>scount xs v\<bar> \<le> int (length xs)"
  by (induction xs) auto

lemma scount_nonzero_in_set: "scount xs v \<noteq> 0 \<Longrightarrow> v \<in> set xs"
  by (induction xs) (auto split: if_splits)

lemma scount_not_in_set: "v \<notin> set xs \<Longrightarrow> scount xs v = 0"
  using scount_nonzero_in_set by metis

lemma sum_scount:
  assumes "finite A" and "set xs \<subseteq> A"
  shows "(\<Sum>v\<in>A. scount xs v) = (if odd (length xs) then 1 else 0)"
  using assms(2)
proof (induction xs)
  case Nil
  then show ?case by simp
next
  case (Cons x xs)
  have "(\<Sum>v\<in>A. scount (x # xs) v) = (\<Sum>v\<in>A. if x = v then 1 else 0) - (\<Sum>v\<in>A. scount xs v)"
    by (simp add: sum_subtractf)
  also have "(\<Sum>v\<in>A. if x = v then 1 else 0) = (1::int)"
    using Cons.prems assms(1) by (simp add: sum.delta')
  finally show ?case using Cons by simp
qed

section \<open>Keyed components of a state\<close>

text \<open>
  The contract of a getter and a setter of one keyed component of a state: reading back
  what was written, and leaving every other key alone. The lemmas are what a client needs
  of a sequence of writes.
\<close>

locale keyed_store =
  fixes get :: "'s \<Rightarrow> 'k \<Rightarrow> 'v"
    and put :: "'k \<Rightarrow> 'v \<Rightarrow> 's \<Rightarrow> 's"
  assumes get_put: "get (put k v s) k' = (if k' = k then v else get s k')"
begin

lemma get_put_same: "get (put k v s) k = v"
  by (simp add: get_put)

lemma get_put_other: "k' \<noteq> k \<Longrightarrow> get (put k v s) k' = get s k'"
  by (simp add: get_put)

lemma put_put_get: "get (put k v (put k w s)) = get (put k v s)"
  by (rule ext) (simp add: get_put)

lemma put_commute_get:
  "k \<noteq> l \<Longrightarrow> get (put k v (put l w s)) = get (put l w (put k v s))"
  by (rule ext) (auto simp: get_put)

lemma put_get_id: "get (put k (get s k) s) = get s"
  by (rule ext) (simp add: get_put)

lemma fold_put_get:
  "get (fold (\<lambda>(k, v). put k v) kvs s) k =
     (case map_of (rev kvs) k of None \<Rightarrow> get s k | Some v \<Rightarrow> v)"
proof (induction kvs arbitrary: s)
  case Nil
  then show ?case by simp
next
  case (Cons kv kvs)
  obtain l v where "kv = (l, v)" by force
  with Cons show ?case
    by (auto simp: get_put map_add_def split: option.splits)
qed

end

end
