(* ===== verification/Merge_Expr.thy ===== *)
theory Merge_Expr
  imports Jjosh_Prelude
begin

text \<open>
  The merge algebra of \<open>jj/core/src/merge.rs\<close>: \<open>Diff\<close>, \<open>trivial_merge\<close>, and
  \<open>Merge<T>\<close>, a vector of terms that alternate between positive (the sides) and negative
  (the bases), starting with a positive one.

  Every operation of the file is a definition here; an operation that asserts, unwraps or
  indexes returns \<open>'a exec\<close>, so that each panic of the source is a value of the model.
  The meaning of a merge is the signed count of each value, \<open>scount (merge_values m)\<close>.
  The lemmas show that a well-formed merge (\<open>merge_ok\<close>: an odd number of terms) never
  panics, that well-formedness is preserved, and what each operation does to the signed
  counts. \<open>try_map_async\<close>, the serialisers and the reference conversions are not modelled.
\<close>

section \<open>Diffs\<close>

record 'a diff =
  before :: 'a
  after :: 'a

definition diff_new :: "'a \<Rightarrow> 'a \<Rightarrow> 'a diff" where
  "diff_new b a = \<lparr>before = b, after = a\<rparr>"

definition diff_map :: "('a \<Rightarrow> 'b) \<Rightarrow> 'a diff \<Rightarrow> 'b diff" where
  "diff_map f d = \<lparr>before = f (before d), after = f (after d)\<rparr>"

definition diff_zip :: "'a diff \<Rightarrow> 'b diff \<Rightarrow> ('a \<times> 'b) diff" where
  "diff_zip d e = \<lparr>before = (before d, before e), after = (after d, after e)\<rparr>"

definition diff_invert :: "'a diff \<Rightarrow> 'a diff" where
  "diff_invert d = \<lparr>before = after d, after = before d\<rparr>"

definition diff_into_array :: "'a diff \<Rightarrow> 'a list" where
  "diff_into_array d = [before d, after d]"

definition diff_is_changed :: "'a diff \<Rightarrow> bool" where
  "diff_is_changed d = (before d \<noteq> after d)"

lemma diff_invert_involutive: "diff_invert (diff_invert d) = d"
  by (simp add: diff_invert_def)

lemma diff_invert_is_changed: "diff_is_changed (diff_invert d) = diff_is_changed d"
  by (auto simp: diff_invert_def diff_is_changed_def)

section \<open>Trivial merges\<close>

datatype same_change = Keep | Accept

text \<open>
  \<open>counts.entry(value).and_modify(|e| *e += n).or_insert(n)\<close>. The hash map is a list of
  its entries; the code looks at the entries only through their number and, when there are
  two, in an order that does not matter (\<open>general_merge_spec\<close>). The counts are \<open>i32\<close>
  in the code; \<open>scount_bound\<close> bounds them by the number of terms.
\<close>

fun entry_add :: "'a \<Rightarrow> int \<Rightarrow> ('a \<times> int) list \<Rightarrow> ('a \<times> int) list" where
  "entry_add k n [] = [(k, n)]"
| "entry_add k n ((a, c) # cs) = (if a = k then (a, c + n) # cs else (a, c) # entry_add k n cs)"

fun count_terms :: "'a list \<Rightarrow> int \<Rightarrow> ('a \<times> int) list \<Rightarrow> ('a \<times> int) list" where
  "count_terms [] n cs = cs"
| "count_terms (v # vs) n cs = count_terms vs (- n) (entry_add v n cs)"

definition general_merge :: "'a list \<Rightarrow> same_change \<Rightarrow> 'a option exec" where
  "general_merge vs sc =
     (case filter (\<lambda>(v, c). c \<noteq> 0) (count_terms vs 1 []) of
        [(value, n)] \<Rightarrow> if n = 1 then Returns (Some value) else Panics
      | [(value1, n1), (value2, n2)] \<Rightarrow>
          if sc = Accept
          then if n1 + n2 = 1
               then Returns (Some (if n1 > 0 then value1 else value2)) else Panics
          else Returns None
      | _ \<Rightarrow> Returns None)"

definition trivial_merge :: "'a list \<Rightarrow> same_change \<Rightarrow> 'a option exec" where
  "trivial_merge vs sc =
     (if even (length vs) then Panics
      else case vs of
        [add] \<Rightarrow> Returns (Some add)
      | [add0, remove, add1] \<Rightarrow>
          Returns (if add0 = add1 \<and> sc = Accept then Some add0
                   else if add0 = remove then Some add1
                   else if add1 = remove then Some add0
                   else None)
      | _ \<Rightarrow> general_merge vs sc)"

section \<open>Merges\<close>

datatype 'a merge = Merge (merge_values: "'a list")

definition merge_ok :: "'a merge \<Rightarrow> bool" where
  "merge_ok m = odd (length (merge_values m))"

definition from_vec :: "'a list \<Rightarrow> 'a merge exec" where
  "from_vec vs = (if length vs mod 2 \<noteq> 0 then Returns (Merge vs) else Panics)"

fun zip_both :: "'a list \<Rightarrow> 'a list \<Rightarrow> 'a list exec" where
  "zip_both [] [] = Returns []"
| "zip_both (r # rs) (a # as) = exec_bind (zip_both rs as) (\<lambda>vs. Returns (r # a # vs))"
| "zip_both _ _ = Panics"

definition from_removes_adds :: "'a list \<Rightarrow> 'a list \<Rightarrow> 'a merge exec" where
  "from_removes_adds rs as =
     (case as of
        [] \<Rightarrow> Panics
      | a # as' \<Rightarrow> exec_bind (zip_both rs as') (\<lambda>vs. Returns (Merge (a # vs))))"

definition from_diffs :: "'a \<Rightarrow> 'a diff list \<Rightarrow> 'a merge" where
  "from_diffs first_side diffs = Merge (first_side # concat (map diff_into_array diffs))"

definition resolved :: "'a \<Rightarrow> 'a merge" where
  "resolved v = Merge [v]"

text \<open>\<open>num_sides * 2 - 1\<close> underflows at 0.\<close>

definition repeated :: "'a \<Rightarrow> nat \<Rightarrow> 'a merge exec" where
  "repeated v num_sides =
     (if num_sides = 0 then Panics else Returns (Merge (replicate (num_sides * 2 - 1) v)))"

definition removes :: "'a merge \<Rightarrow> 'a list" where
  "removes m = step2 (drop 1 (merge_values m))"

definition adds :: "'a merge \<Rightarrow> 'a list" where
  "adds m = step2 (merge_values m)"

definition into_removes_adds :: "'a merge \<Rightarrow> 'a list \<times> 'a list" where
  "into_removes_adds m =
     (let (rs, as) = partition (\<lambda>(n, _). n mod 2 = 1) (enumerate 0 (merge_values m))
      in (map snd rs, map snd as))"

definition first :: "'a merge \<Rightarrow> 'a exec" where
  "first m = (case merge_values m of [] \<Rightarrow> Panics | v # _ \<Rightarrow> Returns v)"

definition slice_get :: "'a list \<Rightarrow> nat \<Rightarrow> 'a option" where
  "slice_get vs i = (if i < length vs then Some (vs ! i) else None)"

definition get_remove :: "'a merge \<Rightarrow> nat \<Rightarrow> 'a option" where
  "get_remove m index = slice_get (merge_values m) (index * 2 + 1)"

definition get_add :: "'a merge \<Rightarrow> nat \<Rightarrow> 'a option" where
  "get_add m index = slice_get (merge_values m) (index * 2)"

text \<open>\<open>SmallVec::swap_remove\<close>: the last element takes the place of the removed one.\<close>

definition vec_swap_remove :: "'a list \<Rightarrow> nat \<Rightarrow> ('a \<times> 'a list) exec" where
  "vec_swap_remove vs i =
     (if i < length vs then Returns (vs ! i, butlast (vs[i := last vs])) else Panics)"

definition swap_remove :: "'a merge \<Rightarrow> nat \<Rightarrow> nat \<Rightarrow> (('a \<times> 'a) \<times> 'a merge) exec" where
  "swap_remove m remove_index add_index =
     exec_bind (vec_swap_remove (merge_values m) (add_index * 2)) (\<lambda>(add, vs).
     exec_bind (vec_swap_remove vs (remove_index * 2 + 1)) (\<lambda>(remove, vs).
     Returns ((remove, add), Merge vs)))"

definition num_sides :: "'a merge \<Rightarrow> nat" where
  "num_sides m = length (merge_values m) div 2 + 1"

definition is_resolved :: "'a merge \<Rightarrow> bool" where
  "is_resolved m = (length (merge_values m) = 1)"

definition as_resolved :: "'a merge \<Rightarrow> 'a option" where
  "as_resolved m = (case merge_values m of [v] \<Rightarrow> Some v | _ \<Rightarrow> None)"

definition into_resolved :: "'a merge \<Rightarrow> ('a merge, 'a) result" where
  "into_resolved m =
     (if length (merge_values m) = 1 then Inr (last (merge_values m)) else Inl m)"

text \<open>
  The loop of \<open>get_simplified_mapping\<close>: \<open>ix\<close> is \<open>simplified_to_original_indices\<close>,
  \<open>a\<close> is \<open>add_index\<close>. \<open>find_remove\<close> is the search among the odd positions, and
  \<open>swap\<close> and \<open>drain\<close> are the slice operations (the swap panics out of range).
\<close>

definition find_remove :: "'a list \<Rightarrow> nat list \<Rightarrow> 'a \<Rightarrow> nat option" where
  "find_remove vs ix add = find (\<lambda>r. vs ! (ix ! r) = add) (step2 (drop 1 [0..<length ix]))"

definition swap :: "'a list \<Rightarrow> nat \<Rightarrow> nat \<Rightarrow> 'a list exec" where
  "swap xs i j =
     (if i < length xs \<and> j < length xs then Returns (xs[i := xs ! j, j := xs ! i]) else Panics)"

definition drain2 :: "'a list \<Rightarrow> nat \<Rightarrow> 'a list" where
  "drain2 xs i = take i xs @ drop (i + 2) xs"

lemma length_drain2: "i + 1 < length xs \<Longrightarrow> length (drain2 xs i) = length xs - 2"
  by (simp add: drain2_def)

function simplify_loop :: "'a list \<Rightarrow> nat list \<Rightarrow> nat \<Rightarrow> nat list exec" where
  "simplify_loop vs ix a =
     (if a < length ix
      then case find_remove vs ix (vs ! (ix ! a)) of
             Some r \<Rightarrow>
               (case swap ix (r + 1) a of
                  Panics \<Rightarrow> Panics
                | Returns ix' \<Rightarrow> simplify_loop vs (drain2 ix' r) a)
           | None \<Rightarrow> simplify_loop vs ix (a + 2)
      else Returns ix)"
  by pat_completeness auto
termination
  by (relation "measure (\<lambda>(vs, ix, a). length ix - a)")
    (auto simp: swap_def length_drain2 split: if_splits)

declare simplify_loop.simps [simp del]

definition get_simplified_mapping :: "'a merge \<Rightarrow> nat list exec" where
  "get_simplified_mapping m =
     simplify_loop (merge_values m) [0..<length (merge_values m)] 0"

definition apply_simplified_mapping :: "'a merge \<Rightarrow> nat list \<Rightarrow> 'a merge" where
  "apply_simplified_mapping m mapping = Merge (map (\<lambda>i. merge_values m ! i) mapping)"

definition simplify :: "'a merge \<Rightarrow> 'a merge exec" where
  "simplify m =
     exec_bind (get_simplified_mapping m) (\<lambda>mapping.
     Returns (apply_simplified_mapping m mapping))"

definition merge_map_terms :: "('a \<Rightarrow> 'b) \<Rightarrow> 'a merge \<Rightarrow> 'b merge" where
  "merge_map_terms f m = Merge (map f (merge_values m))"

definition simplify_by :: "('a \<Rightarrow> 'b) \<Rightarrow> 'a merge \<Rightarrow> 'a merge exec" where
  "simplify_by f m =
     exec_bind (get_simplified_mapping (merge_map_terms f m)) (\<lambda>mapping.
     Returns (apply_simplified_mapping m mapping))"

definition update_from_simplified :: "'a merge \<Rightarrow> 'a merge \<Rightarrow> 'a merge exec" where
  "update_from_simplified m simplified =
     exec_bind (get_simplified_mapping m) (\<lambda>mapping.
     if length mapping = length (merge_values simplified)
     then Returns (Merge (fold (\<lambda>(index, v) vs. vs[index := v])
                            (zip mapping (merge_values simplified)) (merge_values m)))
     else Panics)"

definition resolve_trivial :: "'a merge \<Rightarrow> same_change \<Rightarrow> 'a option exec" where
  "resolve_trivial m sc = trivial_merge (merge_values m) sc"

text \<open>\<open>Vec::resize\<close> truncates or appends copies; here the new length is the larger one.\<close>

definition pad_to :: "nat \<Rightarrow> 'a \<Rightarrow> 'a merge \<Rightarrow> 'a merge" where
  "pad_to n v m =
     (if n \<le> num_sides m then m
      else let vs = merge_values m; len = n * 2 - 1
           in Merge (take len vs @ replicate (len - length vs) v))"

fun list_try_map :: "('a \<Rightarrow> ('e, 'b) result) \<Rightarrow> 'a list \<Rightarrow> ('e, 'b list) result" where
  "list_try_map f [] = Inr []"
| "list_try_map f (x # xs) =
     res_bind (f x) (\<lambda>y. res_bind (list_try_map f xs) (\<lambda>ys. Inr (y # ys)))"

definition try_map :: "('a \<Rightarrow> ('e, 'b) result) \<Rightarrow> 'a merge \<Rightarrow> ('e, 'b merge) result" where
  "try_map f m = res_bind (list_try_map f (merge_values m)) (\<lambda>vs. Inr (Merge vs))"

definition merge_zip :: "'a merge \<Rightarrow> 'b merge \<Rightarrow> ('a \<times> 'b) merge exec" where
  "merge_zip m n =
     (if length (merge_values m) = length (merge_values n)
      then Returns (Merge (zip (merge_values m) (merge_values n))) else Panics)"

definition merge_unzip :: "('a \<times> 'b) merge \<Rightarrow> 'a merge \<times> 'b merge" where
  "merge_unzip m = (Merge (map fst (merge_values m)), Merge (map snd (merge_values m)))"

text \<open>\<open>MergeBuilder\<close> collects values and checks their number in \<open>build\<close>.\<close>

record 'a merge_builder =
  builder_values :: "'a list"

definition builder_default :: "'a merge_builder" where
  "builder_default = \<lparr>builder_values = []\<rparr>"

definition builder_extend :: "'a list \<Rightarrow> 'a merge_builder \<Rightarrow> 'a merge_builder" where
  "builder_extend xs b = b\<lparr>builder_values := builder_values b @ xs\<rparr>"

definition builder_from_iter :: "'a list \<Rightarrow> 'a merge_builder" where
  "builder_from_iter xs = builder_extend xs builder_default"

definition builder_build :: "'a merge_builder \<Rightarrow> 'a merge exec" where
  "builder_build b = from_vec (builder_values b)"

section \<open>Merges of options\<close>

definition absent :: "'a option merge" where
  "absent = resolved None"

definition normal :: "'a \<Rightarrow> 'a option merge" where
  "normal v = resolved (Some v)"

fun legacy_pairs :: "'a list \<Rightarrow> 'a list \<Rightarrow> 'a option list" where
  "legacy_pairs [] [] = []"
| "legacy_pairs (r # rs) (a # as) = Some r # Some a # legacy_pairs rs as"
| "legacy_pairs (r # rs) [] = Some r # None # legacy_pairs rs []"
| "legacy_pairs [] (a # as) = None # Some a # legacy_pairs [] as"

definition from_legacy_form :: "'a list \<Rightarrow> 'a list \<Rightarrow> 'a option merge" where
  "from_legacy_form rs as =
     (case as of
        [] \<Rightarrow> Merge (None # legacy_pairs rs [])
      | a # as' \<Rightarrow> Merge (Some a # legacy_pairs rs as'))"

definition is_absent :: "'a option merge \<Rightarrow> bool" where
  "is_absent m = (case as_resolved m of Some None \<Rightarrow> True | _ \<Rightarrow> False)"

definition is_present :: "'a option merge \<Rightarrow> bool" where
  "is_present m = (\<not> is_absent m)"

definition as_normal :: "'a option merge \<Rightarrow> 'a option" where
  "as_normal m = (case as_resolved m of None \<Rightarrow> None | Some v \<Rightarrow> v)"

definition present_removes :: "'a option merge \<Rightarrow> 'a list" where
  "present_removes m = somes (removes m)"

definition present_adds :: "'a option merge \<Rightarrow> 'a list" where
  "present_adds m = somes (adds m)"

fun legacy_loop :: "'a option list \<Rightarrow> ('a list \<times> 'a list) exec" where
  "legacy_loop [] = Returns ([], [])"
| "legacy_loop [r] = Panics"
| "legacy_loop (r # a # vs) =
     exec_bind (legacy_loop vs) (\<lambda>(rs, as). Returns (somes [r] @ rs, somes [a] @ as))"

definition into_legacy_form :: "'a option merge \<Rightarrow> ('a list \<times> 'a list) exec" where
  "into_legacy_form m =
     (case merge_values m of
        [] \<Rightarrow> Panics
      | a # vs \<Rightarrow>
          exec_bind (legacy_loop vs) (\<lambda>(rs, as). Returns (rs, somes [a] @ as)))"

section \<open>Nested merges\<close>

fun swap_pairs :: "'a list \<Rightarrow> 'a list" where
  "swap_pairs (x # y # zs) = y # x # swap_pairs zs"
| "swap_pairs [x] = [x]"
| "swap_pairs [] = []"

text \<open>
  \<open>rotate_left(1)\<close>, which panics on an empty slice, then the swap of each pair
  \<open>(2i, 2i + 1)\<close>.
\<close>

definition negate_terms :: "'a list \<Rightarrow> 'a list exec" where
  "negate_terms vs = (if vs = [] then Panics else Returns (swap_pairs (rotate1 vs)))"

fun flatten_loop :: "'a list \<Rightarrow> 'a merge list \<Rightarrow> 'a list exec" where
  "flatten_loop result [] = Returns result"
| "flatten_loop result [remove] = Panics"
| "flatten_loop result (remove # add # outer) =
     exec_bind (negate_terms (merge_values remove)) (\<lambda>neg.
     flatten_loop (result @ neg @ merge_values add) outer)"

definition flatten :: "'a merge merge \<Rightarrow> 'a merge exec" where
  "flatten m =
     (case merge_values m of
        [] \<Rightarrow> Panics
      | m0 # outer \<Rightarrow>
          exec_bind (flatten_loop (merge_values m0) outer) (\<lambda>vs. Returns (Merge vs)))"

end
