(* ===== verification/BTree_Map.thy ===== *)
theory BTree_Map
  imports Jjosh_Prelude
begin

text \<open>
  Rust's \<open>BTreeMap\<close>: a finite map that iterates in the order of its keys. The model is
  the list of its entries, strictly increasing in the key, so that equality of the model is
  \<open>BTreeMap\<close>'s equality (the same entries) and iteration is the list itself. \<open>BTreeSet\<close>
  is the list of the keys, sorted without duplicates.
\<close>

section \<open>The type\<close>

typedef (overloaded) ('k::linorder, 'v) btree = "{xs :: ('k \<times> 'v) list. sorted_wrt (<) (map fst xs)}"
  morphisms entries BTree
  by (rule exI[of _ "[]"]) simp

setup_lifting type_definition_btree

lemma sorted_entries: "sorted_wrt (<) (map fst (entries m))"
  using entries[of m] by simp

lemma distinct_entries: "distinct (map fst (entries m))"
  using sorted_entries strict_sorted_iff by blast

section \<open>Operations\<close>

fun al_insert :: "'k::linorder \<Rightarrow> 'v \<Rightarrow> ('k \<times> 'v) list \<Rightarrow> ('k \<times> 'v) list" where
  "al_insert k v [] = [(k, v)]"
| "al_insert k v ((a, b) # ps) =
     (if k < a then (k, v) # (a, b) # ps
      else if k = a then (k, v) # ps else (a, b) # al_insert k v ps)"

lemma set_al_insert: "set (map fst (al_insert k v ps)) = insert k (set (map fst ps))"
  by (induction k v ps rule: al_insert.induct) auto

lemma sorted_al_insert:
  "sorted_wrt (<) (map fst ps) \<Longrightarrow> sorted_wrt (<) (map fst (al_insert k v ps))"
proof (induction k v ps rule: al_insert.induct)
  case (2 k v a b ps)
  then have "\<forall>x \<in> set (map fst ps). a < x" by auto
  with 2 show ?case
    using set_al_insert[of k v ps] by auto
qed simp

lemma map_of_al_insert: "map_of (al_insert k v ps) = (map_of ps)(k \<mapsto> v)"
  by (induction k v ps rule: al_insert.induct) (auto simp: fun_eq_iff)

lemma sorted_filter_fst:
  "sorted_wrt (<) (map fst ps) \<Longrightarrow> sorted_wrt (<) (map fst (filter P ps))"
  by (induction ps) auto

lift_definition bt_empty :: "('k::linorder, 'v) btree" is "[]" by simp

lift_definition bt_insert :: "'k::linorder \<Rightarrow> 'v \<Rightarrow> ('k, 'v) btree \<Rightarrow> ('k, 'v) btree"
  is al_insert by (rule sorted_al_insert)

lift_definition bt_retain :: "('k::linorder \<Rightarrow> 'v \<Rightarrow> bool) \<Rightarrow> ('k, 'v) btree \<Rightarrow> ('k, 'v) btree"
  is "\<lambda>P. filter (\<lambda>(k, v). P k v)" by (rule sorted_filter_fst)

lift_definition bt_map :: "('k::linorder \<Rightarrow> 'v \<Rightarrow> 'w) \<Rightarrow> ('k, 'v) btree \<Rightarrow> ('k, 'w) btree"
  is "\<lambda>f. map (\<lambda>(k, v). (k, f k v))"
  by (simp add: case_prod_beta comp_def)

definition bt_get :: "('k::linorder, 'v) btree \<Rightarrow> 'k \<Rightarrow> 'v option" where
  "bt_get m k = map_of (entries m) k"

definition bt_remove :: "'k::linorder \<Rightarrow> ('k, 'v) btree \<Rightarrow> ('k, 'v) btree" where
  "bt_remove k m = bt_retain (\<lambda>k' _. k' \<noteq> k) m"

definition bt_keys :: "('k::linorder, 'v) btree \<Rightarrow> 'k list" where
  "bt_keys m = map fst (entries m)"

definition bt_values :: "('k::linorder, 'v) btree \<Rightarrow> 'v list" where
  "bt_values m = map snd (entries m)"

definition bt_contains_key :: "('k::linorder, 'v) btree \<Rightarrow> 'k \<Rightarrow> bool" where
  "bt_contains_key m k = (bt_get m k \<noteq> None)"

definition bt_is_empty :: "('k::linorder, 'v) btree \<Rightarrow> bool" where
  "bt_is_empty m = (entries m = [])"

text \<open>\<open>collect\<close> into a map: later entries replace earlier ones.\<close>

definition bt_from_list :: "('k::linorder \<times> 'v) list \<Rightarrow> ('k, 'v) btree" where
  "bt_from_list ps = fold (\<lambda>(k, v). bt_insert k v) ps bt_empty"

text \<open>\<open>collect\<close> into a \<open>BTreeSet\<close>, as the list it iterates.\<close>

definition bt_set :: "'k::linorder list \<Rightarrow> 'k list" where
  "bt_set ks = bt_keys (bt_from_list (map (\<lambda>k. (k, ())) ks))"

section \<open>Reading after writing\<close>

lemmas bt_rep_eq [simp] = bt_empty.rep_eq bt_insert.rep_eq bt_retain.rep_eq bt_map.rep_eq

lemma bt_get_empty [simp]: "bt_get bt_empty k = None"
  by (simp add: bt_get_def)

lemma bt_get_insert [simp]: "bt_get (bt_insert k v m) k' = (if k' = k then Some v else bt_get m k')"
  by (simp add: bt_get_def map_of_al_insert)

lemma map_of_filter_distinct:
  "distinct (map fst ps) \<Longrightarrow>
   map_of (filter (\<lambda>(k, v). P k v) ps) k =
     (case map_of ps k of None \<Rightarrow> None | Some v \<Rightarrow> if P k v then Some v else None)"
proof (induction ps)
  case (Cons p ps)
  obtain a b where p: "p = (a, b)" by force
  with Cons have IH: "map_of (filter (\<lambda>(k, v). P k v) ps) k =
      (case map_of ps k of None \<Rightarrow> None | Some v \<Rightarrow> if P k v then Some v else None)"
    and a: "a \<notin> fst ` set ps" by auto
  from a have "map_of ps a = None" by (simp add: map_of_eq_None_iff)
  with IH show ?case unfolding p by (cases "k = a") auto
qed simp

lemma bt_get_retain [simp]:
  "bt_get (bt_retain P m) k =
     (case bt_get m k of None \<Rightarrow> None | Some v \<Rightarrow> if P k v then Some v else None)"
  using map_of_filter_distinct[OF distinct_entries[of m], of P k]
  by (simp add: bt_get_def)

lemma bt_get_remove [simp]: "bt_get (bt_remove k m) k' = (if k' = k then None else bt_get m k')"
  by (cases "bt_get m k'") (auto simp: bt_remove_def)

lemma bt_get_map [simp]: "bt_get (bt_map f m) k = map_option (f k) (bt_get m k)"
proof -
  have "map_of (map (\<lambda>(k, v). (k, f k v)) ps) k = map_option (f k) (map_of ps k)" for ps
    by (induction ps) auto
  then show ?thesis by (simp add: bt_get_def)
qed

lemma bt_contains_key_iff [simp]: "bt_contains_key m k \<longleftrightarrow> (\<exists>v. bt_get m k = Some v)"
  by (auto simp: bt_contains_key_def)

lemma in_entries_iff: "(k, v) \<in> set (entries m) \<longleftrightarrow> bt_get m k = Some v"
  by (simp add: bt_get_def distinct_entries)

lemma in_bt_keys_iff [simp]: "k \<in> set (bt_keys m) \<longleftrightarrow> (\<exists>v. bt_get m k = Some v)"
  by (force simp: bt_keys_def in_entries_iff[symmetric])

lemma in_bt_values_iff [simp]: "v \<in> set (bt_values m) \<longleftrightarrow> (\<exists>k. bt_get m k = Some v)"
  by (force simp: bt_values_def in_entries_iff[symmetric])

lemma bt_is_empty_iff [simp]: "bt_is_empty m \<longleftrightarrow> (\<forall>k. bt_get m k = None)"
proof -
  have "entries m = [] \<longleftrightarrow> (\<forall>k v. (k, v) \<notin> set (entries m))"
    by (cases "entries m") auto
  then show ?thesis by (simp add: bt_is_empty_def in_entries_iff)
qed

lemma bt_keys_sorted: "sorted_wrt (<) (bt_keys m)"
  by (simp add: bt_keys_def sorted_entries)

lemma bt_keys_distinct: "distinct (bt_keys m)"
  by (simp add: bt_keys_def distinct_entries)

section \<open>Extensionality\<close>

lemma sorted_alist_eqI:
  assumes "sorted_wrt (<) (map fst xs)" and "sorted_wrt (<) (map fst ys)"
    and "set xs = set (ys :: ('k::linorder \<times> 'v) list)"
  shows "xs = ys"
  using assms
proof (induction xs arbitrary: ys)
  case Nil
  then show ?case by simp
next
  case (Cons x xs)
  from Cons.prems(3) obtain y ys' where ys: "ys = y # ys'" by (cases ys) auto
  have less_x: "\<forall>p \<in> set xs. fst x < fst p" and less_y: "\<forall>p \<in> set ys'. fst y < fst p"
    using Cons.prems(1,2) ys by auto
  have "x = y"
  proof (rule ccontr)
    assume "x \<noteq> y"
    then have "x \<in> set ys'" and "y \<in> set xs" using Cons.prems(3) ys by auto
    with less_x less_y show False by fastforce
  qed
  moreover have "x \<notin> set xs" "y \<notin> set ys'" using less_x less_y by auto
  ultimately have "set xs = set ys'" using Cons.prems(3) ys by auto
  with Cons ys \<open>x = y\<close> show ?case by simp
qed

lemma bt_eqI:
  assumes "\<And>k. bt_get m k = bt_get n k"
  shows "m = n"
proof -
  have "set (entries m) = set (entries n)"
    using assms by (auto simp: in_entries_iff)
  then have "entries m = entries n"
    by (intro sorted_alist_eqI sorted_entries)
  then show ?thesis by (simp add: entries_inject)
qed

lemma bt_eq_iff: "m = n \<longleftrightarrow> (\<forall>k. bt_get m k = bt_get n k)"
  using bt_eqI by blast

lemma bt_remove_absent: "bt_get m k = None \<Longrightarrow> bt_remove k m = m"
  by (rule bt_eqI) auto

lemma bt_insert_same: "bt_get m k = Some v \<Longrightarrow> bt_insert k v m = m"
  by (rule bt_eqI) auto

lemma bt_insert_insert: "bt_insert k v (bt_insert k w m) = bt_insert k v m"
  by (rule bt_eqI) auto

lemma bt_remove_insert: "bt_remove k (bt_insert k v m) = bt_remove k m"
  by (rule bt_eqI) auto

lemma bt_insert_remove: "bt_insert k v (bt_remove k m) = bt_insert k v m"
  by (rule bt_eqI) auto

lemma bt_fold_insert_get:
  "bt_get (fold (\<lambda>(k, v). bt_insert k v) ps m) k =
     (case map_of (rev ps) k of None \<Rightarrow> bt_get m k | Some v \<Rightarrow> Some v)"
proof (induction ps arbitrary: m)
  case (Cons p ps)
  obtain a b where "p = (a, b)" by force
  with Cons show ?case by (auto simp: map_add_def split: option.splits)
qed simp

lemma bt_get_from_list: "bt_get (bt_from_list ps) k = map_of (rev ps) k"
  by (simp add: bt_from_list_def bt_fold_insert_get split: option.split)

lemma set_bt_set [simp]: "set (bt_set ks) = set ks"
proof -
  have "map_of (rev (map (\<lambda>k. (k, ())) ks)) k = None \<longleftrightarrow> k \<notin> set ks" for k
    by (simp add: map_of_eq_None_iff image_image)
  moreover have "k \<in> set (bt_set ks) \<longleftrightarrow> bt_get (bt_from_list (map (\<lambda>k. (k, ())) ks)) k \<noteq> None" for k
    by (simp only: bt_set_def in_bt_keys_iff not_None_eq)
  ultimately have "k \<in> set (bt_set ks) \<longleftrightarrow> k \<in> set ks" for k
    by (simp only: bt_get_from_list not_not)
  then show ?thesis by blast
qed

lemma bt_set_distinct: "distinct (bt_set ks)"
  by (simp add: bt_set_def bt_keys_distinct)

lemma bt_set_sorted: "sorted_wrt (<) (bt_set ks)"
  by (simp add: bt_set_def bt_keys_sorted)

section \<open>The map of one key is a keyed store\<close>

text \<open>A write of \<open>None\<close> removes the key.\<close>

definition bt_put :: "'k::linorder \<Rightarrow> 'v option \<Rightarrow> ('k, 'v) btree \<Rightarrow> ('k, 'v) btree" where
  "bt_put k v m = (case v of None \<Rightarrow> bt_remove k m | Some w \<Rightarrow> bt_insert k w m)"

lemma bt_get_put: "bt_get (bt_put k v m) k' = (if k' = k then v else bt_get m k')"
  by (simp add: bt_put_def split: option.split)

interpretation btree_store: keyed_store bt_get bt_put
  by unfold_locales (rule bt_get_put)

instantiation btree :: (linorder, equal) equal
begin

definition equal_btree :: "('a, 'b) btree \<Rightarrow> ('a, 'b) btree \<Rightarrow> bool" where
  "equal_btree m n \<longleftrightarrow> entries m = entries n"

instance
  by standard (simp add: equal_btree_def entries_inject)

end

end
