(* ===== verification/Object_Ids.thy ===== *)
theory Object_Ids
  imports BTree_Map "HOL-Library.Word" "HOL-Library.Product_Lexorder"
begin

text \<open>
  Identifiers and names. \<open>id_type!\<close> (\<open>jj/core/src/object_id.rs\<close>) declares one newtype over
  \<open>Vec<u8>\<close> per kind of object, ordered as its bytes; each is a datatype of its own here,
  with the order of its bytes. The name types of \<open>jj/core/src/ref_name.rs\<close> (bookmark, remote,
  workspace and Git reference names) are strings, ordered bytewise; a string is its UTF-8
  bytes.
\<close>

type_synonym bytes = "8 word list"

datatype ProjectId = ProjectId (project_id_bytes: bytes)
datatype BindingId = BindingId (binding_id_bytes: bytes)
datatype ConnectionId = ConnectionId (connection_id_bytes: bytes)
datatype CommitId = CommitId (commit_id_bytes: bytes)
datatype ChangeId = ChangeId (change_id_bytes: bytes)
datatype WorkingCopyPatternsId = WorkingCopyPatternsId (wc_patterns_id_bytes: bytes)

instantiation ProjectId :: linorder
begin

definition less_eq_ProjectId :: "ProjectId \<Rightarrow> ProjectId \<Rightarrow> bool" where
  "a \<le> b \<longleftrightarrow> project_id_bytes a \<le> project_id_bytes b"

definition less_ProjectId :: "ProjectId \<Rightarrow> ProjectId \<Rightarrow> bool" where
  "a < b \<longleftrightarrow> project_id_bytes a < project_id_bytes b"

instance
  by standard (auto simp: less_eq_ProjectId_def less_ProjectId_def ProjectId.expand)

end

instantiation BindingId :: linorder
begin

definition less_eq_BindingId :: "BindingId \<Rightarrow> BindingId \<Rightarrow> bool" where
  "a \<le> b \<longleftrightarrow> binding_id_bytes a \<le> binding_id_bytes b"

definition less_BindingId :: "BindingId \<Rightarrow> BindingId \<Rightarrow> bool" where
  "a < b \<longleftrightarrow> binding_id_bytes a < binding_id_bytes b"

instance
  by standard (auto simp: less_eq_BindingId_def less_BindingId_def BindingId.expand)

end

instantiation ConnectionId :: linorder
begin

definition less_eq_ConnectionId :: "ConnectionId \<Rightarrow> ConnectionId \<Rightarrow> bool" where
  "a \<le> b \<longleftrightarrow> connection_id_bytes a \<le> connection_id_bytes b"

definition less_ConnectionId :: "ConnectionId \<Rightarrow> ConnectionId \<Rightarrow> bool" where
  "a < b \<longleftrightarrow> connection_id_bytes a < connection_id_bytes b"

instance
  by standard (auto simp: less_eq_ConnectionId_def less_ConnectionId_def ConnectionId.expand)

end

instantiation CommitId :: linorder
begin

definition less_eq_CommitId :: "CommitId \<Rightarrow> CommitId \<Rightarrow> bool" where
  "a \<le> b \<longleftrightarrow> commit_id_bytes a \<le> commit_id_bytes b"

definition less_CommitId :: "CommitId \<Rightarrow> CommitId \<Rightarrow> bool" where
  "a < b \<longleftrightarrow> commit_id_bytes a < commit_id_bytes b"

instance
  by standard (auto simp: less_eq_CommitId_def less_CommitId_def CommitId.expand)

end

instantiation ChangeId :: linorder
begin

definition less_eq_ChangeId :: "ChangeId \<Rightarrow> ChangeId \<Rightarrow> bool" where
  "a \<le> b \<longleftrightarrow> change_id_bytes a \<le> change_id_bytes b"

definition less_ChangeId :: "ChangeId \<Rightarrow> ChangeId \<Rightarrow> bool" where
  "a < b \<longleftrightarrow> change_id_bytes a < change_id_bytes b"

instance
  by standard (auto simp: less_eq_ChangeId_def less_ChangeId_def ChangeId.expand)

end

lemmas id_order_simps [simp] =
  less_eq_ProjectId_def less_ProjectId_def less_eq_BindingId_def less_BindingId_def
  less_eq_ConnectionId_def less_ConnectionId_def less_eq_CommitId_def less_CommitId_def
  less_eq_ChangeId_def less_ChangeId_def

type_synonym ref_name = string
type_synonym remote_name = string
type_synonym workspace_name = string
type_synonym git_ref_name = string

text \<open>\<open>RemoteRefSymbol\<close>: a name at a remote, ordered by the name first.\<close>

record remote_ref_symbol =
  sym_name :: ref_name
  sym_remote :: remote_name

end
