(* ===== verification/Str_Util.thy ===== *)
theory Str_Util
  imports BTree_Map
begin

text \<open>
  String patterns, expressions over them and the matchers they compile to,
  \<open>jj/core/src/str_util.rs\<close>. Strings and haystacks are lists of bytes.

  The crates \<open>globset\<close> and \<open>regex\<close> are the parameter \<open>engine\<close>: what the code calls of them.
  \<open>engine_law\<close> states what it relies on: the regular expression of a glob that was parsed and an
  escaped literal compile, and the patterns \<open>*\<close> and the empty regular expression match everything.
\<close>

section \<open>The engines\<close>

record ('g, 'r, 'ge, 're) engine =
  glob_build :: "string \<Rightarrow> bool \<Rightarrow> ('ge, 'g) result"
  glob_str :: "'g \<Rightarrow> string"
  glob_regex :: "'g \<Rightarrow> string"
  glob_escape :: "string \<Rightarrow> string"
  regex_build :: "string \<Rightarrow> bool \<Rightarrow> bool \<Rightarrow> ('re, 'r) result"
  regex_str :: "'r \<Rightarrow> string"
  regex_is_match :: "'r \<Rightarrow> string \<Rightarrow> bool"
  regex_escape :: "string \<Rightarrow> string"

text \<open>\<open>Result::expect\<close>.\<close>

definition expect :: "('e, 'a) result \<Rightarrow> 'a exec" where
  "expect r = (case r of Inl _ \<Rightarrow> Panics | Inr x \<Rightarrow> Returns x)"

definition res_map_err :: "('e \<Rightarrow> 'f) \<Rightarrow> ('e, 'a) result \<Rightarrow> ('f, 'a) result" where
  "res_map_err f r = (case r of Inl e \<Rightarrow> Inl (f e) | Inr x \<Rightarrow> Inr x)"

section \<open>Patterns\<close>

datatype ('ge, 're) string_pattern_parse_error =
  InvalidKind string | GlobPatternError 'ge | RegexError 're

definition glob_to_regex :: "('g, 'r, 'ge, 're) engine \<Rightarrow> 'g \<Rightarrow> 'r exec" where
  "glob_to_regex E glob = expect (regex_build E (glob_regex E glob) False True)"

definition parse_glob ::
  "('g, 'r, 'ge, 're) engine \<Rightarrow> string \<Rightarrow> bool \<Rightarrow> (('ge, 're) string_pattern_parse_error, 'g) result" where
  "parse_glob E src icase = res_map_err GlobPatternError (glob_build E src icase)"

definition is_glob_char :: "char \<Rightarrow> bool" where
  "is_glob_char c \<longleftrightarrow> c \<in> {CHR ''?'', CHR ''*'', CHR ''['', CHR '']'', CHR ''{'', CHR ''}'', CHR 0x5C}"

datatype ('g, 'r) string_pattern =
    Exact string
  | ExactI string
  | Substring string
  | SubstringI string
  | Glob 'g
  | GlobI 'g
  | Regex 'r
  | RegexI 'r

definition pattern_all :: "('g, 'r) string_pattern" where
  "pattern_all = Substring []"

definition pattern_glob ::
  "('g, 'r, 'ge, 're) engine \<Rightarrow> string \<Rightarrow> (('ge, 're) string_pattern_parse_error, ('g, 'r) string_pattern) result" where
  "pattern_glob E src =
     (if \<not> list_ex is_glob_char src then Inr (Exact src)
      else res_bind (parse_glob E src False) (\<lambda>glob. Inr (Glob glob)))"

definition pattern_glob_i ::
  "('g, 'r, 'ge, 're) engine \<Rightarrow> string \<Rightarrow> (('ge, 're) string_pattern_parse_error, ('g, 'r) string_pattern) result" where
  "pattern_glob_i E src = res_bind (parse_glob E src True) (\<lambda>glob. Inr (GlobI glob))"

definition pattern_regex ::
  "('g, 'r, 'ge, 're) engine \<Rightarrow> string \<Rightarrow> (('ge, 're) string_pattern_parse_error, ('g, 'r) string_pattern) result" where
  "pattern_regex E src =
     res_bind (res_map_err RegexError (regex_build E src False False)) (\<lambda>pattern. Inr (Regex pattern))"

definition pattern_regex_i ::
  "('g, 'r, 'ge, 're) engine \<Rightarrow> string \<Rightarrow> (('ge, 're) string_pattern_parse_error, ('g, 'r) string_pattern) result" where
  "pattern_regex_i E src =
     res_bind (res_map_err RegexError (regex_build E src True False)) (\<lambda>pattern. Inr (RegexI pattern))"

definition from_str_kind ::
  "('g, 'r, 'ge, 're) engine \<Rightarrow> string \<Rightarrow> string \<Rightarrow>
   (('ge, 're) string_pattern_parse_error, ('g, 'r) string_pattern) result" where
  "from_str_kind E src kind =
     (if kind = ''exact'' then Inr (Exact src)
      else if kind = ''exact-i'' then Inr (ExactI src)
      else if kind = ''substring'' then Inr (Substring src)
      else if kind = ''substring-i'' then Inr (SubstringI src)
      else if kind = ''glob'' then pattern_glob E src
      else if kind = ''glob-i'' then pattern_glob_i E src
      else if kind = ''regex'' then pattern_regex E src
      else if kind = ''regex-i'' then pattern_regex_i E src
      else Inl (InvalidKind kind))"

fun is_all :: "('g, 'r, 'ge, 're) engine \<Rightarrow> ('g, 'r) string_pattern \<Rightarrow> bool" where
  "is_all E (Exact _) = False"
| "is_all E (ExactI _) = False"
| "is_all E (Substring needle) = (needle = [])"
| "is_all E (SubstringI needle) = (needle = [])"
| "is_all E (Glob pattern) = (glob_str E pattern = ''*'')"
| "is_all E (GlobI pattern) = (glob_str E pattern = ''*'')"
| "is_all E (Regex pattern) = (regex_str E pattern = [])"
| "is_all E (RegexI pattern) = (regex_str E pattern = [])"

definition as_exact :: "('g, 'r) string_pattern \<Rightarrow> string option" where
  "as_exact p = (case p of Exact literal \<Rightarrow> Some literal | _ \<Rightarrow> None)"

definition is_exact :: "('g, 'r) string_pattern \<Rightarrow> bool" where
  "is_exact p = (as_exact p \<noteq> None)"

fun pattern_as_str :: "('g, 'r, 'ge, 're) engine \<Rightarrow> ('g, 'r) string_pattern \<Rightarrow> string" where
  "pattern_as_str E (Exact literal) = literal"
| "pattern_as_str E (ExactI literal) = literal"
| "pattern_as_str E (Substring needle) = needle"
| "pattern_as_str E (SubstringI needle) = needle"
| "pattern_as_str E (Glob pattern) = glob_str E pattern"
| "pattern_as_str E (GlobI pattern) = glob_str E pattern"
| "pattern_as_str E (Regex pattern) = regex_str E pattern"
| "pattern_as_str E (RegexI pattern) = regex_str E pattern"

definition to_glob :: "('g, 'r, 'ge, 're) engine \<Rightarrow> ('g, 'r) string_pattern \<Rightarrow> string option" where
  "to_glob E p =
     (case p of
        Exact literal \<Rightarrow> Some (glob_escape E literal)
      | Substring needle \<Rightarrow>
          if needle = [] then Some ''*'' else Some (''*'' @ glob_escape E needle @ ''*'')
      | Glob pattern \<Rightarrow> Some (glob_str E pattern)
      | _ \<Rightarrow> None)"

text \<open>
  \<open>to_ascii_lowercase\<close> changes the bytes \<open>A\<close> to \<open>Z\<close> only; \<open>eq_ignore_ascii_case\<close> compares after
  it; \<open>contains_str\<close> looks for a contiguous occurrence.
\<close>

definition ascii_lower :: "char \<Rightarrow> char" where
  "ascii_lower c = (let n = of_char c :: nat in if 65 \<le> n \<and> n \<le> 90 then char_of (n + 32) else c)"

definition to_ascii_lowercase :: "string \<Rightarrow> string" where
  "to_ascii_lowercase s = map ascii_lower s"

definition eq_ignore_ascii_case :: "string \<Rightarrow> string \<Rightarrow> bool" where
  "eq_ignore_ascii_case a b \<longleftrightarrow> to_ascii_lowercase a = to_ascii_lowercase b"

fun starts_with :: "string \<Rightarrow> string \<Rightarrow> bool" where
  "starts_with [] s = True"
| "starts_with (c # cs) [] = False"
| "starts_with (c # cs) (x # xs) = (c = x \<and> starts_with cs xs)"

fun contains_str :: "string \<Rightarrow> string \<Rightarrow> bool" where
  "contains_str [] needle = (needle = [])"
| "contains_str (x # xs) needle = (starts_with needle (x # xs) \<or> contains_str xs needle)"

fun to_match_fn ::
  "('g, 'r, 'ge, 're) engine \<Rightarrow> ('g, 'r) string_pattern \<Rightarrow> (string \<Rightarrow> bool) exec" where
  "to_match_fn E (Exact literal) = Returns (\<lambda>haystack. haystack = literal)"
| "to_match_fn E (ExactI literal) = Returns (\<lambda>haystack. eq_ignore_ascii_case haystack literal)"
| "to_match_fn E (Substring needle) = Returns (\<lambda>haystack. contains_str haystack needle)"
| "to_match_fn E (SubstringI needle) =
     Returns (\<lambda>haystack. contains_str (to_ascii_lowercase haystack) (to_ascii_lowercase needle))"
| "to_match_fn E (Glob pattern) = exec_bind (glob_to_regex E pattern) (\<lambda>r. Returns (regex_is_match E r))"
| "to_match_fn E (GlobI pattern) = exec_bind (glob_to_regex E pattern) (\<lambda>r. Returns (regex_is_match E r))"
| "to_match_fn E (Regex pattern) = Returns (regex_is_match E pattern)"
| "to_match_fn E (RegexI pattern) = Returns (regex_is_match E pattern)"

fun pattern_to_regex :: "('g, 'r, 'ge, 're) engine \<Rightarrow> ('g, 'r) string_pattern \<Rightarrow> 'r exec" where
  "pattern_to_regex E (Exact literal) = expect (regex_build E (''^'' @ regex_escape E literal @ ''$'') False False)"
| "pattern_to_regex E (ExactI literal) = expect (regex_build E (''^'' @ regex_escape E literal @ ''$'') True False)"
| "pattern_to_regex E (Substring literal) = expect (regex_build E (regex_escape E literal) False False)"
| "pattern_to_regex E (SubstringI literal) = expect (regex_build E (regex_escape E literal) True False)"
| "pattern_to_regex E (Glob pattern) = glob_to_regex E pattern"
| "pattern_to_regex E (GlobI pattern) = glob_to_regex E pattern"
| "pattern_to_regex E (Regex regex) = Returns regex"
| "pattern_to_regex E (RegexI regex) = Returns regex"

section \<open>Matchers\<close>

datatype string_matcher = MatchAll | MatchExact string | MatchFn "string \<Rightarrow> bool"

fun is_match :: "string_matcher \<Rightarrow> string \<Rightarrow> bool" where
  "is_match MatchAll haystack = True"
| "is_match (MatchExact needle) haystack = (haystack = needle)"
| "is_match (MatchFn predicate) haystack = predicate haystack"

text \<open>\<open>strip_suffix\<close> of one newline; the lines are split after newlines.\<close>

definition strip_newline :: "string \<Rightarrow> string" where
  "strip_newline line = (if line \<noteq> [] \<and> last line = CHR 0x0A then butlast line else line)"

definition match_lines :: "string_matcher \<Rightarrow> string \<Rightarrow> string list" where
  "match_lines m txt = filter (\<lambda>line. is_match m (strip_newline line)) (split_inclusive (\<lambda>c. c = CHR 0x0A) txt)"

fun into_match_fn :: "string_matcher \<Rightarrow> string \<Rightarrow> bool" where
  "into_match_fn MatchAll = (\<lambda>haystack. True)"
| "into_match_fn (MatchExact needle) = (\<lambda>haystack. haystack = needle)"
| "into_match_fn (MatchFn predicate) = predicate"

fun filter_btree_map :: "string_matcher \<Rightarrow> (string, 'v) btree \<Rightarrow> (string \<times> 'v) list" where
  "filter_btree_map MatchAll m = entries m"
| "filter_btree_map (MatchExact key) m = (case bt_get m key of None \<Rightarrow> [] | Some v \<Rightarrow> [(key, v)])"
| "filter_btree_map (MatchFn predicate) m = filter (\<lambda>(key, _). predicate key) (entries m)"

definition pattern_to_matcher ::
  "('g, 'r, 'ge, 're) engine \<Rightarrow> ('g, 'r) string_pattern \<Rightarrow> string_matcher exec" where
  "pattern_to_matcher E p =
     (if is_all E p then Returns MatchAll
      else case as_exact p of
             Some literal \<Rightarrow> Returns (MatchExact literal)
           | None \<Rightarrow> exec_bind (to_match_fn E p) (\<lambda>f. Returns (MatchFn f)))"

section \<open>Expressions\<close>

datatype ('g, 'r) string_expression =
    Pattern "('g, 'r) string_pattern"
  | NotIn "('g, 'r) string_expression"
  | Union "('g, 'r) string_expression" "('g, 'r) string_expression"
  | Intersection "('g, 'r) string_expression" "('g, 'r) string_expression"

definition expr_all :: "('g, 'r) string_expression" where
  "expr_all = Pattern pattern_all"

definition expr_none :: "('g, 'r) string_expression" where
  "expr_none = NotIn expr_all"

function to_binary_expression :: "'t list \<Rightarrow> 't \<Rightarrow> ('t \<Rightarrow> 't \<Rightarrow> 't) \<Rightarrow> 't" where
  "to_binary_expression expressions unit binary =
     (case expressions of
        [] \<Rightarrow> unit
      | [x] \<Rightarrow> x
      | _ \<Rightarrow>
          binary
            (to_binary_expression (take (length expressions div 2) expressions) unit binary)
            (to_binary_expression (drop (length expressions div 2) expressions) unit binary))"
  by pat_completeness auto
termination
  by (relation "measure (\<lambda>(expressions, _, _). length expressions)") auto

declare to_binary_expression.simps [simp del]

definition union_all :: "('g, 'r) string_expression list \<Rightarrow> ('g, 'r) string_expression" where
  "union_all expressions = to_binary_expression expressions expr_none Union"

text \<open>The iterator \<open>dfs_pre\<close> until its stack is empty; the head of the list is the top of the stack.\<close>

function dfs_pre_loop :: "('g, 'r) string_expression list \<Rightarrow> ('g, 'r) string_expression list" where
  "dfs_pre_loop [] = []"
| "dfs_pre_loop (Pattern p # stack) = Pattern p # dfs_pre_loop stack"
| "dfs_pre_loop (NotIn e # stack) = NotIn e # dfs_pre_loop (e # stack)"
| "dfs_pre_loop (Union e1 e2 # stack) = Union e1 e2 # dfs_pre_loop (e1 # e2 # stack)"
| "dfs_pre_loop (Intersection e1 e2 # stack) = Intersection e1 e2 # dfs_pre_loop (e1 # e2 # stack)"
  by pat_completeness auto
termination
  by (relation "measure (\<lambda>stack. 2 * sum_list (map size stack) + length stack)") auto

definition dfs_pre :: "('g, 'r) string_expression \<Rightarrow> ('g, 'r) string_expression list" where
  "dfs_pre e = dfs_pre_loop [e]"

definition exact_strings :: "('g, 'r) string_expression \<Rightarrow> string list" where
  "exact_strings e =
     List.map_filter (\<lambda>expr. case expr of Pattern pattern \<Rightarrow> as_exact pattern | _ \<Rightarrow> None) (dfs_pre e)"

fun to_matcher :: "('g, 'r, 'ge, 're) engine \<Rightarrow> ('g, 'r) string_expression \<Rightarrow> string_matcher exec" where
  "to_matcher E (Pattern pattern) = pattern_to_matcher E pattern"
| "to_matcher E (NotIn expr) =
     exec_bind (to_matcher E expr) (\<lambda>m. let p = into_match_fn m in
     Returns (MatchFn (\<lambda>haystack. \<not> p haystack)))"
| "to_matcher E (Union expr1 expr2) =
     exec_bind (to_matcher E expr1) (\<lambda>m1. let p1 = into_match_fn m1 in
     exec_bind (to_matcher E expr2) (\<lambda>m2. let p2 = into_match_fn m2 in
     Returns (MatchFn (\<lambda>haystack. p1 haystack \<or> p2 haystack))))"
| "to_matcher E (Intersection expr1 expr2) =
     exec_bind (to_matcher E expr1) (\<lambda>m1. let p1 = into_match_fn m1 in
     exec_bind (to_matcher E expr2) (\<lambda>m2. let p2 = into_match_fn m2 in
     Returns (MatchFn (\<lambda>haystack. p1 haystack \<and> p2 haystack))))"

end
