(* ===== verification/Repo_Path.thy ===== *)
theory Repo_Path
  imports Str_Util "HOL-Library.Sublist" "HOL-Library.AList"
begin

text \<open>
  Paths relative to the root of a repository and trees keyed by them, \<open>jj/core/src/repo_path.rs\<close>.
  A path is its string of bytes, with \<open>/\<close> between the components; the components are computed from
  it. A path of the file system is a string too, read the way \<open>std::path\<close> reads it on Unix. The
  borrowed and the owned types of the source are one type here.
\<close>

section \<open>Strings\<close>

text \<open>\<open>str::split_once\<close>, \<open>str::strip_prefix\<close> and \<open>str::ends_with\<close> with a character.\<close>

fun split_once :: "char \<Rightarrow> string \<Rightarrow> (string \<times> string) option" where
  "split_once c [] = None"
| "split_once c (x # xs) =
     (if x = c then Some ([], xs) else map_option (\<lambda>(a, b). (x # a, b)) (split_once c xs))"

definition str_strip_prefix :: "string \<Rightarrow> string \<Rightarrow> string option" where
  "str_strip_prefix needle s = (if starts_with needle s then Some (drop (length needle) s) else None)"

definition ends_with_char :: "char \<Rightarrow> string \<Rightarrow> bool" where
  "ends_with_char c s \<longleftrightarrow> s \<noteq> [] \<and> last s = c"

section \<open>Paths and components\<close>

datatype RepoPath = RepoPath (internal_str: string)

datatype invalid_new_repo_path = InvalidNewRepoPath string
datatype invalid_component = InvalidComponentError string
datatype invalid_repo_path = InvalidRepoPath RepoPath invalid_component

definition is_valid_repo_path_component_str :: "string \<Rightarrow> bool" where
  "is_valid_repo_path_component_str s \<longleftrightarrow> s \<noteq> [] \<and> CHR ''/'' \<notin> set s"

definition is_valid_repo_path_str :: "string \<Rightarrow> bool" where
  "is_valid_repo_path_str s \<longleftrightarrow>
     \<not> starts_with ''/'' s \<and> \<not> ends_with_char CHR ''/'' s \<and> \<not> contains_str s ''//''"

definition component_new :: "string \<Rightarrow> (invalid_new_repo_path, string) result" where
  "component_new s = (if is_valid_repo_path_component_str s then Inr s else Inl (InvalidNewRepoPath s))"

definition from_internal_string :: "string \<Rightarrow> (invalid_new_repo_path, RepoPath) result" where
  "from_internal_string s = (if is_valid_repo_path_str s then Inr (RepoPath s) else Inl (InvalidNewRepoPath s))"

definition path_root :: RepoPath where
  "path_root = RepoPath []"

text \<open>One step of the iterator over components, from the front and from the back.\<close>

definition components_next :: "string \<Rightarrow> (string \<times> string) option" where
  "components_next s =
     (if s = [] then None
      else Some (case split_once CHR ''/'' s of Some (name, remainder) \<Rightarrow> (name, remainder) | None \<Rightarrow> (s, [])))"

definition components_next_back :: "string \<Rightarrow> (string \<times> string) option" where
  "components_next_back s =
     (if s = [] then None
      else Some (case rsplit_once CHR ''/'' s of Some (remainder, name) \<Rightarrow> (remainder, name) | None \<Rightarrow> ([], s)))"

lemma split_once_shorter: "split_once c s = Some (a, b) \<Longrightarrow> length b < length s"
  by (induction s arbitrary: a) (auto split: if_splits)

lemma rsplit_once_shorter: "rsplit_once c s = Some (a, b) \<Longrightarrow> length a < length s"
  by (simp add: rsplit_once_Some)

lemma components_next_shorter: "components_next s = Some (name, remainder) \<Longrightarrow> length remainder < length s"
  by (auto simp: components_next_def split_once_shorter split: if_splits option.splits)

lemma components_next_back_shorter:
  "components_next_back s = Some (remainder, name) \<Longrightarrow> length remainder < length s"
  by (auto simp: components_next_back_def rsplit_once_shorter split: if_splits option.splits)

function drain_components :: "string \<Rightarrow> string list" where
  "drain_components s =
     (case components_next s of None \<Rightarrow> [] | Some (name, remainder) \<Rightarrow> name # drain_components remainder)"
  by auto
termination
  by (relation "measure length") (auto dest: components_next_shorter)

declare drain_components.simps [simp del]

definition components :: "RepoPath \<Rightarrow> string list" where
  "components p = drain_components (internal_str p)"

definition to_internal_dir_string :: "RepoPath \<Rightarrow> string" where
  "to_internal_dir_string p = (if internal_str p = [] then [] else internal_str p @ ''/'')"

definition is_root :: "RepoPath \<Rightarrow> bool" where
  "is_root p \<longleftrightarrow> internal_str p = []"

definition path_strip_prefix :: "RepoPath \<Rightarrow> RepoPath \<Rightarrow> RepoPath option" where
  "path_strip_prefix p base =
     (if internal_str base = [] then Some p
      else Option.bind (str_strip_prefix (internal_str base) (internal_str p)) (\<lambda>tail.
        if tail = [] then Some (RepoPath tail) else map_option RepoPath (str_strip_prefix ''/'' tail)))"

definition path_starts_with :: "RepoPath \<Rightarrow> RepoPath \<Rightarrow> bool" where
  "path_starts_with p base \<longleftrightarrow> path_strip_prefix p base \<noteq> None"

definition path_split :: "RepoPath \<Rightarrow> (RepoPath \<times> string) option" where
  "path_split p =
     map_option (\<lambda>(remainder, basename). (RepoPath remainder, basename)) (components_next_back (internal_str p))"

definition path_parent :: "RepoPath \<Rightarrow> RepoPath option" where
  "path_parent p = map_option fst (path_split p)"

lemma path_parent_shorter: "path_parent p = Some q \<Longrightarrow> length (internal_str q) < length (internal_str p)"
  by (auto simp: path_parent_def path_split_def components_next_back_shorter)

function path_ancestors :: "RepoPath \<Rightarrow> RepoPath list" where
  "path_ancestors p = p # (case path_parent p of None \<Rightarrow> [] | Some q \<Rightarrow> path_ancestors q)"
  by auto
termination
  by (relation "measure (\<lambda>p. length (internal_str p))") (auto dest: path_parent_shorter)

declare path_ancestors.simps [simp del]

definition path_join :: "RepoPath \<Rightarrow> string \<Rightarrow> RepoPath" where
  "path_join p entry =
     RepoPath (if internal_str p = [] then entry else internal_str p @ ''/'' @ entry)"

definition path_extend :: "RepoPath \<Rightarrow> string list \<Rightarrow> RepoPath" where
  "path_extend p names =
     RepoPath (foldl (\<lambda>s name. (if s = [] then s else s @ ''/'') @ name) (internal_str p) names)"

text \<open>\<open>Ord\<close> compares the components; \<open>Eq\<close> compares the strings.\<close>

definition path_le :: "RepoPath \<Rightarrow> RepoPath \<Rightarrow> bool" where
  "path_le a b \<longleftrightarrow> components a \<le> components b"

text \<open>The slices \<open>[..prefix_len]\<close> and \<open>[prefix_len + 1..]\<close> panic beyond the end.\<close>

definition common_prefix_len :: "(string \<times> string) list \<Rightarrow> nat" where
  "common_prefix_len pairs =
     foldl (\<lambda>n (self_comp, _). (if n > 0 then n + 1 else n) + length self_comp) 0
       (takeWhile (\<lambda>(a, b). a = b) pairs)"

definition split_common_prefix :: "RepoPath \<Rightarrow> RepoPath \<Rightarrow> (RepoPath \<times> RepoPath) exec" where
  "split_common_prefix p other =
     (let prefix_len = common_prefix_len (zip (components p) (components other)) in
      if prefix_len = 0 then Returns (path_root, p)
      else if prefix_len = length (internal_str p) then Returns (p, path_root)
      else if length (internal_str p) < prefix_len + 1 then Panics
      else Returns (RepoPath (take prefix_len (internal_str p)), RepoPath (drop (prefix_len + 1) (internal_str p))))"

section \<open>Paths of the file system\<close>

text \<open>\<open>Path::components\<close> on Unix: empty parts and inner \<open>.\<close> parts are skipped.\<close>

datatype fs_component = RootDir | CurDir | ParentDir | Normal string

function split_slash :: "string \<Rightarrow> string list" where
  "split_slash s =
     (case split_once CHR ''/'' s of None \<Rightarrow> [s] | Some (a, b) \<Rightarrow> a # split_slash b)"
  by auto
termination
  by (relation "measure length") (auto dest: split_once_shorter)

declare split_slash.simps [simp del]

definition fs_part :: "string \<Rightarrow> fs_component option" where
  "fs_part s =
     (if s = [] \<or> s = ''.'' then None else if s = ''..'' then Some ParentDir else Some (Normal s))"

definition fs_components :: "string \<Rightarrow> fs_component list" where
  "fs_components s =
     (if starts_with ''/'' s then [RootDir]
      else if hd (split_slash s) = ''.'' then [CurDir] else []) @
     List.map_filter fs_part (split_slash s)"

definition fs_push :: "string \<Rightarrow> string \<Rightarrow> string" where
  "fs_push buf s =
     (if starts_with ''/'' s then s
      else if buf = [] \<or> ends_with_char CHR ''/'' buf then buf @ s else buf @ ''/'' @ s)"

definition to_fs_name :: "string \<Rightarrow> (invalid_component, string) result" where
  "to_fs_name c =
     (case fs_components c of
        [Normal name] \<Rightarrow> if name = c then Inr c else Inl (InvalidComponentError c)
      | _ \<Rightarrow> Inl (InvalidComponentError c))"

fun push_fs_names :: "RepoPath \<Rightarrow> string \<Rightarrow> string list \<Rightarrow> (invalid_repo_path, string) result" where
  "push_fs_names p buf [] = Inr buf"
| "push_fs_names p buf (c # cs) =
     (case to_fs_name c of
        Inl e \<Rightarrow> Inl (InvalidRepoPath p e)
      | Inr name \<Rightarrow> push_fs_names p (fs_push buf name) cs)"

definition to_fs_path :: "RepoPath \<Rightarrow> string \<Rightarrow> (invalid_repo_path, string) result" where
  "to_fs_path p base =
     res_bind (push_fs_names p (fs_push [] base) (components p)) (\<lambda>r. Inr (if r = [] then fs_push r ''.'' else r))"

definition to_fs_path_unchecked :: "RepoPath \<Rightarrow> string \<Rightarrow> string" where
  "to_fs_path_unchecked p base =
     (let r = foldl fs_push (fs_push [] base) (components p) in if r = [] then fs_push r ''.'' else r)"

text \<open>Well-formed UTF-8, as \<open>OsStr::to_str\<close> checks it.\<close>

definition cont :: "char \<Rightarrow> bool" where
  "cont c \<longleftrightarrow> (let n = of_char c :: nat in 128 \<le> n \<and> n \<le> 191)"

function utf8_valid :: "string \<Rightarrow> bool" where
  "utf8_valid s =
     (case s of
        [] \<Rightarrow> True
      | c # rest \<Rightarrow>
          let n = of_char c :: nat in
          if n < 128 then utf8_valid rest
          else case rest of
            [] \<Rightarrow> False
          | d # rest2 \<Rightarrow>
              let m = of_char d :: nat in
              if 194 \<le> n \<and> n \<le> 223 then cont d \<and> utf8_valid rest2
              else case rest2 of
                [] \<Rightarrow> False
              | e # rest3 \<Rightarrow>
                  if (n = 224 \<and> 160 \<le> m \<and> m \<le> 191) \<or> (n = 237 \<and> 128 \<le> m \<and> m \<le> 159) \<or>
                     (225 \<le> n \<and> n \<le> 239 \<and> n \<noteq> 237 \<and> cont d)
                  then cont e \<and> utf8_valid rest3
                  else case rest3 of
                    [] \<Rightarrow> False
                  | f # rest4 \<Rightarrow>
                      ((n = 240 \<and> 144 \<le> m \<and> m \<le> 191) \<or> (n = 244 \<and> 128 \<le> m \<and> m \<le> 143) \<or>
                       (241 \<le> n \<and> n \<le> 243 \<and> cont d)) \<and> cont e \<and> cont f \<and> utf8_valid rest4)"
  by auto
termination
  by (relation "measure length") auto

declare utf8_valid.simps [simp del]

datatype relative_path_parse_error = InvalidComponent fs_component string | InvalidUtf8 string

definition relative_name :: "string \<Rightarrow> fs_component \<Rightarrow> (relative_path_parse_error, string) result" where
  "relative_name path c =
     (case c of
        Normal name \<Rightarrow> if utf8_valid name then Inr name else Inl (InvalidUtf8 path)
      | _ \<Rightarrow> Inl (InvalidComponent c path))"

fun push_relative :: "string \<Rightarrow> string \<Rightarrow> fs_component list \<Rightarrow> (relative_path_parse_error, string) result" where
  "push_relative path s [] = Inr s"
| "push_relative path s (c # cs) =
     res_bind (relative_name path c) (\<lambda>name. push_relative path (s @ ''/'' @ name) cs)"

definition from_relative_path :: "string \<Rightarrow> (relative_path_parse_error, RepoPath) result" where
  "from_relative_path path =
     (if fs_components path = fs_components ''.'' then Inr path_root
      else case fs_components path of
             [] \<Rightarrow> Inr (RepoPath [])
           | c # cs \<Rightarrow>
               res_bind (relative_name path c) (\<lambda>name.
               res_bind (push_relative path name cs) (\<lambda>s. Inr (RepoPath s))))"

section \<open>Trees keyed by paths\<close>

text \<open>The children of a node, a \<open>HashMap\<close>, are an association list that is read by key only.\<close>

datatype 'v path_tree = PathTree (tree_entries: "(string \<times> 'v path_tree) list") (tree_value: 'v)

definition tree_default :: "'v \<Rightarrow> 'v path_tree" where
  "tree_default d = PathTree [] d"

definition set_tree_value :: "'v \<Rightarrow> 'v path_tree \<Rightarrow> 'v path_tree" where
  "set_tree_value v t = PathTree (tree_entries t) v"

definition has_children :: "'v path_tree \<Rightarrow> bool" where
  "has_children t \<longleftrightarrow> tree_entries t \<noteq> []"

definition child :: "'v path_tree \<Rightarrow> string \<Rightarrow> 'v path_tree option" where
  "child t name = map_of (tree_entries t) name"

text \<open>\<open>add\<close> returns a reference to the node of the path; \<open>f\<close> is what the caller does to that node.\<close>

fun tree_add_names :: "'v \<Rightarrow> ('v path_tree \<Rightarrow> 'v path_tree) \<Rightarrow> string list \<Rightarrow> 'v path_tree \<Rightarrow> 'v path_tree" where
  "tree_add_names d f [] t = f t"
| "tree_add_names d f (name # names) t =
     (let sub = case child t name of None \<Rightarrow> tree_default d | Some s \<Rightarrow> s
      in PathTree (AList.update name (tree_add_names d f names sub) (tree_entries t)) (tree_value t))"

definition tree_add :: "'v \<Rightarrow> ('v path_tree \<Rightarrow> 'v path_tree) \<Rightarrow> RepoPath \<Rightarrow> 'v path_tree \<Rightarrow> 'v path_tree" where
  "tree_add d f p t = tree_add_names d f (components p) t"

fun tree_get_names :: "'v path_tree \<Rightarrow> string list \<Rightarrow> 'v path_tree option" where
  "tree_get_names t [] = Some t"
| "tree_get_names t (name # names) = Option.bind (child t name) (\<lambda>s. tree_get_names s names)"

definition tree_get :: "'v path_tree \<Rightarrow> RepoPath \<Rightarrow> 'v path_tree option" where
  "tree_get t p = tree_get_names t (components p)"

function walk_to :: "'v path_tree \<Rightarrow> RepoPath \<Rightarrow> ('v path_tree \<times> RepoPath) list" where
  "walk_to t p =
     (t, p) #
     (case components_next (internal_str p) of
        None \<Rightarrow> []
      | Some (name, remainder) \<Rightarrow>
          (case child t name of None \<Rightarrow> [] | Some s \<Rightarrow> walk_to s (RepoPath remainder)))"
  by auto
termination
  by (relation "measure (\<lambda>(t, p). length (internal_str p))") (auto dest: components_next_shorter)

declare walk_to.simps [simp del]

end
