(* ===== verification/Project_State.thy ===== *)
theory Project_State
  imports Merge_Expr Object_Ids Repo_Path
begin

text \<open>
  Operation-owned project definitions, \<open>jj/core/src/project.rs\<close>: the records, the derived
  diagnostics, the validated lookups and the three-way merge of the state's maps.

  Every record of the state is a signed expression (a \<open>Merge\<close> of optional records), and a
  lookup must treat every positive candidate of an unresolved record as occupying its name and
  root. The messages of the source are the constructors of \<open>message\<close>, with the values that
  the source formats into the text as arguments; the messages of the view
  (\<open>jj/lib/src/view.rs\<close> and \<open>jj/lib/src/view/\<close>) are in the same type because a view passes
  both kinds on. Random generation of identifiers and hashing are not modelled.
\<close>

section \<open>Data\<close>

record project_record =
  pr_name :: string
  canonical_root :: RepoPath

datatype binding_target = Project ProjectId | RepositoryView

datatype representation = Whole | JoshFilter string | JoshView string

record binding_record =
  br_target :: binding_target
  br_connection_id :: ConnectionId
  br_representation :: representation
  br_base :: "string option"

record scoped_remote_name =
  sn_project :: ProjectId
  sn_name :: remote_name

record project_state =
  projects :: "(ProjectId, project_record option merge) btree"
  bindings :: "(BindingId, binding_record option merge) btree"
  labels :: "(string, ProjectId option merge) btree"
  remote_names :: "(ConnectionId, scoped_remote_name option merge) btree"

definition project_state_default :: project_state where
  "project_state_default =
     \<lparr>projects = bt_empty, bindings = bt_empty, labels = bt_empty, remote_names = bt_empty\<rparr>"

datatype observation_kind = Bookmark | Tag | Revision

datatype observation_key =
  ObservationKey (ok_remote: remote_name) (ok_name: ref_name) (ok_kind: observation_kind)

record conversion_term =
  ct_canonical :: "CommitId option"
  ct_raw :: "string option"

record conversion_observation =
  co_binding_id :: BindingId
  co_binding :: binding_record
  co_connection_id :: ConnectionId
  co_endpoint :: string
  co_raw_ref :: string
  co_terms :: "conversion_term list"
  co_base :: "string option"
  co_generation :: "string option"

fun kind_index :: "observation_kind \<Rightarrow> nat" where
  "kind_index Bookmark = 0"
| "kind_index Tag = 1"
| "kind_index Revision = 2"

definition key_tuple :: "observation_key \<Rightarrow> string \<times> string \<times> nat" where
  "key_tuple k = (ok_remote k, ok_name k, kind_index (ok_kind k))"

lemma kind_index_inject [simp]: "kind_index a = kind_index b \<longleftrightarrow> a = b"
  by (cases a; cases b) auto

lemma key_tuple_inject: "key_tuple a = key_tuple b \<longleftrightarrow> a = b"
  by (cases a; cases b) (simp add: key_tuple_def)

text \<open>The derived order of the key: remote, then name, then kind.\<close>

instantiation observation_key :: linorder
begin

definition less_eq_observation_key :: "observation_key \<Rightarrow> observation_key \<Rightarrow> bool" where
  "a \<le> b \<longleftrightarrow> key_tuple a \<le> key_tuple b"

definition less_observation_key :: "observation_key \<Rightarrow> observation_key \<Rightarrow> bool" where
  "a < b \<longleftrightarrow> key_tuple a < key_tuple b"

instance
  by standard (auto simp: less_eq_observation_key_def less_observation_key_def key_tuple_inject
      dest: antisym)

end

datatype (plugins only: code) message =
    ProjectHasUnresolvedDefinition ProjectId
  | ProjectHasInconsistentRoots ProjectId
  | ProjectHasInvalidNameOrRoot ProjectId
  | ProjectsConflict ProjectId ProjectId
  | BindingHasUnresolvedState BindingId
  | BindingHasInconsistentDefinitions BindingId
  | BindingRefersToUnavailableProject BindingId ProjectId
  | ConnectionHasMultipleActiveBindings ConnectionId
  | LabelUnresolvedOrUnavailable string
  | ConnectionHasUnresolvedName ConnectionId
  | ConnectionHasInvalidName ConnectionId
  | RemoteNameDuplicatedInProject remote_name ProjectId
  | ConnectionNameIncompatible ConnectionId BindingId
  | ProjectUnavailableOrUnresolved ProjectId
  | NoProjectNamed string
  | ProjectNameConflicted string
  | ProjectIsUnresolved ProjectId
  | ProjectLabelUnresolved string
  | ConnectionHasMultipleBindings ConnectionId
  | BindingIsUnresolved BindingId
  | RemoteOwnershipUnresolved remote_name
  | RemoteOwnershipDeleted remote_name
  | ConnectionNameUnresolvedOrDeleted ConnectionId bool
  | ConnectionHasMultipleRemotes ConnectionId
  | ConnectionScopeIncompatible ConnectionId
  | RemoteRequiresMigration remote_name
  | RemoteNameDuplicatedInScope remote_name
  | NoRemoteNamed remote_name
  | LabelAlreadyRegistered string
  | LabelWouldAdopt string
  | ObservationOwnershipUnresolved observation_key
  | ObservationOfOtherConnection observation_key
  | ObservationIncompatibleBinding observation_key BindingId
  | ObservationRequiresUnresolvedBinding observation_key BindingId
  | ObservationIncompatibleLabel observation_key
  | RevisionUnexplained observation_key
  | ObservationUnexplainedTarget observation_key
  | RemoteAlreadyConnected remote_name
  | HistoricalRemoteExists remote_name
  | ImportedRemotesCollide remote_name
  | ImportedReferencesCollide ref_name remote_name
  | ImportedObservationsCollide ref_name remote_name
  | HistoricalRemoteCollides remote_name

record project_diagnostic =
  pd_message :: message
  pd_projects :: "ProjectId list"
  pd_bindings :: "BindingId list"
  pd_labels :: "string list"

section \<open>Diagnostics\<close>

definition state_is_empty :: "project_state \<Rightarrow> bool" where
  "state_is_empty s \<longleftrightarrow>
     bt_is_empty (projects s) \<and> bt_is_empty (bindings s) \<and> bt_is_empty (labels s) \<and>
     bt_is_empty (remote_names s)"

text \<open>
  \<open>name.chars().any(char::is_whitespace)\<close> on the UTF-8 bytes of the name: the encodings of
  the white-space code points U+0009-U+000D, U+0020, U+0085, U+00A0, U+1680, U+2000-U+200A,
  U+2028, U+2029, U+202F, U+205F and U+3000.
\<close>

fun starts_with_whitespace :: "nat list \<Rightarrow> bool" where
  "starts_with_whitespace (a # rest) =
     (9 \<le> a \<and> a \<le> 13 \<or> a = 32 \<or>
      (case rest of
         b # rest' \<Rightarrow>
           a = 194 \<and> (b = 133 \<or> b = 160) \<or>
           (case rest' of
              c # _ \<Rightarrow>
                a = 225 \<and> b = 154 \<and> c = 128 \<or>
                a = 226 \<and> b = 128 \<and> (128 \<le> c \<and> c \<le> 138 \<or> c = 168 \<or> c = 169 \<or> c = 175) \<or>
                a = 226 \<and> b = 129 \<and> c = 159 \<or>
                a = 227 \<and> b = 128 \<and> c = 128
            | [] \<Rightarrow> False)
       | [] \<Rightarrow> False))"
| "starts_with_whitespace [] = False"

fun bytes_contain_whitespace :: "nat list \<Rightarrow> bool" where
  "bytes_contain_whitespace [] = False"
| "bytes_contain_whitespace (a # rest) =
     (starts_with_whitespace (a # rest) \<or> bytes_contain_whitespace rest)"

definition contains_whitespace :: "string \<Rightarrow> bool" where
  "contains_whitespace s = bytes_contain_whitespace (map of_char s)"

definition invalid_record :: "project_record \<Rightarrow> bool" where
  "invalid_record r \<longleftrightarrow>
     pr_name r = [] \<or> list_ex (\<lambda>c. c \<in> {CHR ''#'', CHR ''/'', CHR 0x5C}) (pr_name r) \<or>
     contains_whitespace (pr_name r) \<or> is_root (canonical_root r)"

definition candidates :: "project_state \<Rightarrow> (ProjectId \<times> project_record) list" where
  "candidates s =
     concat (map (\<lambda>(pid, target). map (\<lambda>record. (pid, record)) (somes (adds target)))
       (entries (projects s)))"

text \<open>A first item of an iterator and a later one that differs from it.\<close>

definition inconsistent :: "'a list \<Rightarrow> bool" where
  "inconsistent xs = (case xs of [] \<Rightarrow> False | x # rest \<Rightarrow> list_ex (\<lambda>y. y \<noteq> x) rest)"

definition diag ::
  "message \<Rightarrow> ProjectId list \<Rightarrow> BindingId list \<Rightarrow> string list \<Rightarrow> project_diagnostic" where
  "diag m ps bs ls = \<lparr>pd_message = m, pd_projects = ps, pd_bindings = bs, pd_labels = ls\<rparr>"

definition definition_diagnostics :: "project_state \<Rightarrow> project_diagnostic list" where
  "definition_diagnostics s =
     concat (map (\<lambda>(pid, target).
       (if \<not> is_resolved target then [diag (ProjectHasUnresolvedDefinition pid) [pid] [] []] else []) @
       (if inconsistent (map canonical_root (somes (merge_values target)))
        then [diag (ProjectHasInconsistentRoots pid) [pid] [] []] else []))
     (entries (projects s)))"

fun candidate_diagnostics :: "(ProjectId \<times> project_record) list \<Rightarrow> project_diagnostic list" where
  "candidate_diagnostics [] = []"
| "candidate_diagnostics ((pid, record) # rest) =
     (if invalid_record record then [diag (ProjectHasInvalidNameOrRoot pid) [pid] [] []] else []) @
     concat (map (\<lambda>(other_id, other).
       if pid = other_id then []
       else if pr_name record = pr_name other \<or> canonical_root record = canonical_root other
       then [diag (ProjectsConflict pid other_id) [pid, other_id] [] []]
       else []) rest) @
     candidate_diagnostics rest"

definition healthy_project :: "project_state \<Rightarrow> ProjectId \<Rightarrow> bool" where
  "healthy_project s pid =
     (case bt_get (projects s) pid of
        None \<Rightarrow> False
      | Some target \<Rightarrow>
          (case as_resolved target of None \<Rightarrow> False | Some record \<Rightarrow> record \<noteq> None))"

definition target_projects :: "binding_record list \<Rightarrow> ProjectId list" where
  "target_projects rs =
     List.map_filter (\<lambda>r. case br_target r of Project pid \<Rightarrow> Some pid | RepositoryView \<Rightarrow> None) rs"

definition record_diagnostics :: "project_state \<Rightarrow> BindingId \<Rightarrow> binding_record \<Rightarrow> project_diagnostic list" where
  "record_diagnostics s bid record =
     (case br_target record of
        Project project \<Rightarrow>
          if \<not> healthy_project s project
          then [diag (BindingRefersToUnavailableProject bid project) [project] [bid] []] else []
      | RepositoryView \<Rightarrow> [])"

definition binding_entry_diagnostics ::
  "project_state \<Rightarrow> BindingId \<Rightarrow> binding_record option merge \<Rightarrow> project_diagnostic list" where
  "binding_entry_diagnostics s bid target =
     (let ps = target_projects (somes (adds target)) in
      (if \<not> is_resolved target then [diag (BindingHasUnresolvedState bid) ps [bid] []] else []) @
      (if inconsistent (somes (merge_values target))
       then [diag (BindingHasInconsistentDefinitions bid) ps [bid] []] else []) @
      concat (map (record_diagnostics s bid) (somes (adds target))))"

definition binding_diagnostics :: "project_state \<Rightarrow> project_diagnostic list" where
  "binding_diagnostics s =
     concat (map (\<lambda>(bid, target). binding_entry_diagnostics s bid target) (entries (bindings s)))"

text \<open>\<open>connections.entry(connection).or_default().insert(id)\<close>.\<close>

definition add_connection ::
  "BindingId \<Rightarrow> binding_record \<Rightarrow> (ConnectionId, (BindingId, unit) btree) btree \<Rightarrow>
   (ConnectionId, (BindingId, unit) btree) btree" where
  "add_connection bid record cs =
     (let ids = (case bt_get cs (br_connection_id record) of None \<Rightarrow> bt_empty | Some ids \<Rightarrow> ids)
      in bt_insert (br_connection_id record) (bt_insert bid () ids) cs)"

definition connections :: "project_state \<Rightarrow> (ConnectionId, (BindingId, unit) btree) btree" where
  "connections s =
     fold (\<lambda>(bid, target) cs. fold (add_connection bid) (somes (adds target)) cs)
       (entries (bindings s)) bt_empty"

text \<open>\<open>self.bindings[id]\<close> of an bid that is a key of the map.\<close>

definition binding_adds :: "project_state \<Rightarrow> BindingId \<Rightarrow> binding_record list" where
  "binding_adds s bid =
     (case bt_get (bindings s) bid of None \<Rightarrow> [] | Some target \<Rightarrow> somes (adds target))"

definition connection_diagnostics :: "project_state \<Rightarrow> project_diagnostic list" where
  "connection_diagnostics s =
     concat (map (\<lambda>(connection, ids).
       if length (entries ids) > 1
       then [diag (ConnectionHasMultipleActiveBindings connection)
               (target_projects (concat (map (binding_adds s) (bt_keys ids)))) (bt_keys ids) []]
       else [])
     (entries (connections s)))"

definition label_diagnostics :: "project_state \<Rightarrow> project_diagnostic list" where
  "label_diagnostics s =
     concat (map (\<lambda>(label, target).
       let ps = somes (adds target) in
       if \<not> is_resolved target \<or> list_ex (\<lambda>pid. \<not> healthy_project s pid) ps
       then [diag (LabelUnresolvedOrUnavailable label) ps [] [label]] else [])
     (entries (labels s)))"

definition name_binding_diagnostics ::
  "project_state \<Rightarrow> ConnectionId \<Rightarrow> scoped_remote_name \<Rightarrow> project_diagnostic list" where
  "name_binding_diagnostics s connection identity =
     concat (map (\<lambda>(binding_id, target).
       concat (map (\<lambda>binding.
         if br_target binding \<noteq> Project (sn_project identity)
         then [diag (ConnectionNameIncompatible connection binding_id)
                 (sn_project identity # target_projects [binding]) [binding_id] []]
         else [])
       (filter (\<lambda>binding. br_connection_id binding = connection) (somes (adds target)))))
     (entries (bindings s)))"

type_synonym used_names = "(ProjectId \<times> remote_name, ConnectionId) btree"

fun identity_diagnostics ::
  "project_state \<Rightarrow> ConnectionId \<Rightarrow> scoped_remote_name list \<Rightarrow> used_names \<Rightarrow>
   project_diagnostic list \<times> used_names" where
  "identity_diagnostics s connection [] names = ([], names)"
| "identity_diagnostics s connection (identity # rest) names =
     (let key = (sn_project identity, sn_name identity);
          invalid = (if sn_name identity = [] \<or> \<not> healthy_project s (sn_project identity)
                     then [diag (ConnectionHasInvalidName connection) [sn_project identity] [] []]
                     else []);
          duplicated = (case bt_get names key of
                          Some previous \<Rightarrow>
                            if previous \<noteq> connection
                            then [diag (RemoteNameDuplicatedInProject (sn_name identity) (sn_project identity))
                                    [sn_project identity] [] []]
                            else []
                        | None \<Rightarrow> []);
          (ds, names') = identity_diagnostics s connection rest (bt_insert key connection names)
      in (invalid @ duplicated @ name_binding_diagnostics s connection identity @ ds, names'))"

fun remote_name_diagnostics ::
  "project_state \<Rightarrow> (ConnectionId \<times> scoped_remote_name option merge) list \<Rightarrow> used_names \<Rightarrow>
   project_diagnostic list" where
  "remote_name_diagnostics s [] names = []"
| "remote_name_diagnostics s ((connection, target) # rest) names =
     (let identities = somes (adds target);
          unresolved = (if \<not> is_resolved target
                        then [diag (ConnectionHasUnresolvedName connection)
                                (map sn_project identities) [] []]
                        else []);
          (ds, names') = identity_diagnostics s connection identities names
      in unresolved @ ds @ remote_name_diagnostics s rest names')"

definition diagnostics :: "project_state \<Rightarrow> project_diagnostic list" where
  "diagnostics s =
     definition_diagnostics s @ candidate_diagnostics (candidates s) @ binding_diagnostics s @
     connection_diagnostics s @ label_diagnostics s @
     remote_name_diagnostics s (entries (remote_names s)) bt_empty"

section \<open>Lookups\<close>

definition validate_project :: "project_state \<Rightarrow> ProjectId \<Rightarrow> (message, unit) result" where
  "validate_project s pid =
     (if \<not> healthy_project s pid then Inl (ProjectUnavailableOrUnresolved pid)
      else case find (\<lambda>d. pid \<in> set (pd_projects d)) (diagnostics s) of
             Some d \<Rightarrow> Inl (pd_message d)
           | None \<Rightarrow> Inr ())"

definition project_by_name ::
  "project_state \<Rightarrow> string \<Rightarrow> (message, ProjectId \<times> project_record) result" where
  "project_by_name s name =
     (case filter (\<lambda>(_, target). list_ex (\<lambda>r. pr_name r = name) (somes (adds target)))
             (entries (projects s)) of
        [] \<Rightarrow> Inl (NoProjectNamed name)
      | [(pid, target)] \<Rightarrow>
          res_bind (validate_project s pid) (\<lambda>_.
          res_bind (ok_or (ProjectIsUnresolved pid) (as_normal target)) (\<lambda>record.
          Inr (pid, record)))
      | _ \<Rightarrow> Inl (ProjectNameConflicted name))"

definition resolve_label :: "project_state \<Rightarrow> string \<Rightarrow> (message, ProjectId option) result" where
  "resolve_label s label =
     (case bt_get (labels s) label of
        None \<Rightarrow> Inr None
      | Some target \<Rightarrow>
          res_bind (ok_or (ProjectLabelUnresolved label) (as_resolved target)) (\<lambda>owner.
          case owner of
            Some project \<Rightarrow> res_bind (validate_project s project) (\<lambda>_. Inr owner)
          | None \<Rightarrow> Inr owner))"

definition binding_for_connection ::
  "project_state \<Rightarrow> ConnectionId \<Rightarrow> (message, (BindingId \<times> binding_record) option) result" where
  "binding_for_connection s connection =
     (case filter (\<lambda>(_, target).
               list_ex (\<lambda>r. br_connection_id r = connection) (somes (adds target)))
             (entries (bindings s)) of
        [] \<Rightarrow> Inr None
      | [(bid, target)] \<Rightarrow>
          (case find (\<lambda>d. bid \<in> set (pd_bindings d)) (diagnostics s) of
             Some d \<Rightarrow> Inl (pd_message d)
           | None \<Rightarrow>
               res_bind (ok_or (BindingIsUnresolved bid) (as_normal target)) (\<lambda>record.
               case br_target record of
                 Project project \<Rightarrow>
                   res_bind (validate_project s project) (\<lambda>_. Inr (Some (bid, record)))
               | RepositoryView \<Rightarrow> Inr (Some (bid, record))))
      | _ \<Rightarrow> Inl (ConnectionHasMultipleBindings connection))"

section \<open>Merging\<close>

definition merge_entry ::
  "'v option merge \<Rightarrow> 'v option merge \<Rightarrow> 'v option merge \<Rightarrow> 'v option merge exec" where
  "merge_entry own base other =
     exec_bind (trivial_merge [own, base, other] Accept) (\<lambda>r.
     case r of
       Some value \<Rightarrow> Returns value
     | None \<Rightarrow>
         exec_bind (from_vec [own, base, other]) (\<lambda>nested.
         exec_bind (flatten nested) (\<lambda>flat.
         exec_bind (simplify flat) (\<lambda>value.
         exec_bind (resolve_trivial value Accept) (\<lambda>r.
         case r of
           Some v \<Rightarrow> Returns (resolved v)
         | None \<Rightarrow> Returns value)))))"

text \<open>\<open>map.get(key).unwrap_or(&absent)\<close>.\<close>

definition get_or_absent :: "('k::linorder, 'v option merge) btree \<Rightarrow> 'k \<Rightarrow> 'v option merge" where
  "get_or_absent m k = (case bt_get m k of None \<Rightarrow> absent | Some t \<Rightarrow> t)"

definition put_present ::
  "'k::linorder \<Rightarrow> 'v option merge \<Rightarrow> ('k, 'v option merge) btree \<Rightarrow> ('k, 'v option merge) btree" where
  "put_present k t m = (if is_absent t then bt_remove k m else bt_insert k t m)"

fun merge_keys ::
  "'k::linorder list \<Rightarrow> ('k, 'v option merge) btree \<Rightarrow> ('k, 'v option merge) btree \<Rightarrow>
   ('k, 'v option merge) btree \<Rightarrow> ('k, 'v option merge) btree exec" where
  "merge_keys [] base other current = Returns current"
| "merge_keys (k # ks) base other current =
     (let b = get_or_absent base k; t = get_or_absent other k in
      if b = t then merge_keys ks base other current
      else exec_bind (merge_entry (get_or_absent current k) b t) (\<lambda>target.
           merge_keys ks base other (put_present k target current)))"

definition merge_map ::
  "('k::linorder, 'v option merge) btree \<Rightarrow> ('k, 'v option merge) btree \<Rightarrow>
   ('k, 'v option merge) btree \<Rightarrow> ('k, 'v option merge) btree exec" where
  "merge_map current base other =
     merge_keys (bt_set (bt_keys base @ bt_keys other)) base other current"

definition state_merge :: "project_state \<Rightarrow> project_state \<Rightarrow> project_state \<Rightarrow> project_state exec" where
  "state_merge s base other =
     exec_bind (merge_map (projects s) (projects base) (projects other)) (\<lambda>ps.
     exec_bind (merge_map (bindings s) (bindings base) (bindings other)) (\<lambda>bs.
     exec_bind (merge_map (labels s) (labels base) (labels other)) (\<lambda>ls.
     exec_bind (merge_map (remote_names s) (remote_names base) (remote_names other)) (\<lambda>ns.
     Returns \<lparr>projects = ps, bindings = bs, labels = ls, remote_names = ns\<rparr>))))"

end
