(* ===== verification/Op_Store.thy ===== *)
theory Op_Store
  imports Project_State "HOL-Library.Multiset"
begin

text \<open>
  The stored data of an operation's view, \<open>jj/core/src/op_store.rs\<close>: reference targets, remote
  references with their tracking state, remote views, the view itself, and the two iterators
  that combine local and remote references. The content hash of a view and the protobuf codec
  are not modelled; a \<open>HashSet\<close> of commits is a set.

  The iterator adaptor \<open>kmerge_by\<close> of itertools is a parameter: \<open>kmerge_law\<close> states its
  documented behaviour on sorted inputs (the result holds the items of all iterators and is
  sorted).
\<close>

section \<open>Data\<close>

type_synonym ref_target = "CommitId option merge"

datatype remote_ref_state = New | Tracked

record remote_ref =
  rr_target :: ref_target
  rr_state :: remote_ref_state

definition absent_remote_ref :: remote_ref where
  "absent_remote_ref = \<lparr>rr_target = absent, rr_state = New\<rparr>"

definition remote_ref_is_absent :: "remote_ref \<Rightarrow> bool" where
  "remote_ref_is_absent r = is_absent (rr_target r)"

definition remote_ref_is_present :: "remote_ref \<Rightarrow> bool" where
  "remote_ref_is_present r = is_present (rr_target r)"

definition is_tracked :: "remote_ref \<Rightarrow> bool" where
  "is_tracked r = (rr_state r = Tracked)"

definition tracked_target :: "remote_ref \<Rightarrow> ref_target" where
  "tracked_target r = (if is_tracked r then rr_target r else absent)"

text \<open>\<open>RefTargetOptionExt::flatten\<close>: the absent target or reference for a missing one.\<close>

definition flatten_target :: "'a option merge option \<Rightarrow> 'a option merge" where
  "flatten_target t = (case t of None \<Rightarrow> absent | Some x \<Rightarrow> x)"

definition flatten_remote_ref :: "remote_ref option \<Rightarrow> remote_ref" where
  "flatten_remote_ref r = (case r of None \<Rightarrow> absent_remote_ref | Some x \<Rightarrow> x)"

record local_remote_ref_target =
  local_target :: ref_target
  lr_remote_refs :: "(remote_name \<times> remote_ref) list"

record remote_view =
  bookmarks :: "(ref_name, remote_ref) btree"
  tags :: "(ref_name, remote_ref) btree"

definition remote_view_default :: remote_view where
  "remote_view_default = \<lparr>bookmarks = bt_empty, tags = bt_empty\<rparr>"

record view =
  head_ids :: "CommitId set"
  local_bookmarks :: "(ref_name, ref_target) btree"
  local_tags :: "(ref_name, ref_target) btree"
  remote_views :: "(remote_name, remote_view) btree"
  git_refs :: "(git_ref_name, ref_target) btree"
  git_heads :: "(workspace_name, ref_target) btree"
  wc_commit_ids :: "(workspace_name, CommitId) btree"
  wc_sparse_patterns :: "(workspace_name, WorkingCopyPatternsId option merge) btree"
  view_project_state :: project_state
  remote_connections :: "(remote_name, ConnectionId option merge) btree"
  observed_remote_connections :: "(remote_name, ConnectionId option merge) btree"
  observed_remote_names :: "(ConnectionId, scoped_remote_name option merge) btree"
  project_observations :: "(observation_key, conversion_observation option merge) btree"

definition make_root :: "CommitId \<Rightarrow> view" where
  "make_root root_commit_id =
     \<lparr>head_ids = {root_commit_id}, local_bookmarks = bt_empty, local_tags = bt_empty,
      remote_views = bt_empty, git_refs = bt_empty, git_heads = bt_empty, wc_commit_ids = bt_empty,
      wc_sparse_patterns = bt_empty, view_project_state = project_state_default,
      remote_connections = bt_empty, observed_remote_connections = bt_empty,
      observed_remote_names = bt_empty, project_observations = bt_empty\<rparr>"

section \<open>Iterating local and remote references\<close>

text \<open>\<open>RemoteRefSymbol\<close> compares the name first, then the remote.\<close>

definition symbol_less :: "remote_ref_symbol \<Rightarrow> remote_ref_symbol \<Rightarrow> bool" where
  "symbol_less a b \<longleftrightarrow>
     sym_name a < sym_name b \<or> (sym_name a = sym_name b \<and> sym_remote a < sym_remote b)"

type_synonym ref_item = "remote_ref_symbol \<times> remote_ref"

type_synonym kmerge = "(ref_item \<Rightarrow> ref_item \<Rightarrow> bool) \<Rightarrow> ref_item list list \<Rightarrow> ref_item list"

definition symbol_refs :: "remote_name \<Rightarrow> (ref_name, remote_ref) btree \<Rightarrow> ref_item list" where
  "symbol_refs remote refs =
     map (\<lambda>(name, r). (\<lparr>sym_name = name, sym_remote = remote\<rparr>, r)) (entries refs)"

definition flatten_remote_refs ::
  "kmerge \<Rightarrow> (remote_name, remote_view) btree \<Rightarrow> (remote_view \<Rightarrow> (ref_name, remote_ref) btree) \<Rightarrow>
   ref_item list" where
  "flatten_remote_refs kmerge_by views get_remote_refs =
     kmerge_by (\<lambda>(symbol1, _) (symbol2, _). symbol_less symbol1 symbol2)
       (map (\<lambda>(remote, v). symbol_refs remote (get_remote_refs v)) (entries views))"

text \<open>
  The closure of \<open>merge_join_ref_views\<close> over the two peekable iterators; \<open>next_local\<close> is the
  choice of the earlier name, with what is left of the local iterator.
\<close>

fun next_local ::
  "(ref_name \<times> ref_target) list \<Rightarrow> ref_item list \<Rightarrow>
   ((ref_name \<times> ref_target) \<times> (ref_name \<times> ref_target) list) option" where
  "next_local locals ((symbol, _) # _) =
     (case locals of
        (name, target) # rest \<Rightarrow>
          if name \<le> sym_name symbol then Some ((name, target), rest)
          else Some ((sym_name symbol, absent), locals)
      | [] \<Rightarrow> Some ((sym_name symbol, absent), []))"
| "next_local (l # rest) [] = Some (l, rest)"
| "next_local [] [] = None"

lemma next_local_length:
  "next_local locals remotes = Some ((name, target), rest) \<Longrightarrow>
   length rest + length (dropWhile (\<lambda>(symbol, _). sym_name symbol = name) remotes) <
     length locals + length remotes"
  by (induction locals remotes rule: next_local.induct)
    (auto split: list.splits if_splits simp: less_Suc_eq_le le_SucI length_dropWhile_le)

function merge_join_loop ::
  "(ref_name \<times> ref_target) list \<Rightarrow> ref_item list \<Rightarrow> (ref_name \<times> local_remote_ref_target) list" where
  "merge_join_loop locals remotes =
     (case next_local locals remotes of
        None \<Rightarrow> []
      | Some ((name, target), rest) \<Rightarrow>
          (name,
           \<lparr>local_target = target,
            lr_remote_refs =
              map (\<lambda>(symbol, r). (sym_remote symbol, r))
                (takeWhile (\<lambda>(symbol, _). sym_name symbol = name) remotes)\<rparr>) #
          merge_join_loop rest (dropWhile (\<lambda>(symbol, _). sym_name symbol = name) remotes))"
  by pat_completeness auto
termination
  by (relation "measure (\<lambda>(locals, remotes). length locals + length remotes)")
    (auto dest: next_local_length)

declare merge_join_loop.simps [simp del]

definition merge_join_ref_views ::
  "kmerge \<Rightarrow> (ref_name, ref_target) btree \<Rightarrow> (remote_name, remote_view) btree \<Rightarrow>
   (remote_view \<Rightarrow> (ref_name, remote_ref) btree) \<Rightarrow> (ref_name \<times> local_remote_ref_target) list" where
  "merge_join_ref_views kmerge_by local_refs views get_remote_refs =
     merge_join_loop (entries local_refs) (flatten_remote_refs kmerge_by views get_remote_refs)"

end
