(* ===== verification/Op_Store_Laws.thy ===== *)
theory Op_Store_Laws
  imports Op_Store
begin

text \<open>
  What iterating local and remote references by name gives: every name that occurs locally or
  at some remote, once and in order, with its local target and its references per remote in
  the order of the remotes.
\<close>

definition strict_weak_order :: "('a \<Rightarrow> 'a \<Rightarrow> bool) \<Rightarrow> bool" where
  "strict_weak_order lt \<longleftrightarrow>
     (\<forall>a b. lt a b \<longrightarrow> \<not> lt b a) \<and> (\<forall>a b c. lt a c \<longrightarrow> lt a b \<or> lt b c)"

definition kmerge_law :: "kmerge \<Rightarrow> bool" where
  "kmerge_law kmerge_by \<longleftrightarrow>
     (\<forall>lt its. strict_weak_order lt \<longrightarrow> (\<forall>it \<in> set its. sorted_wrt lt it) \<longrightarrow>
        mset (kmerge_by lt its) = mset (concat its) \<and>
        sorted_wrt (\<lambda>a b. \<not> lt b a) (kmerge_by lt its))"

abbreviation item_less :: "ref_item \<Rightarrow> ref_item \<Rightarrow> bool" where
  "item_less \<equiv> \<lambda>(symbol1, _) (symbol2, _). symbol_less symbol1 symbol2"

lemma symbol_less_linear: "symbol_less a b \<or> a = b \<or> symbol_less b a"
  by (cases a; cases b) (auto simp: symbol_less_def)

lemma item_less_order: "strict_weak_order item_less"
  by (auto simp: strict_weak_order_def symbol_less_def)

lemma sorted_symbol_refs: "sorted_wrt item_less (symbol_refs remote refs)"
proof -
  have "sorted_wrt (\<lambda>p q. fst p < fst q) (entries refs)"
    using sorted_entries[of refs] by (simp add: sorted_wrt_map)
  then show ?thesis
    unfolding symbol_refs_def sorted_wrt_map
    by (rule sorted_wrt_mono_rel[rotated]) (auto simp: symbol_less_def)
qed

definition view_refs ::
  "(remote_name, remote_view) btree \<Rightarrow> (remote_view \<Rightarrow> (ref_name, remote_ref) btree) \<Rightarrow> ref_item list" where
  "view_refs views f = concat (map (\<lambda>(remote, v). symbol_refs remote (f v)) (entries views))"

lemma in_view_refs:
  "(symbol, r) \<in> set (view_refs views f) \<longleftrightarrow>
     (\<exists>v. bt_get views (sym_remote symbol) = Some v \<and> bt_get (f v) (sym_name symbol) = Some r)"
proof -
  have refs: "(symbol, r) \<in> set (symbol_refs remote refs) \<longleftrightarrow>
      sym_remote symbol = remote \<and> bt_get refs (sym_name symbol) = Some r" for remote refs
    by (cases symbol) (auto simp: symbol_refs_def in_entries_iff image_def Bex_def)
  have "(symbol, r) \<in> set (view_refs views f) \<longleftrightarrow>
      (\<exists>p \<in> set (entries views). (symbol, r) \<in> set (symbol_refs (fst p) (f (snd p))))"
    by (simp add: view_refs_def case_prod_beta)
  then show ?thesis by (simp add: refs Bex_def in_entries_iff)
qed

lemma distinct_symbol_refs: "distinct (map fst (symbol_refs remote refs))"
proof -
  have "map fst (symbol_refs remote refs) =
      map (\<lambda>n. \<lparr>sym_name = n, sym_remote = remote\<rparr>) (map fst (entries refs))"
    by (simp add: symbol_refs_def case_prod_beta)
  then show ?thesis
    using distinct_entries[of refs] by (simp only: distinct_map) (auto simp: inj_on_def)
qed

lemma distinct_view_refs: "distinct (map fst (view_refs views f))"
proof -
  have "distinct (map fst (concat (map (\<lambda>(remote, v). symbol_refs remote (f v)) es)))"
    if "distinct (map fst es)" for es
    using that
  proof (induction es)
    case (Cons e es)
    let ?rest = "concat (map (\<lambda>(remote, v). symbol_refs remote (f v)) es)"
    have here: "sym_remote (fst p) = fst e" if "p \<in> set (symbol_refs (fst e) (f (snd e)))" for p
      using that by (auto simp: symbol_refs_def)
    have there: "sym_remote (fst p) \<in> fst ` set es" if "p \<in> set ?rest" for p
      using that by (force simp: symbol_refs_def)
    have "fst p \<noteq> fst q" if "p \<in> set (symbol_refs (fst e) (f (snd e)))" "q \<in> set ?rest" for p q
    proof -
      have "fst e \<notin> fst ` set es" using Cons.prems by simp
      with here[OF that(1)] there[OF that(2)] show ?thesis by metis
    qed
    then have "fst ` set (symbol_refs (fst e) (f (snd e))) \<inter> fst ` set ?rest = {}" by blast
    moreover have "distinct (map fst ?rest)" using Cons by simp
    ultimately show ?case
      using distinct_symbol_refs[of "fst e" "f (snd e)"] by (cases e) (simp del: set_concat)
  qed simp
  then show ?thesis unfolding view_refs_def using distinct_entries by blast
qed

lemma sorted_wrt_strict:
  "sorted_wrt (\<lambda>a b. \<not> item_less b a) xs \<Longrightarrow> distinct (map fst xs) \<Longrightarrow> sorted_wrt item_less xs"
proof (induction xs)
  case (Cons x xs)
  have "item_less x y" if "y \<in> set xs" for y
  proof -
    have "fst x \<noteq> fst y" using Cons.prems(2) that by auto
    moreover have "\<not> symbol_less (fst y) (fst x)" using Cons.prems(1) that by (auto simp: case_prod_beta)
    ultimately show ?thesis using symbol_less_linear[of "fst x" "fst y"] by (auto simp: case_prod_beta)
  qed
  with Cons show ?case by auto
qed simp

lemma flatten_remote_refs_spec:
  assumes "kmerge_law kmerge_by"
  shows "set (flatten_remote_refs kmerge_by views f) = set (view_refs views f)"
    and "sorted_wrt item_less (flatten_remote_refs kmerge_by views f)"
proof -
  let ?its = "map (\<lambda>(remote, v). symbol_refs remote (f v)) (entries views)"
  have "\<forall>it \<in> set ?its. sorted_wrt item_less it" using sorted_symbol_refs by auto
  then have m: "mset (flatten_remote_refs kmerge_by views f) = mset (view_refs views f)"
    and s: "sorted_wrt (\<lambda>a b. \<not> item_less b a) (flatten_remote_refs kmerge_by views f)"
    using assms item_less_order unfolding kmerge_law_def flatten_remote_refs_def view_refs_def by blast+
  from m show "set (flatten_remote_refs kmerge_by views f) = set (view_refs views f)" by (rule mset_eq_setD)
  have "distinct (map fst (flatten_remote_refs kmerge_by views f))"
    using distinct_view_refs[of views f] m by (metis mset_eq_imp_distinct_iff mset_map)
  with s show "sorted_wrt item_less (flatten_remote_refs kmerge_by views f)" by (rule sorted_wrt_strict)
qed

section \<open>The joined iterator\<close>

definition remote_refs_named :: "ref_name \<Rightarrow> ref_item list \<Rightarrow> (remote_name \<times> remote_ref) list" where
  "remote_refs_named n items =
     map (\<lambda>(symbol, r). (sym_remote symbol, r)) (filter (\<lambda>(symbol, _). sym_name symbol = n) items)"

definition names_of :: "(ref_name \<times> ref_target) list \<Rightarrow> ref_item list \<Rightarrow> ref_name set" where
  "names_of locals remotes = fst ` set locals \<union> (\<lambda>(symbol, _). sym_name symbol) ` set remotes"

lemma takeWhile_dropWhile_sorted:
  assumes "sorted_wrt item_less items" "\<forall>(symbol, _) \<in> set items. n \<le> sym_name symbol"
  shows "takeWhile (\<lambda>(symbol, _). sym_name symbol = n) items = filter (\<lambda>(symbol, _). sym_name symbol = n) items"
    and "dropWhile (\<lambda>(symbol, _). sym_name symbol = n) items = filter (\<lambda>(symbol, _). n < sym_name symbol) items"
  using assms
proof (induction items)
  case (Cons i items)
  obtain symbol r where i: "i = (symbol, r)" by force
  have above: "\<forall>x \<in> set items. n < sym_name (fst x)" if "sym_name symbol \<noteq> n"
    "sorted_wrt item_less (i # items)" "\<forall>(symbol, _) \<in> set (i # items). n \<le> sym_name symbol"
  proof -
    from that have "n < sym_name symbol" unfolding i by auto
    with that(2) show ?thesis unfolding i by (auto simp: symbol_less_def)
  qed
  { case 1
    show ?case
    proof (cases "sym_name symbol = n")
      case True
      with 1 Cons.IH(1) show ?thesis unfolding i by auto
    next
      case False
      from above[OF False 1] have "filter (\<lambda>(symbol, _). sym_name symbol = n) items = []"
        by (auto simp: filter_empty_conv)
      with False show ?thesis unfolding i by simp
    qed
  next
    case 2
    show ?case
    proof (cases "sym_name symbol = n")
      case True
      with 2 Cons.IH(2) show ?thesis unfolding i by auto
    next
      case False
      from above[OF False 2] have "filter (\<lambda>(symbol, _). n < sym_name symbol) items = items"
        by (auto simp: filter_id_conv)
      moreover have "n < sym_name symbol" using False 2 unfolding i by auto
      ultimately show ?thesis using False unfolding i by simp
    qed }
qed simp_all

lemma next_local_None: "next_local locals remotes = None \<longleftrightarrow> locals = [] \<and> remotes = []"
  by (induction locals remotes rule: next_local.induct) (auto split: list.splits)

lemma next_local_spec:
  assumes "next_local locals remotes = Some ((name, target), rest)"
    and "sorted_wrt (<) (map fst locals)" "sorted_wrt item_less remotes"
  shows "name \<in> names_of locals remotes" "\<forall>n \<in> names_of locals remotes. name \<le> n"
    "target = flatten_target (map_of locals name)" "rest = filter (\<lambda>p. name < fst p) locals"
proof -
  have tail: "filter (\<lambda>p. n < fst p) ps = ps" if "\<forall>x \<in> set ps. n < fst x" for n and ps :: "(ref_name \<times> ref_target) list"
    using that by (simp add: filter_id_conv)
  have absent: "map_of locals n = None" if "\<forall>x \<in> set locals. n < fst x" for n
    using that by (auto simp: map_of_eq_None_iff)
  consider (both) s r rs l ls where "remotes = (s, r) # rs" "locals = l # ls" "fst l \<le> sym_name s"
    | (remote) s r rs where "remotes = (s, r) # rs" "\<forall>x \<in> set locals. sym_name s < fst x"
    | (only) l ls where "remotes = []" "locals = l # ls"
  proof (cases remotes)
    case Nil
    with assms(1) that(3) show ?thesis by (cases locals) auto
  next
    case (Cons i rs)
    obtain s r where i: "i = (s, r)" by force
    show ?thesis
    proof (cases locals)
      case Nil with that(2) Cons i show ?thesis by simp
    next
      case l: (Cons l ls)
      with assms(2) have ls: "\<forall>x \<in> set ls. fst l < fst x" by simp
      show ?thesis
      proof (cases "fst l \<le> sym_name s")
        case True
        with that(1) Cons i l show ?thesis by blast
      next
        case False
        with ls have "\<forall>x \<in> set locals. sym_name s < fst x" unfolding l by auto
        with that(2) Cons i show ?thesis by blast
      qed
    qed
  qed
  then have "name \<in> names_of locals remotes \<and> (\<forall>n \<in> names_of locals remotes. name \<le> n) \<and>
    target = flatten_target (map_of locals name) \<and> rest = filter (\<lambda>p. name < fst p) locals"
  proof cases
    case both
    with assms(2,3) have a: "\<forall>x \<in> set ls. fst l < fst x" "\<forall>x \<in> set rs. sym_name s \<le> sym_name (fst x)"
      by (auto simp: symbol_less_def)
    from both assms(1) have "name = fst l" "target = snd l" "rest = ls" by (auto split: prod.splits)
    with both a show ?thesis
      by (cases l) (auto simp: names_of_def flatten_target_def tail dest: order_trans less_imp_le)
  next
    case remote
    with assms(3) have a: "\<forall>x \<in> set rs. sym_name s \<le> sym_name (fst x)" by (auto simp: symbol_less_def)
    from remote assms(1) have "name = sym_name s" "target = absent" "rest = locals"
      by (auto split: list.splits if_splits)
    with remote a absent[of "sym_name s"] show ?thesis
      by (auto simp: names_of_def flatten_target_def tail less_imp_le)
  next
    case only
    with assms(2) have a: "\<forall>x \<in> set ls. fst l < fst x" by auto
    from only assms(1) have "name = fst l" "target = snd l" "rest = ls" by auto
    with only a show ?thesis by (cases l) (auto simp: names_of_def flatten_target_def tail less_imp_le)
  qed
  then show "name \<in> names_of locals remotes" "\<forall>n \<in> names_of locals remotes. name \<le> n"
    "target = flatten_target (map_of locals name)" "rest = filter (\<lambda>p. name < fst p) locals" by auto
qed

definition joined :: "(ref_name \<times> ref_target) list \<Rightarrow> ref_item list \<Rightarrow> ref_name \<Rightarrow> local_remote_ref_target" where
  "joined locals remotes n =
     \<lparr>local_target = flatten_target (map_of locals n), lr_remote_refs = remote_refs_named n remotes\<rparr>"

lemma merge_join_loop_spec:
  "sorted_wrt (<) (map fst locals) \<Longrightarrow> sorted_wrt item_less remotes \<Longrightarrow>
   sorted_wrt (<) (map fst (merge_join_loop locals remotes)) \<and>
   set (merge_join_loop locals remotes) = (\<lambda>n. (n, joined locals remotes n)) ` names_of locals remotes"
proof (induction locals remotes rule: merge_join_loop.induct)
  case (1 locals remotes)
  show ?case
  proof (cases "next_local locals remotes")
    case None
    then show ?thesis by (simp add: merge_join_loop.simps next_local_None names_of_def)
  next
    case (Some p)
    obtain name target rest where p: "p = ((name, target), rest)" by (metis surj_pair)
    note spec = next_local_spec[OF Some[unfolded p] 1(2,3)]
    let ?R = "dropWhile (\<lambda>(symbol, _). sym_name symbol = name) remotes"
    have le: "\<forall>(symbol, _) \<in> set remotes. name \<le> sym_name symbol" using spec(2) by (auto simp: names_of_def)
    note cut = takeWhile_dropWhile_sorted[OF 1(3) le]
    have step: "merge_join_loop locals remotes = (name, joined locals remotes name) # merge_join_loop rest ?R"
      unfolding merge_join_loop.simps[of locals remotes] Some p
      by (simp add: joined_def remote_refs_named_def spec(3) cut(1))
    have IH: "sorted_wrt (<) (map fst (merge_join_loop rest ?R))"
      "set (merge_join_loop rest ?R) = (\<lambda>n. (n, joined rest ?R n)) ` names_of rest ?R"
      using 1(1)[OF Some p[symmetric] refl] 1(2,3) unfolding spec(4) cut(2)
      by (simp_all add: sorted_wrt_map sorted_wrt_filter)
    have names: "names_of rest ?R = {n \<in> names_of locals remotes. name < n}"
      unfolding spec(4) cut(2) by (auto simp: names_of_def)
    have same: "joined rest ?R n = joined locals remotes n" if "name < n" for n
    proof -
      have "map_of (filter (\<lambda>p. name < fst p) ps) n = map_of ps n" for ps :: "(ref_name \<times> ref_target) list"
        using that by (induction ps) auto
      moreover have "filter (\<lambda>(symbol, _). sym_name symbol = n) ?R = filter (\<lambda>(symbol, _). sym_name symbol = n) remotes"
        unfolding cut(2) filter_filter using that by (intro filter_cong) auto
      ultimately show ?thesis unfolding joined_def remote_refs_named_def spec(4) by simp
    qed
    have "names_of locals remotes = insert name (names_of rest ?R)"
      unfolding names using spec(1,2) by (auto simp: order_le_less)
    moreover have "(\<lambda>n. (n, joined rest ?R n)) ` names_of rest ?R = (\<lambda>n. (n, joined locals remotes n)) ` names_of rest ?R"
      using same by (intro image_cong) (auto simp: names)
    moreover have "\<forall>x \<in> fst ` set (merge_join_loop rest ?R). name < x" unfolding IH(2) names by auto
    ultimately show ?thesis unfolding step using IH by simp
  qed
qed

section \<open>The result\<close>

definition refs_at :: "(remote_name, remote_view) btree \<Rightarrow> (remote_view \<Rightarrow> (ref_name, remote_ref) btree) \<Rightarrow>
    ref_name \<Rightarrow> (remote_name \<times> remote_ref) list" where
  "refs_at views f n =
     concat (map (\<lambda>(remote, v). case bt_get (f v) n of None \<Rightarrow> [] | Some r \<Rightarrow> [(remote, r)]) (entries views))"

lemma set_refs_at:
  "(remote, r) \<in> set (refs_at views f n) \<longleftrightarrow> (\<exists>v. bt_get views remote = Some v \<and> bt_get (f v) n = Some r)"
proof -
  have "(remote, r) \<in> set (refs_at views f n) \<longleftrightarrow>
      (\<exists>p \<in> set (entries views). fst p = remote \<and> bt_get (f (snd p)) n = Some r)"
    unfolding refs_at_def set_concat set_map image_image UN_iff
    by (intro bex_cong refl) (auto split: option.splits prod.splits)
  then show ?thesis by (auto simp: Bex_def in_entries_iff)
qed

lemma sorted_refs_at: "sorted_wrt (<) (map fst (refs_at views f n))"
proof -
  have "sorted_wrt (<) (map fst (concat (map (\<lambda>(remote, v). case bt_get (f v) n of None \<Rightarrow> []
      | Some r \<Rightarrow> [(remote, r)]) es)))" if "sorted_wrt (<) (map fst es)" for es
    using that by (induction es) (auto split: option.splits prod.splits)
  then show ?thesis unfolding refs_at_def using sorted_entries by blast
qed

lemma remote_refs_named_flatten:
  assumes "kmerge_law kmerge_by"
  shows "remote_refs_named n (flatten_remote_refs kmerge_by views f) = refs_at views f n"
proof (rule sorted_alist_eqI)
  let ?F = "flatten_remote_refs kmerge_by views f"
  note spec = flatten_remote_refs_spec[OF assms, of views f]
  have "sorted_wrt item_less (filter (\<lambda>(symbol, _). sym_name symbol = n) ?F)"
    using spec(2) by (rule sorted_wrt_filter)
  then have "sorted_wrt (\<lambda>a b. sym_remote (fst a) < sym_remote (fst b))
      (filter (\<lambda>(symbol, _). sym_name symbol = n) ?F)"
    by (rule sorted_wrt_mono_rel[rotated]) (clarsimp simp: symbol_less_def)
  then show "sorted_wrt (<) (map fst (remote_refs_named n ?F))"
    unfolding remote_refs_named_def by (simp add: sorted_wrt_map case_prod_beta)
  show "sorted_wrt (<) (map fst (refs_at views f n))" by (rule sorted_refs_at)
  have "(remote, r) \<in> set (remote_refs_named n ?F) \<longleftrightarrow>
      (\<exists>symbol. (symbol, r) \<in> set ?F \<and> sym_name symbol = n \<and> sym_remote symbol = remote)" for remote r
    by (force simp: remote_refs_named_def)
  also have "\<dots> remote r \<longleftrightarrow> (remote, r) \<in> set (refs_at views f n)" for remote r
    unfolding spec(1) in_view_refs set_refs_at
    by (metis remote_ref_symbol.select_convs)
  finally show "set (remote_refs_named n ?F) = set (refs_at views f n)" by auto
qed

lemma merge_join_ref_views_spec:
  assumes "kmerge_law kmerge_by"
  shows "sorted_wrt (<) (map fst (merge_join_ref_views kmerge_by locals views f)) \<and>
    set (merge_join_ref_views kmerge_by locals views f) =
      {(n, \<lparr>local_target = flatten_target (bt_get locals n), lr_remote_refs = refs_at views f n\<rparr>) | n.
        bt_get locals n \<noteq> None \<or> refs_at views f n \<noteq> []}"
proof -
  let ?F = "flatten_remote_refs kmerge_by views f"
  note spec = flatten_remote_refs_spec[OF assms, of views f]
  have join: "joined (entries locals) ?F n =
      \<lparr>local_target = flatten_target (bt_get locals n), lr_remote_refs = refs_at views f n\<rparr>" for n
    by (simp add: joined_def remote_refs_named_flatten[OF assms] bt_get_def)
  have "n \<in> names_of (entries locals) ?F \<longleftrightarrow> bt_get locals n \<noteq> None \<or> remote_refs_named n ?F \<noteq> []" for n
    by (auto simp: names_of_def remote_refs_named_def filter_empty_conv image_iff bt_get_def map_of_eq_None_iff)
  then have "names_of (entries locals) ?F = {n. bt_get locals n \<noteq> None \<or> refs_at views f n \<noteq> []}"
    unfolding remote_refs_named_flatten[OF assms] by auto
  then show ?thesis
    using merge_join_loop_spec[OF sorted_entries spec(2), of locals] unfolding merge_join_ref_views_def join
    by auto
qed

text \<open>The adaptor can be realised: inserting the items in order satisfies its law.\<close>

fun insert_by :: "('a \<Rightarrow> 'a \<Rightarrow> bool) \<Rightarrow> 'a \<Rightarrow> 'a list \<Rightarrow> 'a list" where
  "insert_by lt x [] = [x]"
| "insert_by lt x (y # ys) = (if lt y x then y # insert_by lt x ys else x # y # ys)"

definition kmerge_insert :: kmerge where
  "kmerge_insert lt its = foldr (insert_by lt) (concat its) []"

lemma mset_insert_by: "mset (insert_by lt x ys) = add_mset x (mset ys)"
  by (induction ys) auto

lemma sorted_insert_by:
  assumes "strict_weak_order lt"
  shows "sorted_wrt (\<lambda>a b. \<not> lt b a) ys \<Longrightarrow> sorted_wrt (\<lambda>a b. \<not> lt b a) (insert_by lt x ys)"
proof (induction ys)
  case (Cons y ys)
  have elems: "set (insert_by lt x ys) = insert x (set ys)"
    using mset_insert_by[of lt x ys] by (metis set_mset_add_mset_insert set_mset_mset)
  show ?case
  proof (cases "lt y x")
    case True
    then have "\<not> lt x y" using assms unfolding strict_weak_order_def by blast
    with True Cons elems show ?thesis by auto
  next
    case False
    have "\<not> lt z x" if "z \<in> set ys" for z
      using assms False Cons.prems that unfolding strict_weak_order_def by (metis sorted_wrt.simps(2))
    with False Cons.prems show ?thesis by auto
  qed
qed simp

lemma kmerge_insert_law: "kmerge_law kmerge_insert"
proof -
  have "mset (foldr (insert_by lt) xs []) = mset xs" for lt and xs :: "ref_item list"
    by (induction xs) (auto simp: mset_insert_by)
  moreover have "sorted_wrt (\<lambda>a b. \<not> lt b a) (foldr (insert_by lt) xs [])"
    if "strict_weak_order lt" for lt and xs :: "ref_item list"
    by (induction xs) (auto intro: sorted_insert_by[OF that])
  ultimately show ?thesis unfolding kmerge_law_def kmerge_insert_def by blast
qed

text \<open>
  Joining local references with the references of all remote views yields each name that
  occurs anywhere exactly once, in increasing order, with the local target (absent where there
  is none) and the reference of each remote that has the name, in the order of the remotes.
\<close>

theorem merge_join_ref_views_exact:
  assumes "kmerge_law kmerge_by"
  shows "sorted_wrt (<) (map fst (merge_join_ref_views kmerge_by locals views f)) \<and>
    set (merge_join_ref_views kmerge_by locals views f) =
      {(n, \<lparr>local_target = flatten_target (bt_get locals n), lr_remote_refs = refs_at views f n\<rparr>) | n.
        bt_get locals n \<noteq> None \<or> refs_at views f n \<noteq> []}"
  by (rule merge_join_ref_views_spec[OF assms])

definition sample_remote_ref :: remote_ref where
  "sample_remote_ref = \<lparr>rr_target = normal (CommitId [1]), rr_state = Tracked\<rparr>"

definition sample_remote_views :: "(remote_name, remote_view) btree" where
  "sample_remote_views =
     bt_insert ''origin'' (remote_view_default\<lparr>bookmarks := bt_insert ''main'' sample_remote_ref bt_empty\<rparr>) bt_empty"

theorem merge_join_ref_views_exact_witness:
  "(''main'', \<lparr>local_target = absent, lr_remote_refs = [(''origin'', sample_remote_ref)]\<rparr>)
     \<in> set (merge_join_ref_views kmerge_insert bt_empty sample_remote_views bookmarks)"
proof -
  have "refs_at sample_remote_views bookmarks ''main'' = [(''origin'', sample_remote_ref)]"
    by (simp add: refs_at_def sample_remote_views_def remote_view_default_def)
  with merge_join_ref_views_exact[OF kmerge_insert_law, of bt_empty sample_remote_views bookmarks]
  show ?thesis by (auto simp: flatten_target_def intro!: exI[of _ "''main''"])
qed

end
