(* ===== verification/Merge_Join.thy ===== *)
theory Merge_Join
  imports Jjosh_Prelude
begin

text \<open>
  The adaptor \<open>merge_join_by\<close> of itertools, which joins two sorted iterators, is a parameter of the
  functions that use it; \<open>merge_join_law\<close> states its documented rules and \<open>merge_join_ref\<close> obeys them.
\<close>

datatype ordering = Less | Equal | Greater

definition cmp :: "'k::linorder \<Rightarrow> 'k \<Rightarrow> ordering" where
  "cmp a b = (if a < b then Less else if a = b then Equal else Greater)"

datatype ('a, 'b) either_or_both = Both 'a 'b | Left 'a | Right 'b

type_synonym ('a, 'b) merge_join =
  "('a \<Rightarrow> 'b \<Rightarrow> ordering) \<Rightarrow> 'a list \<Rightarrow> 'b list \<Rightarrow> ('a, 'b) either_or_both list"

text \<open>The documented rules of the adaptor \<open>merge_join_by\<close> on the tips of the two iterators.\<close>

definition merge_join_law :: "('a, 'b) merge_join \<Rightarrow> bool" where
  "merge_join_law mj \<longleftrightarrow>
     (\<forall>f ys. mj f [] ys = map Right ys) \<and> (\<forall>f xs. mj f xs [] = map Left xs) \<and>
     (\<forall>f x xs y ys. mj f (x # xs) (y # ys) =
        (case f x y of
           Less \<Rightarrow> Left x # mj f xs (y # ys)
         | Greater \<Rightarrow> Right y # mj f (x # xs) ys
         | Equal \<Rightarrow> Both x y # mj f xs ys))"

fun merge_join_ref :: "('a, 'b) merge_join" where
  "merge_join_ref f [] ys = map Right ys"
| "merge_join_ref f xs [] = map Left xs"
| "merge_join_ref f (x # xs) (y # ys) =
     (case f x y of
        Less \<Rightarrow> Left x # merge_join_ref f xs (y # ys)
      | Greater \<Rightarrow> Right y # merge_join_ref f (x # xs) ys
      | Equal \<Rightarrow> Both x y # merge_join_ref f xs ys)"

lemma merge_join_ref_law: "merge_join_law merge_join_ref"
proof -
  have "merge_join_ref f xs [] = map Left xs" for f and xs :: "'a list" by (cases xs) auto
  then show ?thesis by (auto simp: merge_join_law_def split: ordering.splits)
qed

end
