(* ===== verification/Refs.thy ===== *)
theory Refs
  imports Op_Store Merge_Join
begin

text \<open>
  Comparing and merging references, \<open>jj/lib/src/refs.rs\<close>, with the fallible iterator helpers of
  \<open>jj/lib/src/iter_util.rs\<close>. The commit index is behind the trait \<open>Index\<close>: the functions take
  its \<open>is_ancestor\<close> as an argument, which may fail. The adaptor \<open>merge_join_by\<close> of itertools
  is a parameter (\<open>Merge_Join\<close>).
\<close>

section \<open>Iterator helpers\<close>

fun fallible_any :: "('a \<Rightarrow> ('e, bool) result) \<Rightarrow> 'a list \<Rightarrow> ('e, bool) result" where
  "fallible_any p [] = Inr False"
| "fallible_any p (x # xs) = res_bind (p x) (\<lambda>hit. if hit then Inr True else fallible_any p xs)"

fun fallible_find :: "('a \<Rightarrow> ('e, bool) result) \<Rightarrow> 'a list \<Rightarrow> ('e, 'a option) result" where
  "fallible_find p [] = Inr None"
| "fallible_find p (x # xs) = res_bind (p x) (\<lambda>hit. if hit then Inr (Some x) else fallible_find p xs)"

fun position_loop :: "('a \<Rightarrow> ('e, bool) result) \<Rightarrow> (nat \<times> 'a) list \<Rightarrow> ('e, nat option) result" where
  "position_loop p [] = Inr None"
| "position_loop p ((index, x) # xs) =
     res_bind (p x) (\<lambda>hit. if hit then Inr (Some index) else position_loop p xs)"

definition fallible_position :: "('a \<Rightarrow> ('e, bool) result) \<Rightarrow> 'a list \<Rightarrow> ('e, nat option) result" where
  "fallible_position p xs = position_loop p (enumerate 0 xs)"

section \<open>Comparing named references\<close>

definition iter_named_pairs ::
  "('k::linorder \<times> 'v, 'k \<times> 'w) merge_join \<Rightarrow> ('k \<times> 'v) list \<Rightarrow> ('k \<times> 'w) list \<Rightarrow> 'v \<Rightarrow> 'w \<Rightarrow>
   ('k \<times> 'v \<times> 'w) list" where
  "iter_named_pairs merge_join_by refs1 refs2 absent_ref1 absent_ref2 =
     map (\<lambda>entry. case entry of
            Both (name, target1) (_, target2) \<Rightarrow> (name, (target1, target2))
          | Left (name, target1) \<Rightarrow> (name, (target1, absent_ref2))
          | Right (name, target2) \<Rightarrow> (name, (absent_ref1, target2)))
       (merge_join_by (\<lambda>(name1, _) (name2, _). cmp name1 name2) refs1 refs2)"

definition diff_named_ref_targets ::
  "('k::linorder \<times> ref_target, 'k \<times> ref_target) merge_join \<Rightarrow>
   ('k \<times> ref_target) list \<Rightarrow> ('k \<times> ref_target) list \<Rightarrow> ('k \<times> ref_target \<times> ref_target) list" where
  "diff_named_ref_targets merge_join_by refs1 refs2 =
     filter (\<lambda>(_, (target1, target2)). target1 \<noteq> target2)
       (iter_named_pairs merge_join_by refs1 refs2 absent absent)"

definition diff_named_remote_refs ::
  "('k::linorder \<times> remote_ref, 'k \<times> remote_ref) merge_join \<Rightarrow>
   ('k \<times> remote_ref) list \<Rightarrow> ('k \<times> remote_ref) list \<Rightarrow> ('k \<times> remote_ref \<times> remote_ref) list" where
  "diff_named_remote_refs merge_join_by refs1 refs2 =
     filter (\<lambda>(_, (ref1, ref2)). ref1 \<noteq> ref2)
       (iter_named_pairs merge_join_by refs1 refs2 absent_remote_ref absent_remote_ref)"

definition iter_named_local_remote_refs ::
  "('k::linorder \<times> ref_target, 'k \<times> remote_ref) merge_join \<Rightarrow>
   ('k \<times> ref_target) list \<Rightarrow> ('k \<times> remote_ref) list \<Rightarrow> ('k \<times> ref_target \<times> remote_ref) list" where
  "iter_named_local_remote_refs merge_join_by refs1 refs2 =
     iter_named_pairs merge_join_by refs1 refs2 absent absent_remote_ref"

definition diff_named_commit_ids ::
  "('k::linorder \<times> CommitId option, 'k \<times> CommitId option) merge_join \<Rightarrow>
   ('k \<times> CommitId) list \<Rightarrow> ('k \<times> CommitId) list \<Rightarrow> ('k \<times> CommitId option \<times> CommitId option) list" where
  "diff_named_commit_ids merge_join_by ids1 ids2 =
     filter (\<lambda>(_, (target1, target2)). target1 \<noteq> target2)
       (iter_named_pairs merge_join_by
          (map (\<lambda>(k, v). (k, Some v)) ids1) (map (\<lambda>(k, v). (k, Some v)) ids2) None None)"

section \<open>Merging targets\<close>

type_synonym 'e ancestor_query = "CommitId \<Rightarrow> CommitId \<Rightarrow> ('e, bool) result"

text \<open>The choice of the add to remove among the two: the ancestor of the other.\<close>

definition choose_add ::
  "'e ancestor_query \<Rightarrow> nat \<times> CommitId option \<Rightarrow> nat \<times> CommitId option \<Rightarrow>
   ('e, (nat \<times> CommitId) option) result" where
  "choose_add is_ancestor p1 p2 =
     (case (p1, p2) of
        ((add_index1, Some id1), (add_index2, Some id2)) \<Rightarrow>
          if id1 = id2 then Inr (Some (add_index1, id1))
          else res_bind (is_ancestor id1 id2) (\<lambda>a.
               if a then Inr (Some (add_index1, id1))
               else res_bind (is_ancestor id2 id1) (\<lambda>b.
                    if b then Inr (Some (add_index2, id2)) else Inr None))
      | _ \<Rightarrow> Inr None)"

definition remove_position ::
  "'e ancestor_query \<Rightarrow> ref_target \<Rightarrow> CommitId \<Rightarrow> ('e, nat option) result" where
  "remove_position is_ancestor conflict add_id =
     fallible_position (\<lambda>remove. case remove of
         Some i \<Rightarrow> is_ancestor i add_id
       | None \<Rightarrow> Inr True) (removes conflict)"

text \<open>The two nested loops over the adds; the inner one runs over the adds after the first.\<close>

fun inner_pairs ::
  "'e ancestor_query \<Rightarrow> ref_target \<Rightarrow> nat \<times> CommitId option \<Rightarrow> (nat \<times> CommitId option) list \<Rightarrow>
   ('e, (nat \<times> nat) option) result" where
  "inner_pairs is_ancestor conflict p1 [] = Inr None"
| "inner_pairs is_ancestor conflict p1 (p2 # ps) =
     res_bind (choose_add is_ancestor p1 p2) (\<lambda>choice.
     case choice of
       None \<Rightarrow> inner_pairs is_ancestor conflict p1 ps
     | Some (add_index, add_id) \<Rightarrow>
         res_bind (remove_position is_ancestor conflict add_id) (\<lambda>position.
         case position of
           Some remove_index \<Rightarrow> Inr (Some (remove_index, add_index))
         | None \<Rightarrow> inner_pairs is_ancestor conflict p1 ps))"

fun outer_pairs ::
  "'e ancestor_query \<Rightarrow> ref_target \<Rightarrow> (nat \<times> CommitId option) list \<Rightarrow>
   ('e, (nat \<times> nat) option) result" where
  "outer_pairs is_ancestor conflict [] = Inr None"
| "outer_pairs is_ancestor conflict (p # ps) =
     res_bind (inner_pairs is_ancestor conflict p ps) (\<lambda>found.
     case found of
       Some pair \<Rightarrow> Inr (Some pair)
     | None \<Rightarrow> outer_pairs is_ancestor conflict ps)"

definition find_pair_to_remove ::
  "'e ancestor_query \<Rightarrow> ref_target \<Rightarrow> ('e, (nat \<times> nat) option) result" where
  "find_pair_to_remove is_ancestor conflict =
     outer_pairs is_ancestor conflict (enumerate 0 (adds conflict))"

text \<open>The loop ends because \<open>swap_remove\<close> shortens the merge; an error of the index ends it too.\<close>

lemma swap_remove_length:
  "swap_remove m r a = Returns (p, m') \<Longrightarrow> length (merge_values m') < length (merge_values m)"
  by (cases m) (auto simp: swap_remove_def vec_swap_remove_def exec_simps split: if_splits)

function merge_ref_targets_non_trivial ::
  "'e ancestor_query \<Rightarrow> ref_target \<Rightarrow> ('e, ref_target) result exec" where
  "merge_ref_targets_non_trivial is_ancestor conflict =
     (case find_pair_to_remove is_ancestor conflict of
        Inl e \<Rightarrow> Returns (Inl e)
      | Inr None \<Rightarrow> Returns (Inr conflict)
      | Inr (Some (remove_index, add_index)) \<Rightarrow>
          (case swap_remove conflict remove_index add_index of
             Panics \<Rightarrow> Panics
           | Returns (_, conflict') \<Rightarrow> merge_ref_targets_non_trivial is_ancestor conflict'))"
  by pat_completeness auto
termination
  by (relation "measure (\<lambda>(_, m). length (merge_values m))") (auto simp: swap_remove_length)

declare merge_ref_targets_non_trivial.simps [simp del]

definition merge_ref_targets ::
  "'e ancestor_query \<Rightarrow> ref_target \<Rightarrow> ref_target \<Rightarrow> ref_target \<Rightarrow> ('e, ref_target) result exec" where
  "merge_ref_targets is_ancestor left base right =
     exec_bind (trivial_merge [left, base, right] Accept) (\<lambda>trivial.
     case trivial of
       Some r \<Rightarrow> Returns (Inr r)
     | None \<Rightarrow>
         exec_bind (from_vec [left, base, right]) (\<lambda>nested.
         exec_bind (flatten nested) (\<lambda>flat.
         exec_bind (simplify flat) (\<lambda>m.
         exec_bind (resolve_trivial m Accept) (\<lambda>r.
         case r of
           Some v \<Rightarrow> Returns (Inr (resolved v))
         | None \<Rightarrow> merge_ref_targets_non_trivial is_ancestor m)))))"

text \<open>\<open>?\<close> after a call that may also panic.\<close>

definition try_exec :: "('e, 'a) result exec \<Rightarrow> ('a \<Rightarrow> ('e, 'b) result exec) \<Rightarrow> ('e, 'b) result exec" where
  "try_exec m f =
     (case m of Panics \<Rightarrow> Panics | Returns (Inl e) \<Rightarrow> Returns (Inl e) | Returns (Inr x) \<Rightarrow> f x)"

definition merge_remote_refs ::
  "'e ancestor_query \<Rightarrow> remote_ref \<Rightarrow> remote_ref \<Rightarrow> remote_ref \<Rightarrow> ('e, remote_ref) result exec" where
  "merge_remote_refs is_ancestor left base right =
     try_exec (merge_ref_targets is_ancestor (rr_target left) (rr_target base) (rr_target right)) (\<lambda>target.
     exec_bind (trivial_merge [rr_state left, rr_state base, rr_state right] Accept) (\<lambda>r.
     let state = (case r of Some s \<Rightarrow> s | None \<Rightarrow> rr_state base)
     in Returns (Inr \<lparr>rr_target = target, rr_state = state\<rparr>)))"

section \<open>Pushing\<close>

record local_and_remote_ref =
  la_local_target :: ref_target
  la_remote_ref :: remote_ref

datatype ref_push_action =
    Update "CommitId option diff"
  | AlreadyMatches
  | LocalConflicted
  | RemoteConflicted
  | RemoteUntracked

definition classify_ref_push_action :: "local_and_remote_ref \<Rightarrow> ref_push_action" where
  "classify_ref_push_action targets =
     (let local = la_local_target targets;
          remote = tracked_target (la_remote_ref targets)
      in if local = remote then AlreadyMatches
         else if \<not> is_resolved local then LocalConflicted
         else if \<not> is_resolved remote then RemoteConflicted
         else if remote_ref_is_present (la_remote_ref targets) \<and> \<not> is_tracked (la_remote_ref targets)
              then RemoteUntracked
         else Update (diff_new (as_normal remote) (as_normal local)))"

end
