(* ===== verification/Merge_Laws.thy ===== *)
theory Merge_Laws
  imports Merge_Expr
begin

text \<open>
  What the merge algebra guarantees. The specification of a merge is its signed count: the
  terms of \<open>Merge [a, r, b]\<close> mean \<open>a - r + b\<close>. The sections follow \<open>Merge_Expr\<close>:
  trivial resolution, simplification, the conversions, pair removal and flattening.
\<close>

section \<open>Trivial resolution\<close>

text \<open>
  The value a list of terms trivially resolves to: everything else cancels out and exactly one
  copy is left, or, when identical changes are accepted, the only other surviving value is a
  base that all sides changed in the same way.
\<close>

definition resolves_to :: "'a list \<Rightarrow> same_change \<Rightarrow> 'a \<Rightarrow> bool" where
  "resolves_to vs sc v \<longleftrightarrow>
     (\<forall>w. scount vs w = (if w = v then 1 else 0)) \<or>
     (sc = Accept \<and> 0 < scount vs v \<and>
        (\<exists>u. u \<noteq> v \<and> scount vs u \<noteq> 0 \<and> (\<forall>w. w \<noteq> u \<and> w \<noteq> v \<longrightarrow> scount vs w = 0)))"

definition counted :: "('a \<times> int) list \<Rightarrow> 'a \<Rightarrow> int" where
  "counted cs v = (case map_of cs v of None \<Rightarrow> 0 | Some c \<Rightarrow> c)"

lemma set_entry_add: "set (map fst (entry_add k n cs)) = insert k (set (map fst cs))"
  by (induction k n cs rule: entry_add.induct) auto

lemma distinct_entry_add: "distinct (map fst cs) \<Longrightarrow> distinct (map fst (entry_add k n cs))"
proof (induction k n cs rule: entry_add.induct)
  case (2 k n a c cs)
  then show ?case using set_entry_add[of k n cs] by auto
qed simp

lemma counted_entry_add:
  "counted (entry_add k n cs) v = counted cs v + (if v = k then n else 0)"
  by (induction k n cs rule: entry_add.induct) (auto simp: counted_def split: option.split)

lemma distinct_count_terms: "distinct (map fst cs) \<Longrightarrow> distinct (map fst (count_terms vs n cs))"
  by (induction vs n cs rule: count_terms.induct) (auto simp: distinct_entry_add)

lemma counted_count_terms: "counted (count_terms vs n cs) v = counted cs v + n * scount vs v"
  by (induction vs n cs rule: count_terms.induct) (auto simp: counted_entry_add algebra_simps)

lemma counted_Nil [simp]: "counted [] v = 0"
  by (simp add: counted_def)

definition live_counts :: "'a list \<Rightarrow> ('a \<times> int) list" where
  "live_counts vs = filter (\<lambda>(v, c). c \<noteq> 0) (count_terms vs 1 [])"

lemmas general_merge_live = general_merge_def [folded live_counts_def]

lemma distinct_live_counts: "distinct (map fst (live_counts vs))"
  unfolding live_counts_def by (rule distinct_map_filter) (simp add: distinct_count_terms)

lemma live_counts_iff: "(v, c) \<in> set (live_counts vs) \<longleftrightarrow> c = scount vs v \<and> c \<noteq> 0"
proof -
  let ?cs = "count_terms vs 1 []"
  have d: "distinct (map fst ?cs)" by (simp add: distinct_count_terms)
  have "counted ?cs v = scount vs v" by (simp add: counted_count_terms)
  then have "c = scount vs v \<and> c \<noteq> 0 \<longleftrightarrow> map_of ?cs v = Some c \<and> c \<noteq> 0"
    by (auto simp: counted_def split: option.splits)
  also have "\<dots> \<longleftrightarrow> (v, c) \<in> set ?cs \<and> c \<noteq> 0" using d by simp
  finally show ?thesis by (auto simp: live_counts_def)
qed

lemma sum_live_counts:
  assumes "odd (length vs)"
  shows "sum_list (map snd (live_counts vs)) = 1"
proof -
  let ?L = "live_counts vs"
  have snd_eq: "map snd ?L = map (\<lambda>(v, c). scount vs v) ?L"
    by (rule map_cong[OF refl]) (auto simp: live_counts_iff)
  have "sum_list (map snd ?L) = (\<Sum>(v, c)\<leftarrow>?L. scount vs v)"
    by (simp only: snd_eq)
  also have "\<dots> = sum_list (map (scount vs) (map fst ?L))"
    by (simp add: comp_def split_def)
  also have "\<dots> = (\<Sum>v\<in>set (map fst ?L). scount vs v)"
    using distinct_live_counts by (rule sum_list_distinct_conv_sum_set)
  also have "\<dots> = (\<Sum>v\<in>set vs. scount vs v)"
  proof (rule sum.mono_neutral_left)
    show "set (map fst ?L) \<subseteq> set vs"
      using live_counts_iff[of _ _ vs] scount_nonzero_in_set[of vs] by fastforce
    show "\<forall>v\<in>set vs - set (map fst ?L). scount vs v = 0"
      using live_counts_iff[of _ _ vs] by force
  qed simp
  also have "\<dots> = 1" using assms sum_scount[of "set vs" vs] by simp
  finally show ?thesis .
qed

lemma resolves_to_cases:
  assumes "live_counts vs = [(x, c)]" and "odd (length vs)"
  shows "resolves_to vs sc v \<longleftrightarrow> v = x" and "c = 1"
proof -
  show c: "c = 1" using sum_live_counts[OF assms(2)] unfolding assms(1) by simp
  have *: "w = x \<and> c' = c \<longleftrightarrow> c' = scount vs w \<and> c' \<noteq> 0" for w c'
    using live_counts_iff[of w c' vs] unfolding assms(1) by auto
  have "scount vs w = (if w = x then 1 else 0)" for w
    using *[of w "scount vs w"] *[of x c] c by (auto split: if_splits)
  then show "resolves_to vs sc v \<longleftrightarrow> v = x"
    by (auto simp: resolves_to_def split: if_splits)
qed

lemma resolves_to_two:
  assumes L: "live_counts vs = [(x, c), (y, d)]" and odd: "odd (length vs)"
  shows "resolves_to vs sc v \<longleftrightarrow> sc = Accept \<and> v = (if c > 0 then x else y)" and "c + d = 1"
proof -
  show cd: "c + d = 1" using sum_live_counts[OF odd] unfolding L by simp
  have xy: "x \<noteq> y" using distinct_live_counts[of vs] unfolding L by simp
  have *: "(w = x \<and> e = c) \<or> (w = y \<and> e = d) \<longleftrightarrow> e = scount vs w \<and> e \<noteq> 0" for w e
    using live_counts_iff[of w e vs] unfolding L by auto
  have sx: "scount vs x = c" "c \<noteq> 0" and sy: "scount vs y = d" "d \<noteq> 0"
    using *[of x c] *[of y d] by auto
  have others: "w \<noteq> x \<Longrightarrow> w \<noteq> y \<Longrightarrow> scount vs w = 0" for w
    using *[of w "scount vs w"] by auto
  have sw: "scount vs w = (if w = x then c else if w = y then d else 0)" for w
    using sx sy others by auto
  have no_single: "\<not> (\<forall>w. scount vs w = (if w = v then 1 else 0))" for v
    using sx sy xy by (metis (full_types))
  have pos: "scount vs v > 0 \<longleftrightarrow> v = (if c > 0 then x else y)" for v
    using sw[of v] cd sx(2) sy(2) xy by auto
  show "resolves_to vs sc v \<longleftrightarrow> sc = Accept \<and> v = (if c > 0 then x else y)"
  proof
    assume "resolves_to vs sc v"
    with no_single pos[of v] show "sc = Accept \<and> v = (if c > 0 then x else y)"
      by (auto simp: resolves_to_def)
  next
    assume *: "sc = Accept \<and> v = (if c > 0 then x else y)"
    let ?u = "if c > 0 then y else x"
    have "?u \<noteq> v" "scount vs ?u \<noteq> 0" "\<forall>w. w \<noteq> ?u \<and> w \<noteq> v \<longrightarrow> scount vs w = 0"
      using * xy sw sx sy by auto
    then show "resolves_to vs sc v"
      using * pos[of v] unfolding resolves_to_def by blast
  qed
qed

lemma general_merge_spec:
  assumes odd: "odd (length vs)"
  shows "\<exists>r. general_merge vs sc = Returns r \<and> (\<forall>v. r = Some v \<longleftrightarrow> resolves_to vs sc v)"
proof (cases "live_counts vs")
  case Nil
  with sum_live_counts[OF odd] show ?thesis by simp
next
  case (Cons p ps)
  obtain x c where p: "p = (x, c)" by force
  show ?thesis
  proof (cases ps)
    case Nil
    with Cons p have L: "live_counts vs = [(x, c)]" by simp
    show ?thesis
      using resolves_to_cases[OF L odd] by (auto simp: general_merge_live L)
  next
    case (Cons q qs)
    obtain y d where q: "q = (y, d)" by force
    show ?thesis
    proof (cases qs)
      case Nil
      with \<open>live_counts vs = p # ps\<close> Cons p q have L: "live_counts vs = [(x, c), (y, d)]" by simp
      show ?thesis
        using resolves_to_two[OF L odd] by (cases sc) (auto simp: general_merge_live L)
    next
      case (Cons z zs)
      with \<open>live_counts vs = p # ps\<close> \<open>ps = q # qs\<close>
      have L: "live_counts vs = p # q # z # zs" by simp
      have three: "fst p \<noteq> fst q" "fst p \<noteq> fst z" "fst q \<noteq> fst z"
        using distinct_live_counts[of vs] unfolding L by auto
      have nz: "scount vs (fst p) \<noteq> 0" "scount vs (fst q) \<noteq> 0" "scount vs (fst z) \<noteq> 0"
        using live_counts_iff[of "fst p" "snd p" vs] live_counts_iff[of "fst q" "snd q" vs]
          live_counts_iff[of "fst z" "snd z" vs] unfolding L by auto
      have "\<not> resolves_to vs sc v" for v
      proof
        assume "resolves_to vs sc v"
        then obtain u where "\<forall>w. w \<noteq> u \<and> w \<noteq> v \<longrightarrow> scount vs w = 0"
          unfolding resolves_to_def by (metis zero_neq_one)
        with three nz show False by metis
      qed
      then show ?thesis by (simp add: general_merge_live L split: prod.split)
    qed
  qed
qed

text \<open>The special cases for one and three terms compute what the general algorithm computes.\<close>

lemma trivial_merge_eq_general:
  assumes "odd (length vs)"
  shows "trivial_merge vs sc = general_merge vs sc"
proof -
  consider x where "vs = [x]" | a r b where "vs = [a, r, b]" | "length vs \<noteq> 1" "length vs \<noteq> 3"
    by (cases vs rule: step2.cases; cases "tl (tl vs)") (auto simp: numeral_3_eq_3)
  then show ?thesis
  proof cases
    case 1
    then show ?thesis by (simp add: trivial_merge_def general_merge_def)
  next
    case 2
    then show ?thesis by (cases sc) (auto simp: trivial_merge_def general_merge_def)
  next
    case 3
    then show ?thesis using assms
      by (auto simp: trivial_merge_def split: list.split)
  qed
qed

lemma trivial_merge_spec:
  assumes "odd (length vs)"
  shows "\<exists>r. trivial_merge vs sc = Returns r \<and> (\<forall>v. r = Some v \<longleftrightarrow> resolves_to vs sc v)"
  using general_merge_spec[OF assms] trivial_merge_eq_general[OF assms] by simp

lemma trivial_merge_Some_iff:
  "odd (length vs) \<Longrightarrow> trivial_merge vs sc = Returns (Some v) \<longleftrightarrow> resolves_to vs sc v"
  using trivial_merge_spec[of vs sc] by (metis exec.inject)

lemma resolves_to_in_set: "resolves_to vs sc v \<Longrightarrow> v \<in> set vs"
  by (rule scount_nonzero_in_set, unfold resolves_to_def, elim disjE allE[of _ v]) simp_all

lemma resolves_to_cong: "scount vs = scount ws \<Longrightarrow> resolves_to vs sc v = resolves_to ws sc v"
  by (simp add: resolves_to_def)

lemma trivial_merge_cong:
  assumes "odd (length vs)" and "odd (length ws)" and "scount vs = scount ws"
  shows "trivial_merge vs sc = trivial_merge ws sc"
proof -
  obtain r s where r: "trivial_merge vs sc = Returns r" "\<forall>v. r = Some v \<longleftrightarrow> resolves_to vs sc v"
    and s: "trivial_merge ws sc = Returns s" "\<forall>v. s = Some v \<longleftrightarrow> resolves_to ws sc v"
    using trivial_merge_spec assms by metis
  have "r = s" using r(2) s(2) resolves_to_cong[OF assms(3)] by (metis option.exhaust)
  with r s show ?thesis by simp
qed

section \<open>Positions of signed terms\<close>

text \<open>
  A list of terms as a multiset of its positive and one of its negative terms; \<open>scount\<close> is
  their difference.
\<close>

abbreviation pos_terms :: "'a list \<Rightarrow> 'a multiset" where
  "pos_terms vs \<equiv> mset (step2 vs)"

abbreviation neg_terms :: "'a list \<Rightarrow> 'a multiset" where
  "neg_terms vs \<equiv> mset (step2 (tl vs))"

lemma scount_terms: "scount vs v = int (count (pos_terms vs) v) - int (count (neg_terms vs) v)"
  by (simp add: scount_step2 count_mset)

lemma pos_terms_cancel:
  assumes "scount vs = scount ws" and "set (step2 ws) \<inter> set (step2 (tl ws)) = {}"
  shows "pos_terms ws = pos_terms vs - neg_terms vs" and "neg_terms ws = neg_terms vs - pos_terms vs"
proof -
  have *: "int (count (pos_terms vs) v) - int (count (neg_terms vs) v) =
           int (count (pos_terms ws) v) - int (count (neg_terms ws) v)" for v
    using assms(1) scount_terms[of vs v] scount_terms[of ws v] by simp
  have zero: "count (pos_terms ws) v = 0 \<or> count (neg_terms ws) v = 0" for v
    using assms(2) by (auto simp: count_eq_zero_iff)
  have "count (pos_terms ws) v = count (pos_terms vs) v - count (neg_terms vs) v" for v
    using *[of v] zero[of v] by linarith
  moreover have "count (neg_terms ws) v = count (neg_terms vs) v - count (pos_terms vs) v" for v
    using *[of v] zero[of v] by linarith
  ultimately show "pos_terms ws = pos_terms vs - neg_terms vs"
    and "neg_terms ws = neg_terms vs - pos_terms vs"
    by (auto intro!: multiset_eqI)
qed

lemma scount_drain2:
  "r + 1 < length ws \<Longrightarrow>
   scount (drain2 ws r) v =
     scount ws v - (if even r then 1 else - 1) *
       ((if ws ! r = v then 1 else 0) - (if ws ! (r + 1) = v then 1 else 0))"
proof -
  assume r: "r + 1 < length ws"
  have ws: "ws = take r ws @ ws ! r # ws ! (r + 1) # drop (r + 2) ws"
    using r by (metis (no_types, lifting) Suc_eq_plus1 Suc_lessD add_2_eq_Suc' append_take_drop_id Cons_nth_drop_Suc)
  have len: "min (length ws) r = r" using r by simp
  have "scount ws v = scount (take r ws @ ws ! r # ws ! (r + 1) # drop (r + 2) ws) v"
    using ws by simp
  then show ?thesis
    by (simp add: drain2_def scount_append len)
qed

lemma scount_update_swap_even:
  assumes "i < length ws" and "j < length ws" and "even (i + j)"
  shows "scount (ws[i := ws ! j, j := ws ! i]) v = scount ws v"
proof -
  have upd: "k < length us \<Longrightarrow> scount (us[k := x]) v =
      scount us v + (if even k then 1 else - 1) * ((if x = v then 1 else 0) - (if us ! k = v then 1 else 0))"
    for us :: "'a list" and k x
  proof (induction us arbitrary: k)
    case (Cons u us)
    then show ?case by (cases k) auto
  qed simp
  show ?thesis
    using assms upd[of i ws "ws ! j"] upd[of j "ws[i := ws ! j]" "ws ! i"]
    by (cases "i = j") (auto simp: nth_list_update)
qed

section \<open>Simplification\<close>

lemma set_odd_positions: "set (step2 [Suc 0..<n]) = {r. odd r \<and> r < n}"
proof -
  have "set (step2 [Suc 0..<n]) = {Suc i | i. i < n - 1 \<and> even i}"
  proof -
    have "x = [Suc 0..<n] ! i \<and> i < length [Suc 0..<n] \<and> even i \<longleftrightarrow> x = Suc i \<and> i < n - 1 \<and> even i"
      for x i by auto
    then show ?thesis unfolding set_step2 by simp
  qed
  also have "\<dots> = {r. odd r \<and> r < n}"
  proof (intro set_eqI iffI)
    fix r assume "r \<in> {r. odd r \<and> r < n}"
    then show "r \<in> {Suc i | i. i < n - 1 \<and> even i}" by (auto elim!: oddE)
  qed auto
  finally show ?thesis .
qed

lemma find_remove_Some:
  "find_remove vs ix x = Some r \<Longrightarrow> odd r \<and> r < length ix \<and> vs ! (ix ! r) = x"
proof -
  assume "find_remove vs ix x = Some r"
  then have "r \<in> set (step2 [Suc 0..<length ix]) \<and> vs ! (ix ! r) = x"
    unfolding find_remove_def by (auto simp: find_Some_iff)
  then show ?thesis by (simp add: set_odd_positions)
qed

lemma find_remove_None:
  "find_remove vs ix x = None \<Longrightarrow> odd r \<Longrightarrow> r < length ix \<Longrightarrow> vs ! (ix ! r) \<noteq> x"
  using set_odd_positions[of "length ix"] by (auto simp: find_remove_def find_None_iff)

lemma nth_drain2:
  "r + 1 < length xs \<Longrightarrow> i < length xs - 2 \<Longrightarrow>
   drain2 xs r ! i = xs ! (if i < r then i else i + 2)"
  by (auto simp: drain2_def nth_append add.commute)

lemma map_drain2: "map f (drain2 xs r) = drain2 (map f xs) r"
  by (simp add: drain2_def take_map drop_map)

lemma set_drain2: "set (drain2 xs r) \<subseteq> set xs"
  by (auto simp: drain2_def dest: in_set_takeD in_set_dropD)

lemma distinct_drain2: "distinct xs \<Longrightarrow> distinct (drain2 xs r)"
  by (simp add: drain2_def set_take_disj_set_drop_if_distinct)

text \<open>No positive term before position \<open>a\<close> occurs among the negative terms.\<close>

definition checked_upto :: "'a list \<Rightarrow> nat list \<Rightarrow> nat \<Rightarrow> bool" where
  "checked_upto vs ix a \<longleftrightarrow>
     (\<forall>j r. j < a \<longrightarrow> j < length ix \<longrightarrow> r < length ix \<longrightarrow> even j \<longrightarrow> odd r \<longrightarrow>
        vs ! (ix ! j) \<noteq> vs ! (ix ! r))"

definition cancel_pair :: "nat list \<Rightarrow> nat \<Rightarrow> nat \<Rightarrow> nat list" where
  "cancel_pair ix r a = drain2 (ix[r + 1 := ix ! a, a := ix ! (r + 1)]) r"

text \<open>One round of the loop that found the negative term \<open>r\<close> equal to the positive term \<open>a\<close>.\<close>

definition cancelable :: "'a list \<Rightarrow> nat list \<Rightarrow> nat \<Rightarrow> nat \<Rightarrow> bool" where
  "cancelable vs ix r a \<longleftrightarrow>
     odd (length ix) \<and> even a \<and> a < length ix \<and> odd r \<and> r < length ix \<and>
     vs ! (ix ! r) = vs ! (ix ! a)"

lemma cancelableD:
  assumes "cancelable vs ix r a"
  shows "odd (length ix)" "even a" "a < length ix" "odd r" "r < length ix" "r + 1 < length ix"
    "vs ! (ix ! r) = vs ! (ix ! a)" "r \<noteq> a"
proof -
  from assms show "odd (length ix)" "even a" "a < length ix" "odd r" "r < length ix"
    "vs ! (ix ! r) = vs ! (ix ! a)" "r \<noteq> a"
    by (auto simp: cancelable_def)
  then show "r + 1 < length ix" by presburger
qed

lemma swap_cancel:
  "cancelable vs ix r a \<Longrightarrow> swap ix (r + 1) a = Returns (ix[r + 1 := ix ! a, a := ix ! (r + 1)])"
  using cancelableD[of vs ix r a] by (simp add: swap_def)

lemma length_cancel: "cancelable vs ix r a \<Longrightarrow> length (cancel_pair ix r a) = length ix - 2"
  using cancelableD[of vs ix r a] by (simp add: cancel_pair_def length_drain2)

lemma odd_length_cancel: "cancelable vs ix r a \<Longrightarrow> odd (length (cancel_pair ix r a))"
  using cancelableD[of vs ix r a] length_cancel[of vs ix r a] by (auto elim!: oddE)

lemma set_cancel:
  assumes "cancelable vs ix r a"
  shows "set (cancel_pair ix r a) \<subseteq> set ix"
proof -
  have "set (ix[r + 1 := ix ! a, a := ix ! (r + 1)]) \<subseteq> set ix"
    using cancelableD[OF assms] by (auto dest!: set_update_subset_insert[THEN subsetD])
  then show ?thesis unfolding cancel_pair_def using set_drain2 by fastforce
qed

lemma distinct_cancel: "cancelable vs ix r a \<Longrightarrow> distinct ix \<Longrightarrow> distinct (cancel_pair ix r a)"
  using cancelableD[of vs ix r a] unfolding cancel_pair_def
  by (intro distinct_drain2) (simp add: distinct_swap)

lemma scount_cancel:
  assumes "cancelable vs ix r a"
  shows "scount (map ((!) vs) (cancel_pair ix r a)) v = scount (map ((!) vs) ix) v"
proof -
  note c = cancelableD[OF assms]
  let ?ws = "map ((!) vs) ix"
  let ?ws' = "?ws[r + 1 := ?ws ! a, a := ?ws ! (r + 1)]"
  have eq_ws': "map ((!) vs) (ix[r + 1 := ix ! a, a := ix ! (r + 1)]) = ?ws'"
    using c by (simp add: map_update)
  have same: "?ws' ! r = ?ws' ! (r + 1)"
    using c by (auto simp: nth_list_update)
  have "scount (drain2 ?ws' r) v = scount ?ws' v"
    using c same by (subst scount_drain2) auto
  also have "\<dots> = scount ?ws v"
    using c by (intro scount_update_swap_even) auto
  finally show ?thesis by (simp only: cancel_pair_def map_drain2 eq_ws')
qed

lemma nth_cancel:
  assumes "cancelable vs ix r a" and "i < length ix - 2"
  shows "cancel_pair ix r a ! i =
    (let p = (if i < r then i else i + 2) in if p = a then ix ! (r + 1) else ix ! p)"
  using assms(2) cancelableD[OF assms(1)]
  by (auto simp: cancel_pair_def nth_drain2 nth_list_update Let_def)

text \<open>The loop only ever moves a term to a position of the same sign.\<close>

definition same_signs :: "nat list \<Rightarrow> bool" where
  "same_signs ix \<longleftrightarrow> (\<forall>i < length ix. even (ix ! i) = even i)"

lemma same_signs_cancel:
  assumes "cancelable vs ix r a" and "same_signs ix"
  shows "same_signs (cancel_pair ix r a)"
  unfolding same_signs_def
proof (intro allI impI)
  fix i assume i: "i < length (cancel_pair ix r a)"
  then have "i < length ix - 2" using length_cancel[OF assms(1)] by simp
  then show "even (cancel_pair ix r a ! i) = even i"
    using cancelableD[OF assms(1)] assms(2) nth_cancel[OF assms(1), of i]
    by (auto simp: same_signs_def Let_def)
qed

lemma checked_cancel:
  assumes cn: "cancelable vs ix r a" and ch: "checked_upto vs ix a"
  shows "checked_upto vs (cancel_pair ix r a) a"
  unfolding checked_upto_def
proof (intro allI impI)
  note c = cancelableD[OF cn]
  fix j q
  assume j: "j < a" "j < length (cancel_pair ix r a)" "even j"
    and q: "q < length (cancel_pair ix r a)" "odd q"
  let ?p = "if j < r then j else j + 2"
  let ?q = "if q < r then q else q + 2"
  have jq: "j < length ix - 2" "q < length ix - 2" using j q length_cancel[OF cn] by auto
  have q': "cancel_pair ix r a ! q = ix ! ?q" "odd ?q" "?q < length ix"
    using nth_cancel[OF cn jq(2)] q c jq by (auto simp: Let_def)
  have j2: "j + 2 \<le> a" using j c by (auto elim!: evenE)
  show "vs ! (cancel_pair ix r a ! j) \<noteq> vs ! (cancel_pair ix r a ! q)"
  proof (cases "?p = a")
    case True
    then have "r \<le> j" "j + 2 = a" using j by (auto split: if_splits)
    then have "cancel_pair ix r a ! j = ix ! (r + 1)" "r + 1 < a"
      using nth_cancel[OF cn jq(1)] by (auto simp: Let_def)
    then show ?thesis
      using ch q' c unfolding checked_upto_def by auto
  next
    case False
    then have "cancel_pair ix r a ! j = ix ! ?p" using nth_cancel[OF cn jq(1)] by (simp add: Let_def)
    moreover have "?p < a" "even ?p" "?p < length ix" using False j j2 jq by auto
    ultimately show ?thesis using ch q' unfolding checked_upto_def by metis
  qed
qed

lemma simplify_loop_spec:
  assumes "odd (length ix)" and "even a" and "checked_upto vs ix a"
  shows "\<exists>ix'. simplify_loop vs ix a = Returns ix' \<and> odd (length ix') \<and> set ix' \<subseteq> set ix \<and>
     (distinct ix \<longrightarrow> distinct ix') \<and> (same_signs ix \<longrightarrow> same_signs ix') \<and>
     scount (map ((!) vs) ix') = scount (map ((!) vs) ix) \<and> checked_upto vs ix' (length ix')"
  using assms
proof (induction vs ix a rule: simplify_loop.induct)
  case (1 vs ix a)
  show ?case
  proof (cases "a < length ix")
    case False
    with 1 show ?thesis by (auto simp: simplify_loop.simps[of vs ix a] checked_upto_def)
  next
    case True
    show ?thesis
    proof (cases "find_remove vs ix (vs ! (ix ! a))")
      case None
      have "checked_upto vs ix (a + 2)"
        unfolding checked_upto_def
      proof (intro allI impI)
        fix j r assume j: "j < a + 2" "j < length ix" "r < length ix" "even j" "odd r"
        then have "j < a \<or> j = a" using 1(4) by presburger
        then show "vs ! (ix ! j) \<noteq> vs ! (ix ! r)"
          using j 1(5) find_remove_None[OF None] unfolding checked_upto_def by metis
      qed
      with 1(1)[OF True None] 1(3-4) show ?thesis
        using True None by (simp add: simplify_loop.simps[of vs ix a])
    next
      case (Some r)
      then have cn: "cancelable vs ix r a"
        using find_remove_Some[OF Some] True 1(3,4) by (simp add: cancelable_def)
      note step = 1(2)[OF True Some swap_cancel[OF cn], folded cancel_pair_def]
      from step[OF odd_length_cancel[OF cn] 1(4) checked_cancel[OF cn 1(5)]]
      obtain ix' where "simplify_loop vs (cancel_pair ix r a) a = Returns ix'" "odd (length ix')"
        "set ix' \<subseteq> set (cancel_pair ix r a)" "distinct (cancel_pair ix r a) \<longrightarrow> distinct ix'"
        "same_signs (cancel_pair ix r a) \<longrightarrow> same_signs ix'"
        "scount (map ((!) vs) ix') = scount (map ((!) vs) (cancel_pair ix r a))"
        "checked_upto vs ix' (length ix')"
        by blast
      moreover have "simplify_loop vs ix a = simplify_loop vs (cancel_pair ix r a) a"
        using True Some swap_cancel[OF cn] by (simp add: simplify_loop.simps[of vs ix a] cancel_pair_def)
      ultimately show ?thesis
        using set_cancel[OF cn] distinct_cancel[OF cn] same_signs_cancel[OF cn] scount_cancel[OF cn]
        by auto
    qed
  qed
qed

text \<open>
  What the mapping of \<open>get_simplified_mapping\<close> is: distinct positions of the merge, each at a
  place of the same sign, such that the mapped terms have the same signed counts and no value
  is left on both sides.
\<close>

definition simplifies :: "'a list \<Rightarrow> nat list \<Rightarrow> bool" where
  "simplifies vs ix \<longleftrightarrow>
     odd (length ix) \<and> distinct ix \<and> set ix \<subseteq> {..<length vs} \<and> same_signs ix \<and>
     scount (map ((!) vs) ix) = scount vs \<and> checked_upto vs ix (length ix)"

lemma get_simplified_mapping_spec:
  assumes "merge_ok m"
  shows "\<exists>ix. get_simplified_mapping m = Returns ix \<and> simplifies (merge_values m) ix"
proof -
  let ?vs = "merge_values m" and ?ix = "[0..<length (merge_values m)]"
  have "odd (length ?ix)" "even (0::nat)" "checked_upto ?vs ?ix 0" "same_signs ?ix"
    using assms by (auto simp: merge_ok_def checked_upto_def same_signs_def)
  moreover have "map ((!) ?vs) ?ix = ?vs" by (rule map_nth)
  ultimately show ?thesis
    using simplify_loop_spec[of ?ix 0 ?vs]
    by (fastforce simp: get_simplified_mapping_def simplifies_def)
qed

lemma checked_disjoint:
  assumes "checked_upto vs ix (length ix)"
  shows "set (step2 (map ((!) vs) ix)) \<inter> set (step2 (tl (map ((!) vs) ix))) = {}"
proof -
  have "False" if "x \<in> set (step2 (map ((!) vs) ix))" "x \<in> set (step2 (tl (map ((!) vs) ix)))" for x
  proof -
    from that(1) obtain j where j: "j < length ix" "even j" "x = vs ! (ix ! j)"
      by (auto simp: set_step2)
    from that(2) obtain r where r: "r < length ix" "odd r" "x = vs ! (ix ! r)"
      by (auto simp: set_step2_tl)
    show False using assms j r unfolding checked_upto_def by metis
  qed
  then show ?thesis by blast
qed

lemma removes_tl: "removes m = step2 (tl (merge_values m))"
  by (simp add: removes_def drop_Suc)

lemma merge_scount:
  "scount (merge_values m) v = int (count (mset (adds m)) v) - int (count (mset (removes m)) v)"
  by (simp add: scount_terms adds_def removes_tl)

lemma simplify_spec:
  assumes "merge_ok m"
  obtains m' where "simplify m = Returns m'" and "merge_ok m'"
    and "scount (merge_values m') = scount (merge_values m)"
    and "set (adds m') \<inter> set (removes m') = {}"
proof -
  obtain ix where ix: "get_simplified_mapping m = Returns ix" "simplifies (merge_values m) ix"
    using get_simplified_mapping_spec[OF assms] by blast
  let ?m' = "apply_simplified_mapping m ix"
  have "simplify m = Returns ?m'" by (simp add: simplify_def ix)
  moreover have "merge_ok ?m'" "scount (merge_values ?m') = scount (merge_values m)"
    using ix by (simp_all add: apply_simplified_mapping_def simplifies_def merge_ok_def)
  moreover have "set (adds ?m') \<inter> set (removes ?m') = {}"
    using ix checked_disjoint[of "merge_values m" ix]
    by (simp add: apply_simplified_mapping_def simplifies_def adds_def removes_tl)
  ultimately show ?thesis using that by blast
qed

lemma simplify_loop_id:
  assumes "checked_upto vs ix (length ix)" and "even a"
  shows "simplify_loop vs ix a = Returns ix"
  using assms
proof (induction vs ix a rule: simplify_loop.induct)
  case (1 vs ix a)
  show ?case
  proof (cases "a < length ix")
    case True
    have "find_remove vs ix (vs ! (ix ! a)) = None"
    proof (rule ccontr)
      assume "find_remove vs ix (vs ! (ix ! a)) \<noteq> None"
      then obtain r where "odd r" "r < length ix" "vs ! (ix ! r) = vs ! (ix ! a)"
        using find_remove_Some[of vs ix "vs ! (ix ! a)"] by blast
      with 1(3,4) True show False unfolding checked_upto_def by metis
    qed
    with 1(1)[OF True this] 1(3,4) True show ?thesis by (simp add: simplify_loop.simps[of vs ix a])
  qed (simp add: simplify_loop.simps[of vs ix a])
qed

lemma checked_of_disjoint:
  assumes "set (adds m) \<inter> set (removes m) = {}"
  shows "checked_upto (merge_values m) [0..<length (merge_values m)] (length (merge_values m))"
  unfolding checked_upto_def
proof (intro allI impI)
  fix j r assume *: "j < length (merge_values m)" "j < length [0..<length (merge_values m)]"
    "r < length [0..<length (merge_values m)]" "even j" "odd r"
  have "merge_values m ! j \<in> set (adds m)" using * by (auto simp: adds_def set_step2)
  moreover have "merge_values m ! r \<in> set (removes m)"
    using * by (auto simp: removes_tl set_step2_tl)
  ultimately show "merge_values m ! ([0..<length (merge_values m)] ! j) \<noteq>
      merge_values m ! ([0..<length (merge_values m)] ! r)"
    using assms * by auto
qed

lemma simplify_id:
  assumes "set (adds m) \<inter> set (removes m) = {}"
  shows "simplify m = Returns m"
  using simplify_loop_id[of "merge_values m" "[0..<length (merge_values m)]" 0]
    checked_of_disjoint[OF assms]
  by (simp add: simplify_def get_simplified_mapping_def apply_simplified_mapping_def map_nth)

section \<open>Writing a simplified merge back\<close>

lemma scount_sum:
  "scount vs v = (\<Sum>p < length vs. (if even p then 1 else - 1) * (if vs ! p = v then 1 else 0))"
proof (induction vs)
  case (Cons x xs)
  have "(\<Sum>p < length (x # xs). (if even p then 1 else - 1) * (if (x # xs) ! p = v then 1 else 0)) =
        (if x = v then 1 else 0) +
        (\<Sum>p < length xs. (if even (Suc p) then 1 else - 1) * (if xs ! p = v then 1 else (0::int)))"
    by (simp add: sum.lessThan_Suc_shift del: sum.lessThan_Suc)
  also have "(\<Sum>p < length xs. (if even (Suc p) then 1 else - 1) * (if xs ! p = v then 1 else (0::int))) =
        - (\<Sum>p < length xs. (if even p then 1 else - 1) * (if xs ! p = v then 1 else 0))"
    unfolding sum_negf[symmetric] by (rule sum.cong) auto
  finally show ?case using Cons by simp
qed simp

abbreviation term_at :: "'a list \<Rightarrow> 'a \<Rightarrow> nat \<Rightarrow> int" where
  "term_at vs v p \<equiv> (if even p then 1 else - 1) * (if vs ! p = v then 1 else 0)"

lemma scount_mapped:
  assumes "distinct ix" and "same_signs ix"
  shows "scount (map ((!) vs) ix) v = (\<Sum>p\<in>set ix. term_at vs v p)"
proof -
  have "scount (map ((!) vs) ix) v = (\<Sum>i < length ix. term_at vs v (ix ! i))"
    unfolding scount_sum using assms(2) by (intro sum.cong) (auto simp: same_signs_def)
  also have "\<dots> = (\<Sum>p\<in>set ix. term_at vs v p)"
    by (simp add: sum_list_distinct_conv_sum_set[OF assms(1), symmetric] sum_list_sum_nth
        atLeast0LessThan)
  finally show ?thesis .
qed

lemma fold_update_length:
  "length (fold (\<lambda>(i, v) vs. vs[i := v]) upds vs) = length vs"
  by (induction upds arbitrary: vs) auto

lemma fold_update_nth_other:
  "p \<notin> set (map fst upds) \<Longrightarrow> fold (\<lambda>(i, v) vs. vs[i := v]) upds vs ! p = vs ! p"
  by (induction upds arbitrary: vs) (auto simp: nth_list_update)

lemma fold_update_nth:
  assumes "distinct ix" and "set ix \<subseteq> {..<length vs}" and "length ix = length ws" and "i < length ix"
  shows "fold (\<lambda>(i, v) vs. vs[i := v]) (zip ix ws) vs ! (ix ! i) = ws ! i"
  using assms
proof (induction ix arbitrary: vs ws i)
  case (Cons p ix)
  then obtain w ws' where ws: "ws = w # ws'" by (cases ws) auto
  show ?case
  proof (cases i)
    case 0
    with Cons ws show ?thesis by (simp add: fold_update_nth_other)
  next
    case (Suc j)
    with Cons ws show ?thesis by simp
  qed
qed simp

lemma update_from_simplified_spec:
  assumes "merge_ok m" and map: "get_simplified_mapping m = Returns ix"
    and len: "length ix = length (merge_values s)"
  obtains u where "update_from_simplified m s = Returns u"
    and "length (merge_values u) = length (merge_values m)"
    and "apply_simplified_mapping u ix = s"
    and "\<And>p. p \<notin> set ix \<Longrightarrow> merge_values u ! p = merge_values m ! p"
proof -
  let ?vs = "merge_values m" and ?ws = "merge_values s"
  let ?us = "fold (\<lambda>(index, v) vs. vs[index := v]) (zip ix ?ws) ?vs"
  have ix: "distinct ix" "set ix \<subseteq> {..<length ?vs}"
    using get_simplified_mapping_spec[OF assms(1)] map by (auto simp: simplifies_def)
  have "map ((!) ?us) ix = ?ws"
    by (rule nth_equalityI) (simp_all add: len fold_update_nth[OF ix len] del: fold_simps)
  then have "apply_simplified_mapping (Merge ?us) ix = s"
    by (simp add: apply_simplified_mapping_def)
  moreover have "p \<notin> set ix \<Longrightarrow> ?us ! p = ?vs ! p" for p
    by (rule fold_update_nth_other) (simp add: len)
  moreover have "update_from_simplified m s = Returns (Merge ?us)"
    by (simp add: update_from_simplified_def map len)
  ultimately show ?thesis using that[of "Merge ?us"] by (simp add: fold_update_length)
qed

text \<open>The terms that simplification drops cancel, so writing new sides back keeps their meaning.\<close>

lemma update_from_simplified_scount:
  fixes m u :: "'a merge"
  assumes ok: "merge_ok m" and map: "get_simplified_mapping m = Returns ix"
    and len: "length (merge_values u) = length (merge_values m)"
    and other: "\<And>p. p \<notin> set ix \<Longrightarrow> merge_values u ! p = merge_values m ! p"
  shows "scount (merge_values u) = scount (map ((!) (merge_values u)) ix)"
proof (rule ext)
  fix v :: 'a
  let ?us = "merge_values u" and ?vs = "merge_values m"
  let ?N = "{..<length ?vs}"
  have ix: "distinct ix" "set ix \<subseteq> ?N" "same_signs ix" "scount (map ((!) ?vs) ix) = scount ?vs"
    using get_simplified_mapping_spec[OF ok] map by (auto simp: simplifies_def)
  have split: "scount ws v = (\<Sum>p\<in>set ix. term_at ws v p) + (\<Sum>p\<in>?N - set ix. term_at ws v p)"
    if "length ws = length ?vs" for ws
    unfolding scount_sum that using ix(2) by (simp add: sum.subset_diff add.commute)
  have "(\<Sum>p\<in>?N - set ix. term_at ?us v p) = (\<Sum>p\<in>?N - set ix. term_at ?vs v p)"
    by (rule sum.cong) (simp_all add: other)
  also have "\<dots> = 0"
    using split[of ?vs] scount_mapped[OF ix(1,3), of ?vs v] ix(4) by simp
  finally show "scount ?us v = scount (map ((!) ?us) ix) v"
    using split[of ?us] scount_mapped[OF ix(1,3), of ?us v] len by simp
qed

section \<open>Conversions\<close>

lemma into_removes_adds_eq: "into_removes_adds m = (removes m, adds m)"
proof -
  have gen: "map snd (filter (\<lambda>(n, _). odd n) (enumerate k vs)) =
             step2 (if odd k then vs else tl vs) \<and>
             map snd (filter (\<lambda>(n, _). even n) (enumerate k vs)) =
             step2 (if even k then vs else tl vs)" for k and vs :: "'a list"
    by (induction vs arbitrary: k) (auto simp: step2_Cons)
  have pred: "(\<lambda>(n::nat, _::'a). n mod 2 = 1) = (\<lambda>(n, _). odd n)"
    "Not \<circ> (\<lambda>(n::nat, _::'a). odd n) = (\<lambda>(n, _). even n)"
    by (auto simp: fun_eq_iff odd_iff_mod_2_eq_one)
  show ?thesis
    using gen[of 0 "merge_values m"]
    by (simp only: into_removes_adds_def pred partition_filter_conv Let_def case_prod_conv
        removes_tl adds_def) simp
qed

lemma zip_both_step2:
  "even (length vs) \<Longrightarrow> zip_both (step2 vs) (step2 (tl vs)) = Returns vs"
  by (induction vs rule: step2.induct) (auto simp: step2_Cons)

lemma from_removes_adds_roundtrip:
  "merge_ok m \<Longrightarrow> from_removes_adds (removes m) (adds m) = Returns m"
  by (cases m; cases "merge_values m")
    (auto simp: merge_ok_def from_removes_adds_def removes_tl adds_def step2_Cons zip_both_step2)

lemma legacy_loop_pairs: "legacy_loop (legacy_pairs rs as) = Returns (rs, as)"
  by (induction rs as rule: legacy_pairs.induct) auto

lemma legacy_roundtrip: "into_legacy_form (from_legacy_form rs as) = Returns (rs, as)"
  by (cases as) (simp_all add: into_legacy_form_def from_legacy_form_def legacy_loop_pairs)

lemma odd_length_legacy: "merge_ok (from_legacy_form rs as)"
proof -
  have "even (length (legacy_pairs rs as))" for as :: "'a list"
    by (induction rs as rule: legacy_pairs.induct) auto
  then show ?thesis by (auto simp: merge_ok_def from_legacy_form_def split: list.split)
qed

lemma zip_unzip: "merge_zip m n = Returns z \<Longrightarrow> merge_unzip z = (m, n)"
  by (cases m; cases n) (auto simp: merge_zip_def merge_unzip_def split: if_splits)

section \<open>Removing a pair of terms\<close>

lemma step2_update_even: "step2 (xs[2 * i := x]) = (step2 xs)[i := x]"
proof (induction xs arbitrary: i rule: step2.induct)
  case (2 y)
  then show ?case by (cases i) auto
next
  case (3 y z zs)
  then show ?case by (cases i) auto
qed simp

lemma step2_tl_update_even: "step2 (tl (xs[2 * i := x])) = step2 (tl xs)"
proof (induction xs arbitrary: i rule: step2.induct)
  case (2 y)
  then show ?case by (cases i) auto
next
  case (3 y z zs)
  then show ?case by (cases i) (auto simp: step2_Cons)
qed simp

lemma step2_update_odd: "step2 (xs[2 * i + 1 := x]) = step2 xs"
proof (induction xs arbitrary: i rule: step2.induct)
  case (3 y z zs)
  then show ?case by (cases i) auto
qed auto

lemma step2_tl_update_odd: "step2 (tl (xs[2 * i + 1 := x])) = (step2 (tl xs))[i := x]"
  using step2_update_even[of "tl xs" i x] by (cases xs) auto

lemma step2_butlast_odd: "odd (length xs) \<Longrightarrow> step2 (butlast xs) = butlast (step2 xs)"
proof (induction xs rule: step2.induct)
  case (3 x y zs)
  then have "zs \<noteq> []" by auto
  with 3 show ?case by simp
qed simp_all

lemma step2_butlast_even: "even (length xs) \<Longrightarrow> step2 (butlast xs) = step2 xs"
  by (induction xs rule: step2.induct) auto

lemma last_step2_odd: "odd (length xs) \<Longrightarrow> last (step2 xs) = last xs"
proof (induction xs rule: step2.induct)
  case (3 x y zs)
  then have "zs \<noteq> []" by auto
  with 3 show ?case by simp
qed simp_all

lemma mset_butlast_update:
  assumes "i < length xs"
  shows "mset (butlast (xs[i := last xs])) = mset xs - {#xs ! i#}"
proof -
  have ne: "xs \<noteq> []" "xs[i := last xs] \<noteq> []" using assms by auto
  have "last (xs[i := last xs]) = last xs"
    using ne(1) by (simp add: last_list_update)
  then have "add_mset (last xs) (mset (butlast (xs[i := last xs]))) = mset (xs[i := last xs])"
    using append_butlast_last_id[OF ne(2)] by (metis add_mset_add_single mset_append mset_single_iff mset.simps)
  also have "\<dots> = add_mset (last xs) (mset xs - {#xs ! i#})"
    using assms by (simp add: mset_update)
  finally show ?thesis by simp
qed

lemma vec_swap_remove_add:
  assumes "odd (length vs)" and "i < length (step2 vs)"
  shows "\<exists>ws. vec_swap_remove vs (i * 2) = Returns (step2 vs ! i, ws) \<and>
    length ws = length vs - 1 \<and> mset (step2 ws) = mset (step2 vs) - {#step2 vs ! i#} \<and>
    step2 (tl ws) = step2 (tl vs)"
proof -
  have i: "2 * i < length vs" using assms by (auto simp: length_step2 elim!: oddE)
  have odd': "odd (length (vs[2 * i := last vs]))" using assms(1) by simp
  let ?ws = "butlast (vs[2 * i := last vs])"
  have "step2 ?ws = butlast ((step2 vs)[i := last (step2 vs)])"
    using step2_butlast_odd[OF odd'] by (simp add: step2_update_even last_step2_odd[OF assms(1)])
  then have "mset (step2 ?ws) = mset (step2 vs) - {#step2 vs ! i#}"
    using mset_butlast_update[OF assms(2)] by simp
  moreover have "step2 (tl ?ws) = step2 (tl vs)"
    using assms(1) step2_butlast_even[of "tl (vs[2 * i := last vs])"]
    by (simp add: butlast_tl step2_tl_update_even)
  ultimately show ?thesis
    using i nth_step2[OF assms(2)] by (simp add: vec_swap_remove_def mult.commute)
qed

lemma vec_swap_remove_remove:
  assumes "even (length vs)" and "i < length (step2 (tl vs))"
  shows "\<exists>ws. vec_swap_remove vs (i * 2 + 1) = Returns (step2 (tl vs) ! i, ws) \<and>
    length ws = length vs - 1 \<and> mset (step2 (tl ws)) = mset (step2 (tl vs)) - {#step2 (tl vs) ! i#} \<and>
    step2 ws = step2 vs"
proof -
  have i: "2 * i + 1 < length vs" using assms by (simp add: length_step2)
  have ev': "even (length (vs[2 * i + 1 := last vs]))" using assms(1) by simp
  let ?ws = "butlast (vs[2 * i + 1 := last vs])"
  have ne: "tl vs \<noteq> []" "odd (length (tl vs))" using i assms(1) by (cases vs; auto)+
  have last_eq: "last vs = last (step2 (tl vs))"
    using last_step2_odd[OF ne(2)] ne(1) by (simp add: last_tl)
  have "step2 (tl ?ws) = butlast ((step2 (tl vs))[i := last vs])"
    using step2_butlast_odd[of "tl (vs[2 * i + 1 := last vs])"] ne(2)
    by (simp only: butlast_tl step2_tl_update_odd) (simp add: butlast_tl)
  then have "mset (step2 (tl ?ws)) = mset (step2 (tl vs)) - {#step2 (tl vs) ! i#}"
    using mset_butlast_update[OF assms(2)] by (simp only: last_eq)
  moreover have "step2 ?ws = step2 vs"
    using step2_butlast_even[OF ev'] step2_update_odd[of vs i "last vs"] by simp
  moreover have "step2 (tl vs) ! i = vs ! (i * 2 + 1)"
    using nth_step2[OF assms(2)] i by (simp add: nth_tl mult.commute)
  ultimately show ?thesis
    using i by (simp add: vec_swap_remove_def mult.commute)
qed

lemma swap_remove_spec:
  assumes ok: "merge_ok m" and r: "ri < length (removes m)" and a: "ai < length (adds m)"
  obtains m' where "swap_remove m ri ai = Returns ((removes m ! ri, adds m ! ai), m')"
    and "merge_ok m'" and "length (merge_values m') + 2 = length (merge_values m)"
    and "mset (adds m') = mset (adds m) - {#adds m ! ai#}"
    and "mset (removes m') = mset (removes m) - {#removes m ! ri#}"
proof -
  let ?vs = "merge_values m"
  obtain ws where ws: "vec_swap_remove ?vs (ai * 2) = Returns (adds m ! ai, ws)"
    "length ws = length ?vs - 1" "mset (step2 ws) = mset (adds m) - {#adds m ! ai#}"
    "step2 (tl ws) = removes m"
    using vec_swap_remove_add[of ?vs ai] ok a by (auto simp: adds_def removes_tl merge_ok_def)
  have "even (length ws)" "ri < length (step2 (tl ws))"
    using ok ws r by (auto simp: merge_ok_def elim!: oddE)
  then obtain xs where xs: "vec_swap_remove ws (ri * 2 + 1) = Returns (removes m ! ri, xs)"
    "length xs = length ws - 1" "mset (step2 (tl xs)) = mset (removes m) - {#removes m ! ri#}"
    "step2 xs = step2 ws"
    using vec_swap_remove_remove[of ws ri] ws(4) by auto
  have len: "length xs + 2 = length ?vs"
    using ws(2) xs(2) r ok by (auto simp: removes_tl length_step2 merge_ok_def)
  show ?thesis
  proof (rule that[of "Merge xs"])
    show "swap_remove m ri ai = Returns ((removes m ! ri, adds m ! ai), Merge xs)"
      using ws(1) xs(1) by (simp add: swap_remove_def)
    show "merge_ok (Merge xs)" using len ok by (auto simp: merge_ok_def) presburger
  qed (use len ws xs in \<open>simp_all add: adds_def removes_tl\<close>)
qed

section \<open>Flattening\<close>

lemma swap_pairs_even: "even (length xs) \<Longrightarrow>
  length (swap_pairs xs) = length xs \<and> scount (swap_pairs xs) v = - scount xs v \<and>
  swap_pairs (xs @ [x]) = swap_pairs xs @ [x]"
  by (induction xs rule: swap_pairs.induct) auto

lemma negate_terms_spec:
  assumes "odd (length vs)"
  obtains ws where "negate_terms vs = Returns ws" and "odd (length ws)"
    and "length ws = length vs" and "scount ws = scount vs"
proof -
  from assms obtain x xs where vs: "vs = x # xs" and ev: "even (length xs)"
    by (cases vs) auto
  let ?ws = "swap_pairs xs @ [x]"
  have "negate_terms vs = Returns ?ws"
    using swap_pairs_even[OF ev] by (simp add: negate_terms_def vs)
  moreover have "scount ?ws v = scount vs v" for v
    using swap_pairs_even[OF ev, of v] ev by (simp add: scount_append vs)
  ultimately show ?thesis
    using that[of ?ws] swap_pairs_even[OF ev] ev vs by (simp add: fun_eq_iff)
qed

text \<open>The signed count of a merge of merges.\<close>

fun nested_scount :: "'a merge list \<Rightarrow> 'a \<Rightarrow> int" where
  "nested_scount [] v = 0"
| "nested_scount (m # ms) v = scount (merge_values m) v - nested_scount ms v"

lemma flatten_loop_spec:
  assumes "odd (length result)" and "even (length outer)" and "\<forall>m \<in> set outer. merge_ok m"
  shows "\<exists>vs. flatten_loop result outer = Returns vs \<and> odd (length vs) \<and>
     length vs = length result + sum_list (map (\<lambda>m. length (merge_values m)) outer) \<and>
     (\<forall>v. scount vs v = scount result v - nested_scount outer v)"
  using assms
proof (induction result outer rule: flatten_loop.induct)
  case (3 result remove add outer)
  obtain neg where neg: "negate_terms (merge_values remove) = Returns neg" "odd (length neg)"
    "length neg = length (merge_values remove)" "scount neg = scount (merge_values remove)"
    using negate_terms_spec[of "merge_values remove"] 3(4) by (auto simp: merge_ok_def)
  let ?r = "result @ neg @ merge_values add"
  have "odd (length ?r)" using 3(2,4) neg(2) by (simp add: merge_ok_def)
  moreover have "scount ?r v = scount result v - scount (merge_values remove) v + scount (merge_values add) v"
    for v using 3(2) neg(2,4) by (simp add: scount_append)
  ultimately show ?case
    using 3(1)[OF \<open>odd (length ?r)\<close>] 3(3,4) neg by auto
qed auto

lemma flatten_spec:
  assumes "merge_ok m" and "\<forall>n \<in> set (merge_values m). merge_ok n"
  obtains f where "flatten m = Returns f" and "merge_ok f"
    and "length (merge_values f) = sum_list (map (\<lambda>n. length (merge_values n)) (merge_values m))"
    and "\<And>v. scount (merge_values f) v = nested_scount (merge_values m) v"
proof -
  from assms(1) obtain m0 outer where m: "merge_values m = m0 # outer" and ev: "even (length outer)"
    by (cases "merge_values m") (auto simp: merge_ok_def)
  have "odd (length (merge_values m0))" using assms(2) m by (simp add: merge_ok_def)
  with flatten_loop_spec[OF this ev] assms(2) m show ?thesis
    using that by (auto simp: flatten_def merge_ok_def)
qed

section \<open>Properties\<close>

text \<open>
  (C23) \<open>trivial_merge\<close> on an odd number of terms never panics (none of its assertions
  fails), and it returns a value exactly when that value is what the terms trivially resolve to:
  all other terms cancel and one copy is left, or, if the same change on all sides is accepted,
  only one other value survives and the returned one is positive.
\<close>

theorem trivial_merge_resolves:
  "odd (length vs) \<Longrightarrow>
   \<exists>r. trivial_merge vs sc = Returns r \<and> (\<forall>v. r = Some v \<longleftrightarrow> resolves_to vs sc v)"
  by (rule trivial_merge_spec)

theorem trivial_merge_resolves_witness:
  "odd (length [1, 2, 3, 2, 1 :: nat]) \<and>
   (\<exists>r. trivial_merge [1, 2, 3, 2, 1 :: nat] Accept = Returns r \<and>
        (\<forall>v. r = Some v \<longleftrightarrow> resolves_to [1, 2, 3, 2, 1] Accept v)) \<and>
   trivial_merge [1, 3, 4, 4, 3 :: nat] Keep = Returns (Some 1)"
proof -
  have h: "odd (length [1, 2, 3, 2, 1 :: nat])" by simp
  have "trivial_merge [1, 3, 4, 4, 3 :: nat] Keep = Returns (Some 1)"
    by (simp add: trivial_merge_def general_merge_def)
  then show ?thesis using h trivial_merge_resolves [OF h, of Accept] by blast
qed

text \<open>
  (C30) \<open>Merge::simplify\<close> of a well-formed merge terminates without a panic and cancels
  exactly: its positive terms are the positive terms minus the negative ones, as multisets, and
  the other way round; the result is well formed and simplifying it again changes nothing.
\<close>

theorem simplify_cancels:
  assumes "merge_ok m"
  shows "\<exists>m'. simplify m = Returns m' \<and> merge_ok m' \<and>
    mset (adds m') = mset (adds m) - mset (removes m) \<and>
    mset (removes m') = mset (removes m) - mset (adds m) \<and> simplify m' = Returns m'"
proof -
  obtain m' where m': "simplify m = Returns m'" "merge_ok m'"
    "scount (merge_values m') = scount (merge_values m)" "set (adds m') \<inter> set (removes m') = {}"
    using simplify_spec[OF assms] .
  have "mset (adds m') = mset (adds m) - mset (removes m)"
    "mset (removes m') = mset (removes m) - mset (adds m)"
    using pos_terms_cancel[OF m'(3)[symmetric]] m'(4) by (simp_all add: adds_def removes_tl)
  with m' simplify_id[OF m'(4)] show ?thesis by blast
qed

theorem simplify_cancels_witness:
  "merge_ok (Merge [1, 2, 2, 1, 3 :: nat]) \<and>
   (\<exists>m'. simplify (Merge [1, 2, 2, 1, 3 :: nat]) = Returns m' \<and> merge_ok m' \<and>
      mset (adds m') = {#3#} \<and> mset (removes m') = {#} \<and> simplify m' = Returns m')"
proof -
  have h: "merge_ok (Merge [1, 2, 2, 1, 3 :: nat])" by (simp add: merge_ok_def)
  have "mset (adds (Merge [1, 2, 2, 1, 3 :: nat])) - mset (removes (Merge [1, 2, 2, 1, 3])) = {#3#}"
    "mset (removes (Merge [1, 2, 2, 1, 3 :: nat])) - mset (adds (Merge [1, 2, 2, 1, 3])) = {#}"
    by (simp_all add: adds_def removes_def)
  with h simplify_cancels [OF h] show ?thesis by simp
qed

text \<open>
  Simplifying a merge first does not change what it trivially resolves to.
\<close>

theorem resolve_trivial_simplify:
  assumes "merge_ok m"
  shows "exec_bind (simplify m) (\<lambda>m'. resolve_trivial m' sc) = resolve_trivial m sc"
proof -
  obtain m' where m': "simplify m = Returns m'" "merge_ok m'"
    "scount (merge_values m') = scount (merge_values m)"
    using simplify_spec[OF assms] .
  then show ?thesis
    using assms trivial_merge_cong[of "merge_values m'" "merge_values m" sc]
    by (simp add: resolve_trivial_def merge_ok_def)
qed

theorem resolve_trivial_simplify_witness:
  "merge_ok (Merge [1, 2, 2, 3, 1 :: nat]) \<and>
   exec_bind (simplify (Merge [1, 2, 2, 3, 1 :: nat])) (\<lambda>m'. resolve_trivial m' Accept) =
     resolve_trivial (Merge [1, 2, 2, 3, 1]) Accept \<and>
   resolve_trivial (Merge [1, 2, 2, 3, 1 :: nat]) Accept = Returns (Some 1)"
proof -
  have h: "merge_ok (Merge [1, 2, 2, 3, 1 :: nat])" by (simp add: merge_ok_def)
  have "resolve_trivial (Merge [1, 2, 2, 3, 1 :: nat]) Accept = Returns (Some 1)"
    by (simp add: resolve_trivial_def trivial_merge_def general_merge_def)
  with h resolve_trivial_simplify [OF h, of Accept] show ?thesis by simp
qed

text \<open>
  Writing a merge with the simplified number of terms back into the unsimplified one
  (\<open>update_from_simplified\<close>) gives a merge that means what was written, and writing the
  simplified merge itself back restores the original term by term.
\<close>

theorem update_from_simplified_meaning:
  assumes ok: "merge_ok m" and s: "simplify m = Returns s"
    and len: "length (merge_values s') = length (merge_values s)"
  shows "\<exists>u. update_from_simplified m s' = Returns u \<and> merge_ok u \<and>
    scount (merge_values u) = scount (merge_values s') \<and> (s' = s \<longrightarrow> u = m)"
proof -
  obtain ix where ix: "get_simplified_mapping m = Returns ix" "simplifies (merge_values m) ix"
    using get_simplified_mapping_spec[OF ok] by blast
  have s_eq: "s = apply_simplified_mapping m ix" using s ix by (simp add: simplify_def)
  then have "length ix = length (merge_values s')" using len by (simp add: apply_simplified_mapping_def)
  from update_from_simplified_spec[OF ok ix(1) this] obtain u where
    u: "update_from_simplified m s' = Returns u" "length (merge_values u) = length (merge_values m)"
      "apply_simplified_mapping u ix = s'" "\<And>p. p \<notin> set ix \<Longrightarrow> merge_values u ! p = merge_values m ! p"
    by blast
  have "scount (merge_values u) = scount (merge_values s')"
    using update_from_simplified_scount[OF ok ix(1) u(2,4)] u(3)
    by (auto simp: apply_simplified_mapping_def)
  moreover have "u = m" if "s' = s"
  proof -
    have "map ((!) (merge_values u)) ix = map ((!) (merge_values m)) ix"
      using that s_eq u(3) by (simp add: apply_simplified_mapping_def)
    then have "merge_values u ! p = merge_values m ! p" for p
      using u(4)[of p] by (cases "p \<in> set ix") auto
    with u(2) have "merge_values u = merge_values m" by (intro nth_equalityI) auto
    then show ?thesis by (simp add: merge.expand)
  qed
  ultimately show ?thesis using u(1,2) ok by (auto simp: merge_ok_def)
qed

theorem update_from_simplified_meaning_witness:
  "\<exists>u. update_from_simplified (Merge [1, 2, 2, 3, 4 :: nat]) (Merge [1, 3, 9]) = Returns u \<and>
    merge_ok u \<and> scount (merge_values u) = scount [1, 3, 9]"
proof -
  have ok: "merge_ok (Merge [1, 2, 2, 3, 4 :: nat])" by (simp add: merge_ok_def)
  have s: "simplify (Merge [1, 2, 2, 3, 4 :: nat]) = Returns (Merge [1, 3, 4])"
    by (simp add: simplify_def get_simplified_mapping_def apply_simplified_mapping_def
        simplify_loop.simps find_remove_def swap_def drain2_def upt_rec numeral_eq_Suc)
  show ?thesis using update_from_simplified_meaning [OF ok s, of "Merge [1, 3, 9]"] by simp
qed

text \<open>
  \<open>Merge::swap_remove\<close> with indices of an existing negative and an existing positive
  term does not panic, returns the two terms, and removes exactly them: the merge that is left is
  well formed and two terms shorter.
\<close>

theorem swap_remove_exact:
  assumes "merge_ok m" and "ri < length (removes m)" and "ai < length (adds m)"
  shows "\<exists>m'. swap_remove m ri ai = Returns ((removes m ! ri, adds m ! ai), m') \<and> merge_ok m' \<and>
    length (merge_values m') + 2 = length (merge_values m) \<and>
    mset (adds m') = mset (adds m) - {#adds m ! ai#} \<and>
    mset (removes m') = mset (removes m) - {#removes m ! ri#}"
  using swap_remove_spec[OF assms] by metis

theorem swap_remove_exact_witness:
  "\<exists>m'. swap_remove (Merge [1, 2, 3, 4, 5 :: nat]) 0 1 = Returns ((2, 3), m') \<and> merge_ok m' \<and>
    mset (adds m') = {#1, 5#} \<and> mset (removes m') = {#4#}"
proof -
  let ?m = "Merge [1, 2, 3, 4, 5 :: nat]"
  have h: "merge_ok ?m" "0 < length (removes ?m)" "1 < length (adds ?m)"
    by (simp_all add: merge_ok_def removes_def adds_def)
  show ?thesis using swap_remove_exact [OF h] by (auto simp: adds_def removes_def)
qed

text \<open>
  Flattening a well-formed merge of well-formed merges does not panic, keeps every term,
  and means the signed combination of the inner merges.
\<close>

theorem flatten_meaning:
  assumes "merge_ok m" and "\<forall>n \<in> set (merge_values m). merge_ok n"
  shows "\<exists>f. flatten m = Returns f \<and> merge_ok f \<and>
    length (merge_values f) = sum_list (map (\<lambda>n. length (merge_values n)) (merge_values m)) \<and>
    (\<forall>v. scount (merge_values f) v = nested_scount (merge_values m) v)"
  using flatten_spec[OF assms] by metis

theorem flatten_meaning_witness:
  "flatten (Merge [Merge [4, 3, 5], Merge [1, 0, 2], Merge [7, 6, 8 :: nat]]) =
     Returns (Merge [4, 3, 5, 2, 0, 1, 7, 6, 8]) \<and>
   (\<exists>f. flatten (Merge [Merge [4, 3, 5], Merge [1, 0, 2], Merge [7, 6, 8 :: nat]]) = Returns f \<and>
      merge_ok f \<and> length (merge_values f) = 9 \<and> scount (merge_values f) 1 = - 1)"
proof -
  let ?m = "Merge [Merge [4, 3, 5], Merge [1, 0, 2], Merge [7, 6, 8 :: nat]]"
  have h: "merge_ok ?m" "\<forall>n \<in> set (merge_values ?m). merge_ok n" by (simp_all add: merge_ok_def)
  have "flatten ?m = Returns (Merge [4, 3, 5, 2, 0, 1, 7, 6, 8])"
    by (simp add: flatten_def negate_terms_def)
  with flatten_meaning [OF h] show ?thesis by auto
qed

text \<open>
  Splitting a well-formed merge into its negative and positive terms and building a merge
  from them gives it back.
\<close>

theorem removes_adds_roundtrip:
  assumes "merge_ok m"
  shows "(case into_removes_adds m of (rs, as) \<Rightarrow> from_removes_adds rs as) = Returns m"
  by (simp add: into_removes_adds_eq from_removes_adds_roundtrip[OF assms])

theorem removes_adds_roundtrip_witness:
  "merge_ok (Merge [1, 2, 3 :: nat]) \<and> into_removes_adds (Merge [1, 2, 3 :: nat]) = ([2], [1, 3]) \<and>
   from_removes_adds [2] [1, 3 :: nat] = Returns (Merge [1, 2, 3])"
proof -
  have h: "merge_ok (Merge [1, 2, 3 :: nat])" by (simp add: merge_ok_def)
  have i: "into_removes_adds (Merge [1, 2, 3 :: nat]) = ([2], [1, 3])"
    by (simp add: into_removes_adds_def)
  show ?thesis using h i removes_adds_roundtrip [OF h] by simp
qed

text \<open>
  The legacy form of a merge of options, which pads the shorter side with absent terms,
  is read back exactly: no removed or added value is lost, reordered or invented.
\<close>

theorem legacy_form_roundtrip:
  "merge_ok (from_legacy_form rs as) \<and> into_legacy_form (from_legacy_form rs as) = Returns (rs, as)"
  by (simp add: odd_length_legacy legacy_roundtrip)

end
