(* ===== verification/Ref_Laws.thy ===== *)
theory Ref_Laws
  imports Refs Merge_Laws
begin

text \<open>
  Laws of merging references. What the merge needs of the commit index is the locale
  \<open>ancestry\<close>: on known commits the query answers, and the relation that it decides is
  reflexive and transitive. The commit index of \<open>jj/lib/src/default_index/composite.rs\<close>
  provides it (theory \<open>Commit_Index_Laws\<close>).
\<close>

section \<open>The interface to the commit index\<close>

definition below :: "(CommitId \<Rightarrow> CommitId \<Rightarrow> bool) \<Rightarrow> CommitId option \<Rightarrow> CommitId \<Rightarrow> bool" where
  "below anc r x = (case r of None \<Rightarrow> True | Some i \<Rightarrow> anc i x)"

definition choice ::
  "(CommitId \<Rightarrow> CommitId \<Rightarrow> bool) \<Rightarrow> nat \<times> CommitId option \<Rightarrow> nat \<times> CommitId option \<Rightarrow>
   (nat \<times> CommitId) option" where
  "choice anc p1 p2 =
     (case (p1, p2) of
        ((i, Some x), (j, Some y)) \<Rightarrow>
          if x = y \<or> anc x y then Some (i, x) else if anc y x then Some (j, y) else None
      | _ \<Rightarrow> None)"

definition pair_hit ::
  "(CommitId \<Rightarrow> CommitId \<Rightarrow> bool) \<Rightarrow> CommitId option list \<Rightarrow> nat \<times> CommitId option \<Rightarrow>
   nat \<times> CommitId option \<Rightarrow> nat \<Rightarrow> nat \<Rightarrow> bool" where
  "pair_hit anc rs p1 p2 ri ai \<longleftrightarrow>
     ri < length rs \<and> (\<exists>x. choice anc p1 p2 = Some (ai, x) \<and> below anc (rs ! ri) x)"

text \<open>
  A removable pair of a conflict: an add that is an ancestor of another add, and a remove that
  is an ancestor of it (an absent remove counts as the root).
\<close>

definition removable :: "(CommitId \<Rightarrow> CommitId \<Rightarrow> bool) \<Rightarrow> ref_target \<Rightarrow> nat \<Rightarrow> nat \<Rightarrow> bool" where
  "removable anc m ri ai \<longleftrightarrow>
     ri < length (removes m) \<and> ai < length (adds m) \<and>
     (\<exists>aj x y. aj < length (adds m) \<and> aj \<noteq> ai \<and> adds m ! ai = Some x \<and> adds m ! aj = Some y \<and>
        anc x y \<and> below anc (removes m ! ri) x)"

definition known_target :: "(CommitId \<Rightarrow> bool) \<Rightarrow> ref_target \<Rightarrow> bool" where
  "known_target known m \<longleftrightarrow> (\<forall>a. Some a \<in> set (merge_values m) \<longrightarrow> known a)"

lemma set_merge_values: "set (merge_values m) = set (adds m) \<union> set (removes m)"
proof -
  have "set xs = set (step2 xs) \<union> set (step2 (tl xs))" for xs :: "'a list"
  proof (induction xs)
    case (Cons x xs)
    have "set (step2 (x # xs)) \<union> set (step2 (tl (x # xs))) = insert x (set (step2 xs) \<union> set (step2 (tl xs)))"
      by (simp add: step2_Cons Un_commute)
    with Cons.IH show ?case by simp
  qed simp
  then show ?thesis unfolding adds_def removes_tl .
qed

lemma known_target_iff:
  "known_target known m \<longleftrightarrow> (\<forall>a. Some a \<in> set (adds m) \<or> Some a \<in> set (removes m) \<longrightarrow> known a)"
  by (auto simp: known_target_def set_merge_values)

lemma fallible_position_total:
  assumes "\<forall>x \<in> set xs. p x = Inr (q x)"
  shows "(fallible_position p xs = Inr None \<and> (\<forall>x \<in> set xs. \<not> q x)) \<or>
    (\<exists>i < length xs. fallible_position p xs = Inr (Some i) \<and> q (xs ! i))"
proof -
  have "(position_loop p (enumerate n xs) = Inr None \<and> (\<forall>x \<in> set xs. \<not> q x)) \<or>
    (\<exists>i < length xs. position_loop p (enumerate n xs) = Inr (Some (n + i)) \<and> q (xs ! i))" for n
    using assms
  proof (induction xs arbitrary: n)
    case (Cons x xs)
    then show ?case using Cons.IH[of "Suc n"] by (cases "q x") (auto intro: exI[of _ "Suc _"])
  qed simp
  from this[of 0] show ?thesis by (simp add: fallible_position_def)
qed

lemma two_positions:
  assumes "i < length xs" "j < length xs" "j \<noteq> i"
  shows "{#xs ! i, xs ! j#} \<subseteq># mset xs"
proof -
  have "mset xs = add_mset (xs ! i) (mset (take i xs @ drop (Suc i) xs))"
    using assms(1) by (metis id_take_nth_drop mset.simps(2) mset_append union_mset_add_mset_right)
  moreover have "xs ! j \<in> set (take i xs @ drop (Suc i) xs)"
    using assms by (cases "j < i") (auto simp: in_set_conv_nth intro: exI[of _ "j - Suc i"])
  ultimately show ?thesis by (simp add: mset_subset_eq_add_mset_cancel)
qed

text \<open>The signed count of a term in \<open>left - base + right\<close>.\<close>

definition net_term :: "'a merge \<Rightarrow> 'a merge \<Rightarrow> 'a merge \<Rightarrow> 'a \<Rightarrow> int" where
  "net_term l b r v = scount (merge_values l) v - scount (merge_values b) v + scount (merge_values r) v"

lemma scount_positive_adds: "scount (merge_values m) v > 0 \<Longrightarrow> v \<in> set (adds m)"
  unfolding merge_scount by (metis count_greater_zero_iff diff_gt_0_iff_gt in_multiset_in_set
      less_le_trans not_le of_nat_0_le_iff of_nat_0_less_iff le_less_linear)

lemma in_remove1_neq: "v \<in># M \<Longrightarrow> v \<notin># M - {#w#} \<Longrightarrow> v = w"
  by (cases "v = w") (simp_all add: in_diff_count)

lemma simplified_signs:
  "set (adds m) \<inter> set (removes m) = {} \<Longrightarrow> v \<in> set (merge_values m) \<Longrightarrow> scount (merge_values m) v \<noteq> 0"
  unfolding merge_scount set_merge_values
  by (metis Un_iff count_eq_zero_iff disjoint_iff eq_iff_diff_eq_0 of_nat_eq_iff set_mset_mset)

lemma resolves_to_positive:
  assumes "resolves_to vs Accept v" "odd (length vs)" "scount vs w > 0"
  shows "w = v"
proof -
  have sum: "(\<Sum>x \<in> set vs. scount vs x) = 1" using sum_scount[of "set vs" vs] assms(2) by simp
  from assms(1) consider "\<forall>w. scount vs w = (if w = v then 1 else 0)"
    | u where "0 < scount vs v" "u \<noteq> v" "scount vs u \<noteq> 0" "\<forall>w. w \<noteq> u \<and> w \<noteq> v \<longrightarrow> scount vs w = 0"
    unfolding resolves_to_def by blast
  then show ?thesis
  proof cases
    case 1 with assms(3) show ?thesis by (simp split: if_splits)
  next
    case 2
    then have "u \<in> set vs" "v \<in> set vs" using scount_nonzero_in_set[of vs] by auto
    then have "(\<Sum>x \<in> set vs. scount vs x) = (\<Sum>x \<in> {u, v}. scount vs x)"
      using 2(4) by (intro sum.mono_neutral_right) auto
    with sum 2 assms(3) show ?thesis by (cases "w = u") force+
  qed
qed

locale ancestry =
  fixes is_ancestor :: "'e ancestor_query"
    and known :: "CommitId \<Rightarrow> bool"
    and anc :: "CommitId \<Rightarrow> CommitId \<Rightarrow> bool"
  assumes answers: "known a \<Longrightarrow> known b \<Longrightarrow> is_ancestor a b = Inr (anc a b)"
    and anc_refl: "known a \<Longrightarrow> anc a a"
    and anc_trans: "known a \<Longrightarrow> known b \<Longrightarrow> known c \<Longrightarrow> anc a b \<Longrightarrow> anc b c \<Longrightarrow> anc a c"
begin

lemma choose_add_total:
  assumes "\<And>x. snd p1 = Some x \<Longrightarrow> known x" "\<And>x. snd p2 = Some x \<Longrightarrow> known x"
  shows "choose_add is_ancestor p1 p2 = Inr (choice anc p1 p2)"
  using assms answers by (cases p1; cases p2) (auto simp: choose_add_def choice_def split: option.splits)

lemma remove_position_total:
  assumes "known_target known m" "known x"
  shows "(remove_position is_ancestor m x = Inr None \<and> (\<forall>r \<in> set (removes m). \<not> below anc r x)) \<or>
    (\<exists>ri < length (removes m). remove_position is_ancestor m x = Inr (Some ri) \<and> below anc (removes m ! ri) x)"
  unfolding remove_position_def
  by (rule fallible_position_total)
    (use assms answers in \<open>auto simp: known_target_iff below_def split: option.splits\<close>)

lemma inner_pairs_total:
  assumes "known_target known m" "\<forall>x. snd p1 = Some x \<longrightarrow> known x" "\<forall>p \<in> set ps. \<forall>x. snd p = Some x \<longrightarrow> known x"
  shows "(inner_pairs is_ancestor m p1 ps = Inr None \<and> (\<forall>p2 \<in> set ps. \<forall>ri ai. \<not> pair_hit anc (removes m) p1 p2 ri ai)) \<or>
    (\<exists>ri ai. inner_pairs is_ancestor m p1 ps = Inr (Some (ri, ai)) \<and> (\<exists>p2 \<in> set ps. pair_hit anc (removes m) p1 p2 ri ai))"
  using assms(3)
proof (induction ps)
  case (Cons p2 ps)
  have total: "choose_add is_ancestor p1 p2 = Inr (choice anc p1 p2)"
    using choose_add_total assms(2) Cons.prems by (meson list.set_intros(1))
  show ?case
  proof (cases "choice anc p1 p2")
    case None
    then show ?thesis using Cons total by (auto simp: pair_hit_def)
  next
    case (Some c)
    obtain ai x where c: "c = (ai, x)" by force
    have "known x" using Some c assms(2) Cons.prems
      by (cases p1; cases p2) (auto simp: choice_def split: option.splits if_splits)
    from remove_position_total[OF assms(1) this] show ?thesis
    proof (elim disjE exE conjE)
      assume "remove_position is_ancestor m x = Inr None" "\<forall>r \<in> set (removes m). \<not> below anc r x"
      then show ?thesis using Cons Some c total by (auto simp: pair_hit_def)
    next
      fix ri assume "ri < length (removes m)" "remove_position is_ancestor m x = Inr (Some ri)" "below anc (removes m ! ri) x"
      then show ?thesis using Some c total by (auto simp: pair_hit_def)
    qed
  qed
qed simp

lemma outer_pairs_total:
  assumes "known_target known m" "\<forall>p \<in> set ps. \<forall>x. snd p = Some x \<longrightarrow> known x"
  shows "(outer_pairs is_ancestor m ps = Inr None \<and>
      sorted_wrt (\<lambda>p1 p2. \<forall>ri ai. \<not> pair_hit anc (removes m) p1 p2 ri ai) ps) \<or>
    (\<exists>ri ai i j. outer_pairs is_ancestor m ps = Inr (Some (ri, ai)) \<and> i < j \<and> j < length ps \<and>
      pair_hit anc (removes m) (ps ! i) (ps ! j) ri ai)"
  using assms(2)
proof (induction ps)
  case (Cons p ps)
  then have "\<forall>x. snd p = Some x \<longrightarrow> known x" "\<forall>p \<in> set ps. \<forall>x. snd p = Some x \<longrightarrow> known x" by auto
  from inner_pairs_total[OF assms(1) this] show ?case
  proof (elim disjE exE conjE bexE)
    assume none: "inner_pairs is_ancestor m p ps = Inr None"
      "\<forall>p2 \<in> set ps. \<forall>ri ai. \<not> pair_hit anc (removes m) p p2 ri ai"
    from Cons have "(outer_pairs is_ancestor m ps = Inr None \<and>
        sorted_wrt (\<lambda>p1 p2. \<forall>ri ai. \<not> pair_hit anc (removes m) p1 p2 ri ai) ps) \<or>
      (\<exists>ri ai i j. outer_pairs is_ancestor m ps = Inr (Some (ri, ai)) \<and> i < j \<and> j < length ps \<and>
        pair_hit anc (removes m) (ps ! i) (ps ! j) ri ai)" by simp
    then show ?thesis
    proof (elim disjE exE conjE)
      fix ri ai i j
      assume "outer_pairs is_ancestor m ps = Inr (Some (ri, ai))" "i < j" "j < length ps"
        "pair_hit anc (removes m) (ps ! i) (ps ! j) ri ai"
      then have "outer_pairs is_ancestor m (p # ps) = Inr (Some (ri, ai)) \<and> Suc i < Suc j \<and>
          Suc j < length (p # ps) \<and> pair_hit anc (removes m) ((p # ps) ! Suc i) ((p # ps) ! Suc j) ri ai"
        using none(1) by simp
      then show ?thesis by blast
    qed (use none in simp)
  next
    fix ri ai p2
    assume hit: "inner_pairs is_ancestor m p ps = Inr (Some (ri, ai))" "p2 \<in> set ps" "pair_hit anc (removes m) p p2 ri ai"
    then obtain j where "j < length ps" "ps ! j = p2" by (auto simp: in_set_conv_nth)
    with hit have "outer_pairs is_ancestor m (p # ps) = Inr (Some (ri, ai)) \<and> 0 < Suc j \<and>
        Suc j < length (p # ps) \<and> pair_hit anc (removes m) ((p # ps) ! 0) ((p # ps) ! Suc j) ri ai" by simp
    then show ?thesis by blast
  qed
qed simp

lemma find_pair_total:
  assumes "known_target known m"
  shows "(find_pair_to_remove is_ancestor m = Inr None \<and> (\<forall>ri ai. \<not> removable anc m ri ai)) \<or>
    (\<exists>ri ai. find_pair_to_remove is_ancestor m = Inr (Some (ri, ai)) \<and> removable anc m ri ai)"
proof -
  let ?ps = "enumerate 0 (adds m)"
  have nth: "?ps ! i = (i, adds m ! i)" if "i < length (adds m)" for i
    using that by (simp add: nth_enumerate_eq)
  have "\<forall>p \<in> set ?ps. \<forall>x. snd p = Some x \<longrightarrow> known x"
    using assms by (auto simp: in_set_enumerate_eq known_target_iff) (metis nth_mem)
  from outer_pairs_total[OF assms this] show ?thesis
  proof (elim disjE exE conjE)
    assume none: "outer_pairs is_ancestor m ?ps = Inr None"
      and sorted: "sorted_wrt (\<lambda>p1 p2. \<forall>ri ai. \<not> pair_hit anc (removes m) p1 p2 ri ai) ?ps"
    have no: "\<not> pair_hit anc (removes m) (i, adds m ! i) (j, adds m ! j) ri ai"
      if "i < j" "j < length (adds m)" for i j ri ai
      using sorted_wrt_nth_less[OF sorted, of i j] that nth[of i] nth[of j] by simp
    have "\<not> removable anc m ri ai" for ri ai
    proof
      assume "removable anc m ri ai"
      then obtain aj x y where r: "ri < length (removes m)" "ai < length (adds m)" "aj < length (adds m)" "aj \<noteq> ai"
        "adds m ! ai = Some x" "adds m ! aj = Some y" "anc x y" "below anc (removes m ! ri) x"
        unfolding removable_def by blast
      have k: "known x" "known y"
        using assms r(2,3,5,6) unfolding known_target_iff by (metis nth_mem)+
      have kr: "known z" if "removes m ! ri = Some z" for z
        using assms r(1) that unfolding known_target_iff by (metis nth_mem)
      have up: "below anc (removes m ! ri) y"
        using r(7,8) anc_trans[OF kr k] by (cases "removes m ! ri") (simp_all add: below_def)
      show False
      proof (cases "ai < aj")
        case True
        with no[OF True r(3), of ri ai] r show ?thesis by (simp add: pair_hit_def choice_def)
      next
        case False
        with r(4) have "aj < ai" by simp
        with no[OF this r(2), of ri aj] no[OF this r(2), of ri ai] r up show ?thesis
          by (cases "y = x \<or> anc y x") (simp_all add: pair_hit_def choice_def)
      qed
    qed
    with none show ?thesis by (simp add: find_pair_to_remove_def)
  next
    fix ri ai i j
    assume found: "outer_pairs is_ancestor m ?ps = Inr (Some (ri, ai))" and ij: "i < j" "j < length ?ps"
      and hit: "pair_hit anc (removes m) (?ps ! i) (?ps ! j) ri ai"
    have "removable anc m ri ai"
    proof -
      from ij hit obtain x y where xy: "adds m ! i = Some x" "adds m ! j = Some y"
        by (auto simp: pair_hit_def choice_def nth split: option.splits prod.splits)
      have "known x" using xy(1) ij assms by (metis known_target_iff length_enumerate less_trans nth_mem)
      from anc_refl[OF this] have r: "ri < length (removes m)" "i < length (adds m)" "j < length (adds m)" "i \<noteq> j"
        and "(ai = i \<and> anc x y \<and> below anc (removes m ! ri) x) \<or> (ai = j \<and> anc y x \<and> below anc (removes m ! ri) y)"
        using ij hit xy nth[of i] nth[of j] by (auto simp: pair_hit_def choice_def split: if_splits)
      then show ?thesis unfolding removable_def using xy by metis
    qed
    with found show ?thesis by (auto simp: find_pair_to_remove_def)
  qed
qed

lemma removable_known:
  assumes "known_target known m" "removable anc m ri ai"
  shows "\<exists>x aj y. adds m ! ai = Some x \<and> known x \<and> aj < length (adds m) \<and> aj \<noteq> ai \<and> adds m ! aj = Some y \<and> anc x y"
  using assms unfolding removable_def known_target_iff by (metis nth_mem)

text \<open>
  The loop ends with no removable pair left. Each removed add is an ancestor of an add that is
  still there, so following the removals every original add has a descendant in the result.
\<close>

lemma non_trivial_spec:
  assumes "merge_ok m" "known_target known m"
  shows "\<exists>m'. merge_ref_targets_non_trivial is_ancestor m = Returns (Inr m') \<and> merge_ok m' \<and>
    mset (adds m') \<subseteq># mset (adds m) \<and> mset (removes m') \<subseteq># mset (removes m) \<and>
    count (mset (adds m')) None = count (mset (adds m)) None \<and>
    (\<forall>a. Some a \<in> set (adds m) \<longrightarrow> (\<exists>b. Some b \<in> set (adds m') \<and> anc a b)) \<and>
    (\<forall>ri ai. \<not> removable anc m' ri ai)"
  using assms
proof (induction "length (merge_values m)" arbitrary: m rule: less_induct)
  case less
  have refl: "\<exists>b. Some b \<in> set (adds m) \<and> anc a b" if "Some a \<in> set (adds m)" for a
    using that less.prems(2) anc_refl unfolding known_target_iff by blast
  from find_pair_total[OF less.prems(2)] show ?case
  proof (elim disjE exE conjE)
    assume "find_pair_to_remove is_ancestor m = Inr None" "\<forall>ri ai. \<not> removable anc m ri ai"
    then show ?thesis using less.prems refl
      by (auto simp: merge_ref_targets_non_trivial.simps[of _ m])
  next
    fix ri ai
    assume found: "find_pair_to_remove is_ancestor m = Inr (Some (ri, ai))" and rem: "removable anc m ri ai"
    obtain x aj y where xy: "adds m ! ai = Some x" "known x" "aj < length (adds m)" "aj \<noteq> ai"
        "adds m ! aj = Some y" "anc x y"
      using removable_known[OF less.prems(2) rem] by blast
    from rem have len: "ri < length (removes m)" "ai < length (adds m)" by (auto simp: removable_def)
    obtain m' where m': "swap_remove m ri ai = Returns ((removes m ! ri, adds m ! ai), m')"
      "merge_ok m'" "length (merge_values m') + 2 = length (merge_values m)"
      "mset (adds m') = mset (adds m) - {#adds m ! ai#}"
      "mset (removes m') = mset (removes m) - {#removes m ! ri#}"
      using swap_remove_spec[OF less.prems(1) len] by blast
    have sub: "mset (adds m') \<subseteq># mset (adds m)" "mset (removes m') \<subseteq># mset (removes m)"
      unfolding m'(4,5) by simp_all
    have kn: "known_target known m'"
      using less.prems(2) set_mset_mono[OF sub(1)] set_mset_mono[OF sub(2)]
      unfolding known_target_iff by auto
    have y: "Some y \<in> set (adds m')"
    proof -
      have "{#adds m ! ai, adds m ! aj#} \<subseteq># mset (adds m)"
        using len(2) xy(3,4) by (rule two_positions)
      then have "adds m ! aj \<in># mset (adds m) - {#adds m ! ai#}"
        by (metis add_mset_subseteq_single_iff insert_subset_eq_iff mset_subset_eq_single mset_subset_eq_insertD single_subset_iff)
      then show ?thesis unfolding m'(4)[symmetric] xy(5) by simp
    qed
    have step: "merge_ref_targets_non_trivial is_ancestor m = merge_ref_targets_non_trivial is_ancestor m'"
      unfolding merge_ref_targets_non_trivial.simps[of _ m] by (simp add: found m'(1))
    from less.hyps[of m'] m'(2,3) kn obtain n where n: "merge_ref_targets_non_trivial is_ancestor m' = Returns (Inr n)"
      "merge_ok n" "mset (adds n) \<subseteq># mset (adds m')" "mset (removes n) \<subseteq># mset (removes m')"
      "count (mset (adds n)) None = count (mset (adds m')) None"
      "\<And>a. Some a \<in> set (adds m') \<Longrightarrow> \<exists>b. Some b \<in> set (adds n) \<and> anc a b"
      "\<forall>ri ai. \<not> removable anc n ri ai"
      by auto
    have keep: "\<exists>b. Some b \<in> set (adds n) \<and> anc a b" if "Some a \<in> set (adds m)" for a
    proof (cases "Some a \<in> set (adds m')")
      case False
      with that m'(4) xy(1) have "a = x"
        by (metis in_remove1_neq option.inject set_mset_mset)
      moreover obtain b where b: "Some b \<in> set (adds n)" "anc y b" using n(6)[OF y] by blast
      moreover have "known y" "known b"
        using kn y b(1) set_mset_mono[OF n(3)] unfolding known_target_iff by auto
      ultimately show ?thesis using xy(2,6) anc_trans by blast
    qed (rule n(6))
    have "count (mset (adds n)) None = count (mset (adds m)) None"
      unfolding n(5) m'(4) xy(1) by simp
    then show ?thesis unfolding step n(1) using n(2,3,4,7) sub keep by (auto intro: subset_mset.order_trans)
  qed
qed

text \<open>The whole merge: the shortcuts resolve to the only positive term, the loop does the rest.\<close>

lemma merge_ref_targets_spec:
  assumes "merge_ok l" "merge_ok b" "merge_ok r" "known_target known l" "known_target known b" "known_target known r"
  shows "\<exists>t. merge_ref_targets is_ancestor l b r = Returns (Inr t) \<and> merge_ok t \<and>
    set (merge_values t) \<subseteq> set (merge_values l) \<union> set (merge_values b) \<union> set (merge_values r) \<and>
    (\<forall>a. net_term l b r (Some a) > 0 \<and>
       (scount (merge_values l) (Some a) > 0 \<or> scount (merge_values r) (Some a) > 0) \<longrightarrow>
       (\<exists>d. Some d \<in> set (adds t) \<and> anc a d))"
proof -
  let ?all = "set (merge_values l) \<union> set (merge_values b) \<union> set (merge_values r)"
  have known: "known a" if "Some a \<in> ?all" for a
    using that assms(4-6) unfolding known_target_def by blast
  have single: "\<exists>d. Some d \<in> set (adds t) \<and> anc a d"
    if "scount (merge_values t) (Some a) > 0" "set (merge_values t) \<subseteq> ?all" for a t
  proof -
    have a: "Some a \<in> set (adds t)" by (rule scount_positive_adds[OF that(1)])
    with that(2) have "known a" by (intro known) (auto simp: set_merge_values)
    from a anc_refl[OF this] show ?thesis by blast
  qed
  obtain v where v: "trivial_merge [l, b, r] Accept = Returns v" by (simp add: trivial_merge_def)
  show ?thesis
  proof (cases v)
    case (Some t)
    then have t: "(l = r \<and> t = l) \<or> (l = b \<and> t = r) \<or> (r = b \<and> t = l)"
      using v by (auto simp: trivial_merge_def split: if_splits)
    then have "merge_ok t" "set (merge_values t) \<subseteq> ?all" using assms by auto
    moreover have "scount (merge_values t) (Some a) > 0" if "net_term l b r (Some a) > 0"
      "scount (merge_values l) (Some a) > 0 \<or> scount (merge_values r) (Some a) > 0" for a
      using t that by (auto simp: net_term_def)
    ultimately show ?thesis using v Some single by (simp add: merge_ref_targets_def)
  next
    case None
    obtain f where f: "flatten (Merge [l, b, r]) = Returns f" "merge_ok f"
      "\<And>v. scount (merge_values f) v = net_term l b r v"
    proof (rule flatten_spec[of "Merge [l, b, r]"])
      show "merge_ok (Merge [l, b, r])" by (simp add: merge_ok_def)
      show "\<forall>n \<in> set (merge_values (Merge [l, b, r])). merge_ok n" using assms by simp
      fix f assume "flatten (Merge [l, b, r]) = Returns f" "merge_ok f"
        "\<And>v. scount (merge_values f) v = nested_scount (merge_values (Merge [l, b, r])) v"
      then show thesis using that by (simp add: net_term_def)
    qed
    obtain m where m: "simplify f = Returns m" "merge_ok m" "scount (merge_values m) = scount (merge_values f)"
      "set (adds m) \<inter> set (removes m) = {}"
      using simplify_spec[OF f(2)] by blast
    have count: "scount (merge_values m) v = net_term l b r v" for v unfolding m(3) f(3) ..
    have all: "set (merge_values m) \<subseteq> ?all"
    proof
      fix v assume "v \<in> set (merge_values m)"
      then have "net_term l b r v \<noteq> 0" using simplified_signs[OF m(4)] count by simp
      then have "scount (merge_values l) v \<noteq> 0 \<or> scount (merge_values b) v \<noteq> 0 \<or> scount (merge_values r) v \<noteq> 0"
        unfolding net_term_def by linarith
      then show "v \<in> ?all" using scount_nonzero_in_set by fast
    qed
    obtain w where w: "resolve_trivial m Accept = Returns w" "\<And>x. w = Some x \<longleftrightarrow> resolves_to (merge_values m) Accept x"
      using trivial_merge_spec[of "merge_values m" Accept] m(2) by (auto simp: merge_ok_def resolve_trivial_def)
    have run: "merge_ref_targets is_ancestor l b r =
        (case w of Some x \<Rightarrow> Returns (Inr (resolved x)) | None \<Rightarrow> merge_ref_targets_non_trivial is_ancestor m)"
      using v None f(1) m(1) w(1) by (simp add: merge_ref_targets_def from_vec_def)
    show ?thesis
    proof (cases w)
      case (Some x)
      have x: "resolves_to (merge_values m) Accept x" using w(2) Some by blast
      have "a = x" if "net_term l b r a > 0" for a
        using resolves_to_positive[OF x _ that[folded count]] m(2) by (simp add: merge_ok_def)
      moreover have "x \<in> ?all" using resolves_to_in_set[OF x] all by blast
      ultimately show ?thesis
        using run Some anc_refl known by (auto simp: merge_ok_def resolved_def adds_def)
    next
      case None
      have "known_target known m" using all known unfolding known_target_def by blast
      from non_trivial_spec[OF m(2) this] obtain t where t:
        "merge_ref_targets_non_trivial is_ancestor m = Returns (Inr t)" "merge_ok t"
        "mset (adds t) \<subseteq># mset (adds m)" "mset (removes t) \<subseteq># mset (removes m)"
        "\<And>a. Some a \<in> set (adds m) \<Longrightarrow> \<exists>d. Some d \<in> set (adds t) \<and> anc a d"
        by blast
      have "set (merge_values t) \<subseteq> ?all"
        using all set_mset_mono[OF t(3)] set_mset_mono[OF t(4)] unfolding set_merge_values by auto
      moreover have "\<exists>d. Some d \<in> set (adds t) \<and> anc a d" if "net_term l b r (Some a) > 0" for a
        using t(5) scount_positive_adds[of m "Some a"] that unfolding count by blast
      ultimately show ?thesis using run None t(1,2) by simp
    qed
  qed
qed

lemma three_way_pair:
  assumes "known x" "known z" "\<And>i. b = Some i \<Longrightarrow> known i" "x \<noteq> z"
  shows "find_pair_to_remove is_ancestor (Merge [Some x, b, Some z]) =
    Inr (if anc x z then if below anc b x then Some (0, 0) else None
         else if anc z x \<and> below anc b z then Some (0, 1) else None)"
proof -
  have pos: "remove_position is_ancestor (Merge [Some x, b, Some z]) a = Inr (if below anc b a then Some 0 else None)"
    if "known a" for a
    using assms(3) that answers
    by (cases b) (auto simp: remove_position_def removes_def fallible_position_def below_def)
  have ch: "choose_add is_ancestor (0, Some x) (1, Some z) = Inr (choice anc (0, Some x) (1, Some z))"
    by (rule choose_add_total) (use assms(1,2) in simp_all)
  show ?thesis
    using ch pos[OF assms(1)] pos[OF assms(2)] assms(4)
    by (simp add: find_pair_to_remove_def adds_def choice_def)
qed

lemma merge_ref_targets_three_way:
  assumes "known x" "known z" "\<And>i. b = Some i \<Longrightarrow> known i"
  shows "merge_ref_targets is_ancestor (normal x) (resolved b) (normal z) = Returns (Inr (
    if x = z \<or> b = Some z then normal x
    else if b = Some x then normal z
    else if anc x z \<and> below anc b x then normal z
    else if anc z x \<and> below anc b z then normal x
    else Merge [Some x, b, Some z]))"
proof (cases "x = z \<or> b = Some z \<or> b = Some x")
  case True
  then show ?thesis by (auto simp: merge_ref_targets_def trivial_merge_def normal_def resolved_def)
next
  case False
  let ?m = "Merge [Some x, b, Some z]"
  have flat: "flatten (Merge [normal x, resolved b, normal z]) = Returns ?m"
    by (simp add: flatten_def negate_terms_def normal_def resolved_def)
  have simp: "simplify ?m = Returns ?m"
    using False by (intro simplify_id) (auto simp: merge_ok_def adds_def removes_def)
  have run: "merge_ref_targets is_ancestor (normal x) (resolved b) (normal z) = merge_ref_targets_non_trivial is_ancestor ?m"
    using False flat simp
    by (auto simp: merge_ref_targets_def trivial_merge_def from_vec_def resolve_trivial_def normal_def resolved_def)
  have single: "merge_ref_targets_non_trivial is_ancestor (Merge [v]) = Returns (Inr (Merge [v]))" for v
    by (simp add: merge_ref_targets_non_trivial.simps[of _ "Merge [v]"] find_pair_to_remove_def adds_def)
  have swap: "swap_remove ?m 0 0 = Returns ((b, Some x), Merge [Some z])" "swap_remove ?m 0 1 = Returns ((b, Some z), Merge [Some x])"
    by (simp_all add: swap_remove_def vec_swap_remove_def)
  have "anc z x \<Longrightarrow> below anc b z \<Longrightarrow> below anc b x"
    using anc_trans[OF assms(3) assms(2,1)] by (cases b) (auto simp: below_def)
  moreover have "x \<noteq> z" using False by simp
  ultimately show ?thesis
    unfolding run merge_ref_targets_non_trivial.simps[of _ ?m]
    using False three_way_pair[OF assms] swap single by (auto simp: normal_def resolved_def)
qed

end

section \<open>Comparing named references\<close>

lemma iter_named_pairs_simps:
  assumes "merge_join_law mj"
  shows "iter_named_pairs mj [] ys a b = map (\<lambda>(k, w). (k, (a, w))) ys"
    "iter_named_pairs mj xs [] a b = map (\<lambda>(k, v). (k, (v, b))) xs"
    "iter_named_pairs mj ((k, v) # xs) ((l, w) # ys) a b =
       (if k < l then (k, (v, b)) # iter_named_pairs mj xs ((l, w) # ys) a b
        else if k = l then (k, (v, w)) # iter_named_pairs mj xs ys a b
        else (l, (a, w)) # iter_named_pairs mj ((k, v) # xs) ys a b)"
  using assms unfolding merge_join_law_def
  by (auto simp: iter_named_pairs_def cmp_def)

definition value_at :: "'v \<Rightarrow> ('k \<times> 'v) list \<Rightarrow> 'k \<Rightarrow> 'v" where
  "value_at a xs k = (case map_of xs k of None \<Rightarrow> a | Some v \<Rightarrow> v)"

definition paired :: "('k::linorder \<times> 'v) list \<Rightarrow> ('k \<times> 'w) list \<Rightarrow> 'v \<Rightarrow> 'w \<Rightarrow> ('k \<times> 'v \<times> 'w) list \<Rightarrow> bool" where
  "paired xs ys a b rs \<longleftrightarrow>
     sorted_wrt (<) (map fst rs) \<and>
     set rs = (\<lambda>k. (k, (value_at a xs k, value_at b ys k))) ` (fst ` set xs \<union> fst ` set ys)"

lemma value_at_simps [simp]:
  "value_at a [] k = a" "value_at a ((l, v) # xs) k = (if k = l then v else value_at a xs k)"
  by (simp_all add: value_at_def)

lemma value_at_fresh: "k \<notin> fst ` set xs \<Longrightarrow> value_at a xs k = a"
  by (simp add: value_at_def map_of_eq_None_iff[THEN iffD2])

abbreviation pair_names :: "('k \<times> 'v) list \<Rightarrow> ('k \<times> 'w) list \<Rightarrow> 'k set" where
  "pair_names xs ys \<equiv> fst ` set xs \<union> fst ` set ys"

lemma paired_Cons:
  assumes "paired xs ys a b rs" "\<forall>n \<in> pair_names xs ys. k < n" "pair_names xs' ys' = insert k (pair_names xs ys)"
    and "\<And>n. n \<noteq> k \<Longrightarrow> value_at a xs' n = value_at a xs n \<and> value_at b ys' n = value_at b ys n"
  shows "paired xs' ys' a b ((k, (value_at a xs' k, value_at b ys' k)) # rs)"
proof -
  have "(\<lambda>k. (k, (value_at a xs' k, value_at b ys' k))) ` pair_names xs ys =
      (\<lambda>k. (k, (value_at a xs k, value_at b ys k))) ` pair_names xs ys"
  proof (intro image_cong refl)
    fix n assume "n \<in> pair_names xs ys"
    then have "n \<noteq> k" using assms(2) by blast
    then show "(n, (value_at a xs' n, value_at b ys' n)) = (n, (value_at a xs n, value_at b ys n))"
      using assms(4) by simp
  qed
  moreover have "\<forall>n \<in> fst ` set rs. k < n" using assms(1,2) by (auto simp: paired_def)
  ultimately show ?thesis using assms(1) unfolding paired_def assms(3) by simp
qed

lemma iter_named_pairs_spec:
  assumes "merge_join_law mj"
  shows "sorted_wrt (<) (map fst xs) \<Longrightarrow> sorted_wrt (<) (map fst ys) \<Longrightarrow>
    paired xs ys a b (iter_named_pairs mj xs ys a b)"
proof (induction "length xs + length ys" arbitrary: xs ys rule: less_induct)
  case less
  note simps = iter_named_pairs_simps[OF assms]
  show ?case
  proof (cases xs)
    case Nil
    have "paired [] zs a b (map (\<lambda>(k, w). (k, (a, w))) zs)" if "sorted_wrt (<) (map fst zs)" for zs
      using that
    proof (induction zs)
      case (Cons z zs)
      then have "paired [] zs a b (map (\<lambda>(k, w). (k, (a, w))) zs)" by simp
      from paired_Cons[OF this, of "fst z" "[]" "z # zs"] Cons.prems show ?case by (cases z) auto
    qed (simp add: paired_def)
    then show ?thesis using Nil less.prems(2) simps(1) by simp
  next
    case xs: (Cons p xs')
    obtain k v where p: "p = (k, v)" by force
    show ?thesis
    proof (cases ys)
      case Nil
      have "paired zs [] a b (map (\<lambda>(k, v). (k, (v, b))) zs)" if "sorted_wrt (<) (map fst zs)" for zs
        using that
      proof (induction zs)
        case (Cons z zs)
        then have "paired zs [] a b (map (\<lambda>(k, v). (k, (v, b))) zs)" by simp
        from paired_Cons[OF this, of "fst z" "z # zs" "[]"] Cons.prems show ?case by (cases z) auto
      qed (simp add: paired_def)
      then show ?thesis using Nil less.prems(1) simps(2) by simp
    next
      case ys: (Cons q ys')
      obtain l w where q: "q = (l, w)" by force
      have sx: "sorted_wrt (<) (map fst xs')" "\<forall>n \<in> fst ` set xs'. k < n" and sy: "sorted_wrt (<) (map fst ys')" "\<forall>n \<in> fst ` set ys'. l < n"
        using less.prems xs ys p q by auto
      consider "k < l" | "k = l" | "l < k" by fastforce
      then show ?thesis
      proof cases
        case 1
        then have lo: "\<forall>n \<in> pair_names xs' ys. k < n" using sx sy ys q by auto
        then have "value_at b ys k = b" by (intro value_at_fresh) auto
        moreover have "paired xs' ys a b (iter_named_pairs mj xs' ys a b)"
          using less.hyps[of xs' ys] less.prems(2) sx(1) xs by simp
        from paired_Cons[OF this lo, of xs ys] have "paired xs ys a b ((k, (value_at a xs k, value_at b ys k)) # iter_named_pairs mj xs' ys a b)"
          by (simp add: xs p)
        ultimately show ?thesis using 1 simps(3)[of k v xs' l w ys' a b] by (simp add: xs ys p q)
      next
        case 2
        then have lo: "\<forall>n \<in> pair_names xs' ys'. k < n" using sx sy by auto
        have "paired xs' ys' a b (iter_named_pairs mj xs' ys' a b)"
          using less.hyps[of xs' ys'] sx(1) sy(1) xs ys by simp
        from paired_Cons[OF this lo, of xs ys] have "paired xs ys a b ((k, (value_at a xs k, value_at b ys k)) # iter_named_pairs mj xs' ys' a b)"
          using 2 by (auto simp: xs p ys q)
        then show ?thesis using 2 simps(3)[of k v xs' l w ys' a b] by (simp add: xs ys p q)
      next
        case 3
        then have lo: "\<forall>n \<in> pair_names xs ys'. l < n" using sx sy xs p by auto
        then have "value_at a xs l = a" by (intro value_at_fresh) auto
        moreover have "paired xs ys' a b (iter_named_pairs mj xs ys' a b)"
          using less.hyps[of xs ys'] less.prems(1) sy(1) ys by simp
        from paired_Cons[OF this lo, of xs ys] have "paired xs ys a b ((l, (value_at a xs l, value_at b ys l)) # iter_named_pairs mj xs ys' a b)"
          by (auto simp: ys q)
        ultimately show ?thesis using 3 simps(3)[of k v xs' l w ys' a b] by (auto simp: xs ys p q)
      qed
    qed
  qed
qed

section \<open>Properties\<close>

text \<open>
  Comparing two sorted sequences of named targets yields exactly the names whose targets
  differ, in order, a name that one side lacks counting as absent there.
\<close>

theorem diff_named_ref_targets_exact:
  assumes "merge_join_law mj" "sorted_wrt (<) (map fst refs1)" "sorted_wrt (<) (map fst refs2)"
  shows "sorted_wrt (<) (map fst (diff_named_ref_targets mj refs1 refs2)) \<and>
    (\<forall>k t1 t2. (k, (t1, t2)) \<in> set (diff_named_ref_targets mj refs1 refs2) \<longleftrightarrow>
       t1 = flatten_target (map_of refs1 k) \<and> t2 = flatten_target (map_of refs2 k) \<and> t1 \<noteq> t2)"
proof -
  have eq: "value_at absent xs k = flatten_target (map_of xs k)" for xs :: "('a \<times> ref_target) list" and k
    by (simp add: value_at_def flatten_target_def)
  have p: "paired refs1 refs2 absent absent (iter_named_pairs mj refs1 refs2 absent absent)"
    by (rule iter_named_pairs_spec[OF assms])
  have named: "k \<in> pair_names refs1 refs2"
    if "flatten_target (map_of refs1 k) \<noteq> flatten_target (map_of refs2 k)" for k
    using that by (metis UnCI map_of_eq_None_iff)
  from p have sorted: "sorted_wrt (<) (map fst (diff_named_ref_targets mj refs1 refs2))"
    by (simp add: paired_def diff_named_ref_targets_def sorted_wrt_map sorted_wrt_filter)
  from p have "(k, (t1, t2)) \<in> set (diff_named_ref_targets mj refs1 refs2) \<longleftrightarrow>
      k \<in> pair_names refs1 refs2 \<and> t1 = flatten_target (map_of refs1 k) \<and> t2 = flatten_target (map_of refs2 k) \<and> t1 \<noteq> t2"
    for k t1 t2 unfolding paired_def diff_named_ref_targets_def eq by auto
  with sorted named show ?thesis by blast
qed

theorem diff_named_ref_targets_exact_witness:
  "(''b'', (absent, normal (CommitId [2]))) \<in>
     set (diff_named_ref_targets merge_join_ref [(''a'', normal (CommitId [1]))]
            [(''a'', normal (CommitId [1])), (''b'', normal (CommitId [2]))])"
  using diff_named_ref_targets_exact[OF merge_join_ref_law,
      of "[(''a'', normal (CommitId [1]))]" "[(''a'', normal (CommitId [1])), (''b'', normal (CommitId [2]))]"]
  by (simp add: flatten_target_def normal_def absent_def resolved_def)

text \<open>
  A push updates a remote reference only from the tracked remote target to the local
  target, when both are resolved and differ and the remote reference is tracked or absent; every
  other case refuses or does nothing.
\<close>

theorem classify_ref_push_action_update:
  "classify_ref_push_action t = Update d \<longleftrightarrow>
     tracked_target (la_remote_ref t) = resolved (before d) \<and> la_local_target t = resolved (after d) \<and>
     diff_is_changed d \<and>
     (remote_ref_is_absent (la_remote_ref t) \<or> is_tracked (la_remote_ref t))"
proof -
  have "as_normal (resolved v) = v" for v :: "CommitId option"
    by (simp add: as_normal_def as_resolved_def resolved_def split: option.split)
  moreover have "is_resolved m \<longleftrightarrow> (\<exists>v. m = resolved v)" for m :: ref_target
    by (cases m; cases "merge_values m") (auto simp: is_resolved_def resolved_def length_Suc_conv)
  moreover have "resolved u = resolved v \<longleftrightarrow> u = v" for u v :: "CommitId option" by (simp add: resolved_def)
  ultimately show ?thesis
    by (cases d) (auto simp: classify_ref_push_action_def Let_def diff_new_def diff_is_changed_def
        remote_ref_is_present_def remote_ref_is_absent_def is_present_def split: if_splits)
qed

text \<open>
  Merging remote references merges the targets and takes the state of the side that changed
  it; with two states the merge of the states is never left undecided, so the fallback to the
  base's state is never taken.
\<close>

theorem merge_remote_refs_state:
  "merge_remote_refs q left base right =
     try_exec (merge_ref_targets q (rr_target left) (rr_target base) (rr_target right)) (\<lambda>target.
       Returns (Inr \<lparr>rr_target = target,
         rr_state = (if rr_state left = rr_state base then rr_state right else rr_state left)\<rparr>)) \<and>
   trivial_merge [rr_state left, rr_state base, rr_state right] Accept \<noteq> Returns None"
proof -
  have "trivial_merge [a, b, c] Accept = Returns (Some (if a = b then c else a))" for a b c :: remote_ref_state
    by (cases a; cases b; cases c) (simp_all add: trivial_merge_def)
  then show ?thesis by (simp add: merge_remote_refs_def)
qed

end
