(* ===== verification/Bit_Set.thy ===== *)
theory Bit_Set
  imports Merge_Expr "HOL-Library.Word"
begin

text \<open>
  The bit set of commit positions, \<open>PositionsBitSet\<close> of
  \<open>jj/lib/src/default_index/bit_set.rs\<close>: 64-bit words in reverse order of the positions,
  allocated page by page when a bit is set. \<open>u32\<close> values are natural numbers; the
  subtractions and conversions that the source checks are branches to \<open>Panics\<close>.

  The laws say that a set of a given capacity behaves like a set of positions: reading never
  changes it, setting a position adds exactly that position, and nothing panics below the
  capacity.
\<close>

unbundle bit_operations_syntax

section \<open>Operations\<close>

definition page_size_in_words :: nat where
  "page_size_in_words = 4096 * 8 div 64"

record positions_bit_set =
  bs_data :: "64 word list"
  bitset_len :: nat

definition div_ceil :: "nat \<Rightarrow> nat \<Rightarrow> nat" where
  "div_ceil a b = (if a mod b = 0 then a div b else a div b + 1)"

definition with_capacity :: "nat \<Rightarrow> positions_bit_set" where
  "with_capacity len = \<lparr>bs_data = [], bitset_len = div_ceil len 64\<rparr>"

definition with_max_pos :: "nat \<Rightarrow> positions_bit_set exec" where
  "with_max_pos max_pos = (if max_pos = 2 ^ 32 - 1 then Panics else Returns (with_capacity (max_pos + 1)))"

definition ensure_data :: "nat \<Rightarrow> positions_bit_set \<Rightarrow> positions_bit_set" where
  "ensure_data bitset_pos bs =
     (if bitset_pos < length (bs_data bs) then bs
      else let new_len = min (div_ceil (bitset_pos + 1) page_size_in_words * page_size_in_words) (bitset_len bs)
           in if bs_data bs = [] then bs\<lparr>bs_data := replicate new_len 0\<rparr>
              else bs\<lparr>bs_data := take new_len (bs_data bs) @ replicate (new_len - length (bs_data bs)) 0\<rparr>)"

definition to_global_pos :: "positions_bit_set \<Rightarrow> nat \<times> nat \<Rightarrow> nat exec" where
  "to_global_pos bs p =
     (let (bitset_pos, bit_pos) = p in
      if bitset_len bs < bitset_pos + 1 then Panics
      else Returns ((bitset_len bs - (bitset_pos + 1)) * 64 + bit_pos))"

definition to_bitset_pos :: "positions_bit_set \<Rightarrow> nat \<Rightarrow> (nat \<times> nat) exec" where
  "to_bitset_pos bs pos =
     (let bitset_rev_pos = pos div 64; bit_pos = pos mod 64 in
      if bitset_len bs < bitset_rev_pos + 1 then Panics
      else Returns (bitset_len bs - (bitset_rev_pos + 1), bit_pos))"

definition get_bit :: "positions_bit_set \<Rightarrow> nat \<times> nat \<Rightarrow> bool" where
  "get_bit bs p =
     (let (bitset_pos, bit_pos) = p in
      case slice_get (bs_data bs) bitset_pos of
        Some word \<Rightarrow> word AND push_bit bit_pos 1 \<noteq> 0
      | None \<Rightarrow> False)"

definition bs_get :: "positions_bit_set \<Rightarrow> nat \<Rightarrow> bool exec" where
  "bs_get bs pos = exec_bind (to_bitset_pos bs pos) (\<lambda>p. Returns (get_bit bs p))"

text \<open>\<open>self.data[bitset_pos]\<close> panics when \<open>ensure_data\<close> could not make room.\<close>

definition set_bit :: "nat \<times> nat \<Rightarrow> positions_bit_set \<Rightarrow> positions_bit_set exec" where
  "set_bit p bs =
     (let (bitset_pos, bit_pos) = p; bs' = ensure_data bitset_pos bs in
      if bitset_pos < length (bs_data bs')
      then Returns (bs'\<lparr>bs_data := (bs_data bs')[bitset_pos := bs_data bs' ! bitset_pos OR push_bit bit_pos 1]\<rparr>)
      else Panics)"

definition bs_set :: "nat \<Rightarrow> positions_bit_set \<Rightarrow> positions_bit_set exec" where
  "bs_set pos bs = exec_bind (to_bitset_pos bs pos) (\<lambda>p. set_bit p bs)"

definition get_set_bit :: "nat \<times> nat \<Rightarrow> positions_bit_set \<Rightarrow> (bool \<times> positions_bit_set) exec" where
  "get_set_bit p bs =
     (let (bitset_pos, bit_pos) = p; bs' = ensure_data bitset_pos bs in
      if bitset_pos < length (bs_data bs')
      then let word = bs_data bs' ! bitset_pos
           in Returns (word AND push_bit bit_pos 1 \<noteq> 0,
                bs'\<lparr>bs_data := (bs_data bs')[bitset_pos := word OR push_bit bit_pos 1]\<rparr>)
      else Panics)"

definition bs_get_set :: "nat \<Rightarrow> positions_bit_set \<Rightarrow> (bool \<times> positions_bit_set) exec" where
  "bs_get_set pos bs = exec_bind (to_bitset_pos bs pos) (\<lambda>p. get_set_bit p bs)"

section \<open>The set of positions\<close>

definition capacity :: "positions_bit_set \<Rightarrow> nat" where
  "capacity bs = bitset_len bs * 64"

definition members :: "positions_bit_set \<Rightarrow> nat set" where
  "members bs = {pos. bs_get bs pos = Returns True}"

lemma members_capacity: "members bs \<subseteq> {..<capacity bs}"
  by (auto simp: members_def bs_get_def to_bitset_pos_def capacity_def Let_def split: if_splits)

lemma div_ceil_le: "0 < b \<Longrightarrow> a \<le> div_ceil a b * b"
proof -
  assume "0 < b"
  then have "a mod b < b" "a div b * b + a mod b = a" by simp_all
  then have "a \<le> a div b * b + b" "a mod b = 0 \<Longrightarrow> a = a div b * b" by linarith+
  then show ?thesis by (auto simp: div_ceil_def)
qed

lemma ensure_data_grows:
  assumes "p < bitset_len bs"
  shows "p < length (bs_data (ensure_data p bs))"
    "bitset_len (ensure_data p bs) = bitset_len bs"
    "length (bs_data bs) \<le> length (bs_data (ensure_data p bs))"
proof -
  have "p + 1 \<le> div_ceil (p + 1) page_size_in_words * page_size_in_words"
    by (rule div_ceil_le) (simp add: page_size_in_words_def)
  with assms show "p < length (bs_data (ensure_data p bs))"
    "bitset_len (ensure_data p bs) = bitset_len bs"
    "length (bs_data bs) \<le> length (bs_data (ensure_data p bs))"
    by (auto simp: ensure_data_def Let_def)
qed

lemma get_bit_iff: "get_bit bs (i, b) \<longleftrightarrow> i < length (bs_data bs) \<and> bit (bs_data bs ! i) b"
  by (simp add: get_bit_def slice_get_def bit_iff_and_push_bit_not_eq_0)

lemma get_bit_ensure_data:
  assumes "p < bitset_len bs"
  shows "get_bit (ensure_data p bs) (i, b) = get_bit bs (i, b)"
  using ensure_data_grows(3)[OF assms]
  by (auto simp: get_bit_iff ensure_data_def Let_def nth_append)

lemma bit_or_push:
  "b < 64 \<Longrightarrow> bit (w OR push_bit b 1 :: 64 word) c \<longleftrightarrow> bit w c \<or> c = b"
  by (auto simp: bit_or_iff bit_push_bit_iff bit_1_iff bit_exp_iff possible_bit_word)

lemma get_set_bit_spec:
  assumes "i < bitset_len bs" "b < 64"
  obtains bs' where "get_set_bit (i, b) bs = Returns (get_bit bs (i, b), bs')" "set_bit (i, b) bs = Returns bs'"
    "bitset_len bs' = bitset_len bs"
    "\<And>j c. get_bit bs' (j, c) \<longleftrightarrow> get_bit bs (j, c) \<or> (j = i \<and> c = b)"
proof -
  let ?e = "ensure_data i bs"
  note grow = ensure_data_grows[OF assms(1)]
  let ?bs' = "?e\<lparr>bs_data := (bs_data ?e)[i := bs_data ?e ! i OR push_bit b 1]\<rparr>"
  have "get_set_bit (i, b) bs = Returns (get_bit bs (i, b), ?bs')" "set_bit (i, b) bs = Returns ?bs'"
    using grow(1) get_bit_ensure_data[OF assms(1), of i b]
    by (simp_all add: get_set_bit_def set_bit_def get_bit_iff bit_iff_and_push_bit_not_eq_0 Let_def)
  moreover have "bitset_len ?bs' = bitset_len bs" using grow by simp
  moreover have "get_bit ?bs' (j, c) \<longleftrightarrow> get_bit bs (j, c) \<or> (j = i \<and> c = b)" for j c
    using grow(1) get_bit_ensure_data[OF assms(1), of j c] bit_or_push[OF assms(2)]
    by (auto simp: get_bit_iff nth_list_update)
  ultimately show ?thesis using that by blast
qed

lemma in_members:
  "q \<in> members bs \<longleftrightarrow>
     q div 64 + 1 \<le> bitset_len bs \<and> get_bit bs (bitset_len bs - (q div 64 + 1), q mod 64)"
  by (auto simp: members_def bs_get_def to_bitset_pos_def Let_def)

lemma bs_get_iff:
  "bs_get bs pos = (if pos < capacity bs then Returns (pos \<in> members bs) else Panics)"
  by (auto simp: members_def bs_get_def to_bitset_pos_def capacity_def Let_def)

lemma bs_get_set_spec:
  assumes "pos < capacity bs"
  obtains bs' where "bs_get_set pos bs = Returns (pos \<in> members bs, bs')" "bs_set pos bs = Returns bs'"
    "capacity bs' = capacity bs" "members bs' = insert pos (members bs)"
proof -
  have lt: "pos div 64 + 1 \<le> bitset_len bs" using assms by (simp add: capacity_def)
  let ?i = "bitset_len bs - (pos div 64 + 1)"
  have p: "to_bitset_pos bs pos = Returns (?i, pos mod 64)" using lt by (simp add: to_bitset_pos_def)
  obtain bs' where bs': "get_set_bit (?i, pos mod 64) bs = Returns (get_bit bs (?i, pos mod 64), bs')"
    "set_bit (?i, pos mod 64) bs = Returns bs'" "bitset_len bs' = bitset_len bs"
    "\<And>j c. get_bit bs' (j, c) \<longleftrightarrow> get_bit bs (j, c) \<or> (j = ?i \<and> c = pos mod 64)"
    using get_set_bit_spec[of ?i bs "pos mod 64"] lt by auto
  have inj: "bitset_len bs - (q div 64 + 1) = ?i \<and> q mod 64 = pos mod 64 \<longleftrightarrow> q = pos"
    if "q div 64 + 1 \<le> bitset_len bs" for q
  proof -
    have "bitset_len bs - (q div 64 + 1) = ?i \<longleftrightarrow> q div 64 = pos div 64" using that lt by linarith
    then show ?thesis using div_mult_mod_eq[of q 64] div_mult_mod_eq[of pos 64] by metis
  qed
  have "members bs' = insert pos (members bs)"
  proof (intro set_eqI)
    fix q
    show "q \<in> members bs' \<longleftrightarrow> q \<in> insert pos (members bs)"
      using inj[of q] lt unfolding insert_iff in_members bs'(3,4) by blast
  qed
  moreover have "bs_get_set pos bs = Returns (pos \<in> members bs, bs')" "bs_set pos bs = Returns bs'"
    using p bs'(1,2) by (simp_all add: bs_get_set_def bs_set_def members_def bs_get_def)
  ultimately show ?thesis using that bs'(3) by (simp add: capacity_def)
qed

lemma bs_get_set_Returns:
  assumes "bs_get_set pos bs = Returns (old, bs')"
  shows "pos < capacity bs" "old \<longleftrightarrow> pos \<in> members bs" "capacity bs' = capacity bs"
    "members bs' = insert pos (members bs)"
proof -
  show p: "pos < capacity bs"
    using assms by (auto simp: bs_get_set_def to_bitset_pos_def capacity_def Let_def split: if_splits)
  show "old \<longleftrightarrow> pos \<in> members bs" "capacity bs' = capacity bs" "members bs' = insert pos (members bs)"
    using bs_get_set_spec[OF p] assms by (metis Pair_inject exec.inject)+
qed

text \<open>The number of positions that are not set; it bounds the steps of a walk that marks positions.\<close>

definition free :: "positions_bit_set \<Rightarrow> nat" where
  "free bs = capacity bs - card (members bs)"

lemma free_get_set:
  assumes "bs_get_set pos bs = Returns (old, bs')"
  shows "old \<Longrightarrow> free bs' = free bs" "\<not> old \<Longrightarrow> free bs' < free bs"
proof -
  note spec = bs_get_set_Returns[OF assms]
  have fin: "finite (members bs)" using members_capacity finite_subset by blast
  show "old \<Longrightarrow> free bs' = free bs" using spec by (simp add: free_def insert_absorb)
  assume "\<not> old"
  then have "card (members bs') = Suc (card (members bs))" using spec fin by simp
  moreover have "card (members bs') \<le> capacity bs"
    using members_capacity[of bs'] spec(3) by (metis card_lessThan card_mono finite_lessThan)
  ultimately show "free bs' < free bs" using spec(3) by (simp add: free_def)
qed

lemma with_capacity_spec:
  "members (with_capacity n) = {}" "n \<le> capacity (with_capacity n)"
  using div_ceil_le[of 64 n]
  by (auto simp: with_capacity_def members_def bs_get_def get_bit_def slice_get_def capacity_def
      to_bitset_pos_def Let_def split: if_splits)

section \<open>Property\<close>

text \<open>
  (C39) The page-wise allocated bit set implements a set of positions: below its capacity no
  operation panics, \<open>get\<close> tells membership, and \<open>set\<close> and \<open>get_set\<close> add exactly the given
  position, \<open>get_set\<close> telling whether it was there.
\<close>

theorem bit_set_refines:
  assumes "pos < capacity bs"
  shows "bs_get bs pos = Returns (pos \<in> members bs) \<and>
    (\<exists>bs'. bs_get_set pos bs = Returns (pos \<in> members bs, bs') \<and> bs_set pos bs = Returns bs' \<and>
       capacity bs' = capacity bs \<and> members bs' = insert pos (members bs))"
  using bs_get_set_spec[OF assms] bs_get_iff[of bs pos] assms by auto

theorem bit_set_refines_witness:
  "\<exists>bs'. bs_get_set 70 (with_capacity 100) = Returns (False, bs') \<and> members bs' = {70}"
proof -
  have "70 < capacity (with_capacity 100)" by (simp add: capacity_def with_capacity_def div_ceil_def)
  from bit_set_refines[OF this] show ?thesis by (auto simp: with_capacity_spec)
qed

end
