(* ===== verification/Commit_Index.thy ===== *)
theory Commit_Index
  imports Bit_Set Object_Ids
begin

text \<open>
  The commit index, \<open>jj/lib/src/default_index/composite.rs\<close>, over the segments of
  \<open>jj/lib/src/default_index/mutable.rs\<close>: a chain of segments, each with the commits that it adds
  to its parent segment. A commit is addressed by its position, which is larger than the
  positions of its parents.

  A parent segment of the source is the read-only file that \<open>save_in\<close> wrote for a mutable
  segment; it holds the same entries and lookup tables, so both are one type here. The file
  format, the binary search in the file and the prefix lookups are not modelled. Positions and
  generation numbers (\<open>u32\<close>) are natural numbers; a segment of \<open>2^32\<close> commits or more is not
  considered beyond the check in \<open>add_commit_data\<close>. A \<open>BinaryHeap\<close> is the list of its items in
  descending order.
\<close>

section \<open>Segments\<close>

record graph_entry =
  ge_commit_id :: CommitId
  ge_change_id :: ChangeId
  ge_generation_number :: nat
  ge_parent_positions :: "nat list"

datatype segment =
  Segment (parent_file: "segment option") (num_parent_commits: nat) (graph: "graph_entry list")
    (commit_lookup: "(CommitId, nat) btree") (change_lookup: "(ChangeId, nat list) btree")

fun ancestor_index_segments :: "segment \<Rightarrow> segment list" where
  "ancestor_index_segments (Segment parent n g cl chl) =
     Segment parent n g cl chl #
       (case parent of None \<Rightarrow> [] | Some file \<Rightarrow> ancestor_index_segments file)"

definition num_local_commits :: "segment \<Rightarrow> nat" where
  "num_local_commits s = length (graph s)"

definition num_commits :: "segment \<Rightarrow> nat" where
  "num_commits s = num_parent_commits s + num_local_commits s"

definition full :: segment where
  "full = Segment None 0 [] bt_empty bt_empty"

definition incremental :: "segment \<Rightarrow> segment" where
  "incremental file = Segment (Some file) (num_commits file) [] bt_empty bt_empty"

section \<open>Entries\<close>

record commit_index_entry =
  ie_source :: segment
  ie_pos :: nat
  ie_local_pos :: nat

fun find_map :: "('a \<Rightarrow> 'b option) \<Rightarrow> 'a list \<Rightarrow> 'b option" where
  "find_map f [] = None"
| "find_map f (x # xs) = (case f x of Some y \<Rightarrow> Some y | None \<Rightarrow> find_map f xs)"

definition entry_by_pos :: "segment \<Rightarrow> nat \<Rightarrow> commit_index_entry exec" where
  "entry_by_pos s pos =
     unwrap (find_map (\<lambda>seg.
       if num_parent_commits seg \<le> pos
       then Some \<lparr>ie_source = seg, ie_pos = pos, ie_local_pos = pos - num_parent_commits seg\<rparr>
       else None) (ancestor_index_segments s))"

definition entry_by_id :: "segment \<Rightarrow> CommitId \<Rightarrow> commit_index_entry option" where
  "entry_by_id s commit_id =
     find_map (\<lambda>seg. map_option (\<lambda>local_pos.
         \<lparr>ie_source = seg, ie_pos = local_pos + num_parent_commits seg, ie_local_pos = local_pos\<rparr>)
       (bt_get (commit_lookup seg) commit_id)) (ancestor_index_segments s)"

definition try_commit_id_to_pos :: "segment \<Rightarrow> CommitId \<Rightarrow> nat option" where
  "try_commit_id_to_pos s commit_id =
     find_map (\<lambda>seg. map_option (\<lambda>local_pos. local_pos + num_parent_commits seg)
       (bt_get (commit_lookup seg) commit_id)) (ancestor_index_segments s)"

text \<open>
  The errors of a query; \<open>IndexPanicked\<close> stands for a panic inside the index when the query is
  handed to a caller that only sees its result.
\<close>

datatype index_error = CommitIdNotFound CommitId | IndexPanicked

definition commit_id_to_pos :: "segment \<Rightarrow> CommitId \<Rightarrow> (index_error, nat) result" where
  "commit_id_to_pos s commit_id = ok_or (CommitIdNotFound commit_id) (try_commit_id_to_pos s commit_id)"

definition has_id :: "segment \<Rightarrow> CommitId \<Rightarrow> bool" where
  "has_id s commit_id = (try_commit_id_to_pos s commit_id \<noteq> None)"

text \<open>\<open>self.graph[local_pos]\<close> of the segment of an entry.\<close>

definition graph_at :: "commit_index_entry \<Rightarrow> graph_entry exec" where
  "graph_at e = unwrap (slice_get (graph (ie_source e)) (ie_local_pos e))"

definition generation_number :: "commit_index_entry \<Rightarrow> nat exec" where
  "generation_number e = exec_bind (graph_at e) (\<lambda>g. Returns (ge_generation_number g))"

definition entry_commit_id :: "commit_index_entry \<Rightarrow> CommitId exec" where
  "entry_commit_id e = exec_bind (graph_at e) (\<lambda>g. Returns (ge_commit_id g))"

definition parent_positions :: "commit_index_entry \<Rightarrow> nat list exec" where
  "parent_positions e = exec_bind (graph_at e) (\<lambda>g. Returns (ge_parent_positions g))"

definition parents_at :: "segment \<Rightarrow> nat \<Rightarrow> nat list exec" where
  "parents_at s pos = exec_bind (entry_by_pos s pos) parent_positions"

definition generation_at :: "segment \<Rightarrow> nat \<Rightarrow> nat exec" where
  "generation_at s pos = exec_bind (entry_by_pos s pos) generation_number"

section \<open>Adding commits\<close>

text \<open>The loop over the parents: the generation number and the parents' positions so far.\<close>

fun add_parents :: "segment \<Rightarrow> CommitId list \<Rightarrow> nat \<Rightarrow> nat list \<Rightarrow> (nat \<times> nat list) exec" where
  "add_parents s [] generation positions = Returns (generation, positions)"
| "add_parents s (parent_id # parent_ids) generation positions =
     exec_bind (unwrap (entry_by_id s parent_id)) (\<lambda>parent_entry.
     exec_bind (generation_number parent_entry) (\<lambda>g.
     add_parents s parent_ids (max generation (g + 1)) (positions @ [ie_pos parent_entry])))"

definition add_commit_data ::
  "segment \<Rightarrow> CommitId \<Rightarrow> ChangeId \<Rightarrow> CommitId list \<Rightarrow> segment exec" where
  "add_commit_data s commit_id change_id parent_ids =
     (if has_id s commit_id then Returns s
      else exec_bind (add_parents s parent_ids 0 []) (\<lambda>(generation, positions).
        if length (graph s) \<ge> 2 ^ 32 then Panics
        else let local_pos = length (graph s);
                 entry = \<lparr>ge_commit_id = commit_id, ge_change_id = change_id,
                          ge_generation_number = generation, ge_parent_positions = positions\<rparr>
             in Returns (Segment (parent_file s) (num_parent_commits s) (graph s @ [entry])
                  (bt_insert commit_id local_pos (commit_lookup s))
                  (bt_insert change_id
                     (case bt_get (change_lookup s) change_id of
                        Some positions \<Rightarrow> positions @ [local_pos] | None \<Rightarrow> [local_pos])
                     (change_lookup s)))))"

section \<open>Ancestry\<close>

text \<open>
  The loop of \<open>is_ancestor_pos\<close>. The vector \<open>work\<close> is a stack with its last element first. A
  walk is bounded because every position is marked as visited once.
\<close>

function is_ancestor_loop ::
  "segment \<Rightarrow> nat \<Rightarrow> nat \<Rightarrow> nat list \<Rightarrow> positions_bit_set \<Rightarrow> bool exec" where
  "is_ancestor_loop s ancestor_pos ancestor_generation [] visited = Returns False"
| "is_ancestor_loop s ancestor_pos ancestor_generation (descendant_pos # work) visited =
     (if descendant_pos < ancestor_pos
      then is_ancestor_loop s ancestor_pos ancestor_generation work visited
      else if descendant_pos = ancestor_pos then Returns True
      else case bs_get_set descendant_pos visited of
        Panics \<Rightarrow> Panics
      | Returns (True, visited') \<Rightarrow> is_ancestor_loop s ancestor_pos ancestor_generation work visited'
      | Returns (False, visited') \<Rightarrow>
          (case generation_at s descendant_pos of
             Panics \<Rightarrow> Panics
           | Returns g \<Rightarrow>
               if g \<le> ancestor_generation
               then is_ancestor_loop s ancestor_pos ancestor_generation work visited'
               else case parents_at s descendant_pos of
                      Panics \<Rightarrow> Panics
                    | Returns ps \<Rightarrow>
                        is_ancestor_loop s ancestor_pos ancestor_generation (rev ps @ work) visited'))"
  by pat_completeness auto
termination
  by (relation "measures [\<lambda>(_, _, _, _, visited). free visited, \<lambda>(_, _, _, work, _). length work]")
    (auto dest: free_get_set)

declare is_ancestor_loop.simps [simp del]

definition is_ancestor_pos :: "segment \<Rightarrow> nat \<Rightarrow> nat \<Rightarrow> bool exec" where
  "is_ancestor_pos s ancestor_pos descendant_pos =
     exec_bind (generation_at s ancestor_pos) (\<lambda>ancestor_generation.
     exec_bind (with_max_pos descendant_pos) (\<lambda>visited.
     is_ancestor_loop s ancestor_pos ancestor_generation [descendant_pos] visited))"

definition is_ancestor :: "segment \<Rightarrow> CommitId \<Rightarrow> CommitId \<Rightarrow> (index_error, bool) result exec" where
  "is_ancestor s ancestor_id descendant_id =
     (case commit_id_to_pos s ancestor_id of
        Inl e \<Rightarrow> Returns (Inl e)
      | Inr ancestor_pos \<Rightarrow>
          (case commit_id_to_pos s descendant_id of
             Inl e \<Rightarrow> Returns (Inl e)
           | Inr descendant_pos \<Rightarrow>
               exec_bind (is_ancestor_pos s ancestor_pos descendant_pos) (\<lambda>r. Returns (Inr r))))"

text \<open>The query as callers of the trait \<open>Index\<close> see it.\<close>

definition index_query :: "segment \<Rightarrow> CommitId \<Rightarrow> CommitId \<Rightarrow> (index_error, bool) result" where
  "index_query s a d = (case is_ancestor s a d of Returns r \<Rightarrow> r | Panics \<Rightarrow> Inl IndexPanicked)"

section \<open>Heaps\<close>

text \<open>A maximum heap as the list of its items in descending order.\<close>

fun heap_push :: "nat \<Rightarrow> nat list \<Rightarrow> nat list" where
  "heap_push x [] = [x]"
| "heap_push x (y # ys) = (if y \<le> x then x # y # ys else y # heap_push x ys)"

definition heap_extend :: "nat list \<Rightarrow> nat list \<Rightarrow> nat list" where
  "heap_extend heap xs = fold heap_push xs heap"

definition heap_from :: "nat list \<Rightarrow> nat list" where
  "heap_from xs = heap_extend [] xs"

fun remove_dup :: "nat list \<Rightarrow> nat \<Rightarrow> nat list" where
  "remove_dup [] item = []"
| "remove_dup (x # heap) item = (if x = item then remove_dup heap item else x # heap)"

definition dedup_pop :: "nat list \<Rightarrow> (nat \<times> nat list) option" where
  "dedup_pop heap = (case heap of [] \<Rightarrow> None | item # rest \<Rightarrow> Some (item, remove_dup rest item))"

text \<open>Writing through \<open>peek_mut\<close> replaces the greatest item and restores the heap order.\<close>

definition dedup_replace :: "nat list \<Rightarrow> nat \<Rightarrow> (nat \<times> nat list) option" where
  "dedup_replace heap new_item =
     (case heap of [] \<Rightarrow> None
      | old_item # rest \<Rightarrow> Some (old_item, remove_dup (heap_push new_item rest) old_item))"

fun push_parents :: "nat list \<Rightarrow> nat \<Rightarrow> nat list \<Rightarrow> nat list exec" where
  "push_parents items pos [] = Returns items"
| "push_parents items pos (parent_pos # ps) =
     (if parent_pos < pos then push_parents (heap_push parent_pos items) pos ps else Panics)"

definition shift_to_parents :: "nat list \<Rightarrow> nat \<Rightarrow> nat list \<Rightarrow> nat list exec" where
  "shift_to_parents items pos parents =
     (case parents of
        parent_pos # ps \<Rightarrow>
          if parent_pos < pos
          then exec_bind (unwrap (dedup_replace items parent_pos)) (\<lambda>(_, items'). push_parents items' pos ps)
          else Panics
      | [] \<Rightarrow> exec_bind (unwrap (dedup_pop items)) (\<lambda>(_, items'). Returns items'))"

text \<open>Replacing the greatest item by smaller ones decreases the heap in the multiset order.\<close>

lemma mset_heap_push: "mset (heap_push x heap) = add_mset x (mset heap)"
  by (induction heap) auto

lemma mset_remove_dup: "mset (remove_dup heap x) \<subseteq># mset heap"
  by (induction heap) (auto intro: subset_mset.order_trans)

definition heap_order :: "(nat list \<times> nat list) set" where
  "heap_order = inv_image (mult less_than) mset"

lemma wf_heap_order: "wf heap_order"
  by (simp add: heap_order_def wf_mult)

lemma heap_orderI:
  assumes "mset heap' \<subseteq># mset rest + mset xs" "\<forall>x \<in> set xs. x < pos"
  shows "(heap', pos # rest) \<in> heap_order"
proof -
  have "(mset rest + mset xs, mset rest + {#pos#}) \<in> mult less_than"
    using assms(2) by (intro one_step_implies_mult) auto
  moreover have "(mset heap', mset rest + mset xs) \<in> (mult less_than)\<^sup>="
    using assms(1) by (metis Un_iff pair_in_Id_conv subset_implies_mult subset_mset.less_le)
  ultimately show ?thesis
    using transD[OF trans_mult[of less_than]] by (auto simp: heap_order_def)
qed

lemma remove_dup_order: "(remove_dup rest p, p # rest) \<in> heap_order"
  using mset_remove_dup by (intro heap_orderI[where xs = "[]"]) auto

lemma dedup_pop_order: "dedup_pop heap = Some (p, heap') \<Longrightarrow> (heap', heap) \<in> heap_order"
  by (cases heap) (auto simp: dedup_pop_def remove_dup_order)

lemma push_parents_mset:
  "push_parents items pos ps = Returns items' \<Longrightarrow> mset items' = mset items + mset ps \<and> (\<forall>p \<in> set ps. p < pos)"
  by (induction items pos ps rule: push_parents.induct) (auto simp: mset_heap_push split: if_splits)

lemma shift_to_parents_order:
  assumes "shift_to_parents (pos # rest) pos ps = Returns items'"
  shows "(items', pos # rest) \<in> heap_order"
proof (cases ps)
  case Nil
  with assms show ?thesis
    by (auto simp: shift_to_parents_def unwrap_def exec_bind_eq_Returns split: option.splits intro: dedup_pop_order)
next
  case (Cons p ps')
  with assms have p: "p < pos" and "push_parents (remove_dup (heap_push p rest) pos) pos ps' = Returns items'"
    by (auto simp: shift_to_parents_def dedup_replace_def unwrap_def split: if_splits)
  from push_parents_mset[OF this(2)] have "mset items' = mset (remove_dup (heap_push p rest) pos) + mset ps'"
    "\<forall>q \<in> set ps'. q < pos" by auto
  with p mset_remove_dup[of "heap_push p rest" pos] show ?thesis
    by (intro heap_orderI[where xs = "p # ps'"]) (auto simp: mset_heap_push)
qed

section \<open>Heads and common ancestors\<close>

text \<open>
  The inner loop of \<open>heads_pos\<close>: it moves the heap of parents down to the candidate, and tells
  whether the candidate was met.
\<close>

function heads_inner :: "segment \<Rightarrow> nat \<Rightarrow> nat \<Rightarrow> nat list \<Rightarrow> (bool \<times> nat list) exec" where
  "heads_inner s min_generation candidate [] = Returns (False, [])"
| "heads_inner s min_generation candidate (parent # rest) =
     (if parent \<ge> candidate
      then case generation_at s parent of
             Panics \<Rightarrow> Panics
           | Returns g \<Rightarrow>
               (case (if g \<le> min_generation
                      then exec_bind (unwrap (dedup_pop (parent # rest))) (\<lambda>(_, parents). Returns parents)
                      else exec_bind (parents_at s parent) (\<lambda>ps. shift_to_parents (parent # rest) parent ps)) of
                  Panics \<Rightarrow> Panics
                | Returns parents \<Rightarrow>
                    if parent = candidate then Returns (True, parents)
                    else heads_inner s min_generation candidate parents)
      else Returns (False, parent # rest))"
  by pat_completeness auto
termination
  by (relation "inv_image heap_order (\<lambda>(_, _, _, heap). heap)")
    (auto simp: wf_heap_order unwrap_def exec_bind_eq_Returns split: if_splits option.splits
      dest: dedup_pop_order shift_to_parents_order)

declare heads_inner.simps [simp del]

fun heads_outer :: "segment \<Rightarrow> nat \<Rightarrow> nat list \<Rightarrow> nat list \<Rightarrow> nat list \<Rightarrow> nat list exec" where
  "heads_outer s min_generation [] parents heads = Returns heads"
| "heads_outer s min_generation (candidate # candidates) parents heads =
     exec_bind (heads_inner s min_generation candidate parents) (\<lambda>(met, parents').
     if met then heads_outer s min_generation candidates parents' heads
     else exec_bind (parents_at s candidate) (\<lambda>ps.
          heads_outer s min_generation candidates (heap_extend parents' ps) (heads @ [candidate])))"

definition heads_pos :: "segment \<Rightarrow> nat list \<Rightarrow> nat list exec" where
  "heads_pos s candidate_positions =
     exec_bind (exec_map (generation_at s) candidate_positions) (\<lambda>generations.
     if generations = [] then Returns candidate_positions
     else heads_outer s (Min (set generations)) candidate_positions [] [])"

function common_loop :: "segment \<Rightarrow> nat list \<Rightarrow> nat list \<Rightarrow> nat list \<Rightarrow> nat list exec" where
  "common_loop s items1 items2 res =
     (case (items1, items2) of
        (pos1 # rest1, pos2 # rest2) \<Rightarrow>
          if pos1 > pos2
          then case exec_bind (parents_at s pos1) (shift_to_parents items1 pos1) of
                 Panics \<Rightarrow> Panics
               | Returns items1' \<Rightarrow> common_loop s items1' items2 res
          else if pos1 < pos2
          then case exec_bind (parents_at s pos2) (shift_to_parents items2 pos2) of
                 Panics \<Rightarrow> Panics
               | Returns items2' \<Rightarrow> common_loop s items1 items2' res
          else common_loop s (remove_dup rest1 pos1) (remove_dup rest2 pos2) (res @ [pos1])
      | _ \<Rightarrow> Returns res)"
  by pat_completeness auto
termination
  by (relation "inv_image (heap_order <*lex*> heap_order) (\<lambda>(_, items1, items2, _). (items1, items2))")
    (auto simp: wf_heap_order exec_bind_eq_Returns wf_lex_prod intro: shift_to_parents_order remove_dup_order)

declare common_loop.simps [simp del]

definition common_ancestors_pos :: "segment \<Rightarrow> nat list \<Rightarrow> nat list \<Rightarrow> nat list exec" where
  "common_ancestors_pos s set1 set2 =
     exec_bind (common_loop s (heap_from set1) (heap_from set2) []) (heads_pos s)"

section \<open>Queries by commit id\<close>

definition id_at :: "segment \<Rightarrow> nat \<Rightarrow> CommitId exec" where
  "id_at s pos = exec_bind (entry_by_pos s pos) entry_commit_id"

definition heads :: "segment \<Rightarrow> CommitId list \<Rightarrow> (index_error, CommitId list) result exec" where
  "heads s candidate_ids =
     (case list_try_map (commit_id_to_pos s) candidate_ids of
        Inl e \<Rightarrow> Returns (Inl e)
      | Inr candidate_positions \<Rightarrow>
          exec_bind (heads_pos s (remdups_adj (rev (sort candidate_positions)))) (\<lambda>positions.
          exec_bind (exec_map (id_at s) positions) (\<lambda>ids. Returns (Inr ids))))"

definition common_ancestors ::
  "segment \<Rightarrow> CommitId list \<Rightarrow> CommitId list \<Rightarrow> (index_error, CommitId list) result exec" where
  "common_ancestors s set1 set2 =
     (case list_try_map (commit_id_to_pos s) set1 of
        Inl e \<Rightarrow> Returns (Inl e)
      | Inr pos1 \<Rightarrow>
          (case list_try_map (commit_id_to_pos s) set2 of
             Inl e \<Rightarrow> Returns (Inl e)
           | Inr pos2 \<Rightarrow>
               exec_bind (common_ancestors_pos s pos1 pos2) (\<lambda>positions.
               exec_bind (exec_map (id_at s) positions) (\<lambda>ids. Returns (Inr ids)))))"

end
