(* ===== verification/Commit_Index_Laws.thy ===== *)
theory Commit_Index_Laws
  imports Commit_Index Ref_Laws
begin

text \<open>
  Correctness of the commit index. A well-formed index (\<open>index_ok\<close>) numbers its commits so that
  parents come before children and generation numbers grow from parent to child; adding commits
  keeps it well-formed. On such an index no query panics, and each agrees with reachability
  along parent edges: \<open>is_ancestor\<close> decides it, \<open>heads\<close> returns the candidates that no other
  candidate reaches, \<open>common_ancestors\<close> the greatest common ancestors. The index provides the
  interface \<open>ancestry\<close> of reference merging.
\<close>

section \<open>Well-formed indexes\<close>

fun all_entries :: "segment \<Rightarrow> graph_entry list" where
  "all_entries (Segment parent n g cl chl) =
     (case parent of None \<Rightarrow> [] | Some pf \<Rightarrow> all_entries pf) @ g"

fun chain_ok :: "segment \<Rightarrow> bool" where
  "chain_ok (Segment parent n g cl chl) \<longleftrightarrow>
     (case parent of None \<Rightarrow> n = 0 | Some pf \<Rightarrow> chain_ok pf \<and> n = num_commits pf) \<and>
     (\<forall>i p. bt_get cl i = Some p \<longleftrightarrow> p < length g \<and> ge_commit_id (g ! p) = i)"

definition graph_ok :: "graph_entry list \<Rightarrow> bool" where
  "graph_ok es \<longleftrightarrow>
     (\<forall>i < length es. \<forall>p \<in> set (ge_parent_positions (es ! i)).
        p < i \<and> ge_generation_number (es ! p) < ge_generation_number (es ! i))"

definition index_ok :: "segment \<Rightarrow> bool" where
  "index_ok s \<longleftrightarrow>
     chain_ok s \<and> graph_ok (all_entries s) \<and> distinct (map ge_commit_id (all_entries s)) \<and>
     num_commits s < 2 ^ 32"

lemma num_commits_Segment [simp]: "num_commits (Segment parent n g cl chl) = n + length g"
  by (simp add: num_commits_def num_local_commits_def)

lemma length_all_entries: "chain_ok s \<Longrightarrow> length (all_entries s) = num_commits s"
  by (induction s rule: chain_ok.induct) (auto split: option.splits)

lemma entry_by_pos_ok:
  "chain_ok s \<Longrightarrow> pos < num_commits s \<Longrightarrow>
   \<exists>e. entry_by_pos s pos = Returns e \<and> ie_pos e = pos \<and> graph_at e = Returns (all_entries s ! pos)"
proof (induction s rule: chain_ok.induct)
  case (1 parent n g cl chl)
  have len: "length (case parent of None \<Rightarrow> [] | Some pf \<Rightarrow> all_entries pf) = n"
    using 1(2) length_all_entries by (auto split: option.splits)
  show ?case
  proof (cases "n \<le> pos")
    case True
    then show ?thesis using len 1(3)
      by (auto simp: entry_by_pos_def unwrap_def graph_at_def slice_get_def nth_append num_commits_def num_local_commits_def)
  next
    case False
    with 1(2) obtain pf where f: "parent = Some pf" "chain_ok pf" "n = num_commits pf"
      by (auto split: option.splits)
    with 1(1)[OF f(1,2)] False obtain e where "entry_by_pos pf pos = Returns e" "ie_pos e = pos"
        "graph_at e = Returns (all_entries pf ! pos)" by auto
    moreover have "entry_by_pos (Segment parent n g cl chl) pos = entry_by_pos pf pos"
      using False f(1) by (simp add: entry_by_pos_def)
    ultimately show ?thesis using False f len by (auto simp: nth_append)
  qed
qed

lemma at_pos:
  assumes "index_ok s" "pos < num_commits s"
  shows "generation_at s pos = Returns (ge_generation_number (all_entries s ! pos))"
    "parents_at s pos = Returns (ge_parent_positions (all_entries s ! pos))"
    "id_at s pos = Returns (ge_commit_id (all_entries s ! pos))"
  using entry_by_pos_ok[of s pos] assms
  by (auto simp: index_ok_def generation_at_def generation_number_def parents_at_def parent_positions_def
      id_at_def entry_commit_id_def)

lemma lookup_ok:
  "chain_ok s \<Longrightarrow> distinct (map ge_commit_id (all_entries s)) \<Longrightarrow>
   try_commit_id_to_pos s i = Some pos \<longleftrightarrow> pos < num_commits s \<and> ge_commit_id (all_entries s ! pos) = i"
proof (induction s arbitrary: pos rule: chain_ok.induct)
  case (1 parent n g cl chl)
  let ?below = "case parent of None \<Rightarrow> [] | Some pf \<Rightarrow> all_entries pf"
  have len: "length ?below = n"
    using 1(2) length_all_entries by (auto split: option.splits)
  have here: "bt_get cl i = Some p \<longleftrightarrow> p < length g \<and> ge_commit_id (g ! p) = i" for p
    using 1(2) by simp
  have disj: "ge_commit_id (?below ! p) \<noteq> ge_commit_id (g ! q)" if "p < n" "q < length g" for p q
  proof -
    have "ge_commit_id (?below ! p) \<in> set (map ge_commit_id ?below)"
      using that(1) len by (metis nth_map length_map nth_mem)
    moreover have "ge_commit_id (g ! q) \<in> set (map ge_commit_id g)" using that by simp
    moreover have "set (map ge_commit_id ?below) \<inter> set (map ge_commit_id g) = {}"
      using 1(3) unfolding all_entries.simps map_append distinct_append by blast
    ultimately show ?thesis by (metis disjoint_iff)
  qed
  show ?case
  proof (cases "bt_get cl i")
    case (Some p)
    with here have p: "p < length g" "ge_commit_id (g ! p) = i" by auto
    have "try_commit_id_to_pos (Segment parent n g cl chl) i = Some (p + n)"
      using Some by (simp add: try_commit_id_to_pos_def)
    moreover have "pos = p + n" if "pos < n + length g" "ge_commit_id ((?below @ g) ! pos) = i"
    proof (cases "pos < n")
      case True
      with disj[of pos p] p that(2) len show ?thesis by (simp add: nth_append)
    next
      case False
      with that len have "bt_get cl i = Some (pos - n)" unfolding here by (auto simp: nth_append)
      with Some False show ?thesis by simp
    qed
    ultimately show ?thesis using p len by (auto simp: nth_append)
  next
    case None
    have not_here: "ge_commit_id (g ! p) \<noteq> i" if "p < length g" for p using None here that by auto
    show ?thesis
    proof (cases parent)
      case None
      then have "try_commit_id_to_pos (Segment parent n g cl chl) i = None" "n = 0"
        using \<open>bt_get cl i = None\<close> len by (simp_all add: try_commit_id_to_pos_def)
      then show ?thesis using not_here[of pos] None by auto
    next
      case (Some pf)
      then have "try_commit_id_to_pos (Segment parent n g cl chl) i = try_commit_id_to_pos pf i"
        using None by (simp add: try_commit_id_to_pos_def)
      moreover have "try_commit_id_to_pos pf i = Some pos \<longleftrightarrow>
          pos < num_commits pf \<and> ge_commit_id (all_entries pf ! pos) = i"
        using 1(1)[OF Some] 1(2,3) Some by auto
      moreover have "n = num_commits pf" using 1(2) Some by simp
      ultimately show ?thesis using not_here[of "pos - n"] Some len by (auto simp: nth_append)
    qed
  qed
qed

section \<open>Reachability\<close>

definition edge :: "segment \<Rightarrow> nat \<Rightarrow> nat \<Rightarrow> bool" where
  "edge s c p \<longleftrightarrow> c < num_commits s \<and> p \<in> set (ge_parent_positions (all_entries s ! c))"

abbreviation reach :: "segment \<Rightarrow> nat \<Rightarrow> nat \<Rightarrow> bool" where
  "reach s \<equiv> (edge s)\<^sup>*\<^sup>*"

abbreviation gen :: "segment \<Rightarrow> nat \<Rightarrow> nat" where
  "gen s pos \<equiv> ge_generation_number (all_entries s ! pos)"

lemma edge_less:
  assumes "index_ok s" "edge s c p"
  shows "p < c" "gen s p < gen s c" "p < num_commits s"
  using assms length_all_entries[of s] unfolding index_ok_def graph_ok_def edge_def by force+

lemma reach_less:
  assumes "index_ok s" "reach s c p"
  shows "c = p \<or> (p < c \<and> gen s p < gen s c)"
  using assms(2) by (induction rule: rtranclp_induct) (use edge_less[OF assms(1)] in force)+

lemma reach_step:
  "reach s c p \<longleftrightarrow> c = p \<or> (\<exists>q. edge s c q \<and> reach s q p)"
  by (metis converse_rtranclpE converse_rtranclp_into_rtranclp rtranclp.rtrancl_refl)

section \<open>The ancestor walk\<close>

text \<open>
  What the walk keeps: every position of the work list is reachable from the start; a visited
  position whose generation allows a descent has all its parents visited, waiting or below the
  ancestor; the ancestor itself has not been visited.
\<close>

definition walk_inv :: "segment \<Rightarrow> nat \<Rightarrow> nat \<Rightarrow> nat list \<Rightarrow> nat set \<Rightarrow> bool" where
  "walk_inv s a d work visited \<longleftrightarrow>
     (\<forall>w \<in> set work. reach s d w \<and> w \<le> d) \<and>
     (\<forall>v \<in> visited. gen s a < gen s v \<longrightarrow> (\<forall>p. edge s v p \<longrightarrow> p \<in> visited \<or> p \<in> set work \<or> p < a)) \<and>
     a \<notin> visited \<and> (d \<in> visited \<or> d \<in> set work \<or> d < a)"

lemma walk_end:
  assumes "index_ok s" "walk_inv s a d [] visited"
  shows "\<not> reach s d a"
proof
  assume r: "reach s d a"
  have "v \<in> visited" if "reach s d v" "reach s v a" for v
    using that
  proof (induction rule: rtranclp_induct)
    case base
    then show ?case using assms(2) reach_less[OF assms(1) r] by (auto simp: walk_inv_def)
  next
    case (step v w)
    have "reach s v a" using step(2,4) by (rule converse_rtranclp_into_rtranclp)
    with step have v: "v \<in> visited" "gen s a < gen s v"
      using reach_less[OF assms(1)] edge_less[OF assms(1) step(2)] reach_less[OF assms(1) step(4)] by force+
    with assms(2) step(2) have "w \<in> visited \<or> w < a" by (auto simp: walk_inv_def)
    then show ?case using reach_less[OF assms(1) step(4)] by auto
  qed
  from this[OF r] assms(2) show False by (simp add: walk_inv_def)
qed

lemma is_ancestor_loop_correct:
  "index_ok s \<Longrightarrow> d < num_commits s \<Longrightarrow> g = gen s a \<Longrightarrow> walk_inv s a d work (members visited) \<Longrightarrow>
   d < capacity visited \<Longrightarrow> is_ancestor_loop s a g work visited = Returns (reach s d a)"
proof (induction s a g work visited rule: is_ancestor_loop.induct)
  case (1 s a g visited)
  then show ?case using walk_end by (simp add: is_ancestor_loop.simps)
next
  case (2 s a g w work visited)
  note ok = 2(5) and inv = 2(8)
  have w: "reach s d w" "w \<le> d" using inv by (auto simp: walk_inv_def)
  then have wn: "w < num_commits s" "w < capacity visited" using 2(6,9) by auto
  consider "w < a" | "w = a" | "a < w" by linarith
  then show ?case
  proof cases
    case 1
    then have "walk_inv s a d work (members visited)" using inv unfolding walk_inv_def by auto
    with 1 2 show ?thesis by (simp add: is_ancestor_loop.simps)
  next
    case 2
    with w show ?thesis by (simp add: is_ancestor_loop.simps)
  next
    case 3
    obtain visited' where v: "bs_get_set w visited = Returns (w \<in> members visited, visited')"
      "capacity visited' = capacity visited" "members visited' = insert w (members visited)"
      using bs_get_set_spec[OF wn(2)] by blast
    have na: "\<not> w < a" "w \<noteq> a" using 3 by auto
    show ?thesis
    proof (cases "w \<in> members visited")
      case True
      then have "walk_inv s a d work (members visited')" using inv unfolding walk_inv_def v(3) by (auto simp: insert_absorb)
      with 2(2)[OF na v(1)[unfolded True]] 2 v True show ?thesis
        using na by (simp add: is_ancestor_loop.simps)
    next
      case False
      note gen = at_pos(1)[OF ok wn(1)] and par = at_pos(2)[OF ok wn(1)]
      show ?thesis
      proof (cases "gen s w \<le> g")
        case True
        have "walk_inv s a d work (members visited')"
          using inv 3 True 2(7) unfolding walk_inv_def v(3) by auto
        with 2 v False True na gen show ?thesis by (simp add: is_ancestor_loop.simps)
      next
        case deep: False
        let ?ps = "ge_parent_positions (all_entries s ! w)"
        have edges: "edge s w p \<longleftrightarrow> p \<in> set ?ps" for p using wn(1) by (simp add: edge_def)
        have "reach s d p \<and> p \<le> d" if "p \<in> set ?ps" for p
          using that w edges edge_less(1)[OF ok] by (meson le_trans less_imp_le rtranclp.rtrancl_into_rtrancl)
        then have "walk_inv s a d (rev ?ps @ work) (members visited')"
          using inv 3 edges unfolding walk_inv_def v(3) by auto
        with 2 v False deep na gen par show ?thesis by (simp add: is_ancestor_loop.simps)
      qed
    qed
  qed
qed

lemma is_ancestor_pos_correct:
  assumes "index_ok s" "a < num_commits s" "d < num_commits s"
  shows "is_ancestor_pos s a d = Returns (reach s d a)"
proof -
  have max: "with_max_pos d = Returns (with_capacity (d + 1))"
    using assms by (simp add: with_max_pos_def index_ok_def)
  have cap: "d < capacity (with_capacity (d + 1))" using with_capacity_spec(2)[of "d + 1"] by simp
  have "walk_inv s a d [d] (members (with_capacity (d + 1)))"
    by (simp add: walk_inv_def with_capacity_spec)
  from is_ancestor_loop_correct[OF assms(1,3) refl this cap] show ?thesis
    by (simp add: is_ancestor_pos_def at_pos[OF assms(1,2)] max)
qed

definition indexed :: "segment \<Rightarrow> CommitId \<Rightarrow> bool" where
  "indexed s i \<longleftrightarrow> i \<in> ge_commit_id ` set (all_entries s)"

text \<open>Reachability of commits: along the parent edges of the indexed graph.\<close>

definition ancestor :: "segment \<Rightarrow> CommitId \<Rightarrow> CommitId \<Rightarrow> bool" where
  "ancestor s a d \<longleftrightarrow>
     (\<exists>i j. i < num_commits s \<and> j < num_commits s \<and> ge_commit_id (all_entries s ! i) = a \<and>
        ge_commit_id (all_entries s ! j) = d \<and> reach s j i)"

lemma indexed_iff:
  assumes "index_ok s"
  shows "indexed s i \<longleftrightarrow> (\<exists>pos < num_commits s. ge_commit_id (all_entries s ! pos) = i)"
proof -
  have "length (all_entries s) = num_commits s" using assms length_all_entries unfolding index_ok_def by blast
  then show ?thesis unfolding indexed_def image_iff Bex_def in_set_conv_nth by metis
qed

lemma index_lookup:
  assumes "index_ok s"
  shows "commit_id_to_pos s i = Inr pos \<longleftrightarrow> pos < num_commits s \<and> ge_commit_id (all_entries s ! pos) = i"
    and "commit_id_to_pos s i = Inl e \<longleftrightarrow> \<not> indexed s i \<and> e = CommitIdNotFound i"
proof -
  have look: "try_commit_id_to_pos s i = Some pos \<longleftrightarrow> pos < num_commits s \<and> ge_commit_id (all_entries s ! pos) = i" for pos
    using assms lookup_ok unfolding index_ok_def by blast
  show "commit_id_to_pos s i = Inr pos \<longleftrightarrow> pos < num_commits s \<and> ge_commit_id (all_entries s ! pos) = i"
    by (simp add: commit_id_to_pos_def look)
  have "indexed s i \<longleftrightarrow> (\<exists>pos. try_commit_id_to_pos s i = Some pos)"
    unfolding look indexed_iff[OF assms] by blast
  then show "commit_id_to_pos s i = Inl e \<longleftrightarrow> \<not> indexed s i \<and> e = CommitIdNotFound i"
    by (auto simp: commit_id_to_pos_def)
qed

lemma ids_injective:
  assumes "index_ok s" "i < num_commits s" "j < num_commits s"
    "ge_commit_id (all_entries s ! i) = ge_commit_id (all_entries s ! j)"
  shows "i = j"
  using assms length_all_entries[of s] nth_eq_iff_index_eq[of "map ge_commit_id (all_entries s)" i j]
  by (simp add: index_ok_def)

lemma is_ancestor_correct:
  assumes "index_ok s" "indexed s a" "indexed s d"
  shows "is_ancestor s a d = Returns (Inr (ancestor s a d))"
proof -
  obtain i j where i: "commit_id_to_pos s a = Inr i" and j: "commit_id_to_pos s d = Inr j"
    using index_lookup(2)[OF assms(1)] assms(2,3) by (metis sumE)
  note pi = i[unfolded index_lookup(1)[OF assms(1)]] and pj = j[unfolded index_lookup(1)[OF assms(1)]]
  have "ancestor s a d \<longleftrightarrow> reach s j i"
    using pi pj ids_injective[OF assms(1)] unfolding ancestor_def by metis
  then show ?thesis using i j pi pj is_ancestor_pos_correct[OF assms(1)] by (simp add: is_ancestor_def)
qed

lemma ancestor_refl: "index_ok s \<Longrightarrow> indexed s a \<Longrightarrow> ancestor s a a"
  unfolding indexed_iff ancestor_def by blast

lemma ancestor_trans: "index_ok s \<Longrightarrow> ancestor s a b \<Longrightarrow> ancestor s b c \<Longrightarrow> ancestor s a c"
  unfolding ancestor_def by (metis ids_injective rtranclp_trans)

section \<open>Adding commits\<close>

lemma try_pos_less:
  "chain_ok s \<Longrightarrow> try_commit_id_to_pos s i = Some pos \<Longrightarrow> pos < num_commits s"
proof (induction s arbitrary: pos rule: chain_ok.induct)
  case (1 parent n g cl chl)
  show ?case
  proof (cases "bt_get cl i")
    case (Some p)
    with 1(2) have "p < length g" by simp
    with 1(3) Some show ?thesis by (simp add: try_commit_id_to_pos_def)
  next
    case None
    with 1(3) obtain pf where pf: "parent = Some pf" "try_commit_id_to_pos pf i = Some pos"
      by (cases parent) (auto simp: try_commit_id_to_pos_def)
    with 1(1)[OF pf(1) _ pf(2)] 1(2) show ?thesis by simp
  qed
qed

lemma entry_by_id_ok:
  "chain_ok s \<Longrightarrow>
   case entry_by_id s i of
     None \<Rightarrow> try_commit_id_to_pos s i = None
   | Some e \<Rightarrow> try_commit_id_to_pos s i = Some (ie_pos e) \<and> graph_at e = Returns (all_entries s ! ie_pos e)"
proof (induction s rule: chain_ok.induct)
  case (1 parent n g cl chl)
  let ?s = "Segment parent n g cl chl"
  have len: "length (case parent of None \<Rightarrow> [] | Some pf \<Rightarrow> all_entries pf) = n"
    using 1(2) length_all_entries by (auto split: option.splits)
  show ?case
  proof (cases "bt_get cl i")
    case (Some p)
    then have "p < length g" using 1(2) by simp
    with Some len show ?thesis
      by (simp add: entry_by_id_def try_commit_id_to_pos_def graph_at_def slice_get_def unwrap_def nth_append)
  next
    case None
    show ?thesis
    proof (cases parent)
      case (Some pf)
      have same: "entry_by_id ?s i = entry_by_id pf i" "try_commit_id_to_pos ?s i = try_commit_id_to_pos pf i"
        using None Some by (simp_all add: entry_by_id_def try_commit_id_to_pos_def)
      have chain: "chain_ok pf" "n = num_commits pf" using 1(2) Some by auto
      show ?thesis
      proof (cases "entry_by_id pf i")
        case (Some e)
        with 1(1)[OF \<open>parent = Some pf\<close> chain(1)] have e: "try_commit_id_to_pos pf i = Some (ie_pos e)"
          "graph_at e = Returns (all_entries pf ! ie_pos e)" by auto
        have "ie_pos e < num_commits pf" using try_pos_less[OF chain(1) e(1)] .
        with e Some chain show ?thesis
          unfolding same using len \<open>parent = Some pf\<close> by (simp add: nth_append)
      qed (use 1(1)[OF Some chain(1)] same in simp)
    qed (use None in \<open>simp add: entry_by_id_def try_commit_id_to_pos_def\<close>)
  qed
qed

lemma add_parents_ok:
  assumes ok: "index_ok s" and "\<forall>p \<in> set ids. indexed s p"
  shows "\<exists>g ps. add_parents s ids g0 ps0 = Returns (g, ps0 @ ps) \<and> g0 \<le> g \<and>
    map (\<lambda>p. ge_commit_id (all_entries s ! p)) ps = ids \<and> (\<forall>p \<in> set ps. p < num_commits s \<and> gen s p < g)"
  using assms(2)
proof (induction ids arbitrary: g0 ps0)
  case (Cons i ids)
  obtain pos where pos: "try_commit_id_to_pos s i = Some pos" "pos < num_commits s" "ge_commit_id (all_entries s ! pos) = i"
    using Cons.prems index_lookup[OF ok, of i] by (auto simp: commit_id_to_pos_def indexed_iff[OF ok])
  obtain e where e: "entry_by_id s i = Some e" "ie_pos e = pos" "graph_at e = Returns (all_entries s ! pos)"
    using entry_by_id_ok[of s i] ok pos(1) by (auto simp: index_ok_def split: option.splits)
  from Cons.IH[of "max g0 (gen s pos + 1)" "ps0 @ [pos]"] Cons.prems obtain g ps where
    IH: "add_parents s ids (max g0 (gen s pos + 1)) (ps0 @ [pos]) = Returns (g, (ps0 @ [pos]) @ ps)"
    "max g0 (gen s pos + 1) \<le> g" "map (\<lambda>p. ge_commit_id (all_entries s ! p)) ps = ids"
    "\<forall>p \<in> set ps. p < num_commits s \<and> gen s p < g" by auto
  have "add_parents s (i # ids) g0 ps0 = Returns (g, ps0 @ (pos # ps))"
    using IH(1) e by (simp add: unwrap_def generation_number_def)
  then show ?case using IH pos by (intro exI[of _ g] exI[of _ "pos # ps"]) auto
qed simp

lemma graph_ok_snoc:
  assumes "graph_ok es" "\<forall>p \<in> set (ge_parent_positions e). p < length es \<and> ge_generation_number (es ! p) < ge_generation_number e"
  shows "graph_ok (es @ [e])"
  unfolding graph_ok_def
proof (intro allI impI ballI)
  fix i p
  assume i: "i < length (es @ [e])" and p: "p \<in> set (ge_parent_positions ((es @ [e]) ! i))"
  show "p < i \<and> ge_generation_number ((es @ [e]) ! p) < ge_generation_number ((es @ [e]) ! i)"
  proof (cases "i < length es")
    case True
    with p assms(1) have "p < i" "ge_generation_number (es ! p) < ge_generation_number (es ! i)"
      by (auto simp: graph_ok_def nth_append)
    with True show ?thesis by (simp add: nth_append)
  next
    case False
    with i have "i = length es" by simp
    with p assms(2) show ?thesis by (auto simp: nth_append)
  qed
qed

lemma add_commit_data_ok:
  assumes ok: "index_ok s" and parents: "\<forall>p \<in> set parent_ids. indexed s p" and room: "num_commits s + 1 < 2 ^ 32"
    and new: "\<not> indexed s c"
  shows "\<exists>s' e. add_commit_data s c ch parent_ids = Returns s' \<and> index_ok s' \<and> all_entries s' = all_entries s @ [e] \<and>
    ge_commit_id e = c \<and> ge_change_id e = ch \<and>
    map (\<lambda>p. ge_commit_id (all_entries s ! p)) (ge_parent_positions e) = parent_ids"
proof -
  obtain g ps where ps: "add_parents s parent_ids 0 [] = Returns (g, ps)"
    "map (\<lambda>p. ge_commit_id (all_entries s ! p)) ps = parent_ids"
    "\<forall>p \<in> set ps. p < num_commits s \<and> gen s p < g"
    using add_parents_ok[OF ok parents, of 0 "[]"] by auto
  obtain parent n gr cl chl where s: "s = Segment parent n gr cl chl" by (cases s)
  let ?e = "\<lparr>ge_commit_id = c, ge_change_id = ch, ge_generation_number = g, ge_parent_positions = ps\<rparr>"
  have has: "\<not> has_id s c"
    using new index_lookup(2)[OF ok, of c] by (auto simp: has_id_def commit_id_to_pos_def)
  have "num_commits s = n + length gr" by (simp add: s)
  with room have small: "\<not> length gr \<ge> 2 ^ 32" by linarith
  let ?s' = "Segment parent n (gr @ [?e]) (bt_insert c (length gr) cl)
      (bt_insert ch (case bt_get chl ch of Some positions \<Rightarrow> positions @ [length gr] | None \<Rightarrow> [length gr]) chl)"
  have run: "add_commit_data s c ch parent_ids = Returns ?s'"
    using has ps(1) small by (simp add: add_commit_data_def s Let_def)
  have all: "all_entries ?s' = all_entries s @ [?e]" by (simp add: s)
  have chain: "chain_ok s" using ok by (simp add: index_ok_def)
  have fresh: "ge_commit_id (gr ! p) \<noteq> c" if "p < length gr" for p
    using new that by (auto simp: indexed_def s)
  have "chain_ok ?s'"
    using chain fresh by (auto simp: s nth_append less_Suc_eq split: option.splits)
  moreover have "graph_ok (all_entries ?s')"
    unfolding all using ok ps(3) length_all_entries[OF chain] by (intro graph_ok_snoc) (auto simp: index_ok_def)
  moreover have "distinct (map ge_commit_id (all_entries ?s'))"
    unfolding all using ok new by (auto simp: index_ok_def indexed_def)
  moreover have "num_commits ?s' < 2 ^ 32" using room by (simp add: s)
  ultimately have "index_ok ?s'" unfolding index_ok_def by blast
  with run all ps(2) show ?thesis by (intro exI[of _ ?s'] exI[of _ ?e]) simp
qed

section \<open>The index provides ancestry\<close>

definition answerable :: "segment \<Rightarrow> CommitId \<Rightarrow> bool" where
  "answerable s i \<longleftrightarrow> index_ok s \<and> indexed s i"

interpretation index: ancestry "index_query s" "answerable s" "ancestor s" for s
proof unfold_locales
  fix a b c
  show "index_query s a b = Inr (ancestor s a b)" if "answerable s a" "answerable s b"
    using that is_ancestor_correct by (simp add: answerable_def index_query_def)
  show "ancestor s a a" if "answerable s a"
    using that ancestor_refl by (simp add: answerable_def)
  show "ancestor s a c" if "answerable s a" "answerable s b" "answerable s c" "ancestor s a b" "ancestor s b c"
    using that ancestor_trans by (auto simp: answerable_def)
qed

definition indexed_target :: "segment \<Rightarrow> ref_target \<Rightarrow> bool" where
  "indexed_target s t \<longleftrightarrow> (\<forall>a. Some a \<in> set (merge_values t) \<longrightarrow> indexed s a)"

lemma known_indexed: "index_ok s \<Longrightarrow> known_target (answerable s) t \<longleftrightarrow> indexed_target s t"
  by (simp add: known_target_def indexed_target_def answerable_def)

text \<open>A small index: a root, its child and the child's child.\<close>

definition nth_commit :: "nat \<Rightarrow> CommitId" where
  "nth_commit n = CommitId [word_of_nat n]"

definition sample_entry :: "nat \<Rightarrow> nat list \<Rightarrow> graph_entry" where
  "sample_entry n ps =
     \<lparr>ge_commit_id = nth_commit n, ge_change_id = ChangeId [word_of_nat n], ge_generation_number = n,
      ge_parent_positions = ps\<rparr>"

definition sample_index :: segment where
  "sample_index =
     Segment None 0 [sample_entry 0 [], sample_entry 1 [0], sample_entry 2 [1]]
       (bt_insert (nth_commit 0) 0 (bt_insert (nth_commit 1) 1 (bt_insert (nth_commit 2) 2 bt_empty))) bt_empty"

lemma sample_index_entries:
  "all_entries sample_index = [sample_entry 0 [], sample_entry 1 [0], sample_entry 2 [1]]"
  "num_commits sample_index = 3"
  by (simp_all add: sample_index_def)

lemma nth_commit_inject: "nth_commit 0 \<noteq> nth_commit 1" "nth_commit 0 \<noteq> nth_commit 2" "nth_commit 1 \<noteq> nth_commit 2"
  by (simp_all add: nth_commit_def)

lemma sample_nth:
  "[sample_entry 0 [], sample_entry 1 [0], sample_entry 2 [1]] ! 0 = sample_entry 0 []"
  "[sample_entry 0 [], sample_entry 1 [0], sample_entry 2 [1]] ! 1 = sample_entry 1 [0]"
  "[sample_entry 0 [], sample_entry 1 [0], sample_entry 2 [1]] ! 2 = sample_entry 2 [1]"
  by simp_all

lemma less_3: "(p::nat) < 3 \<longleftrightarrow> p = 0 \<or> p = 1 \<or> p = 2"
  by auto

lemma ge_sample [simp]:
  "ge_commit_id (sample_entry n ps) = nth_commit n" "ge_parent_positions (sample_entry n ps) = ps"
  "ge_generation_number (sample_entry n ps) = n"
  by (simp_all add: sample_entry_def)

lemma sample_index_ok: "index_ok sample_index"
  unfolding index_ok_def
proof (intro conjI)
  have "bt_get (commit_lookup sample_index) i = Some p \<longleftrightarrow>
      p < 3 \<and> ge_commit_id ([sample_entry 0 [], sample_entry 1 [0], sample_entry 2 [1]] ! p) = i" for i and p :: nat
  proof (cases "p < 3")
    case True
    then consider "p = 0" | "p = 1" | "p = 2" unfolding less_3 by blast
    then show ?thesis using nth_commit_inject
      by cases (simp only: sample_nth ge_sample, force simp: sample_index_def)+
  next
    case False
    then show ?thesis by (auto simp: sample_index_def split: if_splits)
  qed
  then show "chain_ok sample_index" by (simp add: sample_index_def numeral_3_eq_3)
  have "p < i \<and> gen sample_index p < gen sample_index i"
    if "i < 3" "p \<in> set (ge_parent_positions (all_entries sample_index ! i))" for i p
    using that unfolding sample_index_entries less_3
    by (elim disjE) (simp_all only: sample_nth ge_sample list.set insert_iff empty_iff, simp_all)
  then show "graph_ok (all_entries sample_index)"
    unfolding graph_ok_def by (simp add: sample_index_entries)
  show "distinct (map ge_commit_id (all_entries sample_index))"
    unfolding sample_index_entries using nth_commit_inject by simp
  show "num_commits sample_index < 2 ^ 32" by (simp add: sample_index_entries)
qed

lemma sample_indexed: "n < 3 \<Longrightarrow> indexed sample_index (nth_commit n)"
  unfolding indexed_def sample_index_entries less_3 by auto

lemma sample_ancestor: "ancestor sample_index (nth_commit 0) (nth_commit 1)" "ancestor sample_index (nth_commit 1) (nth_commit 2)"
proof -
  have "edge sample_index 1 0" "edge sample_index 2 1"
    unfolding edge_def sample_index_entries sample_nth by simp_all
  then have r: "reach sample_index 1 0" "reach sample_index 2 1" by blast+
  have "ge_commit_id (all_entries sample_index ! n) = nth_commit n" if "n < 3" for n
    using that unfolding sample_index_entries less_3 by (elim disjE) (simp_all only: sample_nth ge_sample)
  from this[of 0] this[of 1] this[of 2] r
  show "ancestor sample_index (nth_commit 0) (nth_commit 1)" "ancestor sample_index (nth_commit 1) (nth_commit 2)"
    unfolding ancestor_def sample_index_entries(2)
    by (metis one_less_numeral_iff semiring_norm(77) zero_less_numeral, metis less_3)
qed

section \<open>Properties\<close>

text \<open>
  (C22) On a well-formed index \<open>is_ancestor\<close> never panics; it reports the first id that is not
  indexed, and otherwise decides reachability along parent edges.
\<close>

theorem is_ancestor_decides:
  assumes "index_ok s"
  shows "is_ancestor s a d = Returns (
    if \<not> indexed s a then Inl (CommitIdNotFound a)
    else if \<not> indexed s d then Inl (CommitIdNotFound d)
    else Inr (ancestor s a d))"
proof (cases "indexed s a \<and> indexed s d")
  case True
  then show ?thesis using is_ancestor_correct[OF assms] by simp
next
  case False
  then consider "\<not> indexed s a" | pos where "indexed s a" "\<not> indexed s d" "commit_id_to_pos s a = Inr pos"
    using index_lookup(2)[OF assms, of a] by (cases "commit_id_to_pos s a") auto
  then show ?thesis
    using index_lookup(2)[OF assms, of a "CommitIdNotFound a"] index_lookup(2)[OF assms, of d "CommitIdNotFound d"]
    by cases (auto simp: is_ancestor_def)
qed

theorem is_ancestor_decides_witness:
  "is_ancestor sample_index (nth_commit 1) (nth_commit 2) = Returns (Inr True) \<and>
   is_ancestor sample_index (CommitId []) (nth_commit 2) = Returns (Inl (CommitIdNotFound (CommitId [])))"
proof -
  have "\<not> indexed sample_index (CommitId [])" by (simp add: indexed_def sample_index_entries nth_commit_def)
  then show ?thesis
    using is_ancestor_decides[OF sample_index_ok] sample_indexed[of 1] sample_indexed[of 2] sample_ancestor by simp
qed

text \<open>
  (C38) Adding a commit whose parents are indexed keeps the index well-formed and appends one entry with the
  positions of exactly those parents; a commit that is already there changes nothing.
\<close>

theorem add_commit_data_preserves:
  assumes "index_ok s" "\<forall>p \<in> set parent_ids. indexed s p" "num_commits s + 1 < 2 ^ 32"
  shows "if indexed s c then add_commit_data s c ch parent_ids = Returns s
    else \<exists>s' e. add_commit_data s c ch parent_ids = Returns s' \<and> index_ok s' \<and>
      all_entries s' = all_entries s @ [e] \<and> ge_commit_id e = c \<and> ge_change_id e = ch \<and>
      map (\<lambda>p. ge_commit_id (all_entries s ! p)) (ge_parent_positions e) = parent_ids"
proof (cases "indexed s c")
  case True
  then have "has_id s c" using index_lookup(2)[OF assms(1), of c] by (auto simp: has_id_def commit_id_to_pos_def)
  with True show ?thesis by (simp add: add_commit_data_def)
qed (use add_commit_data_ok[OF assms] in simp)

theorem add_commit_data_preserves_witness:
  "\<exists>s'. add_commit_data sample_index (CommitId []) (ChangeId []) [nth_commit 2, nth_commit 0] = Returns s' \<and> index_ok s'"
proof -
  have "\<not> indexed sample_index (CommitId [])" by (simp add: indexed_def sample_index_entries nth_commit_def)
  then show ?thesis
    using add_commit_data_preserves[OF sample_index_ok, of "[nth_commit 2, nth_commit 0]" "CommitId []" "ChangeId []"]
      sample_indexed[of 2] sample_indexed[of 0] by (auto simp: sample_index_entries)
qed

text \<open>
  (C2) Merging reference targets over a well-formed index always ends with a target made of the
  commits of its inputs, and it keeps the tips that count: the commits of which a side has more positive
  than negative terms, and of which more positive than negative terms are left when the terms of both
  sides are counted together and those of the base against them. Each of them is an ancestor of a commit
  that the result adds. A commit that the base or the other side cancels may be dropped.
\<close>

theorem merge_ref_targets_keeps_tips:
  assumes "index_ok s" "merge_ok l" "merge_ok b" "merge_ok r" "indexed_target s l" "indexed_target s b" "indexed_target s r"
  shows "\<exists>t. merge_ref_targets (index_query s) l b r = Returns (Inr t) \<and> merge_ok t \<and>
    set (merge_values t) \<subseteq> set (merge_values l) \<union> set (merge_values b) \<union> set (merge_values r) \<and>
    (\<forall>a. net_term l b r (Some a) > 0 \<and>
       (scount (merge_values l) (Some a) > 0 \<or> scount (merge_values r) (Some a) > 0) \<longrightarrow>
       (\<exists>d. Some d \<in> set (adds t) \<and> ancestor s a d))"
  using assms(5-7) unfolding known_indexed[OF assms(1), symmetric]
  by (intro index.merge_ref_targets_spec assms(2-4))

theorem merge_ref_targets_keeps_tips_witness:
  "\<exists>t d. merge_ref_targets (index_query sample_index) (normal (nth_commit 1)) (normal (nth_commit 0)) (normal (nth_commit 2)) = Returns (Inr t) \<and>
     Some d \<in> set (adds t) \<and> ancestor sample_index (nth_commit 1) d"
proof -
  have "merge_ok (normal (nth_commit n))" "n < 3 \<Longrightarrow> indexed_target sample_index (normal (nth_commit n))" for n
    using sample_indexed by (auto simp: merge_ok_def normal_def resolved_def indexed_target_def)
  then show ?thesis
    using merge_ref_targets_keeps_tips[OF sample_index_ok, of "normal (nth_commit 1)" "normal (nth_commit 0)" "normal (nth_commit 2)"]
      nth_commit_inject by (fastforce simp: net_term_def normal_def resolved_def)
qed

text \<open>
  The three-way merge of a reference that both sides moved: an unchanged side yields to the
  other one, the later of two moves that lie on one line above the base wins, and otherwise all
  three commits are kept as a conflict.
\<close>

theorem merge_ref_targets_fast_forward:
  assumes "index_ok s" "indexed s x" "indexed s z" "\<forall>i. b = Some i \<longrightarrow> indexed s i"
  shows "merge_ref_targets (index_query s) (normal x) (resolved b) (normal z) = Returns (Inr (
    if x = z \<or> b = Some z then normal x
    else if b = Some x then normal z
    else if ancestor s x z \<and> below (ancestor s) b x then normal z
    else if ancestor s z x \<and> below (ancestor s) b z then normal x
    else Merge [Some x, b, Some z]))"
  by (rule index.merge_ref_targets_three_way) (use assms in \<open>auto simp: answerable_def\<close>)

theorem merge_ref_targets_fast_forward_witness:
  "merge_ref_targets (index_query sample_index) (normal (nth_commit 1)) (resolved (Some (nth_commit 0))) (normal (nth_commit 2)) =
     Returns (Inr (normal (nth_commit 2)))"
  using merge_ref_targets_fast_forward[OF sample_index_ok, of "nth_commit 1" "nth_commit 2" "Some (nth_commit 0)"]
    sample_indexed[of 0] sample_indexed[of 1] sample_indexed[of 2] sample_ancestor nth_commit_inject
  by (simp add: below_def)

end
