(* ===== verification/Commit_Heads.thy ===== *)
theory Commit_Heads
  imports Commit_Index_Laws
begin

text \<open>
  Heads and common ancestors of the commit index. Both algorithms move a heap of positions
  downwards; what matters of the heap is which positions its items reach.
\<close>

section \<open>Heaps\<close>

abbreviation desc :: "nat list \<Rightarrow> bool" where
  "desc heap \<equiv> sorted_wrt (\<ge>) heap"

lemma set_heap_push [simp]: "set (heap_push x heap) = insert x (set heap)"
  by (induction heap) auto

lemma desc_heap_push: "desc heap \<Longrightarrow> desc (heap_push x heap)"
  by (induction heap) auto

lemma heap_extend_spec: "desc heap \<Longrightarrow> desc (heap_extend heap xs) \<and> set (heap_extend heap xs) = set heap \<union> set xs"
  by (induction xs arbitrary: heap) (auto simp: heap_extend_def desc_heap_push)

lemma remove_dup_spec:
  "desc (p # rest) \<Longrightarrow> desc (remove_dup rest p) \<and> set (remove_dup rest p) = set rest - {p}"
  by (induction rest p rule: remove_dup.induct) auto

lemma push_parents_spec:
  "desc items \<Longrightarrow> \<forall>p \<in> set ps. p < pos \<Longrightarrow>
   \<exists>items'. push_parents items pos ps = Returns items' \<and> desc items' \<and> set items' = set items \<union> set ps"
  by (induction items pos ps rule: push_parents.induct) (auto simp: desc_heap_push)

lemma remove_dup_push:
  assumes "desc (p # rest)" "q < p"
  shows "desc (remove_dup (heap_push q rest) p)" "set (remove_dup (heap_push q rest) p) = insert q (set rest - {p})"
proof -
  have "desc (p # heap_push q rest)" using assms by (auto simp: desc_heap_push)
  from remove_dup_spec[OF this] assms(2)
  show "desc (remove_dup (heap_push q rest) p)" "set (remove_dup (heap_push q rest) p) = insert q (set rest - {p})"
    by auto
qed

lemma shift_to_parents_spec:
  assumes "desc (pos # rest)" "\<forall>p \<in> set ps. p < pos"
  shows "\<exists>items'. shift_to_parents (pos # rest) pos ps = Returns items' \<and> desc items' \<and>
    set items' = (set rest - {pos}) \<union> set ps"
proof (cases ps)
  case Nil
  with remove_dup_spec[OF assms(1)] show ?thesis by (simp add: shift_to_parents_def dedup_pop_def unwrap_def)
next
  case (Cons p ps')
  note push = remove_dup_push[OF assms(1), of p]
  from Cons assms(2) push obtain items' where
    "push_parents (remove_dup (heap_push p rest) pos) pos ps' = Returns items'" "desc items'"
    "set items' = insert p (set rest - {pos}) \<union> set ps'"
    using push_parents_spec[of "remove_dup (heap_push p rest) pos" ps' pos] by auto
  with Cons assms(2) show ?thesis by (simp add: shift_to_parents_def dedup_replace_def unwrap_def)
qed

section \<open>What a heap reaches\<close>

definition reaches :: "segment \<Rightarrow> nat set \<Rightarrow> nat \<Rightarrow> bool" where
  "reaches s H x \<longleftrightarrow> (\<exists>h \<in> H. reach s h x)"

abbreviation valid :: "segment \<Rightarrow> nat list \<Rightarrow> bool" where
  "valid s heap \<equiv> \<forall>h \<in> set heap. h < num_commits s"

lemma reaches_Un: "reaches s (A \<union> B) x \<longleftrightarrow> reaches s A x \<or> reaches s B x"
  by (auto simp: reaches_def)

abbreviation parents :: "segment \<Rightarrow> nat \<Rightarrow> nat list" where
  "parents s p \<equiv> ge_parent_positions (all_entries s ! p)"

lemma reaches_parents:
  assumes "p < num_commits s"
  shows "reach s p x \<longleftrightarrow> p = x \<or> reaches s (set (parents s p)) x"
  using reach_step[of s p x] assms by (auto simp: reaches_def edge_def)

text \<open>One step of a walk: the greatest item gives way to its parents.\<close>

lemma shift_step:
  assumes ok: "index_ok s" and d: "desc (p # rest)" and v: "valid s (p # rest)"
  shows "\<exists>items'. exec_bind (parents_at s p) (shift_to_parents (p # rest) p) = Returns items' \<and> desc items' \<and>
    valid s items' \<and> (\<forall>i \<in> set items'. i < p) \<and>
    (\<forall>x. x \<noteq> p \<longrightarrow> (reaches s (set items') x \<longleftrightarrow> reaches s (set (p # rest)) x))"
proof -
  have p: "p < num_commits s" using v by simp
  have ps: "\<forall>q \<in> set (parents s p). q < p \<and> q < num_commits s"
    using edge_less[OF ok] p by (auto simp: edge_def)
  then obtain items' where items': "shift_to_parents (p # rest) p (parents s p) = Returns items'" "desc items'"
    "set items' = (set rest - {p}) \<union> set (parents s p)"
    using shift_to_parents_spec[OF d] by blast
  have "reaches s (set items') x \<longleftrightarrow> reaches s (set (p # rest)) x" if "x \<noteq> p" for x
  proof -
    have "reaches s (set (p # rest)) x \<longleftrightarrow> reach s p x \<or> reaches s (set rest - {p}) x"
      by (auto simp: reaches_def)
    also have "reach s p x \<longleftrightarrow> reaches s (set (parents s p)) x" using reaches_parents[OF p] that by auto
    finally show ?thesis unfolding items'(3) reaches_Un by blast
  qed
  moreover have "\<forall>i \<in> set items'. i < p" "valid s items'"
    using items'(3) ps d v by auto
  ultimately show ?thesis using items'(1,2) at_pos(2)[OF ok p] by simp
qed

section \<open>Heads\<close>

lemma pop_step:
  assumes ok: "index_ok s" and d: "desc (p # rest)" and v: "valid s (p # rest)" and low: "gen s p \<le> m"
  shows "\<exists>items'. exec_bind (unwrap (dedup_pop (p # rest))) (\<lambda>(_, items). Returns items) = Returns items' \<and>
    desc items' \<and> valid s items' \<and> (\<forall>i \<in> set items'. i < p) \<and>
    (\<forall>x. x \<noteq> p \<longrightarrow> m \<le> gen s x \<longrightarrow> (reaches s (set items') x \<longleftrightarrow> reaches s (set (p # rest)) x))"
proof -
  note dup = remove_dup_spec[OF d]
  have "\<not> reach s p x" if "x \<noteq> p" "m \<le> gen s x" for x
    using reach_less[OF ok, of p x] that low by auto
  then have "reaches s (set (p # rest)) x \<longleftrightarrow> reaches s (set rest - {p}) x" if "x \<noteq> p" "m \<le> gen s x" for x
    using that by (auto simp: reaches_def)
  then show ?thesis using dup d v by (auto simp: dedup_pop_def unwrap_def)
qed

lemma heads_inner_spec:
  "index_ok s \<Longrightarrow> desc heap \<Longrightarrow> valid s heap \<Longrightarrow> c < num_commits s \<Longrightarrow> m \<le> gen s c \<Longrightarrow>
   (\<forall>r \<in> R. r < c \<and> m \<le> gen s r) \<Longrightarrow>
   \<exists>met heap'. heads_inner s m c heap = Returns (met, heap') \<and> (met \<longleftrightarrow> reaches s (set heap) c) \<and>
     desc heap' \<and> valid s heap' \<and> (\<forall>r \<in> R. reaches s (set heap') r \<longleftrightarrow> reaches s (set heap) r)"
proof (induction s m c heap rule: heads_inner.induct)
  case (1 s m c)
  then show ?case by (auto simp: heads_inner.simps(1) reaches_def)
next
  case (2 s m c p rest)
  note ok = 2(2) and d = 2(3) and v = 2(4) and R = 2(7)
  show ?case
  proof (cases "p \<ge> c")
    case True
    let ?next = "if gen s p \<le> m then exec_bind (unwrap (dedup_pop (p # rest))) (\<lambda>(_, items). Returns items)
        else exec_bind (parents_at s p) (\<lambda>ps. shift_to_parents (p # rest) p ps)"
    obtain heap' where heap': "?next = Returns heap'" "desc heap'" "valid s heap'" "\<forall>i \<in> set heap'. i < p"
      "\<And>x. x \<noteq> p \<Longrightarrow> m \<le> gen s x \<Longrightarrow> reaches s (set heap') x \<longleftrightarrow> reaches s (set (p # rest)) x"
      using pop_step[OF ok d v, of m] shift_step[OF ok d v] by (cases "gen s p \<le> m") auto
    have gen: "generation_at s p = Returns (gen s p)" using at_pos(1)[OF ok] v by simp
    have run: "heads_inner s m c (p # rest) = (if p = c then Returns (True, heap') else heads_inner s m c heap')"
      using True gen heap'(1) by (simp add: heads_inner.simps(2)[of s m c p rest])
    show ?thesis
    proof (cases "p = c")
      case True
      have "reaches s (set (p # rest)) c" using True by (auto simp: reaches_def)
      moreover have "\<forall>r \<in> R. reaches s (set heap') r \<longleftrightarrow> reaches s (set (p # rest)) r"
        using heap'(5) R True by (metis less_irrefl)
      ultimately show ?thesis using run True heap'(2,3) by auto
    next
      case False
      from 2(1)[OF \<open>p \<ge> c\<close> gen heap'(1) False ok heap'(2,3) 2(5,6) R]
      obtain met heap'' where h: "heads_inner s m c heap' = Returns (met, heap'')" "met \<longleftrightarrow> reaches s (set heap') c"
        "desc heap''" "valid s heap''" "\<forall>r \<in> R. reaches s (set heap'') r \<longleftrightarrow> reaches s (set heap') r" by auto
      have "reaches s (set heap') c \<longleftrightarrow> reaches s (set (p # rest)) c" using heap'(5) False 2(6) by metis
      moreover have "\<forall>r \<in> R. reaches s (set heap') r \<longleftrightarrow> reaches s (set (p # rest)) r"
        using heap'(5) R True by (metis leD)
      ultimately show ?thesis using run False h by auto
    qed
  next
    case False
    then have "\<not> reaches s (set (p # rest)) c"
      using d reach_less[OF ok] unfolding reaches_def by fastforce
    then show ?thesis using False d v by (auto simp: heads_inner.simps(2))
  qed
qed

text \<open>A candidate is a head when no other candidate reaches it.\<close>

definition is_head :: "segment \<Rightarrow> nat list \<Rightarrow> nat \<Rightarrow> bool" where
  "is_head s cs c \<longleftrightarrow> (\<forall>c' \<in> set cs. reach s c' c \<longrightarrow> c' = c)"

lemma heads_outer_spec:
  assumes ok: "index_ok s" and all: "sorted_wrt (>) (done_cs @ cs)" "valid s (done_cs @ cs)"
    "\<forall>c \<in> set (done_cs @ cs). m \<le> gen s c" and heap: "desc heap" "valid s heap"
    and reach: "\<forall>c \<in> set cs. reaches s (set heap) c \<longleftrightarrow> (\<exists>c' \<in> set done_cs. reach s c' c)"
  shows "heads_outer s m cs heap hs = Returns (hs @ filter (is_head s (done_cs @ cs)) cs)"
  using assms
proof (induction cs arbitrary: done_cs heap hs)
  case (Cons c cs)
  have below: "\<forall>r \<in> set cs. r < c \<and> m \<le> gen s r" "c < num_commits s" "m \<le> gen s c"
    using Cons.prems(2-4) by (auto simp: sorted_wrt_append)
  obtain met heap' where h: "heads_inner s m c heap = Returns (met, heap')" "met \<longleftrightarrow> reaches s (set heap) c"
    "desc heap'" "valid s heap'" "\<forall>r \<in> set cs. reaches s (set heap') r \<longleftrightarrow> reaches s (set heap) r"
    using heads_inner_spec[OF ok Cons.prems(5,6) below(2,3,1)] by blast
  have later: "\<not> reach s c' c" if "c' \<in> set cs" for c'
    using that below(1) reach_less[OF ok, of c' c] by auto
  have head: "is_head s (done_cs @ c # cs) c \<longleftrightarrow> \<not> met"
  proof -
    have "c \<notin> set done_cs" using Cons.prems(2) by (auto simp: sorted_wrt_append)
    then have "is_head s (done_cs @ c # cs) c \<longleftrightarrow> \<not> (\<exists>c' \<in> set done_cs. reach s c' c)"
      using later by (auto simp: is_head_def)
    then show ?thesis using h(2) Cons.prems(7) by simp
  qed
  let ?heap = "if met then heap' else heap_extend heap' (parents s c)"
  have ps: "\<forall>p \<in> set (parents s c). p < num_commits s" using edge_less(3)[OF ok] below(2) by (auto simp: edge_def)
  have heap: "desc ?heap" "valid s ?heap"
    using h(3,4) ps heap_extend_spec[OF h(3)] by auto
  have step: "heads_outer s m (c # cs) heap hs = heads_outer s m cs ?heap (if met then hs else hs @ [c])"
    using h(1) at_pos(2)[OF ok below(2)] by simp
  have new: "reaches s (set ?heap) r \<longleftrightarrow> (\<exists>c' \<in> set (done_cs @ [c]). reach s c' r)" if "r \<in> set cs" for r
  proof -
    have old: "reaches s (set heap') r \<longleftrightarrow> (\<exists>c' \<in> set done_cs. reach s c' r)"
      using h(5) that Cons.prems(7) by simp
    show ?thesis
    proof (cases met)
      case True
      then obtain c' where "c' \<in> set done_cs" "reach s c' c" using h(2) Cons.prems(7) by auto
      then have "reach s c r \<Longrightarrow> \<exists>c' \<in> set done_cs. reach s c' r" by (meson rtranclp_trans)
      with True old show ?thesis by auto
    next
      case False
      have "c \<noteq> r" using that below(1) by auto
      then have "reach s c r \<longleftrightarrow> reaches s (set (parents s c)) r" using reaches_parents[OF below(2)] by simp
      with False old heap_extend_spec[OF h(3), of "parents s c"] show ?thesis
        by (auto simp: reaches_Un)
    qed
  qed
  have "heads_outer s m cs ?heap hs' = Returns (hs' @ filter (is_head s ((done_cs @ [c]) @ cs)) cs)" for hs'
    using Cons.prems(2-4) new by (intro Cons.IH[OF ok _ _ _ heap]) auto
  then show ?case unfolding step using head by simp
qed simp

lemma heads_pos_correct:
  assumes "index_ok s" "sorted_wrt (>) cs" "valid s cs"
  shows "heads_pos s cs = Returns (filter (is_head s cs) cs)"
proof (cases "cs = []")
  case False
  have "exec_map (generation_at s) cs = Returns (map (gen s) cs)"
    using assms at_pos(1) by (intro exec_map_Returns) auto
  moreover have "heads_outer s (Min (set (map (gen s) cs))) cs [] [] = Returns ([] @ filter (is_head s ([] @ cs)) cs)"
    using assms by (intro heads_outer_spec) (auto simp: reaches_def)
  ultimately show ?thesis using False by (simp add: heads_pos_def)
qed (simp add: heads_pos_def)

section \<open>Common ancestors\<close>

definition common :: "segment \<Rightarrow> nat set \<Rightarrow> nat set \<Rightarrow> nat \<Rightarrow> bool" where
  "common s A B x \<longleftrightarrow> reaches s A x \<and> reaches s B x"

text \<open>
  What the loop keeps: found positions are common ancestors, in descending order above both
  heaps; a common ancestor is reached from a found position or from both heaps.
\<close>

definition common_inv :: "segment \<Rightarrow> nat set \<Rightarrow> nat set \<Rightarrow> nat list \<Rightarrow> nat list \<Rightarrow> nat list \<Rightarrow> bool" where
  "common_inv s A B items1 items2 res \<longleftrightarrow>
     desc items1 \<and> desc items2 \<and> valid s items1 \<and> valid s items2 \<and>
     sorted_wrt (>) res \<and> (\<forall>r \<in> set res. r < num_commits s \<and> common s A B r \<and> (\<forall>i \<in> set items1 \<union> set items2. i < r)) \<and>
     (\<forall>x. reaches s (set items1) x \<longrightarrow> reaches s A x) \<and> (\<forall>x. reaches s (set items2) x \<longrightarrow> reaches s B x) \<and>
     (\<forall>x. common s A B x \<longrightarrow> reaches s (set res) x \<or> (reaches s (set items1) x \<and> reaches s (set items2) x))"

lemma common_inv_swap: "common_inv s A B items1 items2 res \<longleftrightarrow> common_inv s B A items2 items1 res"
  unfolding common_inv_def common_def by (auto simp: Un_commute)

lemma common_inv_shift:
  assumes ok: "index_ok s" and inv: "common_inv s A B (p # rest) items2 res" and above: "\<forall>i \<in> set items2. i < p"
  shows "\<exists>items1'. exec_bind (parents_at s p) (shift_to_parents (p # rest) p) = Returns items1' \<and> common_inv s A B items1' items2 res"
proof -
  have d: "desc (p # rest)" "valid s (p # rest)" using inv by (auto simp: common_inv_def)
  obtain items' where items': "exec_bind (parents_at s p) (shift_to_parents (p # rest) p) = Returns items'" "desc items'"
    "valid s items'" "\<forall>i \<in> set items'. i < p"
    "\<And>x. x \<noteq> p \<Longrightarrow> reaches s (set items') x \<longleftrightarrow> reaches s (set (p # rest)) x"
    using shift_step[OF ok d] by blast
  have not2: "\<not> reaches s (set items2) p" using above reach_less[OF ok] unfolding reaches_def by fastforce
  have down: "\<not> reaches s (set items') p" using items'(4) reach_less[OF ok] unfolding reaches_def by fastforce
  have "reaches s (set items') x \<Longrightarrow> reaches s (set (p # rest)) x" for x
    using items'(5)[of x] down by (cases "x = p") auto
  moreover have "reaches s (set (p # rest)) x \<Longrightarrow> reaches s (set items2) x \<Longrightarrow> reaches s (set items') x" for x
    using items'(5)[of x] not2 by (cases "x = p") auto
  moreover have "\<forall>r \<in> set res. \<forall>i \<in> set items'. i < r"
    using inv items'(4) unfolding common_inv_def by fastforce
  ultimately have "common_inv s A B items' items2 res"
    using inv items'(2,3) unfolding common_inv_def by auto
  with items'(1) show ?thesis by blast
qed

lemma common_inv_found:
  assumes ok: "index_ok s" and inv: "common_inv s A B (p # rest1) (p # rest2) res"
  shows "common_inv s A B (remove_dup rest1 p) (remove_dup rest2 p) (res @ [p])"
proof -
  have d: "desc (p # rest1)" "desc (p # rest2)" using inv by (auto simp: common_inv_def)
  note dup = remove_dup_spec[OF d(1)] remove_dup_spec[OF d(2)]
  have at: "reaches s (set (p # rest)) p" for rest by (auto simp: reaches_def)
  have "common s A B p" using inv at unfolding common_inv_def common_def by blast
  moreover have "reaches s (set (p # rest)) x \<longleftrightarrow> reach s p x \<or> reaches s (set rest - {p}) x" for rest x
    by (auto simp: reaches_def)
  moreover have "reaches s (set (res @ [p])) x \<longleftrightarrow> reaches s (set res) x \<or> reach s p x" for x
    by (auto simp: reaches_def)
  ultimately show ?thesis
    using inv dup d unfolding common_inv_def by (auto simp: sorted_wrt_append)
qed

lemma common_loop_spec:
  "index_ok s \<Longrightarrow> common_inv s A B items1 items2 res \<Longrightarrow>
   \<exists>rs. common_loop s items1 items2 res = Returns rs \<and> sorted_wrt (>) rs \<and> valid s rs \<and>
     (\<forall>r \<in> set rs. common s A B r) \<and> (\<forall>x. common s A B x \<longrightarrow> reaches s (set rs) x)"
proof (induction s items1 items2 res rule: common_loop.induct)
  case (1 s items1 items2 res)
  show ?case
  proof (cases "items1 = [] \<or> items2 = []")
    case True
    then have "common_loop s items1 items2 res = Returns res"
      by (auto simp: common_loop.simps[of s items1 items2 res] split: list.splits)
    then show ?thesis using 1(5) True by (auto simp: common_inv_def reaches_def)
  next
    case False
    then obtain p1 rest1 p2 rest2 where i: "items1 = p1 # rest1" "items2 = p2 # rest2" by (auto simp: neq_Nil_conv)
    have d: "desc items1" "desc items2" using 1(5) by (auto simp: common_inv_def)
    consider "p1 > p2" | "p1 < p2" | "p1 = p2" by linarith
    then show ?thesis
    proof cases
      case 1
      with d i have "\<forall>i \<in> set items2. i < p1" by auto
      from common_inv_shift[OF \<open>index_ok s\<close> _ this, of A B rest1 res] obtain items1' where n:
        "exec_bind (parents_at s p1) (shift_to_parents items1 p1) = Returns items1'" "common_inv s A B items1' items2 res"
        using \<open>common_inv s A B items1 items2 res\<close> i by auto
      then have "common_loop s items1 items2 res = common_loop s items1' items2 res"
        unfolding common_loop.simps[of s items1 items2 res] using 1 i by simp
      with "1.IH"(1)[OF _ i(1) i(2) 1 n(1)] n(2) \<open>index_ok s\<close> show ?thesis by simp
    next
      case 2
      with d i have "\<forall>i \<in> set items1. i < p2" by auto
      from common_inv_shift[OF \<open>index_ok s\<close> _ this, of B A rest2 res] obtain items2' where n:
        "exec_bind (parents_at s p2) (shift_to_parents items2 p2) = Returns items2'" "common_inv s A B items1 items2' res"
        using \<open>common_inv s A B items1 items2 res\<close> i common_inv_swap by metis
      then have "common_loop s items1 items2 res = common_loop s items1 items2' res"
        unfolding common_loop.simps[of s items1 items2 res] using 2 i by simp
      with "1.IH"(2)[OF _ i(1) i(2) _ 2 n(1)] 2 n(2) \<open>index_ok s\<close> show ?thesis by simp
    next
      case 3
      have inv: "common_inv s A B (remove_dup rest1 p1) (remove_dup rest2 p2) (res @ [p1])"
        using common_inv_found[OF \<open>index_ok s\<close>] \<open>common_inv s A B items1 items2 res\<close> i 3 by simp
      have "common_loop s items1 items2 res = common_loop s (remove_dup rest1 p1) (remove_dup rest2 p2) (res @ [p1])"
        unfolding common_loop.simps[of s items1 items2 res] using 3 i by simp
      with "1.IH"(3)[OF _ i(1) i(2)] 3 inv \<open>index_ok s\<close> show ?thesis by simp
    qed
  qed
qed

lemma reach_antisym: "index_ok s \<Longrightarrow> reach s x y \<Longrightarrow> reach s y x \<Longrightarrow> x = y"
  using reach_less[of s x y] reach_less[of s y x] by auto

lemma common_ancestors_pos_correct:
  assumes ok: "index_ok s" and "valid s set1" "valid s set2"
  shows "\<exists>rs. common_ancestors_pos s set1 set2 = Returns rs \<and> sorted_wrt (>) rs \<and> valid s rs \<and>
    set rs = {x. common s (set set1) (set set2) x \<and> (\<forall>y. common s (set set1) (set set2) y \<longrightarrow> reach s y x \<longrightarrow> y = x)}"
proof -
  let ?C = "common s (set set1) (set set2)"
  have "common_inv s (set set1) (set set2) (heap_from set1) (heap_from set2) []"
    using heap_extend_spec[of "[]" set1] heap_extend_spec[of "[]" set2] assms(2,3)
    by (auto simp: common_inv_def heap_from_def common_def)
  from common_loop_spec[OF ok this] obtain rs where rs: "common_loop s (heap_from set1) (heap_from set2) [] = Returns rs"
    "sorted_wrt (>) rs" "valid s rs" "\<And>r. r \<in> set rs \<Longrightarrow> ?C r" "\<And>x. ?C x \<Longrightarrow> \<exists>r \<in> set rs. reach s r x"
    unfolding reaches_def by blast
  have run: "common_ancestors_pos s set1 set2 = Returns (filter (is_head s rs) rs)"
    using rs(1) heads_pos_correct[OF ok rs(2,3)] by (simp add: common_ancestors_pos_def)
  have "x \<in> set (filter (is_head s rs) rs) \<longleftrightarrow> ?C x \<and> (\<forall>y. ?C y \<longrightarrow> reach s y x \<longrightarrow> y = x)" for x
  proof
    assume "x \<in> set (filter (is_head s rs) rs)"
    then have x: "x \<in> set rs" "\<And>r. r \<in> set rs \<Longrightarrow> reach s r x \<Longrightarrow> r = x" by (auto simp: is_head_def)
    have "y = x" if y: "?C y" "reach s y x" for y
    proof -
      obtain r where r: "r \<in> set rs" "reach s r y" using rs(5) y(1) by blast
      with y(2) have "reach s r x" by auto
      with x(2)[OF r(1)] r(2) have "reach s x y" by simp
      with y(2) show ?thesis using reach_antisym[OF ok] by blast
    qed
    with x(1) rs(4) show "?C x \<and> (\<forall>y. ?C y \<longrightarrow> reach s y x \<longrightarrow> y = x)" by blast
  next
    assume x: "?C x \<and> (\<forall>y. ?C y \<longrightarrow> reach s y x \<longrightarrow> y = x)"
    then obtain r where "r \<in> set rs" "reach s r x" using rs(5) by blast
    with x rs(4) show "x \<in> set (filter (is_head s rs) rs)" by (auto simp: is_head_def)
  qed
  moreover have "sorted_wrt (>) (filter (is_head s rs) rs)" using rs(2) by (rule sorted_wrt_filter)
  ultimately show ?thesis using run rs(3) by auto
qed

section \<open>Queries by id\<close>

abbreviation id_of :: "segment \<Rightarrow> nat \<Rightarrow> CommitId" where
  "id_of s p \<equiv> ge_commit_id (all_entries s ! p)"

lemma ancestor_id_of:
  "index_ok s \<Longrightarrow> i < num_commits s \<Longrightarrow> j < num_commits s \<Longrightarrow> ancestor s (id_of s i) (id_of s j) \<longleftrightarrow> reach s j i"
  unfolding ancestor_def using ids_injective by metis

lemma ancestor_indexed: "index_ok s \<Longrightarrow> ancestor s a d \<Longrightarrow> indexed s a \<and> indexed s d"
  unfolding ancestor_def indexed_iff by blast

lemma reach_valid: "index_ok s \<Longrightarrow> reach s c p \<Longrightarrow> c < num_commits s \<Longrightarrow> p < num_commits s"
  using reach_less[of s c p] by auto

lemma positions_ok:
  assumes "index_ok s" "\<forall>i \<in> set ids. indexed s i"
  shows "\<exists>ps. list_try_map (commit_id_to_pos s) ids = Inr ps \<and> valid s ps \<and> map (id_of s) ps = ids"
  using assms(2)
proof (induction ids)
  case (Cons i ids)
  then obtain ps where ps: "list_try_map (commit_id_to_pos s) ids = Inr ps" "valid s ps" "map (id_of s) ps = ids" by auto
  obtain p where p: "commit_id_to_pos s i = Inr p"
    using Cons.prems index_lookup(2)[OF assms(1), of i] by (cases "commit_id_to_pos s i") auto
  then have "p < num_commits s" "id_of s p = i" using index_lookup(1)[OF assms(1)] by auto
  with p ps show ?case by (intro exI[of _ "p # ps"]) simp
qed simp

lemma ids_back:
  assumes "index_ok s" "valid s ps"
  shows "exec_map (id_at s) ps = Returns (map (id_of s) ps)"
  using assms at_pos(3) by (intro exec_map_Returns) auto

lemma remdups_adj_desc: "desc xs \<Longrightarrow> sorted_wrt (>) (remdups_adj xs)"
  by (induction xs rule: remdups_adj.induct) (auto simp: order.strict_iff_order)

lemma desc_rev_sort: "desc (rev (sort xs))" for xs :: "nat list"
  by (simp add: sorted_wrt_rev)

lemma heads_correct:
  assumes ok: "index_ok s" and ids: "\<forall>i \<in> set ids. indexed s i"
  shows "\<exists>hs. heads s ids = Returns (Inr hs) \<and> distinct hs \<and>
    set hs = {h \<in> set ids. \<forall>i \<in> set ids. ancestor s h i \<longrightarrow> i = h}"
proof -
  obtain ps where ps: "list_try_map (commit_id_to_pos s) ids = Inr ps" "valid s ps" "map (id_of s) ps = ids"
    using positions_ok[OF assms] by blast
  let ?cs = "remdups_adj (rev (sort ps))"
  have cs: "set ?cs = set ps" "sorted_wrt (>) ?cs" "valid s ?cs"
    using remdups_adj_desc[OF desc_rev_sort, of ps] ps(2) by auto
  let ?hs = "filter (is_head s ?cs) ?cs"
  have run: "heads s ids = Returns (Inr (map (id_of s) ?hs))"
    using ps(1) heads_pos_correct[OF ok cs(2,3)] ids_back[OF ok, of ?hs] cs(3) by (simp add: heads_def)
  have inj: "inj_on (id_of s) (set ?hs)" using ids_injective[OF ok] cs(3) by (auto simp: inj_on_def)
  have "distinct ?cs" using cs(2) by (metis sorted_wrt_rev strict_sorted_iff distinct_rev)
  with inj have "distinct (map (id_of s) ?hs)" by (simp add: distinct_map)
  moreover have "is_head s ?cs p \<longleftrightarrow> (\<forall>i \<in> set ids. ancestor s (id_of s p) i \<longrightarrow> i = id_of s p)" if "p \<in> set ps" for p
    unfolding is_head_def cs(1) ps(3)[symmetric] using ps(2) that ancestor_id_of[OF ok] ids_injective[OF ok] by auto
  then have "set (map (id_of s) ?hs) = {h \<in> set ids. \<forall>i \<in> set ids. ancestor s h i \<longrightarrow> i = h}"
    using cs(1) ps(3) by (auto simp: set_map[symmetric] simp del: set_map) (auto simp: ps(3)[symmetric])
  ultimately show ?thesis using run by blast
qed

definition common_ancestor :: "segment \<Rightarrow> CommitId list \<Rightarrow> CommitId list \<Rightarrow> CommitId \<Rightarrow> bool" where
  "common_ancestor s ids1 ids2 x \<longleftrightarrow> (\<exists>i \<in> set ids1. ancestor s x i) \<and> (\<exists>j \<in> set ids2. ancestor s x j)"

lemma common_id_of:
  assumes ok: "index_ok s" and v: "valid s ps1" "valid s ps2" "p < num_commits s"
  shows "common_ancestor s (map (id_of s) ps1) (map (id_of s) ps2) (id_of s p) \<longleftrightarrow> common s (set ps1) (set ps2) p"
  unfolding common_ancestor_def common_def reaches_def using v ancestor_id_of[OF ok v(3)] by auto

lemma common_ancestors_correct:
  assumes ok: "index_ok s" and ids: "\<forall>i \<in> set ids1. indexed s i" "\<forall>i \<in> set ids2. indexed s i"
  shows "\<exists>rs. common_ancestors s ids1 ids2 = Returns (Inr rs) \<and> distinct rs \<and>
    set rs = {x. common_ancestor s ids1 ids2 x \<and> (\<forall>y. common_ancestor s ids1 ids2 y \<longrightarrow> ancestor s x y \<longrightarrow> y = x)}"
proof -
  obtain ps1 where ps1: "list_try_map (commit_id_to_pos s) ids1 = Inr ps1" "valid s ps1" "map (id_of s) ps1 = ids1"
    using positions_ok[OF ok ids(1)] by blast
  obtain ps2 where ps2: "list_try_map (commit_id_to_pos s) ids2 = Inr ps2" "valid s ps2" "map (id_of s) ps2 = ids2"
    using positions_ok[OF ok ids(2)] by blast
  let ?C = "common s (set ps1) (set ps2)" and ?A = "common_ancestor s ids1 ids2"
  obtain rs where rs: "common_ancestors_pos s ps1 ps2 = Returns rs" "sorted_wrt (>) rs" "valid s rs"
    "set rs = {x. ?C x \<and> (\<forall>y. ?C y \<longrightarrow> reach s y x \<longrightarrow> y = x)}"
    using common_ancestors_pos_correct[OF ok ps1(2) ps2(2)] by blast
  have run: "common_ancestors s ids1 ids2 = Returns (Inr (map (id_of s) rs))"
    using ps1(1) ps2(1) rs(1) ids_back[OF ok rs(3)] by (simp add: common_ancestors_def)
  have "distinct rs" using rs(2) by (metis sorted_wrt_rev strict_sorted_iff distinct_rev)
  moreover have "inj_on (id_of s) (set rs)" using ids_injective[OF ok] rs(3) by (auto simp: inj_on_def)
  ultimately have "distinct (map (id_of s) rs)" by (simp add: distinct_map)
  moreover have Cval: "?C p \<Longrightarrow> p < num_commits s" for p
    using ps1(2) reach_valid[OF ok] by (auto simp: common_def reaches_def)
  have Aeq: "?A (id_of s p) \<longleftrightarrow> ?C p" if "p < num_commits s" for p
    using common_id_of[OF ok ps1(2) ps2(2) that] ps1(3) ps2(3) by simp
  have Aid: "\<exists>p < num_commits s. id_of s p = x" if "?A x" for x
    using that ancestor_indexed[OF ok] indexed_iff[OF ok] unfolding common_ancestor_def by blast
  have "x \<in> set (map (id_of s) rs) \<longleftrightarrow> ?A x \<and> (\<forall>y. ?A y \<longrightarrow> ancestor s x y \<longrightarrow> y = x)" for x
  proof
    assume "x \<in> set (map (id_of s) rs)"
    then obtain p where p: "x = id_of s p" "?C p" "\<And>q. ?C q \<Longrightarrow> reach s q p \<Longrightarrow> q = p" using rs(4) by auto
    note pv = Cval[OF p(2)]
    have "y = x" if y: "?A y" "ancestor s x y" for y
    proof -
      obtain q where q: "q < num_commits s" "id_of s q = y" using Aid[OF y(1)] by blast
      with y p pv have "?C q" "reach s q p" using Aeq ancestor_id_of[OF ok pv] by auto
      with p q show ?thesis by metis
    qed
    then show "?A x \<and> (\<forall>y. ?A y \<longrightarrow> ancestor s x y \<longrightarrow> y = x)" using p Aeq[OF pv] by blast
  next
    assume x: "?A x \<and> (\<forall>y. ?A y \<longrightarrow> ancestor s x y \<longrightarrow> y = x)"
    then obtain p where p: "p < num_commits s" "id_of s p = x" using Aid by blast
    have "q = p" if "?C q" "reach s q p" for q
      using x p that Aeq[OF Cval[OF that(1)]] ancestor_id_of[OF ok p(1) Cval[OF that(1)]]
        ids_injective[OF ok Cval[OF that(1)] p(1)] by metis
    with p x Aeq[OF p(1)] rs(4) show "x \<in> set (map (id_of s) rs)" by auto
  qed
  ultimately show ?thesis using run by blast
qed

section \<open>Properties\<close>

text \<open>
  (C18) Over a well-formed index, \<open>heads\<close> of indexed commits returns, without duplicates, exactly
  the candidates that are not ancestors of another candidate.
\<close>

theorem heads_exact:
  assumes "index_ok s" "\<forall>i \<in> set ids. indexed s i"
  shows "\<exists>hs. heads s ids = Returns (Inr hs) \<and> distinct hs \<and>
    set hs = {h \<in> set ids. \<forall>i \<in> set ids. ancestor s h i \<longrightarrow> i = h}"
  by (rule heads_correct[OF assms])

theorem heads_exact_witness:
  "\<exists>hs. heads sample_index [nth_commit 1, nth_commit 2] = Returns (Inr hs) \<and> nth_commit 1 \<notin> set hs"
proof -
  have "\<forall>i \<in> set [nth_commit 1, nth_commit 2]. indexed sample_index i" using sample_indexed[of 1] sample_indexed[of 2] by simp
  from heads_exact[OF sample_index_ok this] show ?thesis
    using sample_ancestor(2) nth_commit_inject by auto
qed

text \<open>
  (C19) Over a well-formed index, \<open>common_ancestors\<close> returns exactly the greatest common ancestors: the
  commits that are ancestors of a commit of each set and not ancestors of another such commit.
\<close>

theorem common_ancestors_exact:
  assumes "index_ok s" "\<forall>i \<in> set ids1. indexed s i" "\<forall>i \<in> set ids2. indexed s i"
  shows "\<exists>rs. common_ancestors s ids1 ids2 = Returns (Inr rs) \<and> distinct rs \<and>
    set rs = {x. common_ancestor s ids1 ids2 x \<and> (\<forall>y. common_ancestor s ids1 ids2 y \<longrightarrow> ancestor s x y \<longrightarrow> y = x)}"
  by (rule common_ancestors_correct[OF assms])

theorem common_ancestors_exact_witness:
  "\<exists>rs. common_ancestors sample_index [nth_commit 1] [nth_commit 2] = Returns (Inr rs) \<and> nth_commit 0 \<notin> set rs"
proof -
  have "\<forall>i \<in> set [nth_commit 1]. indexed sample_index i" "\<forall>i \<in> set [nth_commit 2]. indexed sample_index i"
    using sample_indexed[of 1] sample_indexed[of 2] by simp_all
  from common_ancestors_exact[OF sample_index_ok this] obtain rs where
    rs: "common_ancestors sample_index [nth_commit 1] [nth_commit 2] = Returns (Inr rs)"
    "set rs = {x. common_ancestor sample_index [nth_commit 1] [nth_commit 2] x \<and>
       (\<forall>y. common_ancestor sample_index [nth_commit 1] [nth_commit 2] y \<longrightarrow> ancestor sample_index x y \<longrightarrow> y = x)}" by blast
  have "common_ancestor sample_index [nth_commit 1] [nth_commit 2] (nth_commit 1)"
    using sample_ancestor(2) ancestor_refl[OF sample_index_ok sample_indexed[of 1]] by (simp add: common_ancestor_def)
  with rs sample_ancestor(1) nth_commit_inject show ?thesis by auto
qed

end
