(* ===== verification/Matchers.thy ===== *)
theory Matchers
  imports Repo_Path
begin

text \<open>
  Matchers of paths, \<open>jj/core/src/matchers.rs\<close>: which files a matcher selects, and which entries of a
  directory a walk has to visit. The implementations of the trait are the constructors of one
  datatype, with the one that \<open>jj/core/src/working_copy_patterns.rs\<close> adds.

  The crates \<open>globset\<close> and \<open>regex\<close> are the parameter \<open>path_engine\<close>: parsing a glob whose wildcards
  do not match a separator, its regular expression, and sets of regular expressions in which a dot
  matches a newline.
\<close>

section \<open>What to visit\<close>

datatype visit_dirs = AllDirs | DirSet "string set"
datatype visit_files = AllFiles | FileSet "string set"
datatype visit = AllRecursively | Specific visit_dirs visit_files | NothingToVisit

definition visit_SOME :: visit where
  "visit_SOME = Specific AllDirs AllFiles"

definition visit_sets :: "string set \<Rightarrow> string set \<Rightarrow> visit" where
  "visit_sets dirs files = (if dirs = {} \<and> files = {} then NothingToVisit else Specific (DirSet dirs) (FileSet files))"

fun union_dirs :: "visit_dirs \<Rightarrow> visit_dirs \<Rightarrow> visit_dirs" where
  "union_dirs AllDirs _ = AllDirs"
| "union_dirs _ AllDirs = AllDirs"
| "union_dirs (DirSet a) (DirSet b) = DirSet (a \<union> b)"

fun union_files :: "visit_files \<Rightarrow> visit_files \<Rightarrow> visit_files" where
  "union_files AllFiles _ = AllFiles"
| "union_files _ AllFiles = AllFiles"
| "union_files (FileSet a) (FileSet b) = FileSet (a \<union> b)"

fun intersect_dirs :: "visit_dirs \<Rightarrow> visit_dirs \<Rightarrow> visit_dirs" where
  "intersect_dirs a AllDirs = a"
| "intersect_dirs AllDirs b = b"
| "intersect_dirs (DirSet a) (DirSet b) = DirSet (a \<inter> b)"

fun intersect_files :: "visit_files \<Rightarrow> visit_files \<Rightarrow> visit_files" where
  "intersect_files a AllFiles = a"
| "intersect_files AllFiles b = b"
| "intersect_files (FileSet a) (FileSet b) = FileSet (a \<inter> b)"

definition union_visit :: "visit \<Rightarrow> visit \<Rightarrow> visit" where
  "union_visit v1 v2 =
     (case v1 of
        AllRecursively \<Rightarrow> AllRecursively
      | NothingToVisit \<Rightarrow> v2
      | Specific dirs1 files1 \<Rightarrow>
          (case v2 of
             AllRecursively \<Rightarrow> AllRecursively
           | NothingToVisit \<Rightarrow> Specific dirs1 files1
           | Specific dirs2 files2 \<Rightarrow> Specific (union_dirs dirs1 dirs2) (union_files files1 files2)))"

definition difference_visit :: "visit \<Rightarrow> visit \<Rightarrow> visit" where
  "difference_visit wanted unwanted =
     (case unwanted of
        AllRecursively \<Rightarrow> NothingToVisit
      | NothingToVisit \<Rightarrow> wanted
      | Specific _ _ \<Rightarrow> (case wanted of AllRecursively \<Rightarrow> visit_SOME | _ \<Rightarrow> wanted))"

definition intersect_visit :: "visit \<Rightarrow> visit \<Rightarrow> visit" where
  "intersect_visit v1 v2 =
     (case v1 of
        AllRecursively \<Rightarrow> v2
      | NothingToVisit \<Rightarrow> NothingToVisit
      | Specific dirs1 files1 \<Rightarrow>
          (case v2 of
             AllRecursively \<Rightarrow> Specific dirs1 files1
           | NothingToVisit \<Rightarrow> NothingToVisit
           | Specific dirs2 files2 \<Rightarrow>
               (let dirs = intersect_dirs dirs1 dirs2; files = intersect_files files1 files2 in
                case (dirs, files) of
                  (DirSet ds, FileSet fs) \<Rightarrow>
                    if ds = {} \<and> fs = {} then NothingToVisit else Specific dirs files
                | _ \<Rightarrow> Specific dirs files)))"

section \<open>Files and prefix_paths\<close>

datatype files_node_kind = FDir | FFile
datatype prefix_node_kind = PDir | PPrefix

definition child_names :: "('v path_tree \<Rightarrow> bool) \<Rightarrow> 'v path_tree \<Rightarrow> string set" where
  "child_names P t =
     {name \<in> fst ` set (tree_entries t). case child t name of Some sub \<Rightarrow> P sub | None \<Rightarrow> False}"

definition files_matcher_new :: "RepoPath list \<Rightarrow> files_node_kind path_tree" where
  "files_matcher_new files = foldl (\<lambda>tree f. tree_add FDir (set_tree_value FFile) f tree) (tree_default FDir) files"

definition files_matches :: "files_node_kind path_tree \<Rightarrow> RepoPath \<Rightarrow> bool" where
  "files_matches tree f = (case tree_get tree f of Some sub \<Rightarrow> tree_value sub = FFile | None \<Rightarrow> False)"

definition files_tree_to_visit_sets :: "files_node_kind path_tree \<Rightarrow> visit" where
  "files_tree_to_visit_sets tree =
     visit_sets (child_names has_children tree) (child_names (\<lambda>sub. tree_value sub = FFile) tree)"

definition files_visit :: "files_node_kind path_tree \<Rightarrow> RepoPath \<Rightarrow> visit" where
  "files_visit tree dir = (case tree_get tree dir of None \<Rightarrow> NothingToVisit | Some sub \<Rightarrow> files_tree_to_visit_sets sub)"

definition prefix_matcher_new :: "RepoPath list \<Rightarrow> prefix_node_kind path_tree" where
  "prefix_matcher_new prefix_paths =
     foldl (\<lambda>tree p. tree_add PDir (set_tree_value PPrefix) p tree) (tree_default PDir) prefix_paths"

definition prefix_path_matches :: "prefix_node_kind path_tree \<Rightarrow> RepoPath \<Rightarrow> bool" where
  "prefix_path_matches tree f = list_ex (\<lambda>(sub, _). tree_value sub = PPrefix) (walk_to tree f)"

definition prefix_tree_to_visit_sets :: "prefix_node_kind path_tree \<Rightarrow> visit" where
  "prefix_tree_to_visit_sets tree =
     visit_sets (child_names (\<lambda>_. True) tree) (child_names (\<lambda>sub. tree_value sub = PPrefix) tree)"

fun prefix_visit_walk :: "(prefix_node_kind path_tree \<times> RepoPath) list \<Rightarrow> visit" where
  "prefix_visit_walk [] = NothingToVisit"
| "prefix_visit_walk ((sub, tail_path) # rest) =
     (if tree_value sub = PPrefix then AllRecursively
      else if is_root tail_path then prefix_tree_to_visit_sets sub
      else prefix_visit_walk rest)"

definition prefix_visit :: "prefix_node_kind path_tree \<Rightarrow> RepoPath \<Rightarrow> visit" where
  "prefix_visit tree dir = prefix_visit_walk (walk_to tree dir)"

section \<open>Globs\<close>

record ('g, 'r, 'ge) path_engine =
  path_glob_build :: "string \<Rightarrow> bool \<Rightarrow> ('ge, 'g) result"
  path_glob_regex :: "'g \<Rightarrow> string"
  regex_set_build :: "string list \<Rightarrow> ('ge, 'r) result"
  regex_set_match :: "'r \<Rightarrow> string \<Rightarrow> bool"

record 'g path_glob_pattern =
  glob_of_pattern :: 'g
  icase_of_pattern :: bool

definition path_glob_parse_inner ::
  "('g, 'r, 'ge, 'x) path_engine_scheme \<Rightarrow> string \<Rightarrow> bool \<Rightarrow> ('ge, 'g path_glob_pattern) result" where
  "path_glob_parse_inner E input icase =
     res_bind (path_glob_build E input icase) (\<lambda>glob.
     Inr \<lparr>glob_of_pattern = glob, icase_of_pattern = icase\<rparr>)"

definition path_glob_parse ::
  "('g, 'r, 'ge, 'x) path_engine_scheme \<Rightarrow> string \<Rightarrow> ('ge, 'g path_glob_pattern) result" where
  "path_glob_parse E input = path_glob_parse_inner E input False"

definition path_glob_parse_i ::
  "('g, 'r, 'ge, 'x) path_engine_scheme \<Rightarrow> string \<Rightarrow> ('ge, 'g path_glob_pattern) result" where
  "path_glob_parse_i E input = path_glob_parse_inner E input True"

definition as_regex :: "('g, 'r, 'ge, 'x) path_engine_scheme \<Rightarrow> 'g path_glob_pattern \<Rightarrow> string" where
  "as_regex E pattern = path_glob_regex E (glob_of_pattern pattern)"

definition to_prefix_regex :: "('g, 'r, 'ge, 'x) path_engine_scheme \<Rightarrow> 'g path_glob_pattern \<Rightarrow> string exec" where
  "to_prefix_regex E pattern =
     (let r = path_glob_regex E (glob_of_pattern pattern) in
      if ends_with_char CHR ''$'' r then Returns (butlast r @ ''(?:/|$)'') else Panics)"

definition globs_matches ::
  "('g, 'r, 'ge, 'x) path_engine_scheme \<Rightarrow> 'r option path_tree \<Rightarrow> RepoPath \<Rightarrow> bool" where
  "globs_matches E tree f =
     list_ex (\<lambda>(sub, tail_path). case tree_value sub of
                None \<Rightarrow> False | Some pat \<Rightarrow> regex_set_match E pat (internal_str tail_path))
       (takeWhile (\<lambda>(_, tail_path). \<not> is_root tail_path) (walk_to tree f))"

fun globs_visit_walk ::
  "('g, 'r, 'ge, 'x) path_engine_scheme \<Rightarrow> bool \<Rightarrow> ('r option path_tree \<times> RepoPath) list \<Rightarrow> visit \<Rightarrow> visit" where
  "globs_visit_walk E matches_prefix_paths [] max_visit = max_visit"
| "globs_visit_walk E matches_prefix_paths ((sub, tail_path) # rest) max_visit =
     (case tree_value sub of
        Some pat \<Rightarrow>
          if matches_prefix_paths \<and> regex_set_match E pat (internal_str tail_path) then AllRecursively
          else if \<not> matches_prefix_paths then visit_SOME
          else globs_visit_walk E matches_prefix_paths rest visit_SOME
      | None \<Rightarrow>
          if is_root tail_path \<and> max_visit = NothingToVisit
          then visit_sets (child_names (\<lambda>_. True) sub) {}
          else globs_visit_walk E matches_prefix_paths rest max_visit)"

definition globs_visit ::
  "('g, 'r, 'ge, 'x) path_engine_scheme \<Rightarrow> 'r option path_tree \<Rightarrow> bool \<Rightarrow> RepoPath \<Rightarrow> visit" where
  "globs_visit E tree matches_prefix_paths dir =
     globs_visit_walk E matches_prefix_paths (walk_to tree dir) NothingToVisit"

text \<open>
  The builder. \<open>sort_unstable_by_key\<close> may order patterns of one directory in any way; only the set
  of them matters, so a stable sort stands for it. \<open>chunk_by\<close> groups neighbours with one key.
\<close>

record 'g globs_matcher_builder =
  dir_patterns :: "(RepoPath \<times> 'g path_glob_pattern) list"
  matches_prefix_paths :: bool

definition globs_builder :: "'g globs_matcher_builder" where
  "globs_builder = \<lparr>dir_patterns = [], matches_prefix_paths = False\<rparr>"

definition builder_prefix_paths :: "bool \<Rightarrow> 'g globs_matcher_builder \<Rightarrow> 'g globs_matcher_builder" where
  "builder_prefix_paths yes b = b\<lparr>matches_prefix_paths := yes\<rparr>"

definition builder_is_empty :: "'g globs_matcher_builder \<Rightarrow> bool" where
  "builder_is_empty b \<longleftrightarrow> dir_patterns b = []"

definition builder_add ::
  "RepoPath \<Rightarrow> 'g path_glob_pattern \<Rightarrow> 'g globs_matcher_builder \<Rightarrow> 'g globs_matcher_builder" where
  "builder_add dir pattern b = b\<lparr>dir_patterns := dir_patterns b @ [(dir, pattern)]\<rparr>"

fun chunk_by :: "('a \<Rightarrow> 'k) \<Rightarrow> 'a list \<Rightarrow> ('k \<times> 'a list) list" where
  "chunk_by key [] = []"
| "chunk_by key (x # xs) =
     (case chunk_by key xs of
        (k, ys) # rest \<Rightarrow> if key x = k then (k, x # ys) # rest else (key x, [x]) # (k, ys) # rest
      | [] \<Rightarrow> [(key x, [x])])"

definition chunk_regexes ::
  "('g, 'r, 'ge, 'x) path_engine_scheme \<Rightarrow> bool \<Rightarrow> (RepoPath \<times> 'g path_glob_pattern) list \<Rightarrow> string list exec" where
  "chunk_regexes E prefix_paths chunk =
     exec_map (\<lambda>(_, pattern). if prefix_paths then to_prefix_regex E pattern else Returns (as_regex E pattern)) chunk"

definition add_chunk ::
  "('g, 'r, 'ge, 'x) path_engine_scheme \<Rightarrow> bool \<Rightarrow> RepoPath \<times> (RepoPath \<times> 'g path_glob_pattern) list \<Rightarrow>
   'r option path_tree \<Rightarrow> 'r option path_tree exec" where
  "add_chunk E prefix_paths dc tree =
     exec_bind (chunk_regexes E prefix_paths (snd dc)) (\<lambda>regexes.
     exec_bind (expect (regex_set_build E regexes)) (\<lambda>regex.
     if (case tree_get tree (fst dc) of Some sub \<Rightarrow> tree_value sub \<noteq> None | None \<Rightarrow> False) then Panics
     else Returns (tree_add None (set_tree_value (Some regex)) (fst dc) tree)))"

fun add_chunks ::
  "('g, 'r, 'ge, 'x) path_engine_scheme \<Rightarrow> bool \<Rightarrow> (RepoPath \<times> (RepoPath \<times> 'g path_glob_pattern) list) list \<Rightarrow>
   'r option path_tree \<Rightarrow> 'r option path_tree exec" where
  "add_chunks E prefix_paths [] tree = Returns tree"
| "add_chunks E prefix_paths (dc # rest) tree = exec_bind (add_chunk E prefix_paths dc tree) (add_chunks E prefix_paths rest)"

section \<open>Matchers\<close>

datatype 'r matcher =
    NothingMatcher
  | EverythingMatcher
  | FilesMatcher "files_node_kind path_tree"
  | PrefixMatcher "prefix_node_kind path_tree"
  | GlobsMatcher "'r option path_tree" bool
  | UnionMatcher "'r matcher" "'r matcher"
  | DifferenceMatcher "'r matcher" "'r matcher"
  | IntersectionMatcher "'r matcher" "'r matcher"
  | OrderedRulesMatcher "(bool \<times> 'r matcher) list"

definition globs_builder_build ::
  "('g, 'r, 'ge, 'x) path_engine_scheme \<Rightarrow> 'g globs_matcher_builder \<Rightarrow> 'r matcher exec" where
  "globs_builder_build E b =
     exec_bind (add_chunks E (matches_prefix_paths b) (chunk_by fst (sort_key (\<lambda>dp. components (fst dp)) (dir_patterns b)))
         (tree_default None)) (\<lambda>tree.
     Returns (GlobsMatcher tree (matches_prefix_paths b)))"

text \<open>The state of the rules over a directory, used by the ordered rules below.\<close>

datatype coverage = CovNone | CovSome | CovAll

fun cov_union :: "coverage \<Rightarrow> coverage \<Rightarrow> coverage" where
  "cov_union CovAll _ = CovAll"
| "cov_union _ CovAll = CovAll"
| "cov_union CovNone CovNone = CovNone"
| "cov_union _ _ = CovSome"

fun cov_intersect :: "coverage \<Rightarrow> coverage \<Rightarrow> coverage" where
  "cov_intersect CovNone _ = CovNone"
| "cov_intersect _ CovNone = CovNone"
| "cov_intersect CovAll CovAll = CovAll"
| "cov_intersect _ _ = CovSome"

fun cov_not :: "coverage \<Rightarrow> coverage" where
  "cov_not CovNone = CovAll"
| "cov_not CovAll = CovNone"
| "cov_not CovSome = CovSome"

definition rule_state :: "bool \<Rightarrow> coverage \<Rightarrow> coverage \<Rightarrow> coverage" where
  "rule_state include state matched =
     (if include then cov_union state matched else cov_intersect state (cov_not matched))"

definition visit_coverage :: "visit \<Rightarrow> coverage" where
  "visit_coverage v = (case v of NothingToVisit \<Rightarrow> CovNone | AllRecursively \<Rightarrow> CovAll | Specific _ _ \<Rightarrow> CovSome)"

definition coverage_visit :: "coverage \<Rightarrow> visit" where
  "coverage_visit c = (case c of CovNone \<Rightarrow> NothingToVisit | CovAll \<Rightarrow> AllRecursively | CovSome \<Rightarrow> visit_SOME)"

definition last_hit :: "(bool \<times> bool) list \<Rightarrow> bool" where
  "last_hit hits = (case find snd (rev hits) of Some (include, _) \<Rightarrow> include | None \<Rightarrow> False)"

primrec matcher_matches :: "('g, 'r, 'ge, 'x) path_engine_scheme \<Rightarrow> 'r matcher \<Rightarrow> RepoPath \<Rightarrow> bool" where
  "matcher_matches E NothingMatcher = (\<lambda>f. False)"
| "matcher_matches E EverythingMatcher = (\<lambda>f. True)"
| "matcher_matches E (FilesMatcher tree) = files_matches tree"
| "matcher_matches E (PrefixMatcher tree) = prefix_path_matches tree"
| "matcher_matches E (GlobsMatcher tree _) = globs_matches E tree"
| "matcher_matches E (UnionMatcher a b) = (\<lambda>f. matcher_matches E a f \<or> matcher_matches E b f)"
| "matcher_matches E (DifferenceMatcher a b) = (\<lambda>f. matcher_matches E a f \<and> \<not> matcher_matches E b f)"
| "matcher_matches E (IntersectionMatcher a b) = (\<lambda>f. matcher_matches E a f \<and> matcher_matches E b f)"
| "matcher_matches E (OrderedRulesMatcher rules) =
     (\<lambda>f. last_hit (map (\<lambda>(include, hit). (include, hit f)) (map (map_prod id (matcher_matches E)) rules)))"

primrec matcher_visit :: "('g, 'r, 'ge, 'x) path_engine_scheme \<Rightarrow> 'r matcher \<Rightarrow> RepoPath \<Rightarrow> visit" where
  "matcher_visit E NothingMatcher = (\<lambda>dir. NothingToVisit)"
| "matcher_visit E EverythingMatcher = (\<lambda>dir. AllRecursively)"
| "matcher_visit E (FilesMatcher tree) = files_visit tree"
| "matcher_visit E (PrefixMatcher tree) = prefix_visit tree"
| "matcher_visit E (GlobsMatcher tree prefix_paths) = globs_visit E tree prefix_paths"
| "matcher_visit E (UnionMatcher a b) = (\<lambda>dir. union_visit (matcher_visit E a dir) (matcher_visit E b dir))"
| "matcher_visit E (DifferenceMatcher a b) = (\<lambda>dir. difference_visit (matcher_visit E a dir) (matcher_visit E b dir))"
| "matcher_visit E (IntersectionMatcher a b) = (\<lambda>dir. intersect_visit (matcher_visit E a dir) (matcher_visit E b dir))"
| "matcher_visit E (OrderedRulesMatcher rules) =
     (\<lambda>dir. coverage_visit (foldl (\<lambda>state (include, visit). rule_state include state (visit_coverage (visit dir)))
       CovNone (map (map_prod id (matcher_visit E)) rules)))"

end
