(* ===== verification/Fallible.thy ===== *)
theory Fallible
  imports Jjosh_Prelude
begin

text \<open>Operations that may return an error and may panic: \<open>('e, 'a) result exec\<close>, with its bind.\<close>

definition ok :: "'a \<Rightarrow> ('e, 'a) result exec" where
  "ok x = Returns (Inr x)"

definition err :: "'e \<Rightarrow> ('e, 'a) result exec" where
  "err e = Returns (Inl e)"

definition er_bind :: "('e, 'a) result exec \<Rightarrow> ('a \<Rightarrow> ('e, 'b) result exec) \<Rightarrow> ('e, 'b) result exec" where
  "er_bind m f = exec_bind m (\<lambda>r. case r of Inl e \<Rightarrow> Returns (Inl e) | Inr x \<Rightarrow> f x)"

lemma er_bind_cong [fundef_cong]:
  "m = m' \<Longrightarrow> (\<And>x. m' = Returns (Inr x) \<Longrightarrow> f x = f' x) \<Longrightarrow> er_bind m f = er_bind m' f'"
  by (cases m') (auto simp: er_bind_def split: sum.splits)

lemma exec_bind_cong [fundef_cong]:
  "m = m' \<Longrightarrow> (\<And>x. m' = Returns x \<Longrightarrow> f x = f' x) \<Longrightarrow> exec_bind m f = exec_bind m' f'"
  by (cases m') auto

lemma exec_map_cong [fundef_cong]:
  "xs = ys \<Longrightarrow> (\<And>x. x \<in> set ys \<Longrightarrow> f x = g x) \<Longrightarrow> exec_map f xs = exec_map g ys"
  by (induction ys arbitrary: xs) simp_all

text \<open>A loop that leaves on the first error.\<close>

fun for_each :: "('a \<Rightarrow> ('e, unit) result exec) \<Rightarrow> 'a list \<Rightarrow> ('e, unit) result exec" where
  "for_each f [] = ok ()"
| "for_each f (x # xs) = er_bind (f x) (\<lambda>_. for_each f xs)"

lemma ok_err_simps [simp]: "ok x = ok y \<longleftrightarrow> x = y" "err e \<noteq> ok x" "ok x \<noteq> err e"
  by (simp_all add: ok_def err_def)

lemma er_bind_ok: "er_bind m f = ok y \<longleftrightarrow> (\<exists>x. m = ok x \<and> f x = ok y)"
proof (cases m)
  case (Returns r)
  then show ?thesis by (cases r) (simp_all add: er_bind_def ok_def)
qed (simp add: er_bind_def ok_def)

lemma for_each_ok: "for_each f xs = ok () \<longleftrightarrow> (\<forall>x \<in> set xs. f x = ok ())"
  by (induction xs) (auto simp: er_bind_ok)

end
