(* ===== verification/Working_Copy_Patterns.thy ===== *)
theory Working_Copy_Patterns
  imports Matchers Fallible
begin

text \<open>
  Selection and layout of a working copy, \<open>jj/core/src/working_copy_patterns.rs\<close>: ordered rules over
  path expressions select files, mappings move directories or single files. The globs are compiled
  by the parameter of \<open>Matchers\<close>; the stored form is in \<open>Patterns_Codec\<close>. An operation that may
  return an error and may panic returns \<open>('e, 'a) result exec\<close>.
\<close>

section \<open>Iterators\<close>

text \<open>The next element of a lazy \<open>filter_map\<close>, with what remains.\<close>

fun next_some :: "('a \<Rightarrow> 'b option exec) \<Rightarrow> 'a list \<Rightarrow> ('b \<times> 'a list) option exec" where
  "next_some f [] = Returns None"
| "next_some f (x # xs) =
     exec_bind (f x) (\<lambda>r. case r of Some y \<Rightarrow> Returns (Some (y, xs)) | None \<Rightarrow> next_some f xs)"

section \<open>Data\<close>

definition MAX_DEPTH :: nat where
  "MAX_DEPTH = 98"

datatype ('ge, 'de) patterns_error =
    ExceedsRecursionLimit
  | InvalidGlob 'ge
  | InvalidFields
  | InvalidPath invalid_new_repo_path
  | UnknownKind
  | InvalidFsPath invalid_repo_path
  | ReservedName
  | RootExactMapping
  | SourcesOverlap
  | DestinationsOverlap
  | OwnsParentDirectory RepoPath
  | AmbiguousCanonical
  | AmbiguousPhysical
  | DecodeError 'de
  | UnsupportedVersion
  | MissingExpression
  | NoncanonicalEncoding

datatype WorkingCopyPath = WorkingCopyPath (as_repo_path: RepoPath)

record wc_mapping =
  mapping_source :: RepoPath
  mapping_destination :: WorkingCopyPath
  mapping_recursive :: bool

datatype sparse_expression =
    SparseNone
  | SparseAll
  | FilePath RepoPath
  | PrefixPath RepoPath
  | FileGlob RepoPath string bool
  | PrefixGlob RepoPath string bool
  | UnionAll "sparse_expression list"
  | SparseIntersection sparse_expression sparse_expression
  | SparseDifference sparse_expression sparse_expression

record sparse_rule =
  rule_include :: bool
  rule_expression :: sparse_expression

record wc_patterns =
  wc_rules :: "sparse_rule list"
  wc_mappings :: "wc_mapping list"

definition patterns_all :: wc_patterns where
  "patterns_all = \<lparr>wc_rules = [\<lparr>rule_include = True, rule_expression = SparseAll\<rparr>], wc_mappings = []\<rparr>"

definition patterns_none :: wc_patterns where
  "patterns_none = \<lparr>wc_rules = [], wc_mappings = []\<rparr>"

definition is_identity :: "wc_patterns \<Rightarrow> bool" where
  "is_identity c \<longleftrightarrow>
     wc_mappings c = [] \<or> list_all (\<lambda>m. mapping_source m = as_repo_path (mapping_destination m)) (wc_mappings c)"

section \<open>Compiling expressions\<close>

definition compile_glob ::
  "('g, 'r, 'ge, 'x) path_engine_scheme \<Rightarrow> string \<Rightarrow> bool \<Rightarrow> (('ge, 'de) patterns_error, 'g path_glob_pattern) result" where
  "compile_glob E pattern icase =
     res_map_err InvalidGlob (if icase then path_glob_parse_i E pattern else path_glob_parse E pattern)"

function union_all_matchers :: "'r matcher list \<Rightarrow> 'r matcher" where
  "union_all_matchers ms =
     (case ms of
        [] \<Rightarrow> NothingMatcher
      | [m] \<Rightarrow> m
      | _ \<Rightarrow> UnionMatcher (union_all_matchers (take (length ms div 2) ms)) (union_all_matchers (drop (length ms div 2) ms)))"
  by auto
termination
  by (relation "measure length") auto

declare union_all_matchers.simps [simp del]

record ('g, 'r) union_parts =
  file_paths :: "RepoPath list"
  prefix_path_list :: "RepoPath list"
  file_globs :: "(RepoPath \<times> 'g path_glob_pattern) list"
  prefix_globs :: "(RepoPath \<times> 'g path_glob_pattern) list"
  part_matchers :: "'r matcher list"

definition no_parts :: "('g, 'r) union_parts" where
  "no_parts = \<lparr>file_paths = [], prefix_path_list = [], file_globs = [], prefix_globs = [], part_matchers = []\<rparr>"

definition push_matcher :: "'r matcher \<Rightarrow> ('g, 'r) union_parts \<Rightarrow> ('g, 'r) union_parts" where
  "push_matcher m acc = acc\<lparr>part_matchers := part_matchers acc @ [m]\<rparr>"

definition build_globs ::
  "('g, 'r, 'ge, 'x) path_engine_scheme \<Rightarrow> (RepoPath \<times> 'g path_glob_pattern) list \<Rightarrow> bool \<Rightarrow> 'r matcher list exec" where
  "build_globs E globs prefix_paths =
     (if globs = [] then Returns []
      else exec_bind (globs_builder_build E
             (foldl (\<lambda>b (dir, pattern). builder_add dir pattern b) (builder_prefix_paths prefix_paths globs_builder) globs))
             (\<lambda>m. Returns [m]))"

definition finish_union ::
  "('g, 'r, 'ge, 'x) path_engine_scheme \<Rightarrow> ('g, 'r) union_parts \<Rightarrow> 'r matcher exec" where
  "finish_union E acc =
     (let ms1 = part_matchers acc @ (if file_paths acc = [] then [] else [FilesMatcher (files_matcher_new (file_paths acc))]);
          ms2 = ms1 @ (if prefix_path_list acc = [] then [] else [PrefixMatcher (prefix_matcher_new (prefix_path_list acc))])
      in exec_bind (build_globs E (file_globs acc) False) (\<lambda>ms3.
         exec_bind (build_globs E (prefix_globs acc) True) (\<lambda>ms4.
         Returns (union_all_matchers (ms2 @ ms3 @ ms4)))))"

definition compiled ::
  "('g, 'r, 'ge, 'x) path_engine_scheme \<Rightarrow> string \<Rightarrow> bool \<Rightarrow> 'g path_glob_pattern exec" where
  "compiled E pattern icase = expect (compile_glob E pattern icase :: (('ge, unit) patterns_error, _) result)"

function build_union_matcher ::
    "('g, 'r, 'ge, 'x) path_engine_scheme \<Rightarrow> sparse_expression list \<Rightarrow> 'r matcher exec"
  and build_union_loop ::
    "('g, 'r, 'ge, 'x) path_engine_scheme \<Rightarrow> sparse_expression list \<Rightarrow> ('g, 'r) union_parts \<Rightarrow> ('g, 'r) union_parts exec"
where
  "build_union_matcher E es = exec_bind (build_union_loop E es no_parts) (finish_union E)"
| "build_union_loop E [] acc = Returns acc"
| "build_union_loop E (e # es) acc =
     (case e of
        SparseNone \<Rightarrow> build_union_loop E es (push_matcher NothingMatcher acc)
      | SparseAll \<Rightarrow> build_union_loop E es (push_matcher EverythingMatcher acc)
      | FilePath path \<Rightarrow> build_union_loop E es (acc\<lparr>file_paths := file_paths acc @ [path]\<rparr>)
      | PrefixPath path \<Rightarrow> build_union_loop E es (acc\<lparr>prefix_path_list := prefix_path_list acc @ [path]\<rparr>)
      | FileGlob dir pattern icase \<Rightarrow>
          exec_bind (compiled E pattern icase) (\<lambda>glob.
          build_union_loop E es (acc\<lparr>file_globs := file_globs acc @ [(dir, glob)]\<rparr>))
      | PrefixGlob dir pattern icase \<Rightarrow>
          exec_bind (compiled E pattern icase) (\<lambda>glob.
          build_union_loop E es (acc\<lparr>prefix_globs := prefix_globs acc @ [(dir, glob)]\<rparr>))
      | UnionAll items \<Rightarrow>
          exec_bind (build_union_matcher E items) (\<lambda>m. build_union_loop E es (push_matcher m acc))
      | SparseIntersection a b \<Rightarrow>
          exec_bind (build_union_matcher E [a]) (\<lambda>ma. exec_bind (build_union_matcher E [b]) (\<lambda>mb.
          build_union_loop E es (push_matcher (IntersectionMatcher ma mb) acc)))
      | SparseDifference a b \<Rightarrow>
          exec_bind (build_union_matcher E [a]) (\<lambda>ma. exec_bind (build_union_matcher E [b]) (\<lambda>mb.
          build_union_loop E es (push_matcher (DifferenceMatcher ma mb) acc))))"
  by pat_completeness auto
termination
  by (relation "measure (\<lambda>x. case x of Inl (E, es) \<Rightarrow> 2 * size_list size es + 1 | Inr (E, es, acc) \<Rightarrow> 2 * size_list size es)")
    auto

declare build_union_matcher.simps [simp del]

definition expression_to_matcher ::
  "('g, 'r, 'ge, 'x) path_engine_scheme \<Rightarrow> sparse_expression \<Rightarrow> 'r matcher exec" where
  "expression_to_matcher E e = build_union_matcher E [e]"

section \<open>Expressions\<close>

fun expression_validate ::
    "('g, 'r, 'ge, 'x) path_engine_scheme \<Rightarrow> sparse_expression \<Rightarrow> nat \<Rightarrow> (('ge, 'de) patterns_error, unit) result"
  and items_validate ::
    "('g, 'r, 'ge, 'x) path_engine_scheme \<Rightarrow> sparse_expression list \<Rightarrow> nat \<Rightarrow> (('ge, 'de) patterns_error, unit) result"
where
  "expression_validate E e depth =
     (if depth > MAX_DEPTH then Inl ExceedsRecursionLimit
      else case e of
             FileGlob _ pattern icase \<Rightarrow> res_bind (compile_glob E pattern icase) (\<lambda>_. Inr ())
           | PrefixGlob _ pattern icase \<Rightarrow> res_bind (compile_glob E pattern icase) (\<lambda>_. Inr ())
           | UnionAll items \<Rightarrow> items_validate E items (depth + 1)
           | SparseIntersection a b \<Rightarrow>
               res_bind (expression_validate E a (depth + 1)) (\<lambda>_. expression_validate E b (depth + 1))
           | SparseDifference a b \<Rightarrow>
               res_bind (expression_validate E a (depth + 1)) (\<lambda>_. expression_validate E b (depth + 1))
           | _ \<Rightarrow> Inr ())"
| "items_validate E [] depth = Inr ()"
| "items_validate E (item # items) depth =
     res_bind (expression_validate E item depth) (\<lambda>_. items_validate E items depth)"

declare expression_validate.simps [simp del]

text \<open>\<open>&&\<close> and \<open>any\<close> stop at the first answer.\<close>

fun expression_matches ::
    "('g, 'r, 'ge, 'x) path_engine_scheme \<Rightarrow> sparse_expression \<Rightarrow> RepoPath \<Rightarrow> bool exec"
  and any_matches ::
    "('g, 'r, 'ge, 'x) path_engine_scheme \<Rightarrow> sparse_expression list \<Rightarrow> RepoPath \<Rightarrow> bool exec"
where
  "expression_matches E SparseNone path = Returns False"
| "expression_matches E SparseAll path = Returns True"
| "expression_matches E (FilePath p) path = Returns (p = path)"
| "expression_matches E (PrefixPath p) path = Returns (path_starts_with path p)"
| "expression_matches E (FileGlob dir pattern icase) path =
     exec_bind (expression_to_matcher E (FileGlob dir pattern icase)) (\<lambda>m. Returns (matcher_matches E m path))"
| "expression_matches E (PrefixGlob dir pattern icase) path =
     exec_bind (expression_to_matcher E (PrefixGlob dir pattern icase)) (\<lambda>m. Returns (matcher_matches E m path))"
| "expression_matches E (UnionAll items) path = any_matches E items path"
| "expression_matches E (SparseIntersection a b) path =
     exec_bind (expression_matches E a path) (\<lambda>ha. if ha then expression_matches E b path else Returns False)"
| "expression_matches E (SparseDifference a b) path =
     exec_bind (expression_matches E a path) (\<lambda>ha.
     if ha then exec_bind (expression_matches E b path) (\<lambda>hb. Returns (\<not> hb)) else Returns False)"
| "any_matches E [] path = Returns False"
| "any_matches E (item # items) path =
     exec_bind (expression_matches E item path) (\<lambda>h. if h then Returns True else any_matches E items path)"

text \<open>
  The coverage of a whole prefix domain. The recursion keeps \<open>recursive\<close>, so the case of a single
  path is decided once, before it.
\<close>

fun domain_coverage :: "sparse_expression \<Rightarrow> RepoPath \<Rightarrow> coverage" where
  "domain_coverage SparseNone path = CovNone"
| "domain_coverage SparseAll path = CovAll"
| "domain_coverage (FilePath p) path = (if path_starts_with p path then CovSome else CovNone)"
| "domain_coverage (PrefixPath p) path =
     (if path_starts_with path p then CovAll else if path_starts_with p path then CovSome else CovNone)"
| "domain_coverage (FileGlob dir _ _) path =
     (if path_starts_with path dir \<or> path_starts_with dir path then CovSome else CovNone)"
| "domain_coverage (PrefixGlob dir _ _) path =
     (if path_starts_with path dir \<or> path_starts_with dir path then CovSome else CovNone)"
| "domain_coverage (UnionAll items) path = foldl cov_union CovNone (map (\<lambda>item. domain_coverage item path) items)"
| "domain_coverage (SparseIntersection a b) path = cov_intersect (domain_coverage a path) (domain_coverage b path)"
| "domain_coverage (SparseDifference a b) path = cov_intersect (domain_coverage a path) (cov_not (domain_coverage b path))"

definition expression_coverage ::
  "('g, 'r, 'ge, 'x) path_engine_scheme \<Rightarrow> sparse_expression \<Rightarrow> RepoPath \<Rightarrow> bool \<Rightarrow> coverage exec" where
  "expression_coverage E e path recursive =
     (if \<not> recursive then exec_bind (expression_matches E e path) (\<lambda>h. Returns (if h then CovAll else CovNone))
      else Returns (domain_coverage e path))"

section \<open>Selection and layout\<close>

definition path_append :: "RepoPath \<Rightarrow> RepoPath \<Rightarrow> RepoPath exec" where
  "path_append base tail =
     (if is_root tail then Returns base
      else if is_root base then Returns tail
      else expect (from_internal_string (internal_str base @ ''/'' @ internal_str tail)))"

definition translate :: "RepoPath \<Rightarrow> RepoPath \<Rightarrow> RepoPath \<Rightarrow> bool \<Rightarrow> RepoPath option exec" where
  "translate path source destination recursive =
     (case path_strip_prefix path source of
        None \<Rightarrow> Returns None
      | Some tail \<Rightarrow>
          if recursive \<or> is_root tail then exec_bind (path_append destination tail) (\<lambda>p. Returns (Some p))
          else Returns None)"

definition domain_overlap :: "RepoPath \<Rightarrow> bool \<Rightarrow> RepoPath \<Rightarrow> bool \<Rightarrow> (RepoPath \<times> bool) option" where
  "domain_overlap a ar b br =
     (if a = b then Some (a, ar \<and> br)
      else if ar \<and> path_starts_with b a then Some (b, br)
      else if br \<and> path_starts_with a b then Some (a, ar)
      else None)"

fun rule_matchers ::
  "('g, 'r, 'ge, 'x) path_engine_scheme \<Rightarrow> sparse_rule list \<Rightarrow> (bool \<times> 'r matcher) list exec" where
  "rule_matchers E [] = Returns []"
| "rule_matchers E (r # rs) =
     exec_bind (expression_to_matcher E (rule_expression r)) (\<lambda>m.
     exec_bind (rule_matchers E rs) (\<lambda>ms. Returns ((rule_include r, m) # ms)))"

definition mapping_domain :: "wc_mapping \<Rightarrow> 'r matcher" where
  "mapping_domain m =
     (let domain = if mapping_recursive m then PrefixMatcher (prefix_matcher_new [mapping_source m])
                   else FilesMatcher (files_matcher_new [mapping_source m])
      in if is_root (as_repo_path (mapping_destination m))
         then DifferenceMatcher domain (FilesMatcher (files_matcher_new [mapping_source m]))
         else domain)"

definition patterns_to_matcher ::
  "('g, 'r, 'ge, 'x) path_engine_scheme \<Rightarrow> wc_patterns \<Rightarrow> 'r matcher exec" where
  "patterns_to_matcher E c =
     exec_bind (rule_matchers E (wc_rules c)) (\<lambda>rules.
     if wc_mappings c = [] then Returns (OrderedRulesMatcher rules)
     else Returns (IntersectionMatcher (OrderedRulesMatcher rules) (union_all_matchers (map mapping_domain (wc_mappings c)))))"

text \<open>\<open>find\<close> from the last rule: the first whose expression matches decides.\<close>

fun find_rule ::
  "('g, 'r, 'ge, 'x) path_engine_scheme \<Rightarrow> sparse_rule list \<Rightarrow> RepoPath \<Rightarrow> bool exec" where
  "find_rule E [] path = Returns False"
| "find_rule E (r # rs) path =
     exec_bind (expression_matches E (rule_expression r) path) (\<lambda>h.
     if h then Returns (rule_include r) else find_rule E rs path)"

definition rules_coverage ::
  "('g, 'r, 'ge, 'x) path_engine_scheme \<Rightarrow> wc_patterns \<Rightarrow> RepoPath \<Rightarrow> bool \<Rightarrow> coverage exec" where
  "rules_coverage E c path recursive =
     (if \<not> recursive
      then exec_bind (find_rule E (rev (wc_rules c)) path) (\<lambda>h. Returns (if h then CovAll else CovNone))
      else Returns (foldl (\<lambda>selected rule. rule_state (rule_include rule) selected (domain_coverage (rule_expression rule) path))
             CovNone (wc_rules c)))"

section \<open>Validation\<close>

definition check_mapping_path :: "RepoPath \<Rightarrow> (('ge, 'de) patterns_error, unit) result exec" where
  "check_mapping_path path =
     (case to_fs_path path ''.'' of
        Inl e \<Rightarrow> err (InvalidFsPath e)
      | Inr _ \<Rightarrow>
          if list_ex (\<lambda>c. c = ''.jj'' \<or> c = ''.git'') (components path) then err ReservedName else ok ())"

definition check_mapping :: "wc_mapping \<Rightarrow> (('ge, 'de) patterns_error, unit) result exec" where
  "check_mapping m =
     er_bind (for_each check_mapping_path [mapping_source m, as_repo_path (mapping_destination m)]) (\<lambda>_.
     if \<not> mapping_recursive m \<and> (is_root (mapping_source m) \<or> is_root (as_repo_path (mapping_destination m)))
     then err RootExactMapping else ok ())"

definition check_sources ::
  "('g, 'r, 'ge, 'x) path_engine_scheme \<Rightarrow> wc_patterns \<Rightarrow> wc_mapping \<Rightarrow> wc_mapping \<Rightarrow>
   (('ge, 'de) patterns_error, unit) result exec" where
  "check_sources E c a b =
     (case domain_overlap (mapping_source a) (mapping_recursive a) (mapping_source b) (mapping_recursive b) of
        None \<Rightarrow> ok ()
      | Some (path, recursive) \<Rightarrow>
          exec_bind (rules_coverage E c path recursive) (\<lambda>cov.
          if cov \<noteq> CovNone then err SourcesOverlap else ok ()))"

definition check_destinations ::
  "('g, 'r, 'ge, 'x) path_engine_scheme \<Rightarrow> wc_patterns \<Rightarrow> wc_mapping \<Rightarrow> wc_mapping \<Rightarrow>
   (('ge, 'de) patterns_error, unit) result exec" where
  "check_destinations E c a b =
     (case domain_overlap (as_repo_path (mapping_destination a)) (mapping_recursive a)
             (as_repo_path (mapping_destination b)) (mapping_recursive b) of
        None \<Rightarrow> ok ()
      | Some (path, recursive) \<Rightarrow>
          exec_bind (exec_bind (translate path (as_repo_path (mapping_destination a)) (mapping_source a) (mapping_recursive a)) unwrap) (\<lambda>ap.
          exec_bind (exec_bind (translate path (as_repo_path (mapping_destination b)) (mapping_source b) (mapping_recursive b)) unwrap) (\<lambda>bp.
          exec_bind (rules_coverage E c ap recursive) (\<lambda>cov_a.
          if cov_a = CovNone then ok ()
          else exec_bind (rules_coverage E c bp recursive) (\<lambda>cov_b.
               if cov_b \<noteq> CovNone then err DestinationsOverlap else ok ())))))"

definition check_parent ::
  "('g, 'r, 'ge, 'x) path_engine_scheme \<Rightarrow> wc_patterns \<Rightarrow> wc_mapping \<Rightarrow> wc_mapping \<Rightarrow> RepoPath \<Rightarrow>
   (('ge, 'de) patterns_error, unit) result exec" where
  "check_parent E c parent_mapping child_mapping parent =
     (if is_root parent then ok ()
      else exec_bind (translate parent (as_repo_path (mapping_destination parent_mapping)) (mapping_source parent_mapping)
             (mapping_recursive parent_mapping)) (\<lambda>t.
           case t of
             None \<Rightarrow> ok ()
           | Some source \<Rightarrow>
               if path_starts_with (mapping_source child_mapping) source then ok ()
               else exec_bind (rules_coverage E c source False) (\<lambda>cov.
                    if cov \<noteq> CovNone then err (OwnsParentDirectory source) else ok ())))"

definition check_parents ::
  "('g, 'r, 'ge, 'x) path_engine_scheme \<Rightarrow> wc_patterns \<Rightarrow> wc_mapping \<times> wc_mapping \<Rightarrow>
   (('ge, 'de) patterns_error, unit) result exec" where
  "check_parents E c pc =
     (let (parent_mapping, child_mapping) = pc in
      exec_bind (rules_coverage E c (mapping_source child_mapping) (mapping_recursive child_mapping)) (\<lambda>cov.
      if cov = CovNone then ok ()
      else for_each (check_parent E c parent_mapping child_mapping)
             (drop 1 (path_ancestors (as_repo_path (mapping_destination child_mapping))))))"

definition check_pair ::
  "('g, 'r, 'ge, 'x) path_engine_scheme \<Rightarrow> wc_patterns \<Rightarrow> wc_mapping \<Rightarrow> wc_mapping \<Rightarrow>
   (('ge, 'de) patterns_error, unit) result exec" where
  "check_pair E c a b =
     er_bind (check_sources E c a b) (\<lambda>_.
     er_bind (check_destinations E c a b) (\<lambda>_.
     for_each (check_parents E c) [(a, b), (b, a)]))"

fun check_pairs ::
  "('g, 'r, 'ge, 'x) path_engine_scheme \<Rightarrow> wc_patterns \<Rightarrow> wc_mapping list \<Rightarrow>
   (('ge, 'de) patterns_error, unit) result exec" where
  "check_pairs E c [] = ok ()"
| "check_pairs E c (a # rest) = er_bind (for_each (check_pair E c a) rest) (\<lambda>_. check_pairs E c rest)"

definition patterns_validate ::
  "('g, 'r, 'ge, 'x) path_engine_scheme \<Rightarrow> wc_patterns \<Rightarrow> (('ge, 'de) patterns_error, unit) result exec" where
  "patterns_validate E c =
     er_bind (for_each (\<lambda>rule. Returns (expression_validate E (rule_expression rule) 0)) (wc_rules c)) (\<lambda>_.
     er_bind (for_each check_mapping (wc_mappings c)) (\<lambda>_.
     check_pairs E c (wc_mappings c)))"

section \<open>Translating paths\<close>

definition source_to_destination :: "RepoPath \<Rightarrow> wc_mapping \<Rightarrow> RepoPath option exec" where
  "source_to_destination path m =
     translate path (mapping_source m) (as_repo_path (mapping_destination m)) (mapping_recursive m)"

definition destination_to_source :: "RepoPath \<Rightarrow> wc_mapping \<Rightarrow> RepoPath option exec" where
  "destination_to_source path m =
     translate path (as_repo_path (mapping_destination m)) (mapping_source m) (mapping_recursive m)"

definition repo_to_wc_impl ::
  "wc_patterns \<Rightarrow> RepoPath \<Rightarrow> (RepoPath \<Rightarrow> bool exec) \<Rightarrow>
   (('ge, 'de) patterns_error, WorkingCopyPath option) result exec" where
  "repo_to_wc_impl c path selected =
     (if wc_mappings c = [] then ok (Some (WorkingCopyPath path))
      else exec_bind (next_some (source_to_destination path) (wc_mappings c)) (\<lambda>r.
           case r of
             None \<Rightarrow> ok None
           | Some (first, rest) \<Rightarrow>
               exec_bind (next_some (source_to_destination path) rest) (\<lambda>r2.
               if r2 = None then ok (Some (WorkingCopyPath first))
               else exec_bind (selected path) (\<lambda>h. if \<not> h then ok None else err AmbiguousCanonical))))"

definition is_selected ::
  "('g, 'r, 'ge, 'x) path_engine_scheme \<Rightarrow> wc_patterns \<Rightarrow> RepoPath \<Rightarrow> bool exec" where
  "is_selected E c path = exec_bind (rules_coverage E c path False) (\<lambda>cov. Returns (cov \<noteq> CovNone))"

definition repo_to_wc ::
  "('g, 'r, 'ge, 'x) path_engine_scheme \<Rightarrow> wc_patterns \<Rightarrow> RepoPath \<Rightarrow>
   (('ge, 'de) patterns_error, WorkingCopyPath option) result exec" where
  "repo_to_wc E c path = repo_to_wc_impl c path (is_selected E c)"

definition repo_to_wc_with_matcher ::
  "('g, 'r, 'ge, 'x) path_engine_scheme \<Rightarrow> wc_patterns \<Rightarrow> RepoPath \<Rightarrow> 'r matcher \<Rightarrow>
   (('ge, 'de) patterns_error, WorkingCopyPath option) result exec" where
  "repo_to_wc_with_matcher E c path m = repo_to_wc_impl c path (\<lambda>p. Returns (matcher_matches E m p))"

text \<open>
  Of the candidates, the first two have been computed when the selection is asked; the others are
  computed as far as they are needed.
\<close>

definition select_candidate ::
  "(RepoPath \<Rightarrow> bool exec) \<Rightarrow> RepoPath \<Rightarrow> RepoPath + wc_mapping \<Rightarrow> RepoPath option exec" where
  "select_candidate selected path x =
     exec_bind (case x of Inl p \<Rightarrow> Returns (Some p) | Inr m \<Rightarrow> destination_to_source path m) (\<lambda>r.
     case r of
       None \<Rightarrow> Returns None
     | Some p \<Rightarrow> exec_bind (selected p) (\<lambda>h. Returns (if h then Some p else None)))"

definition wc_to_repo_impl ::
  "wc_patterns \<Rightarrow> WorkingCopyPath \<Rightarrow> (RepoPath \<Rightarrow> bool exec) \<Rightarrow>
   (('ge, 'de) patterns_error, RepoPath option) result exec" where
  "wc_to_repo_impl c path selected =
     (if wc_mappings c = [] then ok (Some (as_repo_path path))
      else exec_bind (next_some (destination_to_source (as_repo_path path)) (wc_mappings c)) (\<lambda>r.
           case r of
             None \<Rightarrow> ok None
           | Some (first, rest) \<Rightarrow>
               exec_bind (next_some (destination_to_source (as_repo_path path)) rest) (\<lambda>peeked.
               case peeked of
                 None \<Rightarrow> ok (Some first)
               | Some (second, rest2) \<Rightarrow>
                   exec_bind (next_some (select_candidate selected (as_repo_path path))
                       (Inl first # Inl second # map Inr rest2)) (\<lambda>r1.
                   case r1 of
                     None \<Rightarrow> ok None
                   | Some (p, rest3) \<Rightarrow>
                       exec_bind (next_some (select_candidate selected (as_repo_path path)) rest3) (\<lambda>r2.
                       if r2 \<noteq> None then err AmbiguousPhysical else ok (Some p))))))"

definition wc_to_repo ::
  "('g, 'r, 'ge, 'x) path_engine_scheme \<Rightarrow> wc_patterns \<Rightarrow> WorkingCopyPath \<Rightarrow>
   (('ge, 'de) patterns_error, RepoPath option) result exec" where
  "wc_to_repo E c path = wc_to_repo_impl c path (is_selected E c)"

definition wc_to_repo_with_matcher ::
  "('g, 'r, 'ge, 'x) path_engine_scheme \<Rightarrow> wc_patterns \<Rightarrow> WorkingCopyPath \<Rightarrow> 'r matcher \<Rightarrow>
   (('ge, 'de) patterns_error, RepoPath option) result exec" where
  "wc_to_repo_with_matcher E c path m = wc_to_repo_impl c path (\<lambda>p. Returns (matcher_matches E m p))"

end
