(* ===== verification/Str_Util_Laws.thy ===== *)
theory Str_Util_Laws
  imports Str_Util
begin

text \<open>
  What string expressions mean: the set of strings each one matches, written declaratively, and the
  compiled matchers, the map filter, the balanced union and the iteration over exact strings
  against it.
\<close>

section \<open>Meaning\<close>

definition engine_law :: "('g, 'r, 'ge, 're) engine \<Rightarrow> bool" where
  "engine_law E \<longleftrightarrow>
     (\<forall>g. \<exists>r. regex_build E (glob_regex E g) False True = Inr r) \<and>
     (\<forall>g r s. glob_str E g = ''*'' \<longrightarrow> regex_build E (glob_regex E g) False True = Inr r \<longrightarrow> regex_is_match E r s) \<and>
     (\<forall>r s. regex_str E r = [] \<longrightarrow> regex_is_match E r s)"

fun pattern_matches :: "('g, 'r, 'ge, 're) engine \<Rightarrow> ('g, 'r) string_pattern \<Rightarrow> string \<Rightarrow> bool" where
  "pattern_matches E (Exact literal) s \<longleftrightarrow> s = literal"
| "pattern_matches E (ExactI literal) s \<longleftrightarrow> map ascii_lower s = map ascii_lower literal"
| "pattern_matches E (Substring needle) s \<longleftrightarrow> (\<exists>a b. s = a @ needle @ b)"
| "pattern_matches E (SubstringI needle) s \<longleftrightarrow> (\<exists>a b. map ascii_lower s = a @ map ascii_lower needle @ b)"
| "pattern_matches E (Glob g) s \<longleftrightarrow>
     (\<exists>r. regex_build E (glob_regex E g) False True = Inr r \<and> regex_is_match E r s)"
| "pattern_matches E (GlobI g) s \<longleftrightarrow>
     (\<exists>r. regex_build E (glob_regex E g) False True = Inr r \<and> regex_is_match E r s)"
| "pattern_matches E (Regex r) s \<longleftrightarrow> regex_is_match E r s"
| "pattern_matches E (RegexI r) s \<longleftrightarrow> regex_is_match E r s"

fun expr_matches :: "('g, 'r, 'ge, 're) engine \<Rightarrow> ('g, 'r) string_expression \<Rightarrow> string \<Rightarrow> bool" where
  "expr_matches E (Pattern p) s \<longleftrightarrow> pattern_matches E p s"
| "expr_matches E (NotIn e) s \<longleftrightarrow> \<not> expr_matches E e s"
| "expr_matches E (Union e1 e2) s \<longleftrightarrow> expr_matches E e1 s \<or> expr_matches E e2 s"
| "expr_matches E (Intersection e1 e2) s \<longleftrightarrow> expr_matches E e1 s \<and> expr_matches E e2 s"

lemma starts_with_iff: "starts_with needle s \<longleftrightarrow> (\<exists>b. s = needle @ b)"
  by (induction needle s rule: starts_with.induct) auto

lemma contains_str_iff: "contains_str s needle \<longleftrightarrow> (\<exists>a b. s = a @ needle @ b)"
proof (induction s)
  case (Cons x xs)
  have "(\<exists>a b. x # xs = a @ needle @ b) \<longleftrightarrow>
    (\<exists>b. x # xs = needle @ b) \<or> (\<exists>a b. xs = a @ needle @ b)"
    by (auto simp: Cons_eq_append_conv)
  with Cons show ?case by (simp add: starts_with_iff)
qed simp

lemma into_match_fn_eq: "into_match_fn m = is_match m"
  by (cases m) auto

lemma to_match_fn_meaning:
  assumes "engine_law E"
  shows "\<exists>f. to_match_fn E p = Returns f \<and> (\<forall>s. f s \<longleftrightarrow> pattern_matches E p s)"
proof -
  have "\<exists>r. regex_build E (glob_regex E g) False True = Inr r" for g
    using assms by (simp add: engine_law_def)
  then show ?thesis
    by (cases p)
      (auto simp: contains_str_iff eq_ignore_ascii_case_def to_ascii_lowercase_def glob_to_regex_def expect_def
        exec_bind_eq_Returns split: sum.splits, (metis sum.inject(2) sum.distinct(1))+)
qed

lemma is_all_matches:
  assumes "engine_law E" and "is_all E p"
  shows "pattern_matches E p s"
proof -
  have "\<exists>r. regex_build E (glob_regex E g) False True = Inr r \<and> regex_is_match E r s" if "glob_str E g = ''*''" for g
    using assms(1) that unfolding engine_law_def by blast
  moreover have "regex_is_match E r s" if "regex_str E r = []" for r
    using assms(1) that unfolding engine_law_def by blast
  ultimately show ?thesis using assms(2) by (cases p) auto
qed

lemma pattern_to_matcher_meaning:
  assumes "engine_law E"
  shows "\<exists>m. pattern_to_matcher E p = Returns m \<and> (\<forall>s. is_match m s \<longleftrightarrow> pattern_matches E p s)"
proof (cases "is_all E p")
  case True
  then show ?thesis using is_all_matches[OF assms] by (auto simp: pattern_to_matcher_def)
next
  case False
  then show ?thesis using to_match_fn_meaning[OF assms, of p]
    by (cases p) (auto simp: pattern_to_matcher_def as_exact_def exec_bind_eq_Returns)
qed

text \<open>
  Compiling a string expression never panics, and the compiled matcher accepts exactly the
  strings that the expression means: literal equality, equality and containment up to ASCII case,
  containment, and the regular expressions at the leaves, combined by complement, union and
  intersection. The shortcuts for patterns that match everything and for exact literals do not
  change the meaning.
\<close>
theorem to_matcher_meaning:
  assumes "engine_law E"
  shows "\<exists>m. to_matcher E e = Returns m \<and> (\<forall>s. is_match m s \<longleftrightarrow> expr_matches E e s)"
proof (induction e)
  case (Pattern p)
  then show ?case using pattern_to_matcher_meaning[OF assms, of p] by simp
qed (auto simp: into_match_fn_eq)

text \<open>An engine whose globs are plain literals, except \<open>*\<close>, and whose only regular expression is empty.\<close>

definition literal_engine :: "(string, string, unit, unit) engine" where
  "literal_engine =
     \<lparr>glob_build = (\<lambda>src icase. Inr src), glob_str = (\<lambda>g. g), glob_regex = (\<lambda>g. if g = ''*'' then [] else g),
      glob_escape = (\<lambda>s. s), regex_build = (\<lambda>src icase dot. Inr src), regex_str = (\<lambda>r. r),
      regex_is_match = (\<lambda>r s. contains_str s r), regex_escape = (\<lambda>s. s)\<rparr>"

lemma literal_engine_law: "engine_law literal_engine"
  by (auto simp: engine_law_def literal_engine_def contains_str_iff)

theorem to_matcher_meaning_witness:
  "\<exists>m. to_matcher literal_engine (Union (Pattern (Exact ''a'')) (NotIn (Pattern (Substring ''b'')))) = Returns m \<and>
     is_match m ''xyz'' \<and> \<not> is_match m ''abc''"
proof -
  let ?e = "Union (Pattern (Exact ''a'')) (NotIn (Pattern (Substring ''b'')))"
  obtain m where m: "to_matcher literal_engine ?e = Returns m" "\<forall>s. is_match m s \<longleftrightarrow> expr_matches literal_engine ?e s"
    using to_matcher_meaning[OF literal_engine_law] by blast
  have "expr_matches literal_engine ?e ''xyz''" "\<not> expr_matches literal_engine ?e ''abc''"
    using contains_str_iff[of "''xyz''" "''b''"] contains_str_iff[of "''abc''" "''b''"] by simp_all
  with m show ?thesis by blast
qed

section \<open>Filtering a map\<close>

text \<open>
  Filtering a map by a matcher, which looks an exact key up instead of scanning, gives the
  entries whose key matches, in the order of the map.
\<close>
theorem filter_btree_map_exact: "filter_btree_map m t = filter (\<lambda>(key, _). is_match m key) (entries t)"
proof (cases m)
  case (MatchExact key)
  have "sorted_wrt (<) (map fst (filter (\<lambda>(k, _). k = key) (entries t)))"
    by (rule sorted_filter_fst[OF sorted_entries])
  moreover have "set (case bt_get t key of None \<Rightarrow> [] | Some v \<Rightarrow> [(key, v)]) = set (filter (\<lambda>(k, _). k = key) (entries t))"
    by (auto simp: in_entries_iff split: option.split)
  ultimately show ?thesis
    unfolding MatchExact by (intro sorted_alist_eqI) (auto split: option.split)
qed auto

section \<open>Unions\<close>

fun depth :: "('g, 'r) string_expression \<Rightarrow> nat" where
  "depth (Pattern _) = 0"
| "depth (NotIn e) = Suc (depth e)"
| "depth (Union e1 e2) = Suc (max (depth e1) (depth e2))"
| "depth (Intersection e1 e2) = Suc (max (depth e1) (depth e2))"

lemma to_binary_expression_cases:
  "to_binary_expression [] unit binary = unit"
  "to_binary_expression [x] unit binary = x"
  "1 < length es \<Longrightarrow> to_binary_expression es unit binary =
     binary (to_binary_expression (take (length es div 2) es) unit binary)
       (to_binary_expression (drop (length es div 2) es) unit binary)"
proof -
  assume "1 < length es"
  then obtain a b es' where es: "es = a # b # es'" by (cases es rule: step2.cases) auto
  show "to_binary_expression es unit binary =
     binary (to_binary_expression (take (length es div 2) es) unit binary)
       (to_binary_expression (drop (length es div 2) es) unit binary)"
    using es by (subst to_binary_expression.simps) simp
qed (subst to_binary_expression.simps, simp)+

lemma to_binary_expression_union:
  "expr_matches E (to_binary_expression es expr_none Union) s \<longleftrightarrow> (\<exists>e \<in> set es. expr_matches E e s)"
proof (induction "length es" arbitrary: es rule: less_induct)
  case less
  show ?case
  proof (cases es rule: step2.cases)
    case (3 a b es')
    let ?h = "length es div 2"
    have IH: "expr_matches E (to_binary_expression (take ?h es) expr_none Union) s \<longleftrightarrow> (\<exists>e \<in> set (take ?h es). expr_matches E e s)"
      "expr_matches E (to_binary_expression (drop ?h es) expr_none Union) s \<longleftrightarrow> (\<exists>e \<in> set (drop ?h es). expr_matches E e s)"
      using 3 by (intro less; simp)+
    have "to_binary_expression es expr_none Union =
      Union (to_binary_expression (take ?h es) expr_none Union) (to_binary_expression (drop ?h es) expr_none Union)"
      using 3 by (intro to_binary_expression_cases) simp
    moreover have "set es = set (take ?h es) \<union> set (drop ?h es)"
      by (metis append_take_drop_id set_append)
    ultimately show ?thesis using IH by auto
  qed (auto simp: to_binary_expression_cases(1,2) expr_none_def expr_all_def pattern_all_def)
qed

lemma to_binary_expression_depth:
  assumes "es \<noteq> []" and "length es \<le> 2 ^ d" and "\<forall>e \<in> set es. depth e \<le> k"
  shows "depth (to_binary_expression es expr_none Union) \<le> k + d"
  using assms
proof (induction d arbitrary: es)
  case 0
  then obtain e where "es = [e]" by (cases es) auto
  with 0 show ?case by (simp add: to_binary_expression_cases)
next
  case (Suc d)
  show ?case
  proof (cases es rule: step2.cases)
    case (3 a b es')
    let ?h = "length es div 2"
    have "depth (to_binary_expression (take ?h es) expr_none Union) \<le> k + d"
      "depth (to_binary_expression (drop ?h es) expr_none Union) \<le> k + d"
      using Suc.prems(2,3) 3 in_set_takeD[of _ ?h es] in_set_dropD[of _ ?h es] by (intro Suc.IH; force)+
    moreover have "to_binary_expression es expr_none Union =
      Union (to_binary_expression (take ?h es) expr_none Union) (to_binary_expression (drop ?h es) expr_none Union)"
      using 3 by (intro to_binary_expression_cases) simp
    ultimately show ?thesis by simp
  qed (use Suc.prems in \<open>auto simp: to_binary_expression_cases(1,2)\<close>)
qed

text \<open>
  (C37) The union of a list of expressions matches a string exactly when one of them does, nothing
  for an empty list, and it is balanced: up to \<open>2^d\<close> expressions add at most \<open>d\<close> levels, so that the
  recursion over the tree stays logarithmic in their number.
\<close>
theorem union_all_balanced:
  "(expr_matches E (union_all es) s \<longleftrightarrow> (\<exists>e \<in> set es. expr_matches E e s)) \<and>
   (es \<noteq> [] \<longrightarrow> length es \<le> 2 ^ d \<longrightarrow> (\<forall>e \<in> set es. depth e \<le> k) \<longrightarrow> depth (union_all es) \<le> k + d)"
  unfolding union_all_def using to_binary_expression_union to_binary_expression_depth by blast

theorem union_all_balanced_witness:
  "depth (union_all [Pattern (Exact ''a''), Pattern (Exact ''b''), Pattern (Exact ''c'')] :: (string, string) string_expression) \<le> 2"
  using union_all_balanced[of literal_engine "[Pattern (Exact ''a''), Pattern (Exact ''b''), Pattern (Exact ''c'')]" "[]" 2 0]
  by simp

section \<open>Exact strings\<close>

fun exact_leaves :: "('g, 'r) string_expression \<Rightarrow> string list" where
  "exact_leaves (Pattern p) = (case p of Exact literal \<Rightarrow> [literal] | _ \<Rightarrow> [])"
| "exact_leaves (NotIn e) = exact_leaves e"
| "exact_leaves (Union e1 e2) = exact_leaves e1 @ exact_leaves e2"
| "exact_leaves (Intersection e1 e2) = exact_leaves e1 @ exact_leaves e2"

lemma dfs_pre_loop_leaves:
  "List.map_filter (\<lambda>expr. case expr of Pattern pattern \<Rightarrow> as_exact pattern | _ \<Rightarrow> None) (dfs_pre_loop stack) =
     concat (map exact_leaves stack)"
  by (induction stack rule: dfs_pre_loop.induct)
    (auto simp: List.map_filter_simps as_exact_def split: string_pattern.splits)

text \<open>
  The iterator over an expression's exact strings, which walks the tree with an explicit stack,
  yields the literals of the exact patterns from left to right, under every operator.
\<close>
theorem exact_strings_leaves: "exact_strings e = exact_leaves e"
  by (simp add: exact_strings_def dfs_pre_def dfs_pre_loop_leaves)

end
