(* ===== verification/Repo_Path_Laws.thy ===== *)
theory Repo_Path_Laws
  imports Repo_Path Str_Util_Laws
begin

text \<open>
  Laws of repository paths. The well-formed strings are exactly the joins of lists of well-formed
  components, so a path is a list of names: every operation on strings is shown to be the
  corresponding operation on that list (\<open>path_lists\<close>), and a tree is a partial map from lists.
\<close>

named_theorems path_lists \<open>operations on the strings of paths as operations on lists of names\<close>

section \<open>Strings and lists of names\<close>

lemma split_once_None: "split_once c s = None \<longleftrightarrow> c \<notin> set s"
  by (induction s) auto

lemma split_once_Some: "split_once c s = Some (a, b) \<longleftrightarrow> s = a @ c # b \<and> c \<notin> set a"
proof (induction s arbitrary: a)
  case (Cons x xs)
  then show ?case by (cases a) auto
qed simp

abbreviation name_ok :: "string \<Rightarrow> bool" where
  "name_ok \<equiv> is_valid_repo_path_component_str"

abbreviation names_ok :: "string list \<Rightarrow> bool" where
  "names_ok ns \<equiv> list_all name_ok ns"

fun join_names :: "string list \<Rightarrow> string" where
  "join_names [] = []"
| "join_names [n] = n"
| "join_names (n # m # ns) = n @ CHR ''/'' # join_names (m # ns)"

definition path_of :: "string list \<Rightarrow> RepoPath" where
  "path_of ns = RepoPath (join_names ns)"

definition path_ok :: "RepoPath \<Rightarrow> bool" where
  "path_ok p \<longleftrightarrow> is_valid_repo_path_str (internal_str p)"

lemma join_names_Cons: "join_names (n # ns) = (if ns = [] then n else n @ CHR ''/'' # join_names ns)"
  by (cases ns) simp_all

lemma join_names_append: "ms \<noteq> [] \<Longrightarrow> ns \<noteq> [] \<Longrightarrow> join_names (ms @ ns) = join_names ms @ CHR ''/'' # join_names ns"
  by (induction ms rule: join_names.induct) (simp_all add: join_names_Cons)

lemma join_names_eq_Nil [simp]: "names_ok ns \<Longrightarrow> join_names ns = [] \<longleftrightarrow> ns = []"
  by (induction ns rule: join_names.induct) (auto simp: is_valid_repo_path_component_str_def)

lemma components_next_join:
  assumes "names_ok (n # ns)"
  shows "components_next (join_names (n # ns)) = Some (n, join_names ns)"
proof (cases ns)
  case Nil
  then show ?thesis using assms
    by (auto simp: components_next_def is_valid_repo_path_component_str_def split_once_None split_once_Some split: option.splits)
next
  case (Cons m ms)
  have "split_once CHR ''/'' (join_names (n # ns)) = Some (n, join_names ns)"
    using assms Cons by (simp add: split_once_Some is_valid_repo_path_component_str_def)
  then show ?thesis using Cons by (simp add: components_next_def)
qed

lemma drain_join [simp]: "names_ok ns \<Longrightarrow> drain_components (join_names ns) = ns"
proof (induction ns)
  case Nil
  then show ?case by (simp add: drain_components.simps components_next_def)
next
  case (Cons n ns)
  then show ?case
    by (subst drain_components.simps) (simp add: components_next_join del: join_names.simps)
qed

lemma contains_after_first:
  "CHR ''/'' \<notin> set a \<Longrightarrow>
     contains_str (a @ CHR ''/'' # b) ''//'' \<longleftrightarrow> starts_with ''/'' b \<or> contains_str b ''//''"
  by (induction a) auto

lemma valid_first:
  "CHR ''/'' \<notin> set a \<Longrightarrow>
     is_valid_repo_path_str (a @ CHR ''/'' # b) \<longleftrightarrow> a \<noteq> [] \<and> b \<noteq> [] \<and> is_valid_repo_path_str b"
  using contains_after_first[of a b]
  by (cases a) (auto simp: is_valid_repo_path_str_def ends_with_char_def simp del: contains_str.simps)

lemma no_slash_no_double: "CHR ''/'' \<notin> set a \<Longrightarrow> \<not> contains_str a ''//''"
  by (auto simp: contains_str_iff)

lemma valid_no_slash: "CHR ''/'' \<notin> set a \<Longrightarrow> is_valid_repo_path_str a"
  by (cases a) (auto simp: is_valid_repo_path_str_def ends_with_char_def no_slash_no_double
      simp del: contains_str.simps dest: last_in_set)

lemma join_valid: "names_ok ns \<Longrightarrow> is_valid_repo_path_str (join_names ns)"
proof (induction ns rule: join_names.induct)
  case (3 n m ns)
  then have "join_names (m # ns) \<noteq> []" using join_names_eq_Nil[of "m # ns"] by simp
  with 3 show ?case by (simp add: valid_first is_valid_repo_path_component_str_def)
qed (simp_all add: valid_no_slash is_valid_repo_path_component_str_def)

lemma drain_valid:
  "is_valid_repo_path_str s \<Longrightarrow> names_ok (drain_components s) \<and> join_names (drain_components s) = s"
proof (induction s rule: drain_components.induct)
  case (1 s)
  consider "s = []" | "s \<noteq> []" "CHR ''/'' \<notin> set s" | a b where "s = a @ CHR ''/'' # b" "CHR ''/'' \<notin> set a"
    using split_list_first[of "CHR ''/''" s] by blast
  then show ?case
  proof cases
    case 1
    then show ?thesis by (simp add: drain_components.simps components_next_def)
  next
    case 2
    then have "drain_components s = [s]"
      using drain_join[of "[s]"] by (simp add: is_valid_repo_path_component_str_def)
    with 2 show ?thesis by (simp add: is_valid_repo_path_component_str_def)
  next
    case (3 a b)
    then have split: "split_once CHR ''/'' s = Some (a, b)" by (simp add: split_once_Some)
    then have next_eq: "components_next s = Some (a, b)" using 3 by (simp add: components_next_def)
    have ok: "a \<noteq> []" "b \<noteq> []" "is_valid_repo_path_str b" using "1.prems" 3 valid_first by auto
    have IH: "names_ok (drain_components b) \<and> join_names (drain_components b) = b"
      using "1.IH"[OF next_eq refl ok(3)] .
    then have "drain_components b \<noteq> []" using ok(2) by auto
    moreover have "drain_components s = a # drain_components b"
      using next_eq by (subst drain_components.simps) simp
    moreover have "name_ok a" using 3 ok(1) by (simp add: is_valid_repo_path_component_str_def)
    ultimately show ?thesis using IH 3 by (simp add: join_names_Cons)
  qed
qed

section \<open>Well-formed paths\<close>

lemma names_ok_sub: "names_ok ns \<Longrightarrow> names_ok (butlast ns)" "names_ok ns \<Longrightarrow> names_ok (take k ns)"
    "names_ok ns \<Longrightarrow> names_ok (drop k ns)"
  by (auto simp: list_all_iff dest: in_set_butlastD in_set_takeD in_set_dropD)

lemma path_ok_of [simp, intro]: "names_ok ns \<Longrightarrow> path_ok (path_of ns)"
  by (simp add: path_ok_def path_of_def join_valid)

lemma components_path_of [simp]: "names_ok ns \<Longrightarrow> components (path_of ns) = ns"
  by (simp add: components_def path_of_def)

lemma names_ok_components [simp, intro]: "path_ok p \<Longrightarrow> names_ok (components p)"
  by (simp add: path_ok_def components_def drain_valid)

lemma path_of_components [simp]: "path_ok p \<Longrightarrow> path_of (components p) = p"
  by (cases p) (simp add: path_ok_def components_def path_of_def drain_valid)

lemma path_cases:
  assumes "path_ok p"
  obtains ns where "p = path_of ns" "names_ok ns"
  using assms names_ok_components path_of_components by metis

lemma components_inject: "path_ok p \<Longrightarrow> path_ok q \<Longrightarrow> components p = components q \<longleftrightarrow> p = q"
  by (metis path_of_components)

lemma path_of_inject [simp]: "names_ok ms \<Longrightarrow> names_ok ns \<Longrightarrow> path_of ms = path_of ns \<longleftrightarrow> ms = ns"
  by (metis components_path_of)

lemma from_internal_string_ok: "from_internal_string s = Inr p \<longleftrightarrow> p = RepoPath s \<and> path_ok p"
  by (auto simp: from_internal_string_def path_ok_def)

lemma root_ok [simp]: "path_ok path_root" and components_root [simp]: "components path_root = []"
  using path_ok_of[of "[]"] components_path_of[of "[]"] by (simp_all add: path_of_def path_root_def)

lemma path_of_Nil [simp]: "path_of [] = path_root"
  by (simp add: path_of_def path_root_def)

lemma internal_path_of: "internal_str (path_of ns) = join_names ns"
  by (simp add: path_of_def)

lemma internal_root: "internal_str path_root = []"
  by (simp add: path_root_def)

lemma is_root_root [simp]: "is_root path_root"
  by (simp add: is_root_def path_root_def)

lemma is_root_of [path_lists]: "names_ok ns \<Longrightarrow> is_root (path_of ns) \<longleftrightarrow> ns = []"
  by (simp add: is_root_def path_of_def)

lemma strip_slash: "str_strip_prefix ''/'' tail = (case tail of c # cs \<Rightarrow> if c = CHR ''/'' then Some cs else None | [] \<Rightarrow> None)"
  by (auto simp: str_strip_prefix_def split: list.splits)

lemma str_strip_prefix_append [simp]: "str_strip_prefix a (a @ b) = Some b"
  by (simp add: str_strip_prefix_def starts_with_iff)

lemma str_strip_prefix_eq_Some: "str_strip_prefix a s = Some t \<longleftrightarrow> s = a @ t"
  by (auto simp: str_strip_prefix_def starts_with_iff)

lemma str_strip_prefix_eq_None: "str_strip_prefix a s = None \<longleftrightarrow> (\<nexists>t. s = a @ t)"
  by (auto simp: str_strip_prefix_def starts_with_iff)

text \<open>Where a join starts with another join up to a separator, the names do.\<close>

definition join_tail :: "string list \<Rightarrow> string" where
  "join_tail ns = (if ns = [] then [] else CHR ''/'' # join_names ns)"

definition at_slash :: "string \<Rightarrow> bool" where
  "at_slash t \<longleftrightarrow> t = [] \<or> hd t = CHR ''/''"

lemma at_slash_simps [simp]: "at_slash []" "at_slash (c # cs) \<longleftrightarrow> c = CHR ''/''" "at_slash (join_tail ns)"
  by (simp_all add: at_slash_def join_tail_def)

lemma join_names_tail: "join_names (n # ns) = n @ join_tail ns"
  by (simp add: join_names_Cons join_tail_def)

lemma first_name_unique:
  assumes "a @ t = b @ u" "CHR ''/'' \<notin> set a" "CHR ''/'' \<notin> set b" "at_slash t" "at_slash u"
  shows "a = b \<and> t = u"
proof -
  have "takeWhile (\<lambda>c. c \<noteq> CHR ''/'') (a @ t) = a" if "CHR ''/'' \<notin> set a" "at_slash t" for a t
    using that by (cases t) (auto simp: takeWhile_append takeWhile_eq_all_conv)
  with assms show ?thesis by (metis append_eq_append_conv)
qed

lemma join_prefix_names:
  assumes "names_ok ms" "names_ok ns" "ms \<noteq> []" "join_names ns = join_names ms @ tail" "at_slash tail"
  shows "\<exists>rest. ns = ms @ rest \<and> tail = join_tail rest"
  using assms
proof (induction ms arbitrary: ns)
  case (Cons m ms)
  then obtain n ns' where ns: "ns = n # ns'"
    by (cases ns) (auto simp: is_valid_repo_path_component_str_def join_names_Cons split: if_splits)
  have "n @ join_tail ns' = m @ (join_tail ms @ tail)"
    using Cons.prems(4) ns by (simp add: join_names_tail del: join_names.simps)
  moreover have "at_slash (join_tail ms @ tail)" using Cons.prems(5) by (simp add: join_tail_def)
  moreover have "CHR ''/'' \<notin> set n" "CHR ''/'' \<notin> set m"
    using Cons.prems(1,2) ns by (simp_all add: is_valid_repo_path_component_str_def)
  ultimately have eq: "n = m" "join_tail ns' = join_tail ms @ tail"
    using first_name_unique[of n "join_tail ns'" m "join_tail ms @ tail"] by simp_all
  show ?case
  proof (cases "ms = []")
    case True
    then show ?thesis using eq ns by (simp add: join_tail_def)
  next
    case False
    then have "ns' \<noteq> []" using eq(2) by (cases ns') (simp_all add: join_tail_def)
    then have "join_names ns' = join_names ms @ tail" using eq(2) False by (simp add: join_tail_def)
    then show ?thesis using Cons.IH[of ns'] Cons.prems False eq(1) ns by simp
  qed
qed simp

lemma strip_prefix_of:
  assumes "names_ok ms" "names_ok ns"
  shows "path_strip_prefix (path_of ns) (path_of ms) =
    (if prefix ms ns then Some (path_of (drop (length ms) ns)) else None)"
proof (cases "ms = []")
  case True
  then show ?thesis by (simp add: path_strip_prefix_def path_root_def)
next
  case False
  then have ne: "join_names ms \<noteq> []" using assms by simp
  show ?thesis
  proof (cases "prefix ms ns")
    case True
    then obtain rest where ns: "ns = ms @ rest" by (auto elim: prefixE)
    have "join_names ns = join_names ms @ join_tail rest"
      using False ns by (cases "rest = []") (simp_all add: join_names_append join_tail_def)
    then show ?thesis using True ns ne
      by (simp add: path_strip_prefix_def path_of_def join_tail_def strip_slash)
  next
    case np: False
    have "path_strip_prefix (path_of ns) (path_of ms) = None"
    proof (rule ccontr)
      assume "path_strip_prefix (path_of ns) (path_of ms) \<noteq> None"
      then obtain tail where "join_names ns = join_names ms @ tail" "at_slash tail"
        using ne by (auto simp: path_strip_prefix_def path_of_def strip_slash str_strip_prefix_eq_Some
            split: bind_splits if_splits list.splits)
      then show False using join_prefix_names[OF assms False] np by (auto simp: prefix_def)
    qed
    then show ?thesis using np by simp
  qed
qed

lemma starts_with_of [path_lists]:
  "names_ok ms \<Longrightarrow> names_ok ns \<Longrightarrow> path_starts_with (path_of ns) (path_of ms) \<longleftrightarrow> prefix ms ns"
  by (simp add: path_starts_with_def strip_prefix_of)

lemma starts_with_components:
  "path_ok p \<Longrightarrow> path_ok q \<Longrightarrow> path_starts_with p q \<longleftrightarrow> prefix (components q) (components p)"
  using starts_with_of[of "components q" "components p"] by simp

lemma rsplit_join:
  assumes "names_ok (ns @ [n])"
  shows "components_next_back (join_names (ns @ [n])) = Some (join_names ns, n)"
proof (cases "ns = []")
  case True
  then show ?thesis using assms
    by (auto simp: components_next_back_def is_valid_repo_path_component_str_def rsplit_once_None rsplit_once_Some
        split: option.splits)
next
  case False
  then have "rsplit_once CHR ''/'' (join_names (ns @ [n])) = Some (join_names ns, n)"
    using assms by (simp add: join_names_append rsplit_once_Some is_valid_repo_path_component_str_def)
  then show ?thesis using False by (simp add: components_next_back_def join_names_append)
qed

lemma split_of [path_lists]:
  "names_ok ns \<Longrightarrow> path_split (path_of ns) = (if ns = [] then None else Some (path_of (butlast ns), last ns))"
proof (cases ns rule: rev_cases)
  case (snoc ms m)
  assume "names_ok ns"
  with snoc show ?thesis by (simp add: path_split_def path_of_def rsplit_join)
qed (simp add: path_split_def path_root_def components_next_back_def)

lemma parent_of [path_lists]:
  "names_ok ns \<Longrightarrow> path_parent (path_of ns) = (if ns = [] then None else Some (path_of (butlast ns)))"
  by (simp add: path_parent_def split_of)

lemma ancestors_of [path_lists]:
  "names_ok ns \<Longrightarrow> path_ancestors (path_of ns) = map (\<lambda>k. path_of (take k ns)) (rev [0..<Suc (length ns)])"
proof (induction ns rule: rev_induct)
  case Nil
  then show ?case by (subst path_ancestors.simps) (simp add: parent_of[of "[]", simplified])
next
  case (snoc n ns)
  then have "path_ancestors (path_of (ns @ [n])) = path_of (ns @ [n]) # path_ancestors (path_of ns)"
    by (subst path_ancestors.simps) (simp add: parent_of)
  with snoc show ?case by (auto simp: rev_map)
qed

lemma join_of [path_lists]: "names_ok ns \<Longrightarrow> path_join (path_of ns) n = path_of (ns @ [n])"
  by (cases "ns = []") (simp_all add: path_join_def path_of_def path_root_def join_names_append)

lemma lcp_zip: "map fst (takeWhile (\<lambda>(a, b). a = b) (zip ms ns)) = longest_common_prefix ms ns"
  by (induction ms ns rule: longest_common_prefix.induct) auto

lemma joined_length_acc:
  "names_ok ns \<Longrightarrow> n > 0 \<Longrightarrow>
     foldl (\<lambda>n name. (if n > 0 then n + 1 else n) + length name) n ns = n + length (join_tail ns)"
  by (induction ns arbitrary: n) (simp_all add: join_tail_def join_names_Cons)

lemma joined_length:
  "names_ok ns \<Longrightarrow> foldl (\<lambda>n name. (if n > 0 then n + 1 else n) + length name) 0 ns = length (join_names ns)"
  by (cases ns) (simp_all add: joined_length_acc join_names_tail is_valid_repo_path_component_str_def del: join_names.simps)

lemma common_prefix_len_join:
  assumes "names_ok ms"
  shows "common_prefix_len (zip ms ns) = length (join_names (longest_common_prefix ms ns))"
proof -
  have "foldl (\<lambda>n (c, _). (if n > 0 then n + 1 else n) + length c) n ps =
      foldl (\<lambda>n c. (if n > 0 then n + 1 else n) + length c) n (map fst ps)" for n :: nat and ps :: "(string \<times> string) list"
    by (induction ps arbitrary: n) auto
  moreover have "names_ok (longest_common_prefix ms ns)"
    using assms longest_common_prefix_prefix1[of ms ns] by (metis list_all_append prefixE)
  ultimately show ?thesis by (simp add: common_prefix_len_def lcp_zip joined_length)
qed

lemma split_common_prefix_of:
  assumes "names_ok ms" "names_ok ns"
  shows "split_common_prefix (path_of ms) (path_of ns) =
    (let ps = longest_common_prefix ms ns in Returns (path_of ps, path_of (drop (length ps) ms)))"
proof -
  define ps where "ps = longest_common_prefix ms ns"
  obtain rest where ms: "ms = ps @ rest"
    using longest_common_prefix_prefix1[of ms ns] by (auto simp: prefix_def ps_def)
  have len: "common_prefix_len (zip ms ns) = length (join_names ps)"
    using common_prefix_len_join[OF assms(1)] by (simp add: ps_def)
  have ok: "names_ok ps" "names_ok rest" using assms(1) ms by auto
  consider "ps = []" | "ps \<noteq> []" "rest = []" | "ps \<noteq> []" "rest \<noteq> []" by blast
  then have "split_common_prefix (path_of ms) (path_of ns) = Returns (path_of ps, path_of rest)"
  proof cases
    case 3
    then have "internal_str (path_of ms) = join_names ps @ CHR ''/'' # join_names rest"
      using ms by (simp add: join_names_append path_of_def)
    then show ?thesis using 3 ok len assms by (simp add: split_common_prefix_def path_of_def[of ps] path_of_def[of rest])
  next
    case 1
    then show ?thesis using ok len assms ms by (simp add: split_common_prefix_def)
  next
    case 2
    then show ?thesis using ok len assms ms by (simp add: split_common_prefix_def) (simp add: path_of_def)
  qed
  moreover have "drop (length ps) ms = rest" using ms by simp
  ultimately show ?thesis by (simp add: Let_def flip: ps_def)
qed

section \<open>Paths of the file system\<close>

lemma split_slash_join: "names_ok ns \<Longrightarrow> ns \<noteq> [] \<Longrightarrow> split_slash (join_names ns) = ns"
proof (induction ns rule: join_names.induct)
  case (2 n)
  then show ?case by (subst split_slash.simps)
      (auto simp: is_valid_repo_path_component_str_def split_once_Some split: option.splits)
next
  case (3 n m ns)
  have "split_once CHR ''/'' (join_names (n # m # ns)) = Some (n, join_names (m # ns))"
    using 3(2) by (simp add: split_once_Some is_valid_repo_path_component_str_def)
  with 3 show ?case by (subst split_slash.simps) simp
qed simp

lemma split_slash_parts: "list_all (\<lambda>part. CHR ''/'' \<notin> set part) (split_slash s)"
proof (induction s rule: split_slash.induct)
  case (1 s)
  then show ?case
    by (subst split_slash.simps) (auto simp: split_once_None split_once_Some split: option.splits)
qed

lemma split_slash_ne [simp]: "split_slash s \<noteq> []"
  by (subst split_slash.simps) (auto split: option.splits)

definition fs_ok :: "string \<Rightarrow> bool" where
  "fs_ok name \<longleftrightarrow> name \<noteq> ''.'' \<and> name \<noteq> ''..''"

lemma join_start: "names_ok (n # ns) \<Longrightarrow> \<not> starts_with ''/'' (join_names (n # ns))"
  using join_valid[of "n # ns"] by (simp add: is_valid_repo_path_str_def)

lemma join_end: "names_ok ns \<Longrightarrow> \<not> ends_with_char CHR ''/'' (join_names ns)"
  using join_valid[of ns] by (simp add: is_valid_repo_path_str_def)

lemma fs_components_join:
  assumes "names_ok ns" "list_all fs_ok ns" "ns \<noteq> []"
  shows "fs_components (join_names ns) = map Normal ns"
proof -
  obtain n ms where ns: "ns = n # ms" using assms(3) by (cases ns) auto
  have "map fs_part ns = map (Some \<circ> Normal) ns"
    using assms by (auto simp: fs_part_def fs_ok_def list_all_iff is_valid_repo_path_component_str_def)
  then have "List.map_filter fs_part ns = map Normal ns"
    by (induction ns) (auto simp: List.map_filter_simps)
  moreover have "n \<noteq> ''.''" using assms(2) ns by (simp add: fs_ok_def)
  ultimately show ?thesis using split_slash_join[OF assms(1,3)] join_start assms(1) ns
    by (simp add: fs_components_def)
qed

lemma to_fs_name_eq: "name_ok c \<Longrightarrow> to_fs_name c = (if fs_ok c then Inr c else Inl (InvalidComponentError c))"
proof -
  assume ok: "name_ok c"
  show ?thesis
  proof (cases "fs_ok c")
    case True
    then show ?thesis using fs_components_join[of "[c]"] ok by (simp add: to_fs_name_def)
  next
    case False
    then consider "c = ''.''" | "c = ''..''" by (auto simp: fs_ok_def)
    then show ?thesis
    proof cases
      case 1
      then show ?thesis using split_slash_join[of "[c]"] ok
        by (simp add: to_fs_name_def fs_components_def fs_part_def fs_ok_def List.map_filter_simps)
    next
      case 2
      then show ?thesis using split_slash_join[of "[c]"] ok
        by (simp add: to_fs_name_def fs_components_def fs_part_def fs_ok_def List.map_filter_simps)
    qed
  qed
qed

lemma push_fs_names_eq:
  "names_ok ns \<Longrightarrow> push_fs_names p buf ns =
     (case find (\<lambda>c. \<not> fs_ok c) ns of
        Some c \<Rightarrow> Inl (InvalidRepoPath p (InvalidComponentError c)) | None \<Rightarrow> Inr (foldl fs_push buf ns))"
  by (induction ns arbitrary: buf) (simp_all add: to_fs_name_eq split: option.splits)

lemma fs_push_join:
  assumes "names_ok (ms @ ns)"
  shows "foldl fs_push (join_names ms) ns = join_names (ms @ ns)"
  using assms
proof (induction ns arbitrary: ms)
  case (Cons n ns)
  have "\<not> starts_with ''/'' n" using Cons.prems by (cases n) (auto simp: is_valid_repo_path_component_str_def)
  then have "fs_push (join_names ms) n = join_names (ms @ [n])"
    using Cons.prems join_end[of ms] by (cases "ms = []") (auto simp: fs_push_def join_names_append)
  then show ?case using Cons.IH[of "ms @ [n]"] Cons.prems by simp
qed simp

lemma to_fs_path_eq:
  assumes "names_ok ns"
  shows "to_fs_path (path_of ns) [] =
    (case find (\<lambda>c. \<not> fs_ok c) ns of
       Some c \<Rightarrow> Inl (InvalidRepoPath (path_of ns) (InvalidComponentError c))
     | None \<Rightarrow> Inr (if ns = [] then ''.'' else join_names ns))"
  using assms fs_push_join[of "[]" ns]
  by (simp add: to_fs_path_def push_fs_names_eq fs_push_def ends_with_char_def split: option.splits)

lemma push_relative_Normal:
  "list_all utf8_valid ns \<Longrightarrow> push_relative path s (map Normal ns) = Inr (s @ join_tail ns)"
  by (induction ns arbitrary: s) (simp_all add: relative_name_def join_tail_def join_names_Cons)

lemma push_relative_Inr:
  "push_relative path s cs = Inr t \<Longrightarrow> \<exists>ns. cs = map Normal ns \<and> t = s @ join_tail ns"
proof (induction cs arbitrary: s)
  case (Cons c cs)
  then obtain name where c: "c = Normal name" "push_relative path (s @ ''/'' @ name) cs = Inr t"
    by (auto simp: res_bind_eq_Inr relative_name_def split: fs_component.splits if_splits)
  from Cons.IH[OF c(2)] obtain ns where "cs = map Normal ns" "t = (s @ ''/'' @ name) @ join_tail ns" by blast
  then have "c # cs = map Normal (name # ns) \<and> t = s @ join_tail (name # ns)"
    using c(1) by (simp add: join_tail_def join_names_Cons)
  then show ?case by (rule exI)
qed (simp add: join_tail_def)

lemma fs_components_Normal: "Normal n \<in> set (fs_components s) \<Longrightarrow> name_ok n"
  using split_slash_parts[of s]
  by (auto simp: fs_components_def List.map_filter_def fs_part_def list_all_iff is_valid_repo_path_component_str_def
      split: if_splits)

lemma from_relative_path_ok: "from_relative_path s = Inr p \<Longrightarrow> path_ok p"
proof -
  assume r: "from_relative_path s = Inr p"
  show "path_ok p"
  proof (cases "fs_components s")
    case Nil
    then show ?thesis using r by (auto simp: from_relative_path_def path_root_def[symmetric] split: if_splits)
  next
    case (Cons c cs)
    show ?thesis
    proof (cases "fs_components s = fs_components ''.''")
      case True
      then show ?thesis using r by (simp add: from_relative_path_def)
    next
      case False
      then obtain name t where c: "relative_name s c = Inr name" "push_relative s name cs = Inr t" "p = RepoPath t"
        using r Cons by (auto simp: from_relative_path_def res_bind_eq_Inr)
      then obtain ns where ns: "c = Normal name" "cs = map Normal ns" "t = name @ join_tail ns"
        using push_relative_Inr[OF c(2)] by (auto simp: relative_name_def split: fs_component.splits if_splits)
      have "Normal n \<in> set (fs_components s)" if "n \<in> set (name # ns)" for n using that Cons ns by auto
      then have "names_ok (name # ns)" using fs_components_Normal unfolding list_all_iff by blast
      then show ?thesis using path_ok_of[of "name # ns"] c(3) ns(3)
        by (simp add: path_of_def join_names_tail del: join_names.simps)
    qed
  qed
qed

section \<open>Trees\<close>

text \<open>A tree is the partial map \<open>node_value_at\<close> from lists of names; walking to a path visits its prefixes.\<close>

definition node_value_at :: "'v path_tree \<Rightarrow> string list \<Rightarrow> 'v option" where
  "node_value_at t ns = map_option tree_value (tree_get_names t ns)"

lemma child_simps [simp]: "child (PathTree es v) n = map_of es n" "child (tree_default d) n = None"
    "child (set_tree_value w t) n = child t n"
  by (simp_all add: child_def tree_default_def set_tree_value_def)

lemma tree_value_simps [simp]: "tree_value (tree_default d) = d" "tree_value (set_tree_value w t) = w"
  by (simp_all add: tree_default_def set_tree_value_def)

lemma tree_get_names_append:
  "tree_get_names t (ms @ ns) = Option.bind (tree_get_names t ms) (\<lambda>s. tree_get_names s ns)"
  by (induction ms arbitrary: t) simp_all

lemma node_value_at_default: "node_value_at (tree_default d) ns = (if ns = [] then Some d else None)"
  by (cases ns) (simp_all add: node_value_at_def)

lemma node_value_at_Cons: "node_value_at t (n # ns) = Option.bind (child t n) (\<lambda>s. node_value_at s ns)"
  by (cases "child t n") (simp_all add: node_value_at_def)

lemma node_value_at_Nil: "node_value_at t [] = Some (tree_value t)"
  by (simp add: node_value_at_def)

lemma node_value_at_sub: "tree_get_names t ms = Some s \<Longrightarrow> node_value_at s ns = node_value_at t (ms @ ns)"
  by (simp add: node_value_at_def tree_get_names_append)

lemma node_value_at_add:
  "node_value_at (tree_add_names d (set_tree_value v) ms t) ns =
     (if ns = ms then Some v
      else if prefix ns ms then Some (case node_value_at t ns of Some w \<Rightarrow> w | None \<Rightarrow> d)
      else node_value_at t ns)"
proof (induction ms arbitrary: t ns)
  case Nil
  then show ?case by (cases ns) (simp_all add: node_value_at_Nil node_value_at_Cons)
next
  case (Cons m ms)
  show ?case
  proof (cases ns)
    case Nil
    then show ?thesis by (simp add: node_value_at_Nil Let_def)
  next
    case ns: (Cons n ns')
    show ?thesis
      by (cases "child t m")
        (auto simp: ns node_value_at_Cons Let_def Cons.IH update_conv' node_value_at_default child_def split: option.splits)
  qed
qed

lemma has_children_iff: "has_children t \<longleftrightarrow> (\<exists>n. child t n \<noteq> None)"
proof (cases t)
  case (PathTree es v)
  show ?thesis by (cases es) (auto simp: PathTree has_children_def intro!: exI[of _ "fst (hd es)"])
qed

lemma child_value_at: "child t n \<noteq> None \<longleftrightarrow> node_value_at t [n] \<noteq> None"
  by (simp add: node_value_at_Cons node_value_at_Nil split: bind_splits)

lemma walk_to_Nil: "walk_to t path_root = [(t, path_root)]"
  by (subst walk_to.simps) (simp add: path_root_def components_next_def)

lemma walk_to_Cons:
  "names_ok (n # ns) \<Longrightarrow> walk_to t (path_of (n # ns)) =
     (t, path_of (n # ns)) # (case child t n of None \<Rightarrow> [] | Some s \<Rightarrow> walk_to s (path_of ns))"
  using components_next_join[of n ns]
  by (subst walk_to.simps) (simp add: path_of_def del: join_names.simps split: option.splits)

lemma walk_to_of:
  fixes t :: "'a path_tree"
  assumes "names_ok ns"
  shows "set (walk_to t (path_of ns)) =
    {(s, path_of (drop k ns)) | s k. k \<le> length ns \<and> tree_get_names t (take k ns) = Some s}"
  using assms
proof (induction ns arbitrary: t)
  case Nil
  show ?case by (auto simp: walk_to_Nil)
next
  case (Cons n ns)
  note eq = walk_to_Cons[OF Cons.prems]
  have IH: "set (walk_to s (path_of ns)) =
      {(s', path_of (drop k ns)) | s' k. k \<le> length ns \<and> tree_get_names s (take k ns) = Some s'}" for s :: "'a path_tree"
    using Cons.IH[of s] Cons.prems by simp
  show ?case
  proof (intro set_eqI iffI)
    fix x assume "x \<in> set (walk_to t (path_of (n # ns)))"
    then consider "x = (t, path_of (n # ns))" | s s' k where "child t n = Some s" "x = (s', path_of (drop k ns))"
        "k \<le> length ns" "tree_get_names s (take k ns) = Some s'"
      by (cases "child t n") (auto simp: eq IH)
    then show "x \<in> {(s, path_of (drop k (n # ns))) | s k. k \<le> length (n # ns) \<and> tree_get_names t (take k (n # ns)) = Some s}"
    proof cases
      case 1
      then show ?thesis by (auto intro!: exI[of _ "0 :: nat"])
    next
      case 2
      then show ?thesis by (auto intro!: exI[of _ "Suc k"])
    qed
  next
    fix x assume "x \<in> {(s, path_of (drop k (n # ns))) | s k. k \<le> length (n # ns) \<and> tree_get_names t (take k (n # ns)) = Some s}"
    then obtain s k where x: "x = (s, path_of (drop k (n # ns)))" "k \<le> length (n # ns)"
        "tree_get_names t (take k (n # ns)) = Some s" by blast
    show "x \<in> set (walk_to t (path_of (n # ns)))"
    proof (cases k)
      case 0
      then show ?thesis using x by (simp add: eq)
    next
      case (Suc j)
      then show ?thesis using x by (auto simp: eq IH split: option.splits bind_splits)
    qed
  qed
qed

section \<open>Properties\<close>

lemma strip_prefix_iff:
  assumes "path_ok p" "path_ok base"
  shows "path_strip_prefix p base = Some rest \<longleftrightarrow> path_ok rest \<and> components p = components base @ components rest"
proof -
  from assms obtain ns ms where [simp]: "p = path_of ns" "base = path_of ms" and ok: "names_ok ns" "names_ok ms"
    by (metis path_cases)
  show ?thesis
  proof
    assume "path_strip_prefix p base = Some rest"
    then have "prefix ms ns" "rest = path_of (drop (length ms) ns)"
      using ok by (auto simp: strip_prefix_of split: if_splits)
    then show "path_ok rest \<and> components p = components base @ components rest"
      using ok by (auto simp: prefix_def)
  next
    assume r: "path_ok rest \<and> components p = components base @ components rest"
    then have "ns = ms @ components rest" using ok by simp
    then show "path_strip_prefix p base = Some rest" using ok r by (simp add: strip_prefix_of)
  qed
qed

text \<open>
  (C40) Every path that the operations produce is well formed: what \<open>from_internal_string\<close> accepts and
  what is parsed from a path of the file system always is, and stripping a prefix, taking the parent
  or an ancestor, joining a component and splitting off a common prefix keep well-formed paths well
  formed; splitting never reaches beyond the string.
\<close>

theorem path_operations_typed:
  "(from_internal_string s = Inr q \<longrightarrow> path_ok q) \<and> (from_relative_path s = Inr q \<longrightarrow> path_ok q) \<and>
   (path_ok p \<and> path_ok b \<longrightarrow>
      (path_strip_prefix p b = Some q \<longrightarrow> path_ok q) \<and> (path_parent p = Some q \<longrightarrow> path_ok q) \<and>
      list_all path_ok (path_ancestors p) \<and> (component_new name = Inr name \<longrightarrow> path_ok (path_join p name)) \<and>
      (\<exists>c r. split_common_prefix p b = Returns (c, r) \<and> path_ok c \<and> path_ok r))"
proof (intro conjI impI)
  show "path_ok q" if "from_internal_string s = Inr q" using that unfolding from_internal_string_ok by blast
  show "path_ok q" if "from_relative_path s = Inr q" by (rule from_relative_path_ok[OF that])
  assume "path_ok p \<and> path_ok b"
  then obtain ns ms where [simp]: "p = path_of ns" "b = path_of ms" and ok: "names_ok ns" "names_ok ms"
    by (metis path_cases)
  show "path_ok q" if "path_strip_prefix p b = Some q" using that strip_prefix_iff ok by auto
  show "path_ok q" if "path_parent p = Some q"
    using that ok by (auto simp: parent_of names_ok_sub split: if_splits)
  show "list_all path_ok (path_ancestors p)"
    using ok by (simp add: ancestors_of list.pred_map o_def names_ok_sub list.pred_True del: upt_Suc)
  show "path_ok (path_join p name)" if "component_new name = Inr name"
    using that ok by (simp add: join_of component_new_def split: if_splits)
  have "names_ok (longest_common_prefix ns ms)"
    using ok longest_common_prefix_prefix1[of ns ms] by (metis list_all_append prefixE)
  then show "\<exists>c r. split_common_prefix p b = Returns (c, r) \<and> path_ok c \<and> path_ok r"
    using split_common_prefix_of[OF ok] ok by (simp add: Let_def names_ok_sub)
qed

theorem path_operations_typed_witness:
  "path_ok (RepoPath ''a/b'') \<and>
   (\<exists>c r. split_common_prefix (RepoPath ''a/b'') (RepoPath ''a/b'') = Returns (c, r) \<and> path_ok c \<and> path_ok r)"
proof -
  have "path_ok (RepoPath ''a/b'')" by (simp add: path_ok_def is_valid_repo_path_str_def ends_with_char_def)
  with path_operations_typed[of "[]" path_root "RepoPath ''a/b''" "RepoPath ''a/b''" "''c''"] show ?thesis by simp
qed

text \<open>
  Prefixes of paths are prefixes of their components, not of their strings: stripping \<open>base\<close>
  succeeds exactly if the components of the path start with those of \<open>base\<close>, and returns the path of
  the remaining components; the common part of two paths is that of their components.
\<close>

theorem path_prefixes_by_component:
  assumes "path_ok p" "path_ok base"
  shows "path_strip_prefix p base =
      (if prefix (components base) (components p)
       then Some (path_of (drop (length (components base)) (components p))) else None) \<and>
    (path_starts_with p base \<longleftrightarrow> prefix (components base) (components p)) \<and>
    (let ps = longest_common_prefix (components p) (components base)
     in split_common_prefix p base = Returns (path_of ps, path_of (drop (length ps) (components p))))"
  using assms strip_prefix_of[of "components base" "components p"] starts_with_of[of "components base" "components p"]
    split_common_prefix_of[of "components p" "components base"]
  by (simp add: Let_def)

theorem path_prefixes_by_component_witness:
  "\<not> path_starts_with (RepoPath ''ab'') (RepoPath ''a'')"
proof -
  have ok: "path_ok (RepoPath ''ab'')" "path_ok (RepoPath ''a'')"
    by (simp_all add: path_ok_def is_valid_repo_path_str_def ends_with_char_def)
  moreover have "\<not> prefix (components (RepoPath ''a'')) (components (RepoPath ''ab''))"
    by (simp add: components_def drain_components.simps components_next_def)
  ultimately show ?thesis using path_prefixes_by_component[OF ok] by simp
qed

text \<open>
  A path goes to the file system and back: if every component is a plain name, the path of the
  file system parses back to the same path; otherwise the conversion fails with the first component
  that is \<open>.\<close> or \<open>..\<close>, so a converted path never leaves its base directory.
\<close>

theorem relative_path_roundtrip:
  assumes "path_ok p" "list_all utf8_valid (components p)"
  shows "case find (\<lambda>c. c = ''.'' \<or> c = ''..'') (components p) of
      Some c \<Rightarrow> to_fs_path p [] = Inl (InvalidRepoPath p (InvalidComponentError c))
    | None \<Rightarrow> \<exists>s. to_fs_path p [] = Inr s \<and> from_relative_path s = Inr p"
proof -
  from assms(1) obtain ns where p [simp]: "p = path_of ns" and ok: "names_ok ns" by (rule path_cases)
  have find_eq: "find (\<lambda>c. c = ''.'' \<or> c = ''..'') ns = find (\<lambda>c. \<not> fs_ok c) ns"
    by (simp add: fs_ok_def)
  show ?thesis
  proof (cases "find (\<lambda>c. \<not> fs_ok c) ns")
    case None
    then have fs: "list_all fs_ok ns" by (auto simp: find_None_iff list_all_iff)
    have "from_relative_path (if ns = [] then ''.'' else join_names ns) = Inr (path_of ns)"
    proof (cases ns)
      case (Cons n ms)
      then have "fs_components (join_names ns) = map Normal ns" using ok fs fs_components_join by auto
      moreover have "fs_components ''.'' = [CurDir]"
        by (simp add: fs_components_def split_slash.simps fs_part_def List.map_filter_simps)
      moreover have "list_all utf8_valid ns" using assms(2) ok by simp
      ultimately show ?thesis using Cons
        by (simp add: from_relative_path_def relative_name_def push_relative_Normal path_of_def join_names_tail
            del: join_names.simps)
    qed (simp add: from_relative_path_def)
    then show ?thesis using None ok find_eq by (simp add: to_fs_path_eq)
  qed (use ok find_eq in \<open>simp add: to_fs_path_eq\<close>)
qed

theorem relative_path_roundtrip_witness:
  "\<exists>s. to_fs_path (RepoPath ''a/b'') [] = Inr s \<and> from_relative_path s = Inr (RepoPath ''a/b'')"
proof -
  have ok: "path_ok (RepoPath ''a/b'')" by (simp add: path_ok_def is_valid_repo_path_str_def ends_with_char_def)
  have c: "components (RepoPath ''a/b'') = [''a'', ''b'']"
    by (simp add: components_def drain_components.simps components_next_def)
  have "list_all utf8_valid (components (RepoPath ''a/b''))" unfolding c by (simp add: utf8_valid.simps)
  from relative_path_roundtrip[OF ok this] show ?thesis unfolding c by simp
qed

end
