(* ===== verification/Matcher_Laws.thy ===== *)
theory Matcher_Laws
  imports Matchers Repo_Path_Laws
begin

text \<open>
  Laws of matchers. The contract between the two methods of the trait is \<open>visit_ok\<close>: what \<open>visit\<close>
  says of a directory holds of every path below it. It is kept by every way of combining matchers,
  and the matchers built from paths and globs select exactly what they were built from.
\<close>

section \<open>The contract of a visit\<close>

definition in_dirs :: "visit_dirs \<Rightarrow> string \<Rightarrow> bool" where
  "in_dirs ds n = (case ds of AllDirs \<Rightarrow> True | DirSet S \<Rightarrow> n \<in> S)"

definition in_files :: "visit_files \<Rightarrow> string \<Rightarrow> bool" where
  "in_files fs n = (case fs of AllFiles \<Rightarrow> True | FileSet S \<Rightarrow> n \<in> S)"

lemma in_simps [simp]:
  "in_dirs AllDirs n" "in_dirs (DirSet S) n \<longleftrightarrow> n \<in> S" "in_files AllFiles n" "in_files (FileSet S) n \<longleftrightarrow> n \<in> S"
  by (simp_all add: in_dirs_def in_files_def)

text \<open>What a visit of a directory says of an entry \<open>n # rest\<close> below it that matches, or not.\<close>

definition visit_allows :: "visit \<Rightarrow> string \<Rightarrow> string list \<Rightarrow> bool \<Rightarrow> bool" where
  "visit_allows v n rest hit =
     (case v of
        AllRecursively \<Rightarrow> hit
      | NothingToVisit \<Rightarrow> \<not> hit
      | Specific ds fs \<Rightarrow> hit \<longrightarrow> (if rest = [] then in_files fs n else in_dirs ds n))"

definition visit_ok :: "visit \<Rightarrow> (string list \<Rightarrow> bool) \<Rightarrow> bool" where
  "visit_ok v P \<longleftrightarrow> (\<forall>n rest. names_ok (n # rest) \<longrightarrow> visit_allows v n rest (P (n # rest)))"

lemma visit_allows_simps [simp]:
  "visit_allows AllRecursively n rest hit \<longleftrightarrow> hit"
  "visit_allows NothingToVisit n rest hit \<longleftrightarrow> \<not> hit"
  "visit_allows (Specific ds fs) n rest hit \<longleftrightarrow> (hit \<longrightarrow> (if rest = [] then in_files fs n else in_dirs ds n))"
  "visit_allows visit_SOME n rest hit"
  by (simp_all add: visit_allows_def visit_SOME_def)

lemma visit_SOME_neq [simp]: "visit_SOME \<noteq> NothingToVisit" "visit_SOME \<noteq> AllRecursively"
  by (simp_all add: visit_SOME_def)

lemma visit_ok_SOME [simp]: "visit_ok visit_SOME P"
  by (simp add: visit_ok_def)

lemma visit_allows_sets:
  "visit_allows (visit_sets dirs files) n rest hit \<longleftrightarrow> (hit \<longrightarrow> (if rest = [] then n \<in> files else n \<in> dirs))"
  by (auto simp: visit_sets_def)

lemma in_union_dirs [simp]: "in_dirs (union_dirs a b) n \<longleftrightarrow> in_dirs a n \<or> in_dirs b n"
  by (cases a; cases b) simp_all

lemma in_union_files [simp]: "in_files (union_files a b) n \<longleftrightarrow> in_files a n \<or> in_files b n"
  by (cases a; cases b) simp_all

lemma in_intersect_dirs [simp]: "in_dirs (intersect_dirs a b) n \<longleftrightarrow> in_dirs a n \<and> in_dirs b n"
  by (cases a; cases b) simp_all

lemma in_intersect_files [simp]: "in_files (intersect_files a b) n \<longleftrightarrow> in_files a n \<and> in_files b n"
  by (cases a; cases b) simp_all

lemma union_allows:
  "visit_allows v n rest a \<Longrightarrow> visit_allows w n rest b \<Longrightarrow> visit_allows (union_visit v w) n rest (a \<or> b)"
  by (cases v; cases w) (auto simp: union_visit_def)

lemma difference_allows:
  "visit_allows v n rest a \<Longrightarrow> visit_allows w n rest b \<Longrightarrow> visit_allows (difference_visit v w) n rest (a \<and> \<not> b)"
  by (cases v; cases w) (auto simp: difference_visit_def)

lemma intersect_allows:
  assumes "visit_allows v n rest a" "visit_allows w n rest b"
  shows "visit_allows (intersect_visit v w) n rest (a \<and> b)"
proof (cases v)
  case v: (Specific d1 f1)
  show ?thesis
  proof (cases w)
    case w: (Specific d2 f2)
    define d f where "d = intersect_dirs d1 d2" and "f = intersect_files f1 f2"
    have "a \<and> b \<longrightarrow> (if rest = [] then in_files f n else in_dirs d n)"
      using assms v w by (auto simp: d_def f_def)
    then show ?thesis using v w
      by (cases d; cases f) (auto simp: intersect_visit_def Let_def simp flip: d_def f_def)
  qed (use assms v in \<open>auto simp: intersect_visit_def\<close>)
qed (use assms in \<open>auto simp: intersect_visit_def\<close>)

definition cov_allows :: "coverage \<Rightarrow> bool \<Rightarrow> bool" where
  "cov_allows c hit = (case c of CovAll \<Rightarrow> hit | CovNone \<Rightarrow> \<not> hit | CovSome \<Rightarrow> True)"

lemma cov_allows_simps [simp]:
  "cov_allows CovAll hit \<longleftrightarrow> hit" "cov_allows CovNone hit \<longleftrightarrow> \<not> hit" "cov_allows CovSome hit"
  by (simp_all add: cov_allows_def)

lemma cov_union_allows: "cov_allows c a \<Longrightarrow> cov_allows d b \<Longrightarrow> cov_allows (cov_union c d) (a \<or> b)"
  by (cases c; cases d) simp_all

lemma cov_intersect_allows: "cov_allows c a \<Longrightarrow> cov_allows d b \<Longrightarrow> cov_allows (cov_intersect c d) (a \<and> b)"
  by (cases c; cases d) simp_all

lemma cov_not_allows: "cov_allows c a \<Longrightarrow> cov_allows (cov_not c) (\<not> a)"
  by (cases c) simp_all

lemmas cov_ops_allow = cov_union_allows cov_intersect_allows cov_not_allows

lemma last_hit_snoc [simp]: "last_hit (hits @ [(include, hit)]) = (if hit then include else last_hit hits)"
  by (simp add: last_hit_def)

lemma last_hit_Nil [simp]: "last_hit [] = False"
  by (simp add: last_hit_def)

lemma rule_state_allows:
  "cov_allows state a \<Longrightarrow> cov_allows matched hit \<Longrightarrow>
     cov_allows (rule_state include state matched) (if hit then include else a)"
  using cov_ops_allow(1)[of state a matched hit] cov_ops_allow(2)[of state a "cov_not matched" "\<not> hit"]
    cov_ops_allow(3)[of matched hit]
  by (cases "include"; cases hit) (auto simp: rule_state_def)

lemma rules_state_allows:
  "\<forall>r \<in> set rules. cov_allows (cov r) (hit r) \<Longrightarrow>
     cov_allows (foldl (\<lambda>state r. rule_state (inc r) state (cov r)) CovNone rules) (last_hit (map (\<lambda>r. (inc r, hit r)) rules))"
  by (induction rules rule: rev_induct) (simp_all add: rule_state_allows)

lemma visit_coverage_allows: "visit_allows v n rest hit \<Longrightarrow> cov_allows (visit_coverage v) hit"
  by (cases v) (auto simp: visit_coverage_def)

lemma coverage_visit_allows: "cov_allows c hit \<Longrightarrow> visit_allows (coverage_visit c) n rest hit"
  by (cases c) (simp_all add: coverage_visit_def)

section \<open>Files and prefixes\<close>

lemma child_names_iff: "n \<in> child_names P t \<longleftrightarrow> (\<exists>s. child t n = Some s \<and> P s)"
  by (auto simp: child_names_def child_def map_of_eq_None_iff split: option.splits intro!: image_eqI dest: map_of_SomeD)

lemma files_matches_of: "names_ok ns \<Longrightarrow> files_matches t (path_of ns) \<longleftrightarrow> node_value_at t ns = Some FFile"
  by (auto simp: files_matches_def tree_get_def node_value_at_def split: option.splits)

lemma files_visit_ok:
  assumes "names_ok ds"
  shows "visit_ok (files_visit t (path_of ds)) (\<lambda>rest. node_value_at t (ds @ rest) = Some FFile)"
proof (cases "tree_get_names t ds")
  case None
  then show ?thesis using assms
    by (simp add: files_visit_def tree_get_def visit_ok_def node_value_at_def tree_get_names_append)
next
  case (Some s)
  have "child s n = Some c \<Longrightarrow> node_value_at s (n # m # rest) = Some v \<Longrightarrow> has_children c" for n m rest c v
    by (auto simp: node_value_at_Cons has_children_iff split: bind_splits)
  then show ?thesis using assms Some
    by (auto simp: files_visit_def tree_get_def visit_ok_def files_tree_to_visit_sets_def visit_allows_sets
        child_names_iff node_value_at_Cons node_value_at_Nil neq_Nil_conv simp flip: node_value_at_sub[OF Some] split: bind_splits)
qed

text \<open>A prefix on the way to a node.\<close>

fun on_prefix :: "prefix_node_kind path_tree \<Rightarrow> string list \<Rightarrow> bool" where
  "on_prefix t [] \<longleftrightarrow> tree_value t = PPrefix"
| "on_prefix t (n # ns) \<longleftrightarrow> tree_value t = PPrefix \<or> (case child t n of None \<Rightarrow> False | Some s \<Rightarrow> on_prefix s ns)"

lemma prefix_matches_of: "names_ok ns \<Longrightarrow> prefix_path_matches t (path_of ns) \<longleftrightarrow> on_prefix t ns"
proof (induction ns arbitrary: t)
  case Nil
  then show ?case by (simp add: prefix_path_matches_def walk_to_Nil)
next
  case (Cons n ns)
  then show ?case by (auto simp: prefix_path_matches_def walk_to_Cons split: option.splits)
qed

lemma on_prefix_iff: "on_prefix t ns \<longleftrightarrow> (\<exists>k \<le> length ns. node_value_at t (take k ns) = Some PPrefix)"
proof (induction ns arbitrary: t)
  case (Cons n ns)
  have "(\<exists>k \<le> length (n # ns). node_value_at t (take k (n # ns)) = Some PPrefix) \<longleftrightarrow>
      node_value_at t [] = Some PPrefix \<or> (\<exists>k \<le> length ns. node_value_at t (n # take k ns) = Some PPrefix)"
    by (metis (no_types, lifting) Suc_le_mono bot_nat_0.extremum length_Cons not0_implies_Suc take0 take_Suc_Cons)
  then show ?case using Cons by (auto simp: node_value_at_Nil node_value_at_Cons split: option.splits)
qed (simp add: node_value_at_Nil)

lemma prefix_visit_ok:
  "names_ok ds \<Longrightarrow> visit_ok (prefix_visit t (path_of ds)) (\<lambda>rest. on_prefix t (ds @ rest))"
proof (induction ds arbitrary: t)
  case Nil
  have "visit_allows (prefix_visit t path_root) n rest (on_prefix t (n # rest))" for n rest
    by (cases rest) (auto simp: prefix_visit_def walk_to_Nil prefix_tree_to_visit_sets_def
        visit_allows_sets child_names_iff split: option.splits)
  then show ?case by (simp add: visit_ok_def)
next
  case (Cons d ds)
  show ?case
  proof (cases "tree_value t = PPrefix")
    case False
    have "\<not> is_root (path_of (d # ds))" using Cons.prems is_root_of[of "d # ds"] by simp
    then show ?thesis using Cons False
      by (auto simp: prefix_visit_def walk_to_Cons visit_ok_def split: option.splits)
  next
    case True
    then show ?thesis using Cons.prems by (simp add: prefix_visit_def walk_to_Cons visit_ok_def)
  qed
qed

lemma node_value_at_paths:
  "node_value_at (foldl (\<lambda>t p. tree_add d (set_tree_value v) p t) (tree_default d) ps) ns =
     (if ns \<in> components ` set ps then Some v
      else if ns = [] \<or> (\<exists>p \<in> set ps. prefix ns (components p)) then Some d else None)"
proof (induction ps rule: rev_induct)
  case Nil
  then show ?case by (simp add: node_value_at_default)
next
  case (snoc p ps)
  then show ?case by (auto simp: tree_add_def node_value_at_add split: option.splits)
qed

lemma files_matcher_exact:
  assumes "path_ok f" "list_all path_ok files"
  shows "files_matches (files_matcher_new files) f \<longleftrightarrow> f \<in> set files"
proof -
  from assms(1) obtain ns where f: "f = path_of ns" "names_ok ns" by (rule path_cases)
  have "ns \<in> components ` set files \<longleftrightarrow> f \<in> set files"
    using assms f by (metis (no_types, lifting) components_path_of image_iff list_all_iff path_of_components)
  then show ?thesis using f by (auto simp: files_matches_of files_matcher_new_def node_value_at_paths)
qed

lemma prefix_matcher_exact:
  assumes "path_ok f" "list_all path_ok ps"
  shows "prefix_path_matches (prefix_matcher_new ps) f \<longleftrightarrow> (\<exists>p \<in> set ps. path_starts_with f p)"
proof -
  from assms(1) obtain ns where f: "f = path_of ns" "names_ok ns" by (rule path_cases)
  have "on_prefix (prefix_matcher_new ps) ns \<longleftrightarrow> (\<exists>p \<in> set ps. prefix (components p) ns)"
  proof -
    have "on_prefix (prefix_matcher_new ps) ns \<longleftrightarrow> (\<exists>k \<le> length ns. take k ns \<in> components ` set ps)"
    proof -
      have "node_value_at (prefix_matcher_new ps) ms = Some PPrefix \<longleftrightarrow> ms \<in> components ` set ps" for ms
        unfolding prefix_matcher_new_def node_value_at_paths by simp
      then show ?thesis by (simp add: on_prefix_iff)
    qed
    also have "\<dots> \<longleftrightarrow> (\<exists>p \<in> set ps. \<exists>k \<le> length ns. components p = take k ns)"
      unfolding image_iff by (fastforce intro: sym)
    finally have "on_prefix (prefix_matcher_new ps) ns \<longleftrightarrow> (\<exists>p \<in> set ps. \<exists>k \<le> length ns. components p = take k ns)" .
    moreover have "(\<exists>k \<le> length ns. components p = take k ns) \<longleftrightarrow> prefix (components p) ns" for p
      by (metis append_eq_conv_conj length_take linear min.absorb2 prefix_def take_is_prefix take_all)
    ultimately show ?thesis by simp
  qed
  moreover have "path_starts_with f p \<longleftrightarrow> prefix (components p) ns" if "p \<in> set ps" for p
    using assms that f starts_with_components[of f p] by (metis components_path_of list_all_iff)
  ultimately show ?thesis using f by (simp add: prefix_matches_of)
qed

section \<open>Globs\<close>

definition single_match :: "('g, 'r, 'ge, 'x) path_engine_scheme \<Rightarrow> string \<Rightarrow> string \<Rightarrow> bool" where
  "single_match E r t = (case regex_set_build E [r] of Inr s \<Rightarrow> regex_set_match E s t | Inl _ \<Rightarrow> False)"

definition parsed :: "('g, 'r, 'ge, 'x) path_engine_scheme \<Rightarrow> 'g path_glob_pattern \<Rightarrow> bool" where
  "parsed E pat \<longleftrightarrow> (\<exists>src icase. path_glob_parse_inner E src icase = Inr pat)"

definition pattern_regex_str ::
  "('g, 'r, 'ge, 'x) path_engine_scheme \<Rightarrow> bool \<Rightarrow> 'g path_glob_pattern \<Rightarrow> string" where
  "pattern_regex_str E prefix_paths pat =
     (if prefix_paths then butlast (as_regex E pat) @ ''(?:/|$)'' else as_regex E pat)"

text \<open>
  What the code relies on: the regular expression of a parsed glob is anchored, regular expressions
  made of parsed globs compile, a set of them matches where one of them does, and the expression
  that ends with a separator or the end still matches when the text goes on after a separator. The
  code asserts the first two with \<open>expect\<close>. They are idealised: the anchor is an implementation detail of
  globset, and regex refuses expressions above its size limit.
\<close>

definition path_engine_law :: "('g, 'r, 'ge, 'x) path_engine_scheme \<Rightarrow> bool" where
  "path_engine_law E \<longleftrightarrow>
     (\<forall>pat. parsed E pat \<longrightarrow> ends_with_char CHR ''$'' (as_regex E pat)) \<and>
     (\<forall>rs. (\<forall>r \<in> set rs. \<exists>pat b. parsed E pat \<and> r = pattern_regex_str E b pat) \<longrightarrow>
        (\<exists>s. regex_set_build E rs = Inr s \<and> (\<forall>t. regex_set_match E s t \<longleftrightarrow> (\<exists>r \<in> set rs. single_match E r t)))) \<and>
     (\<forall>pat t u. parsed E pat \<longrightarrow> single_match E (pattern_regex_str E True pat) t \<longrightarrow>
        single_match E (pattern_regex_str E True pat) (t @ CHR ''/'' # u))"

fun glob_hit :: "('g, 'r, 'ge, 'x) path_engine_scheme \<Rightarrow> 'r option path_tree \<Rightarrow> string list \<Rightarrow> bool" where
  "glob_hit E t [] \<longleftrightarrow> False"
| "glob_hit E t (n # ns) \<longleftrightarrow>
     (case tree_value t of None \<Rightarrow> False | Some r \<Rightarrow> regex_set_match E r (join_names (n # ns))) \<or>
     (case child t n of None \<Rightarrow> False | Some s \<Rightarrow> glob_hit E s ns)"

lemma globs_matches_of: "names_ok ns \<Longrightarrow> globs_matches E t (path_of ns) \<longleftrightarrow> glob_hit E t ns"
proof (induction ns arbitrary: t)
  case Nil
  then show ?case by (simp add: globs_matches_def walk_to_Nil)
next
  case (Cons n ns)
  have "\<not> is_root (path_of (n # ns))" using Cons.prems is_root_of[of "n # ns"] by simp
  with Cons show ?case
    by (cases "tree_value t"; cases "child t n")
      (simp_all add: globs_matches_def walk_to_Cons internal_path_of del: join_names.simps)
qed

definition glob_at :: "'r option path_tree \<Rightarrow> string list \<Rightarrow> 'r option" where
  "glob_at t ns = Option.bind (node_value_at t ns) (\<lambda>v. v)"

lemma glob_hit_iff:
  "glob_hit E t ns \<longleftrightarrow>
     (\<exists>ms rest r. ns = ms @ rest \<and> rest \<noteq> [] \<and> glob_at t ms = Some r \<and> regex_set_match E r (join_names rest))"
proof (induction ns arbitrary: t)
  case (Cons n ns)
  have "(\<exists>ms rest r. n # ns = ms @ rest \<and> rest \<noteq> [] \<and> glob_at t ms = Some r \<and> regex_set_match E r (join_names rest)) \<longleftrightarrow>
      (\<exists>r. glob_at t [] = Some r \<and> regex_set_match E r (join_names (n # ns))) \<or>
      (\<exists>ms rest r. ns = ms @ rest \<and> rest \<noteq> [] \<and> glob_at t (n # ms) = Some r \<and> regex_set_match E r (join_names rest))"
    by (auto simp: Cons_eq_append_conv simp del: join_names.simps)
  then show ?case using Cons
    by (auto simp: glob_at_def node_value_at_Nil node_value_at_Cons simp del: join_names.simps split: option.splits bind_splits)
qed simp

lemma glob_at_add:
  "glob_at (tree_add None (set_tree_value (Some r)) d t) ns = (if ns = components d then Some r else glob_at t ns)"
  by (auto simp: glob_at_def tree_add_def node_value_at_add split: option.splits)

text \<open>Patterns that go on matching below a directory they match; a pattern that matches the empty text must match all.\<close>

definition prefix_closed :: "('g, 'r, 'ge, 'x) path_engine_scheme \<Rightarrow> 'r \<Rightarrow> bool" where
  "prefix_closed E r \<longleftrightarrow>
     (\<forall>ms n ns. names_ok (ms @ n # ns) \<longrightarrow> regex_set_match E r (join_names ms) \<longrightarrow>
        regex_set_match E r (join_names (ms @ n # ns)))"

definition globs_closed :: "('g, 'r, 'ge, 'x) path_engine_scheme \<Rightarrow> 'r option path_tree \<Rightarrow> bool" where
  "globs_closed E t \<longleftrightarrow> (\<forall>ns r. glob_at t ns = Some r \<longrightarrow> prefix_closed E r)"

lemma globs_closed_child: "globs_closed E t \<Longrightarrow> child t n = Some s \<Longrightarrow> globs_closed E s"
  unfolding globs_closed_def glob_at_def by (metis (no_types, lifting) bind.bind_lunit node_value_at_Cons)

lemma globs_closed_value: "globs_closed E t \<Longrightarrow> tree_value t = Some r \<Longrightarrow> prefix_closed E r"
  unfolding globs_closed_def glob_at_def by (metis bind.bind_lunit node_value_at_Nil)

lemma globs_visit_leaf:
  "tree_value t = None \<Longrightarrow> visit_allows (visit_sets (child_names (\<lambda>_. True) t) {}) n rest (glob_hit E t (n # rest))"
  by (cases rest) (auto simp: visit_allows_sets child_names_iff split: option.splits)

lemma globs_visit_walk_SOME:
  "globs_visit_walk E prefix_paths w visit_SOME = AllRecursively \<or> globs_visit_walk E prefix_paths w visit_SOME = visit_SOME"
  by (induction w) (auto split: option.splits if_splits)

lemma globs_visit_walk_ok:
  assumes "names_ok ds" "max_visit = NothingToVisit \<or> max_visit = visit_SOME" "prefix_paths \<longrightarrow> globs_closed E t"
  shows "visit_ok (globs_visit_walk E prefix_paths (walk_to t (path_of ds)) max_visit)
    (\<lambda>rest. glob_hit E t (ds @ rest))"
  using assms
proof (induction ds arbitrary: t max_visit)
  case Nil
  show ?case
  proof (cases "tree_value t")
    case None
    then show ?thesis using Nil globs_visit_leaf[OF None] by (auto simp: walk_to_Nil visit_ok_def)
  next
    case (Some r)
    have "glob_hit E t (n # rest)" if "prefix_paths" "regex_set_match E r []" "names_ok (n # rest)" for n rest
      using globs_closed_value[OF _ Some] Nil(3) that Some unfolding prefix_closed_def
      by (metis append_Nil glob_hit.simps(2) join_names.simps(1) option.simps(5))
    then show ?thesis using Some by (auto simp: walk_to_Nil visit_ok_def internal_root simp del: glob_hit.simps)
  qed
next
  case (Cons d ds)
  let ?p = "path_of (d # ds)"
  have nr: "\<not> is_root ?p" using Cons.prems is_root_of[of "d # ds"] by simp
  show ?case
  proof (cases "tree_value t")
    case None
    show ?thesis
    proof (cases "child t d")
      case (Some s)
      have "prefix_paths \<longrightarrow> globs_closed E s" using Cons.prems globs_closed_child[OF _ Some] by blast
      then show ?thesis using Cons.IH[of max_visit s] Cons.prems None Some nr by (simp add: walk_to_Cons)
    qed (use Cons.prems None nr in \<open>auto simp: walk_to_Cons visit_ok_def\<close>)
  next
    case (Some r)
    have hit: "glob_hit E t (d # ds @ n # rest)"
      if "prefix_paths" "regex_set_match E r (join_names (d # ds))" "names_ok (n # rest)" for n rest
    proof -
      have "names_ok ((d # ds) @ n # rest)" using Cons.prems that by simp
      then have "regex_set_match E r (join_names ((d # ds) @ n # rest))"
        using globs_closed_value[OF _ Some] Cons.prems(3) that unfolding prefix_closed_def by blast
      then show ?thesis using Some by (simp del: join_names.simps)
    qed
    consider "prefix_paths" "regex_set_match E r (join_names (d # ds))" | "\<not> prefix_paths"
      | "prefix_paths" "\<not> regex_set_match E r (join_names (d # ds))" by blast
    then show ?thesis
    proof cases
      case 1
      then show ?thesis using hit Cons.prems(1) Some
        by (simp add: walk_to_Cons internal_path_of visit_ok_def del: join_names.simps)
    next
      case 2
      then show ?thesis using Cons.prems(1) Some by (simp add: walk_to_Cons)
    next
      case 3
      then have eq: "globs_visit_walk E prefix_paths (walk_to t ?p) max_visit =
          globs_visit_walk E prefix_paths (case child t d of None \<Rightarrow> [] | Some s \<Rightarrow> walk_to s (path_of ds)) visit_SOME"
        using Cons.prems(1) Some by (simp add: walk_to_Cons internal_path_of del: join_names.simps)
      show ?thesis
      proof (cases "child t d")
        case None
        then show ?thesis using eq by simp
      next
        case child: (Some s)
        have "globs_closed E s" using Cons.prems(3) 3(1) globs_closed_child[OF _ child] by blast
        then have IH: "visit_ok (globs_visit_walk E prefix_paths (walk_to s (path_of ds)) visit_SOME)
            (\<lambda>rest. glob_hit E s (ds @ rest))" using Cons.IH[of visit_SOME s] Cons.prems(1) by simp
        consider "globs_visit_walk E prefix_paths (walk_to s (path_of ds)) visit_SOME = AllRecursively"
          | "globs_visit_walk E prefix_paths (walk_to s (path_of ds)) visit_SOME = visit_SOME"
          using globs_visit_walk_SOME by blast
        then show ?thesis
        proof cases
          case 1
          then show ?thesis using IH eq child by (simp add: visit_ok_def del: join_names.simps)
        qed (use eq child in simp)
      qed
    qed
  qed
qed

lemma globs_visit_ok:
  "names_ok ds \<Longrightarrow> prefix_paths \<longrightarrow> globs_closed E t \<Longrightarrow>
     visit_ok (globs_visit E t prefix_paths (path_of ds)) (\<lambda>rest. glob_hit E t (ds @ rest))"
  using globs_visit_walk_ok[of ds NothingToVisit] by (simp add: globs_visit_def)

section \<open>The built matchers\<close>

lemma concat_chunk_by: "concat (map snd (chunk_by key xs)) = xs"
  by (induction xs) (auto split: list.splits)

lemma chunk_by_keys: "list_all (\<lambda>c. snd c \<noteq> [] \<and> list_all (\<lambda>y. key y = fst c) (snd c)) (chunk_by key xs)"
  by (induction xs) (auto split: list.splits if_splits)

lemma chunk_by_members: "c \<in> set (chunk_by key xs) \<Longrightarrow> set (snd c) \<subseteq> set xs"
  using arg_cong[OF concat_chunk_by[of key xs], of set] by auto

lemma chunk_by_hd: "\<exists>ys rest. chunk_by key (x # xs) = (key x, ys) # rest"
  by (auto split: list.splits)

lemma chunk_key_in: "k \<in> set (map fst (chunk_by key xs)) \<Longrightarrow> \<exists>y \<in> set xs. key y = k"
proof -
  assume "k \<in> set (map fst (chunk_by key xs))"
  then obtain c where c: "c \<in> set (chunk_by key xs)" "k = fst c" by auto
  then have "hd (snd c) \<in> set (snd c)" "key (hd (snd c)) = k" using chunk_by_keys[of key xs] by (auto simp: list_all_iff)
  with chunk_by_members[OF c(1)] show ?thesis by blast
qed

lemma chunk_by_distinct:
  fixes h :: "'k \<Rightarrow> 'o :: linorder"
  assumes "sorted (map (\<lambda>x. h (key x)) xs)" "inj_on h (key ` set xs)"
  shows "distinct (map fst (chunk_by key xs))"
  using assms
proof (induction xs)
  case (Cons x xs)
  have IH: "distinct (map fst (chunk_by key xs))" using Cons by (auto simp: inj_on_def)
  show ?case
  proof (cases xs)
    case Nil
    then show ?thesis by simp
  next
    case xs: (Cons z zs)
    obtain ys rest where c: "chunk_by key xs = (key z, ys) # rest"
      using xs chunk_by_hd[of key z zs] by auto
    show ?thesis
    proof (cases "key x = key z")
      case False
      have "key x \<noteq> k" if k: "k \<in> set (map fst (chunk_by key xs))" for k
      proof
        assume eq: "key x = k"
        obtain y where y: "y \<in> set xs" "key y = k" using chunk_key_in[OF k] by blast
        have "h (key x) \<le> h (key z)" "h (key z) \<le> h (key y)" using Cons.prems(1) xs y(1) by auto
        then have "h (key x) = h (key z)" using eq y(2) by simp
        then show False using False Cons.prems(2) xs by (auto simp: inj_on_def)
      qed
      then show ?thesis using IH c False by auto
    qed (use IH c in simp)
  qed
qed simp

definition dir_pattern_hit ::
  "('g, 'r, 'ge, 'x) path_engine_scheme \<Rightarrow> bool \<Rightarrow> RepoPath \<times> 'g path_glob_pattern \<Rightarrow> string list \<Rightarrow> bool" where
  "dir_pattern_hit E prefix_paths dp ns \<longleftrightarrow>
     (\<exists>rest. rest \<noteq> [] \<and> ns = components (fst dp) @ rest \<and>
        single_match E (pattern_regex_str E prefix_paths (snd dp)) (join_names rest))"

lemma add_chunk_Returns:
  assumes "path_engine_law E" "\<forall>dp \<in> set ch. parsed E (snd dp)" "glob_at t (components d) = None"
  shows "\<exists>r. add_chunk E b (d, ch) t = Returns (tree_add None (set_tree_value (Some r)) d t) \<and>
    (\<forall>s. regex_set_match E r s \<longleftrightarrow> (\<exists>dp \<in> set ch. single_match E (pattern_regex_str E b (snd dp)) s))"
proof -
  let ?rs = "map (\<lambda>dp. pattern_regex_str E b (snd dp)) ch"
  have "chunk_regexes E b ch = Returns ?rs"
    unfolding chunk_regexes_def using assms(1,2)
    by (intro exec_map_Returns) (auto simp: pattern_regex_str_def to_prefix_regex_def as_regex_def Let_def
        path_engine_law_def)
  moreover obtain r where "regex_set_build E ?rs = Inr r"
      "\<And>s. regex_set_match E r s \<longleftrightarrow> (\<exists>x \<in> set ?rs. single_match E x s)"
  proof -
    have "\<forall>x \<in> set ?rs. \<exists>pat b. parsed E pat \<and> x = pattern_regex_str E b pat" using assms(2) by auto
    then show thesis using assms(1) that unfolding path_engine_law_def by blast
  qed
  moreover have "\<not> (case tree_get t d of Some sub \<Rightarrow> tree_value sub \<noteq> None | None \<Rightarrow> False)"
    using assms(3) by (auto simp: glob_at_def node_value_at_def tree_get_def split: option.splits)
  ultimately show ?thesis by (auto simp: add_chunk_def expect_def)
qed

lemma add_chunks_Returns:
  assumes "path_engine_law E" "\<forall>c \<in> set dcs. \<forall>dp \<in> set (snd c). parsed E (snd dp)"
    "distinct (map (\<lambda>c. components (fst c)) dcs)" "\<forall>c \<in> set dcs. glob_at t (components (fst c)) = None"
  shows "\<exists>t'. add_chunks E b dcs t = Returns t' \<and>
    (\<forall>ns. ns \<notin> (\<lambda>c. components (fst c)) ` set dcs \<longrightarrow> glob_at t' ns = glob_at t ns) \<and>
    (\<forall>c \<in> set dcs. \<exists>r. glob_at t' (components (fst c)) = Some r \<and>
       (\<forall>s. regex_set_match E r s \<longleftrightarrow> (\<exists>dp \<in> set (snd c). single_match E (pattern_regex_str E b (snd dp)) s)))"
  using assms
proof (induction dcs arbitrary: t)
  case (Cons c dcs)
  obtain r where r: "add_chunk E b c t = Returns (tree_add None (set_tree_value (Some r)) (fst c) t)"
      "\<forall>s. regex_set_match E r s \<longleftrightarrow> (\<exists>dp \<in> set (snd c). single_match E (pattern_regex_str E b (snd dp)) s)"
    using add_chunk_Returns[of E "snd c" t "fst c" b] Cons.prems by auto
  let ?t = "tree_add None (set_tree_value (Some r)) (fst c) t"
  have "\<forall>c' \<in> set dcs. glob_at ?t (components (fst c')) = None"
    using Cons.prems(3,4) by (auto simp: glob_at_add) (metis fst_conv image_eqI)
  then obtain t' where t': "add_chunks E b dcs ?t = Returns t'"
      "\<forall>ns. ns \<notin> (\<lambda>c. components (fst c)) ` set dcs \<longrightarrow> glob_at t' ns = glob_at ?t ns"
      "\<forall>c \<in> set dcs. \<exists>r. glob_at t' (components (fst c)) = Some r \<and>
       (\<forall>s. regex_set_match E r s \<longleftrightarrow> (\<exists>dp \<in> set (snd c). single_match E (pattern_regex_str E b (snd dp)) s))"
    using Cons.IH[of ?t] Cons.prems by auto
  have "glob_at t' (components (fst c)) = Some r" using t'(2) Cons.prems(3) by (simp add: glob_at_add)
  with r t' show ?case by (simp add: glob_at_add)
qed simp

lemma globs_build_exact:
  assumes law: "path_engine_law E" and parsed: "\<forall>dp \<in> set (dir_patterns b). parsed E (snd dp)"
    and dirs: "\<forall>dp \<in> set (dir_patterns b). path_ok (fst dp)"
  shows "\<exists>t. globs_builder_build E b = Returns (GlobsMatcher t (matches_prefix_paths b)) \<and>
    (\<forall>ns. glob_hit E t ns \<longleftrightarrow> (\<exists>dp \<in> set (dir_patterns b). dir_pattern_hit E (matches_prefix_paths b) dp ns)) \<and>
    (\<forall>ns r. glob_at t ns = Some r \<longrightarrow>
       (\<exists>ch. set ch \<subseteq> set (dir_patterns b) \<and>
         (\<forall>s. regex_set_match E r s \<longleftrightarrow> (\<exists>dp \<in> set ch. single_match E (pattern_regex_str E (matches_prefix_paths b) (snd dp)) s))))"
proof -
  let ?xs = "sort_key (\<lambda>dp. components (fst dp)) (dir_patterns b)"
  let ?cs = "chunk_by fst ?xs"
  let ?hit = "\<lambda>ch s. \<exists>dp \<in> set ch. single_match E (pattern_regex_str E (matches_prefix_paths b) (snd dp)) s"
  have members: "set (snd c) \<subseteq> set (dir_patterns b)" if "c \<in> set ?cs" for c
    using chunk_by_members[OF that] by simp
  have keys: "fst c \<in> fst ` set (dir_patterns b)" if "c \<in> set ?cs" for c
  proof -
    have "fst c \<in> set (map fst ?cs)" using that by simp
    from chunk_key_in[OF this] show ?thesis by (metis image_eqI set_sort)
  qed
  have inj: "inj_on components (fst ` set ?xs)"
    using dirs by (auto simp: inj_on_def components_inject)
  have "distinct (map fst ?cs)" using chunk_by_distinct[of components fst ?xs] inj by simp
  then have dist: "distinct (map (\<lambda>c. components (fst c)) ?cs)"
  proof -
    have "path_ok k" if "k \<in> set (map fst ?cs)" for k using that keys dirs by fastforce
    then have "inj_on components (set (map fst ?cs))" by (simp add: inj_on_def components_inject del: set_map)
    then show ?thesis using \<open>distinct (map fst ?cs)\<close> distinct_map[of components "map fst ?cs"]
      unfolding list.map_comp o_def by blast
  qed
  have none: "glob_at (tree_default None) ns = None" for ns :: "string list"
    by (simp add: glob_at_def node_value_at_default)
  have all_parsed: "\<forall>c \<in> set ?cs. \<forall>dp \<in> set (snd c). parsed E (snd dp)" using members parsed by blast
  obtain t where t: "add_chunks E (matches_prefix_paths b) ?cs (tree_default None) = Returns t"
      "\<forall>ns. ns \<notin> (\<lambda>c. components (fst c)) ` set ?cs \<longrightarrow> glob_at t ns = None"
      "\<forall>c \<in> set ?cs. \<exists>r. glob_at t (components (fst c)) = Some r \<and> (\<forall>s. regex_set_match E r s \<longleftrightarrow> ?hit (snd c) s)"
    using add_chunks_Returns[OF law all_parsed dist, of "tree_default None" "matches_prefix_paths b"]
    unfolding none by auto
  have found: "\<exists>c \<in> set ?cs. ns = components (fst c) \<and> (\<forall>s. regex_set_match E r s \<longleftrightarrow> ?hit (snd c) s)"
    if at: "glob_at t ns = Some r" for ns r
  proof -
    have "ns \<in> (\<lambda>c. components (fst c)) ` set ?cs" using t(2) at by (metis option.distinct(1))
    then obtain c where c: "c \<in> set ?cs" "ns = components (fst c)" by blast
    with t(3) at show ?thesis by (metis option.inject)
  qed
  have chunk_of: "\<exists>c \<in> set ?cs. fst c = fst dp \<and> dp \<in> set (snd c)" if "dp \<in> set (dir_patterns b)" for dp
  proof -
    have "dp \<in> set (concat (map snd ?cs))" using that by (simp add: concat_chunk_by)
    then obtain c where c: "c \<in> set ?cs" "dp \<in> set (snd c)" by auto
    moreover have "fst dp = fst c" using chunk_by_keys[of fst ?xs] c by (auto simp: list_all_iff)
    ultimately show ?thesis by auto
  qed
  have key_of: "fst dp = fst c" if "c \<in> set ?cs" "dp \<in> set (snd c)" for c dp
    using chunk_by_keys[of fst ?xs] that by (auto simp: list_all_iff)
  have "glob_hit E t ns \<longleftrightarrow> (\<exists>dp \<in> set (dir_patterns b). dir_pattern_hit E (matches_prefix_paths b) dp ns)" for ns
  proof
    assume "glob_hit E t ns"
    then obtain ms rest r where h: "ns = ms @ rest" "rest \<noteq> []" "glob_at t ms = Some r" "regex_set_match E r (join_names rest)"
      unfolding glob_hit_iff by blast
    from found[OF h(3)] obtain c where c: "c \<in> set ?cs" "ms = components (fst c)"
        "\<forall>s. regex_set_match E r s \<longleftrightarrow> ?hit (snd c) s" by blast
    from c(3) h(4) obtain dp where dp: "dp \<in> set (snd c)"
        "single_match E (pattern_regex_str E (matches_prefix_paths b) (snd dp)) (join_names rest)" by blast
    have in_b: "dp \<in> set (dir_patterns b)" and "fst dp = fst c"
      using members[OF c(1)] key_of[OF c(1) dp(1)] dp(1) by auto
    then have "dir_pattern_hit E (matches_prefix_paths b) dp ns"
      using h(1,2) c(2) dp(2) by (simp add: dir_pattern_hit_def)
    with in_b show "\<exists>dp \<in> set (dir_patterns b). dir_pattern_hit E (matches_prefix_paths b) dp ns" by blast
  next
    assume "\<exists>dp \<in> set (dir_patterns b). dir_pattern_hit E (matches_prefix_paths b) dp ns"
    then obtain dp rest where h: "dp \<in> set (dir_patterns b)" "rest \<noteq> []" "ns = components (fst dp) @ rest"
        "single_match E (pattern_regex_str E (matches_prefix_paths b) (snd dp)) (join_names rest)"
      unfolding dir_pattern_hit_def by blast
    then obtain c where c: "c \<in> set ?cs" "fst c = fst dp" "dp \<in> set (snd c)" using chunk_of by blast
    then obtain r where "glob_at t (components (fst dp)) = Some r" "\<forall>s. regex_set_match E r s \<longleftrightarrow> ?hit (snd c) s"
      using t(3) by metis
    then show "glob_hit E t ns" unfolding glob_hit_iff using h c(3) by blast
  qed
  moreover have "\<exists>ch. set ch \<subseteq> set (dir_patterns b) \<and> (\<forall>s. regex_set_match E r s \<longleftrightarrow> ?hit ch s)"
    if "glob_at t ns = Some r" for ns r
    using found[OF that] members by blast
  moreover have "globs_builder_build E b = Returns (GlobsMatcher t (matches_prefix_paths b))"
    using t(1) by (simp add: globs_builder_build_def)
  ultimately show ?thesis by blast
qed

section \<open>Every matcher keeps the contract\<close>

primrec matcher_ok :: "('g, 'r, 'ge, 'x) path_engine_scheme \<Rightarrow> 'r matcher \<Rightarrow> bool" where
  "matcher_ok E NothingMatcher = True"
| "matcher_ok E EverythingMatcher = True"
| "matcher_ok E (FilesMatcher tree) = True"
| "matcher_ok E (PrefixMatcher tree) = True"
| "matcher_ok E (GlobsMatcher tree prefix_paths) = (prefix_paths \<longrightarrow> globs_closed E tree)"
| "matcher_ok E (UnionMatcher a b) = (matcher_ok E a \<and> matcher_ok E b)"
| "matcher_ok E (DifferenceMatcher a b) = (matcher_ok E a \<and> matcher_ok E b)"
| "matcher_ok E (IntersectionMatcher a b) = (matcher_ok E a \<and> matcher_ok E b)"
| "matcher_ok E (OrderedRulesMatcher rules) = list_all snd (map (map_prod id (matcher_ok E)) rules)"

lemma matcher_visit_allows:
  assumes "matcher_ok E m" "names_ok ds" "names_ok (n # rest)"
  shows "visit_allows (matcher_visit E m (path_of ds)) n rest (matcher_matches E m (path_of (ds @ n # rest)))"
  using assms
proof (induction m)
  case (FilesMatcher tree)
  then show ?case using files_visit_ok[of ds tree] by (simp add: visit_ok_def files_matches_of)
next
  case (PrefixMatcher tree)
  then show ?case using prefix_visit_ok[of ds tree] by (simp add: visit_ok_def prefix_matches_of)
next
  case (GlobsMatcher tree prefix_paths)
  then show ?case using globs_visit_ok[of ds prefix_paths E tree] by (simp add: visit_ok_def globs_matches_of)
next
  case (OrderedRulesMatcher rules)
  let ?f = "path_of (ds @ n # rest)" and ?d = "path_of ds"
  have "\<forall>r \<in> set rules. cov_allows (visit_coverage (matcher_visit E (snd r) ?d)) (matcher_matches E (snd r) ?f)"
  proof
    fix r assume r: "r \<in> set rules"
    then have "matcher_ok E (snd r)" using OrderedRulesMatcher.prems(1) by (auto simp: list_all_iff)
    with OrderedRulesMatcher.IH[OF r, of "snd r"] OrderedRulesMatcher.prems
    show "cov_allows (visit_coverage (matcher_visit E (snd r) ?d)) (matcher_matches E (snd r) ?f)"
      by (cases r) (auto intro: visit_coverage_allows)
  qed
  from rules_state_allows[OF this, of fst] show ?case
    by (auto simp: foldl_map o_def case_prod_beta map_prod_def intro: coverage_visit_allows)
qed (simp_all add: union_allows difference_allows intersect_allows)

section \<open>An engine\<close>

text \<open>Globs without wildcards: an engine of which the law holds.\<close>

definition lit_match :: "string \<Rightarrow> string \<Rightarrow> bool" where
  "lit_match r t =
     (if ends_with_char CHR '')'' r then (let p = take (length r - 7) r in t = p \<or> starts_with (p @ ''/'') t)
      else t = butlast r)"

definition literal_path_engine :: "(string, string list, unit) path_engine" where
  "literal_path_engine =
     \<lparr>path_glob_build = (\<lambda>s icase. Inr s), path_glob_regex = (\<lambda>g. g @ ''$''),
      regex_set_build = Inr, regex_set_match = (\<lambda>rs t. list_ex (\<lambda>r. lit_match r t) rs)\<rparr>"

lemma literal_engine_simps:
  "single_match literal_path_engine r t \<longleftrightarrow> lit_match r t"
  "as_regex literal_path_engine pat = glob_of_pattern pat @ ''$''"
  "pattern_regex_str literal_path_engine True pat = glob_of_pattern pat @ ''(?:/|$)''"
  by (simp_all add: literal_path_engine_def single_match_def as_regex_def pattern_regex_str_def)

lemma lit_match_prefix: "lit_match (g @ ''(?:/|$)'') t \<longleftrightarrow> t = g \<or> (\<exists>u. t = g @ CHR ''/'' # u)"
  by (auto simp: lit_match_def ends_with_char_def starts_with_iff)

lemma literal_path_engine_law: "path_engine_law literal_path_engine"
proof -
  have "ends_with_char CHR ''$'' (as_regex literal_path_engine pat)" for pat
    by (simp add: literal_engine_simps ends_with_char_def)
  moreover have "\<exists>s. regex_set_build literal_path_engine rs = Inr s \<and>
      (\<forall>t. regex_set_match literal_path_engine s t \<longleftrightarrow> (\<exists>r \<in> set rs. single_match literal_path_engine r t))" for rs
    unfolding literal_engine_simps by (simp add: literal_path_engine_def list_ex_iff)
  moreover have "single_match literal_path_engine (pattern_regex_str literal_path_engine True pat) (t @ CHR ''/'' # u)"
    if "single_match literal_path_engine (pattern_regex_str literal_path_engine True pat) t" for pat t u
    using that unfolding literal_engine_simps lit_match_prefix by auto
  ultimately show ?thesis unfolding path_engine_law_def by blast
qed

section \<open>Matchers that the code builds\<close>

text \<open>
  A pattern of a prefix matcher that matches the empty text, as \<open>**\<close> does, has to match every path.
  The empty pattern does not (\<open>empty_prefix_glob_visits_all\<close>).
\<close>

definition prefix_pattern_ok :: "('g, 'r, 'ge, 'x) path_engine_scheme \<Rightarrow> 'g path_glob_pattern \<Rightarrow> bool" where
  "prefix_pattern_ok E pat \<longleftrightarrow>
     (single_match E (pattern_regex_str E True pat) [] \<longrightarrow>
        (\<forall>p. path_ok p \<longrightarrow> \<not> is_root p \<longrightarrow> single_match E (pattern_regex_str E True pat) (internal_str p)))"

text \<open>The constructors of the matchers, the builder of \<open>GlobsMatcher\<close> and the combinators.\<close>

inductive matcher_built :: "('g, 'r, 'ge, 'x) path_engine_scheme \<Rightarrow> 'r matcher \<Rightarrow> bool" for E where
  built_nothing: "matcher_built E NothingMatcher"
| built_everything: "matcher_built E EverythingMatcher"
| built_files: "matcher_built E (FilesMatcher (files_matcher_new paths))"
| built_prefix: "matcher_built E (PrefixMatcher (prefix_matcher_new paths))"
| built_globs: "\<forall>dp \<in> set (dir_patterns b). path_ok (fst dp) \<and> parsed E (snd dp) \<Longrightarrow>
    matches_prefix_paths b \<longrightarrow> (\<forall>dp \<in> set (dir_patterns b). prefix_pattern_ok E (snd dp)) \<Longrightarrow>
    globs_builder_build E b = Returns m \<Longrightarrow> matcher_built E m"
| built_union: "matcher_built E m1 \<Longrightarrow> matcher_built E m2 \<Longrightarrow> matcher_built E (UnionMatcher m1 m2)"
| built_difference: "matcher_built E m1 \<Longrightarrow> matcher_built E m2 \<Longrightarrow> matcher_built E (DifferenceMatcher m1 m2)"
| built_intersection: "matcher_built E m1 \<Longrightarrow> matcher_built E m2 \<Longrightarrow> matcher_built E (IntersectionMatcher m1 m2)"
| built_rules: "\<forall>r \<in> set rules. matcher_built E (snd r) \<Longrightarrow> matcher_built E (OrderedRulesMatcher rules)"

lemma prefix_pattern_below:
  assumes "path_engine_law E" "parsed E pat" "prefix_pattern_ok E pat" "names_ok (ms @ n # ns)"
    and "single_match E (pattern_regex_str E True pat) (join_names ms)"
  shows "single_match E (pattern_regex_str E True pat) (join_names (ms @ n # ns))"
proof (cases ms)
  case Nil
  have "path_ok (path_of (n # ns))" "\<not> is_root (path_of (n # ns))" "internal_str (path_of (n # ns)) = join_names (n # ns)"
    using assms(4) Nil is_root_of[of "n # ns"] by (simp_all add: path_ok_of internal_path_of)
  then show ?thesis using assms(3,5) Nil unfolding prefix_pattern_ok_def by auto
next
  case (Cons m ms')
  have "join_names (ms @ n # ns) = join_names ms @ CHR ''/'' # join_names (n # ns)"
    using Cons by (intro join_names_append) simp_all
  then show ?thesis using assms(1,2,5) unfolding path_engine_law_def by metis
qed

lemma built_matcher_ok:
  assumes "path_engine_law E" "matcher_built E m"
  shows "matcher_ok E m"
  using assms(2)
proof induction
  case (built_globs b m)
  have "\<forall>dp \<in> set (dir_patterns b). parsed E (snd dp)" "\<forall>dp \<in> set (dir_patterns b). path_ok (fst dp)"
    using built_globs(1) by auto
  from globs_build_exact[OF assms(1) this] obtain t where
    t: "globs_builder_build E b = Returns (GlobsMatcher t (matches_prefix_paths b))"
      "\<And>ns r. glob_at t ns = Some r \<Longrightarrow> \<exists>ch. set ch \<subseteq> set (dir_patterns b) \<and>
         (\<forall>s. regex_set_match E r s \<longleftrightarrow> (\<exists>dp \<in> set ch. single_match E (pattern_regex_str E (matches_prefix_paths b) (snd dp)) s))"
    by blast
  have "prefix_closed E r" if prefix: "matches_prefix_paths b" and at: "glob_at t ns = Some r" for ns r
    unfolding prefix_closed_def
  proof (intro allI impI)
    fix ms n ns' assume names: "names_ok (ms @ n # ns')" and hit: "regex_set_match E r (join_names ms)"
    obtain ch where ch: "set ch \<subseteq> set (dir_patterns b)"
        "\<And>s. regex_set_match E r s \<longleftrightarrow> (\<exists>dp \<in> set ch. single_match E (pattern_regex_str E True (snd dp)) s)"
      using t(2)[OF at] prefix by auto
    from hit obtain dp where dp: "dp \<in> set ch" "single_match E (pattern_regex_str E True (snd dp)) (join_names ms)"
      unfolding ch(2) by blast
    have "parsed E (snd dp)" "prefix_pattern_ok E (snd dp)" using built_globs(1,2) prefix ch(1) dp(1) by auto
    from prefix_pattern_below[OF assms(1) this names dp(2)] dp(1)
    show "regex_set_match E r (join_names (ms @ n # ns'))" unfolding ch(2) by blast
  qed
  then show ?case using built_globs(3) t(1) by (auto simp: globs_closed_def)
qed (auto simp: list_all_iff)

section \<open>Properties\<close>

text \<open>
  (C16) The two methods of a matcher agree, for every matcher made by the constructors and combinators
  from parsed globs, unless a prefix glob matches the empty text but not every path: for every file below
  a directory, \<open>AllRecursively\<close> means that the file matches, \<open>Nothing\<close> that it does not, and a file that
  matches is listed among the entries to visit, as a file if it lies in the directory itself and through
  its first directory otherwise. A walk that follows \<open>visit\<close> therefore finds exactly the matching files.
\<close>

theorem matcher_visit_sound:
  assumes "path_engine_law E" "matcher_built E m" "path_ok dir" "path_ok f" "components f = components dir @ n # rest"
  shows "case matcher_visit E m dir of
      AllRecursively \<Rightarrow> matcher_matches E m f
    | NothingToVisit \<Rightarrow> \<not> matcher_matches E m f
    | Specific dirs files \<Rightarrow> matcher_matches E m f \<longrightarrow> (if rest = [] then in_files files n else in_dirs dirs n)"
proof -
  from assms(3) obtain ds where d: "dir = path_of ds" "names_ok ds" by (rule path_cases)
  from assms(4) obtain ns where f: "f = path_of ns" "names_ok ns" by (rule path_cases)
  have "ns = ds @ n # rest" using assms(5) d f by simp
  then have "visit_allows (matcher_visit E m dir) n rest (matcher_matches E m f)"
    using matcher_visit_allows[OF built_matcher_ok[OF assms(1,2)] d(2), of n rest] d f by simp
  then show ?thesis by (cases "matcher_visit E m dir") simp_all
qed

text \<open>
  The matchers built from lists select exactly what they were given: the listed files; the paths
  at or below a listed prefix; the paths strictly below the directory of a glob whose remaining part
  the glob matches. Building from parsed globs never panics, however the globs repeat or nest.
\<close>

theorem built_matchers_exact:
  assumes "path_ok f" "list_all path_ok ps" "path_engine_law E"
    and "\<forall>dp \<in> set (dir_patterns b). path_ok (fst dp) \<and> parsed E (snd dp)"
  shows "(matcher_matches E (FilesMatcher (files_matcher_new ps)) f \<longleftrightarrow> f \<in> set ps) \<and>
    (matcher_matches E (PrefixMatcher (prefix_matcher_new ps)) f \<longleftrightarrow> (\<exists>p \<in> set ps. path_starts_with f p)) \<and>
    (\<exists>m. globs_builder_build E b = Returns m \<and>
      (matcher_matches E m f \<longleftrightarrow>
         (\<exists>(dir, pattern) \<in> set (dir_patterns b). \<exists>tail. path_strip_prefix f dir = Some tail \<and> \<not> is_root tail \<and>
            single_match E (pattern_regex_str E (matches_prefix_paths b) pattern) (internal_str tail))))"
proof -
  from assms(1) obtain ns where f: "f = path_of ns" "names_ok ns" by (rule path_cases)
  have "\<forall>dp \<in> set (dir_patterns b). parsed E (snd dp)" "\<forall>dp \<in> set (dir_patterns b). path_ok (fst dp)"
    using assms(4) by auto
  from globs_build_exact[OF assms(3) this]
  obtain t where t: "globs_builder_build E b = Returns (GlobsMatcher t (matches_prefix_paths b))"
      "\<forall>ns. glob_hit E t ns \<longleftrightarrow> (\<exists>dp \<in> set (dir_patterns b). dir_pattern_hit E (matches_prefix_paths b) dp ns)"
    by (elim exE conjE)
  have "dir_pattern_hit E (matches_prefix_paths b) (dir, pattern) ns \<longleftrightarrow>
      (\<exists>tail. path_strip_prefix f dir = Some tail \<and> \<not> is_root tail \<and>
         single_match E (pattern_regex_str E (matches_prefix_paths b) pattern) (internal_str tail))"
    if "(dir, pattern) \<in> set (dir_patterns b)" for dir pattern
  proof -
    have "path_ok dir" using assms(4) that by auto
    then obtain ds where ds: "dir = path_of ds" "names_ok ds" by (rule path_cases)
    have "names_ok (drop k ns)" for k using f(2) by (rule names_ok_sub)
    then show ?thesis using ds f
      by (auto simp: dir_pattern_hit_def strip_prefix_of prefix_def is_root_of internal_path_of)
  qed
  then have "(\<exists>dp \<in> set (dir_patterns b). dir_pattern_hit E (matches_prefix_paths b) dp ns) \<longleftrightarrow>
      (\<exists>(dir, pattern) \<in> set (dir_patterns b). \<exists>tail. path_strip_prefix f dir = Some tail \<and> \<not> is_root tail \<and>
         single_match E (pattern_regex_str E (matches_prefix_paths b) pattern) (internal_str tail))"
    by (intro bex_cong) auto
  with t(1) t(2)[rule_format, of ns] f show ?thesis
    using files_matcher_exact[OF assms(1,2)] prefix_matcher_exact[OF assms(1,2)] by (simp add: globs_matches_of)
qed

definition sample_builder :: "string globs_matcher_builder" where
  "sample_builder = builder_add (RepoPath ''a'') \<lparr>glob_of_pattern = ''b'', icase_of_pattern = False\<rparr>
     (builder_prefix_paths True globs_builder)"

lemma sample_path_ok: "path_ok (RepoPath ''a'')" "path_ok (RepoPath ''a/b'')" "path_ok (RepoPath ''a/b/c'')"
  by (simp_all add: path_ok_def is_valid_repo_path_str_def ends_with_char_def)

lemma sample_components:
  "components (RepoPath ''a'') = [''a'']" "components (RepoPath ''a/b'') = [''a'', ''b'']"
  "components (RepoPath ''a/b/c'') = [''a'', ''b'', ''c'']"
  by (simp_all add: components_def drain_components.simps components_next_def)

lemma sample_parsed: "\<forall>dp \<in> set (dir_patterns sample_builder). path_ok (fst dp) \<and> parsed literal_path_engine (snd dp)"
  by (auto simp: sample_builder_def builder_add_def builder_prefix_paths_def globs_builder_def sample_path_ok parsed_def
      path_glob_parse_inner_def literal_path_engine_def)

theorem matcher_visit_sound_witness:
  "\<exists>m. globs_builder_build literal_path_engine sample_builder = Returns m \<and>
     matcher_visit literal_path_engine (UnionMatcher m NothingMatcher) (RepoPath ''a/b'') = AllRecursively \<and>
     matcher_matches literal_path_engine (UnionMatcher m NothingMatcher) (RepoPath ''a/b/c'')"
proof -
  have "case globs_builder_build literal_path_engine sample_builder of
      Panics \<Rightarrow> False | Returns m \<Rightarrow> matcher_visit literal_path_engine (UnionMatcher m NothingMatcher) (RepoPath ''a/b'') = AllRecursively"
    by code_simp
  then obtain m where m: "globs_builder_build literal_path_engine sample_builder = Returns m"
      "matcher_visit literal_path_engine (UnionMatcher m NothingMatcher) (RepoPath ''a/b'') = AllRecursively"
    by (auto split: exec.splits)
  have "prefix_pattern_ok literal_path_engine (snd dp)" if "dp \<in> set (dir_patterns sample_builder)" for dp
    using that unfolding prefix_pattern_ok_def literal_engine_simps lit_match_prefix
    by (auto simp: sample_builder_def builder_add_def builder_prefix_paths_def globs_builder_def)
  then have "matcher_built literal_path_engine (UnionMatcher m NothingMatcher)"
    using sample_parsed m(1) by (intro built_union built_nothing built_globs[of sample_builder]) blast+
  from matcher_visit_sound[OF literal_path_engine_law this, of "RepoPath ''a/b''" "RepoPath ''a/b/c''" "''c''" "[]"] m
  show ?thesis using sample_path_ok sample_components by simp
qed

theorem built_matchers_exact_witness:
  "\<exists>m. globs_builder_build literal_path_engine sample_builder = Returns m \<and>
     matcher_matches literal_path_engine m (RepoPath ''a/b/c'')"
proof -
  have "path_strip_prefix (RepoPath ''a/b/c'') (RepoPath ''a'') = Some (RepoPath ''b/c'')"
    by (simp add: path_strip_prefix_def str_strip_prefix_def)
  moreover have "lit_match (''b'' @ ''(?:/|$)'') ''b/c''" unfolding lit_match_prefix by simp
  ultimately show ?thesis
    using built_matchers_exact[OF sample_path_ok(3) _ literal_path_engine_law sample_parsed, of "[]"]
    by (simp add: sample_builder_def builder_add_def builder_prefix_paths_def globs_builder_def is_root_def
        literal_engine_simps)
qed

text \<open>
  The condition \<open>prefix_pattern_ok\<close> is needed: with an empty pattern, whose expression
  matches the empty rest of its own directory, \<open>visit\<close> claims everything below that directory
  although no file below it matches.
\<close>

lemma empty_prefix_glob_visits_all:
  "let E = literal_path_engine;
       b = builder_add (RepoPath ''a'') \<lparr>glob_of_pattern = [], icase_of_pattern = False\<rparr>
             (builder_prefix_paths True globs_builder) in
   case globs_builder_build E b of
     Returns m \<Rightarrow> matcher_visit E m (RepoPath ''a'') = AllRecursively \<and> \<not> matcher_matches E m (RepoPath ''a/b'')
   | Panics \<Rightarrow> False"
  by code_simp

end
