(* ===== verification/Working_Copy_Laws.thy ===== *)
theory Working_Copy_Laws
  imports Working_Copy_Patterns Matcher_Laws
begin

text \<open>
  Laws of the working-copy configuration. \<open>sel\<close> is the meaning of an expression as a set of lists of
  names; the compiled matchers, the direct evaluation and the coverage of whole domains are related
  to it, and a validated configuration translates paths both ways without ambiguity.
\<close>

section \<open>The meaning of expressions\<close>

fun sel :: "('g, 'r, 'ge, 'x) path_engine_scheme \<Rightarrow> sparse_expression \<Rightarrow> string list \<Rightarrow> bool" where
  "sel E SparseNone ns = False"
| "sel E SparseAll ns = True"
| "sel E (FilePath p) ns = (ns = components p)"
| "sel E (PrefixPath p) ns = prefix (components p) ns"
| "sel E (FileGlob dir pattern icase) ns =
     (\<exists>glob. compiled E pattern icase = Returns glob \<and> dir_pattern_hit E False (dir, glob) ns)"
| "sel E (PrefixGlob dir pattern icase) ns =
     (\<exists>glob. compiled E pattern icase = Returns glob \<and> dir_pattern_hit E True (dir, glob) ns)"
| "sel E (UnionAll items) ns = list_ex (\<lambda>item. sel E item ns) items"
| "sel E (SparseIntersection a b) ns = (sel E a ns \<and> sel E b ns)"
| "sel E (SparseDifference a b) ns = (sel E a ns \<and> \<not> sel E b ns)"

text \<open>The paths of an expression are well formed, which the type of paths ensures, and its globs compile.\<close>

fun expr_ok :: "('g, 'r, 'ge, 'x) path_engine_scheme \<Rightarrow> sparse_expression \<Rightarrow> bool" where
  "expr_ok E SparseNone = True"
| "expr_ok E SparseAll = True"
| "expr_ok E (FilePath p) = path_ok p"
| "expr_ok E (PrefixPath p) = path_ok p"
| "expr_ok E (FileGlob dir pattern icase) = (path_ok dir \<and> compiled E pattern icase \<noteq> Panics)"
| "expr_ok E (PrefixGlob dir pattern icase) = (path_ok dir \<and> compiled E pattern icase \<noteq> Panics)"
| "expr_ok E (UnionAll items) = list_all (expr_ok E) items"
| "expr_ok E (SparseIntersection a b) = (expr_ok E a \<and> expr_ok E b)"
| "expr_ok E (SparseDifference a b) = (expr_ok E a \<and> expr_ok E b)"

fun expr_paths_ok :: "sparse_expression \<Rightarrow> bool" where
  "expr_paths_ok SparseNone = True"
| "expr_paths_ok SparseAll = True"
| "expr_paths_ok (FilePath p) = path_ok p"
| "expr_paths_ok (PrefixPath p) = path_ok p"
| "expr_paths_ok (FileGlob dir pattern icase) = path_ok dir"
| "expr_paths_ok (PrefixGlob dir pattern icase) = path_ok dir"
| "expr_paths_ok (UnionAll items) = list_all expr_paths_ok items"
| "expr_paths_ok (SparseIntersection a b) = (expr_paths_ok a \<and> expr_paths_ok b)"
| "expr_paths_ok (SparseDifference a b) = (expr_paths_ok a \<and> expr_paths_ok b)"

lemma compiled_parsed: "compiled E pattern icase = Returns glob \<Longrightarrow> parsed E glob"
  by (auto simp: compiled_def compile_glob_def expect_def res_map_err_def path_glob_parse_def path_glob_parse_i_def parsed_def
      split: sum.splits if_splits)

lemma compiled_ok: "res_bind (compile_glob E pattern icase) (\<lambda>_. Inr ()) = Inr () \<longleftrightarrow> compiled E pattern icase \<noteq> Panics"
  by (auto simp: compiled_def compile_glob_def expect_def res_map_err_def split: sum.splits)

lemma compile_compiled: "compile_glob E pattern icase = Inr glob \<Longrightarrow> compiled E pattern icase = Returns glob"
  by (auto simp: compiled_def compile_glob_def expect_def res_map_err_def split: sum.splits if_splits)

lemma validate_expr_ok:
  "expression_validate E e k = (Inr () :: (('ge, 'de) patterns_error, unit) result) \<Longrightarrow> expr_paths_ok e \<Longrightarrow> expr_ok E e"
  "items_validate E items k = (Inr () :: (('ge, 'de) patterns_error, unit) result) \<Longrightarrow> list_all expr_paths_ok items \<Longrightarrow> list_all (expr_ok E) items"
proof (induction E e k and E items k rule: expression_validate_items_validate.induct)
  case (1 E e k)
  then have "\<not> MAX_DEPTH < k" by (auto simp: expression_validate.simps)
  with 1 show ?case
    by (cases e) (auto simp: expression_validate.simps[of E _ k] res_bind_eq_Inr dest: compile_compiled)
qed (auto simp: res_bind_eq_Inr)

section \<open>Compiled matchers\<close>

lemma union_all_matches: "matcher_matches E (union_all_matchers ms) f \<longleftrightarrow> (\<exists>m \<in> set ms. matcher_matches E m f)"
proof (induction ms rule: union_all_matchers.induct)
  case (1 ms)
  consider "ms = []" | m where "ms = [m]" | a b rest where "ms = a # b # rest" by (metis list.exhaust)
  then show ?case
  proof cases
    case (3 a b rest)
    let ?k = "length ms div 2"
    have "matcher_matches E (union_all_matchers ms) f \<longleftrightarrow>
        (\<exists>m \<in> set (take ?k ms) \<union> set (drop ?k ms). matcher_matches E m f)"
      using "1.IH" 3 by (subst union_all_matchers.simps) auto
    then show ?thesis by (metis append_take_drop_id set_append)
  next
    case 1
    then show ?thesis by (subst union_all_matchers.simps) simp
  next
    case (2 m)
    then show ?thesis by (subst union_all_matchers.simps) simp
  qed
qed

definition parts_ok :: "('g, 'r, 'ge, 'x) path_engine_scheme \<Rightarrow> ('g, 'r) union_parts \<Rightarrow> bool" where
  "parts_ok E acc \<longleftrightarrow> list_all path_ok (file_paths acc) \<and> list_all path_ok (prefix_path_list acc) \<and>
     list_all (\<lambda>dp. path_ok (fst dp) \<and> parsed E (snd dp)) (file_globs acc @ prefix_globs acc)"

definition parts_sel :: "('g, 'r, 'ge, 'x) path_engine_scheme \<Rightarrow> ('g, 'r) union_parts \<Rightarrow> string list \<Rightarrow> bool" where
  "parts_sel E acc ns \<longleftrightarrow>
     (\<exists>m \<in> set (part_matchers acc). matcher_matches E m (path_of ns)) \<or> path_of ns \<in> set (file_paths acc) \<or>
     (\<exists>p \<in> set (prefix_path_list acc). path_starts_with (path_of ns) p) \<or>
     (\<exists>dp \<in> set (file_globs acc). dir_pattern_hit E False dp ns) \<or>
     (\<exists>dp \<in> set (prefix_globs acc). dir_pattern_hit E True dp ns)"

lemma foldl_builder_add:
  "foldl (\<lambda>b (dir, pattern). builder_add dir pattern b) b globs = b\<lparr>dir_patterns := dir_patterns b @ globs\<rparr>"
  by (induction globs arbitrary: b) (auto simp: builder_add_def)

lemma build_globs_exact:
  assumes "path_engine_law E" "list_all (\<lambda>dp. path_ok (fst dp) \<and> parsed E (snd dp)) globs"
  shows "\<exists>ms. build_globs E globs b = Returns ms \<and>
    (\<forall>ns. names_ok ns \<longrightarrow> (\<exists>m \<in> set ms. matcher_matches E m (path_of ns)) \<longleftrightarrow> (\<exists>dp \<in> set globs. dir_pattern_hit E b dp ns))"
proof (cases "globs = []")
  case False
  let ?b = "\<lparr>dir_patterns = globs, matches_prefix_paths = b\<rparr>"
  have "\<forall>dp \<in> set (dir_patterns ?b). parsed E (snd dp)" "\<forall>dp \<in> set (dir_patterns ?b). path_ok (fst dp)"
    using assms(2) by (auto simp: list_all_iff)
  from globs_build_exact[OF assms(1) this] obtain t where "globs_builder_build E ?b = Returns (GlobsMatcher t b)"
      "\<forall>ns. glob_hit E t ns \<longleftrightarrow> (\<exists>dp \<in> set globs. dir_pattern_hit E b dp ns)" by auto
  then show ?thesis using False
    by (simp add: build_globs_def foldl_builder_add builder_prefix_paths_def globs_builder_def globs_matches_of)
qed (simp add: build_globs_def)

lemma finish_union_exact:
  assumes "path_engine_law E" "parts_ok E acc"
  shows "\<exists>m. finish_union E acc = Returns m \<and>
    (\<forall>ns. names_ok ns \<longrightarrow> matcher_matches E m (path_of ns) \<longleftrightarrow> parts_sel E acc ns)"
proof -
  have globs: "list_all (\<lambda>dp. path_ok (fst dp) \<and> parsed E (snd dp)) (file_globs acc)"
      "list_all (\<lambda>dp. path_ok (fst dp) \<and> parsed E (snd dp)) (prefix_globs acc)"
    using assms(2) by (simp_all add: parts_ok_def)
  from build_globs_exact[OF assms(1) globs(1), of False] obtain ms3 where ms3: "build_globs E (file_globs acc) False = Returns ms3"
      "\<And>ns. names_ok ns \<Longrightarrow> (\<exists>m \<in> set ms3. matcher_matches E m (path_of ns)) \<longleftrightarrow> (\<exists>dp \<in> set (file_globs acc). dir_pattern_hit E False dp ns)"
    by (elim exE conjE) (rule that, assumption, simp)
  from build_globs_exact[OF assms(1) globs(2), of True] obtain ms4 where ms4: "build_globs E (prefix_globs acc) True = Returns ms4"
      "\<And>ns. names_ok ns \<Longrightarrow> (\<exists>m \<in> set ms4. matcher_matches E m (path_of ns)) \<longleftrightarrow> (\<exists>dp \<in> set (prefix_globs acc). dir_pattern_hit E True dp ns)"
    by (elim exE conjE) (rule that, assumption, simp)
  have files: "files_matches (files_matcher_new (file_paths acc)) (path_of ns) \<longleftrightarrow> path_of ns \<in> set (file_paths acc)"
    if "names_ok ns" for ns using files_matcher_exact[of "path_of ns" "file_paths acc"] assms(2) that by (simp add: parts_ok_def)
  have prefixes: "prefix_path_matches (prefix_matcher_new (prefix_path_list acc)) (path_of ns) \<longleftrightarrow>
      (\<exists>p \<in> set (prefix_path_list acc). path_starts_with (path_of ns) p)" if "names_ok ns" for ns
    using prefix_matcher_exact[of "path_of ns" "prefix_path_list acc"] assms(2) that by (simp add: parts_ok_def)
  let ?ms = "part_matchers acc @ (if file_paths acc = [] then [] else [FilesMatcher (files_matcher_new (file_paths acc))]) @
    (if prefix_path_list acc = [] then [] else [PrefixMatcher (prefix_matcher_new (prefix_path_list acc))]) @ ms3 @ ms4"
  have "finish_union E acc = Returns (union_all_matchers ?ms)" by (simp add: finish_union_def Let_def ms3(1) ms4(1))
  moreover have "matcher_matches E (union_all_matchers ?ms) (path_of ns) \<longleftrightarrow> parts_sel E acc ns" if ns: "names_ok ns" for ns
    using ms3(2)[OF ns] ms4(2)[OF ns] files[OF ns] prefixes[OF ns]
    by (simp add: union_all_matches parts_sel_def bex_Un split: if_splits)
  ultimately show ?thesis by blast
qed

text \<open>What one expression, or a list of them, adds to the parts.\<close>

definition adds_to ::
  "('g, 'r, 'ge, 'x) path_engine_scheme \<Rightarrow> ('g, 'r) union_parts \<Rightarrow> (string list \<Rightarrow> bool) \<Rightarrow> ('g, 'r) union_parts \<Rightarrow> bool" where
  "adds_to E acc P acc' \<longleftrightarrow>
     parts_ok E acc' \<and> (\<forall>ns. names_ok ns \<longrightarrow> (parts_sel E acc' ns \<longleftrightarrow> parts_sel E acc ns \<or> P ns))"

lemma adds_to_trans:
  "adds_to E acc P acc' \<Longrightarrow> adds_to E acc' Q acc'' \<Longrightarrow> adds_to E acc (\<lambda>ns. P ns \<or> Q ns) acc''"
  by (auto simp: adds_to_def)

lemma push_adds:
  "parts_ok E acc \<Longrightarrow> (\<And>ns. names_ok ns \<Longrightarrow> matcher_matches E m (path_of ns) \<longleftrightarrow> P ns) \<Longrightarrow>
     adds_to E acc P (push_matcher m acc)"
  by (auto simp: adds_to_def parts_ok_def parts_sel_def push_matcher_def)

lemma file_path_adds:
  "parts_ok E acc \<Longrightarrow> path_ok p \<Longrightarrow> adds_to E acc (sel E (FilePath p)) (acc\<lparr>file_paths := file_paths acc @ [p]\<rparr>)"
  by (auto simp: adds_to_def parts_ok_def parts_sel_def)

lemma prefix_path_adds:
  "parts_ok E acc \<Longrightarrow> path_ok p \<Longrightarrow> adds_to E acc (sel E (PrefixPath p)) (acc\<lparr>prefix_path_list := prefix_path_list acc @ [p]\<rparr>)"
  by (auto simp: adds_to_def parts_ok_def parts_sel_def starts_with_components)

lemma file_glob_adds:
  "parts_ok E acc \<Longrightarrow> path_ok dir \<Longrightarrow> compiled E pattern icase = Returns glob \<Longrightarrow>
     adds_to E acc (sel E (FileGlob dir pattern icase)) (acc\<lparr>file_globs := file_globs acc @ [(dir, glob)]\<rparr>)"
  by (auto simp: adds_to_def parts_ok_def parts_sel_def compiled_parsed)

lemma prefix_glob_adds:
  "parts_ok E acc \<Longrightarrow> path_ok dir \<Longrightarrow> compiled E pattern icase = Returns glob \<Longrightarrow>
     adds_to E acc (sel E (PrefixGlob dir pattern icase)) (acc\<lparr>prefix_globs := prefix_globs acc @ [(dir, glob)]\<rparr>)"
  by (auto simp: adds_to_def parts_ok_def parts_sel_def compiled_parsed)

definition builds ::
  "('g, 'r, 'ge, 'x) path_engine_scheme \<Rightarrow> sparse_expression list \<Rightarrow> 'r matcher \<Rightarrow> bool" where
  "builds E es m \<longleftrightarrow> build_union_matcher E es = Returns m \<and>
     (\<forall>ns. names_ok ns \<longrightarrow> (matcher_matches E m (path_of ns) \<longleftrightarrow> list_ex (\<lambda>e. sel E e ns) es))"

lemma loop_continues:
  assumes "adds_to E acc (sel E e) acc1" "build_union_loop E (e # es) acc = build_union_loop E es acc1"
    and "parts_ok E acc1 \<Longrightarrow> \<exists>acc'. build_union_loop E es acc1 = Returns acc' \<and> adds_to E acc1 (\<lambda>ns. list_ex (\<lambda>e. sel E e ns) es) acc'"
  shows "\<exists>acc'. build_union_loop E (e # es) acc = Returns acc' \<and> adds_to E acc (\<lambda>ns. list_ex (\<lambda>e. sel E e ns) (e # es)) acc'"
proof -
  have "parts_ok E acc1" using assms(1) by (simp add: adds_to_def)
  with assms(3) obtain acc' where "build_union_loop E es acc1 = Returns acc'"
      "adds_to E acc1 (\<lambda>ns. list_ex (\<lambda>e. sel E e ns) es) acc'" by blast
  with adds_to_trans[OF assms(1)] assms(2) show ?thesis by auto
qed

lemma build_union_exact:
  "path_engine_law E \<Longrightarrow> list_all (expr_ok E) es \<Longrightarrow> \<exists>m. builds E es m"
  "path_engine_law E \<Longrightarrow> list_all (expr_ok E) es \<Longrightarrow> parts_ok E acc \<Longrightarrow>
     \<exists>acc'. build_union_loop E es acc = Returns acc' \<and> adds_to E acc (\<lambda>ns. list_ex (\<lambda>e. sel E e ns) es) acc'"
proof (induction E es and E es acc rule: build_union_matcher_build_union_loop.induct)
  case (1 E es)
  have "parts_ok E no_parts" "\<not> parts_sel E no_parts ns" for ns by (simp_all add: no_parts_def parts_ok_def parts_sel_def)
  with 1 obtain acc where acc: "build_union_loop E es no_parts = Returns acc" "parts_ok E acc"
      "\<And>ns. names_ok ns \<Longrightarrow> parts_sel E acc ns \<longleftrightarrow> list_ex (\<lambda>e. sel E e ns) es"
    unfolding adds_to_def by blast
  from finish_union_exact[OF 1(2) acc(2)] acc(1,3) show ?case by (auto simp: builds_def build_union_matcher.simps)
next
  case (2 E acc)
  then show ?case by (simp add: adds_to_def)
next
  case (3 E e es acc)
  have ok: "expr_ok E e" "list_all (expr_ok E) es" using 3 by auto
  show ?case
  proof (cases e)
    case SparseNone
    show ?thesis by (rule loop_continues[OF push_adds]) (use 3 ok SparseNone in auto)
  next
    case SparseAll
    show ?thesis by (rule loop_continues[OF push_adds]) (use 3 ok SparseAll in auto)
  next
    case (FilePath p)
    show ?thesis unfolding FilePath by (rule loop_continues[OF file_path_adds]) (use 3 ok FilePath in auto)
  next
    case (PrefixPath p)
    show ?thesis unfolding PrefixPath by (rule loop_continues[OF prefix_path_adds]) (use 3 ok PrefixPath in auto)
  next
    case (FileGlob dir pattern icase)
    then obtain glob where glob: "compiled E pattern icase = Returns glob" using ok by (cases "compiled E pattern icase") auto
    show ?thesis unfolding FileGlob
      by (rule loop_continues[OF file_glob_adds[OF _ _ glob]]) (use 3 ok FileGlob glob in auto)
  next
    case (PrefixGlob dir pattern icase)
    then obtain glob where glob: "compiled E pattern icase = Returns glob" using ok by (cases "compiled E pattern icase") auto
    show ?thesis unfolding PrefixGlob
      by (rule loop_continues[OF prefix_glob_adds[OF _ _ glob]]) (use 3 ok PrefixGlob glob in auto)
  next
    case (UnionAll items)
    then obtain m where m: "builds E items m" using 3 ok by auto
    show ?thesis by (rule loop_continues[OF push_adds]) (use 3 ok UnionAll m in \<open>auto simp: builds_def\<close>)
  next
    case (SparseIntersection a b)
    then obtain ma where ma: "builds E [a] ma" using 3 ok by auto
    then have "build_union_matcher E [a] = Returns ma" by (simp add: builds_def)
    with "3.IH"(10)[OF SparseIntersection] obtain mb where mb: "builds E [b] mb" using "3.prems"(1) ok SparseIntersection by auto
    note m = ma mb
    show ?thesis by (rule loop_continues[OF push_adds]) (use 3 ok SparseIntersection m in \<open>auto simp: builds_def\<close>)
  next
    case (SparseDifference a b)
    then obtain ma where ma: "builds E [a] ma" using 3 ok by auto
    then have "build_union_matcher E [a] = Returns ma" by (simp add: builds_def)
    with "3.IH"(13)[OF SparseDifference] obtain mb where mb: "builds E [b] mb" using "3.prems"(1) ok SparseDifference by auto
    note m = ma mb
    show ?thesis by (rule loop_continues[OF push_adds]) (use 3 ok SparseDifference m in \<open>auto simp: builds_def\<close>)
  qed
qed

lemma expression_to_matcher_exact:
  assumes "path_engine_law E" "expr_ok E e"
  shows "\<exists>m. expression_to_matcher E e = Returns m \<and>
    (\<forall>ns. names_ok ns \<longrightarrow> (matcher_matches E m (path_of ns) \<longleftrightarrow> sel E e ns))"
  using build_union_exact(1)[of E "[e]"] assms by (auto simp: builds_def expression_to_matcher_def)

lemma expression_matches_exact:
  "path_engine_law E \<Longrightarrow> expr_ok E e \<Longrightarrow> names_ok ns \<Longrightarrow> expression_matches E e (path_of ns) = Returns (sel E e ns)"
  "path_engine_law E \<Longrightarrow> list_all (expr_ok E) es \<Longrightarrow> names_ok ns \<Longrightarrow>
     any_matches E es (path_of ns) = Returns (list_ex (\<lambda>e. sel E e ns) es)"
proof (induction E e "path_of ns" and E es "path_of ns" rule: expression_matches_any_matches.induct)
  case (3 E p)
  then show ?case by auto
next
  case (4 E p)
  then show ?case by (simp add: starts_with_components)
next
  case (5 E dir pattern icase)
  then show ?case using expression_to_matcher_exact[of E "FileGlob dir pattern icase"] by auto
next
  case (6 E dir pattern icase)
  then show ?case using expression_to_matcher_exact[of E "PrefixGlob dir pattern icase"] by auto
qed auto

text \<open>Coverage is sound for every path of its domain.\<close>

lemma foldl_cov_union:
  "list_all2 (\<lambda>c h. cov_allows c h) cs hs \<Longrightarrow> cov_allows c h \<Longrightarrow>
     cov_allows (foldl cov_union c cs) (h \<or> (\<exists>x \<in> set hs. x))"
proof (induction cs hs arbitrary: c h rule: list_all2_induct)
  case (Cons d ds x xs)
  then show ?case using Cons.IH[of "cov_union c d" "h \<or> x"] cov_union_allows[of c h d x]
    by (simp add: disj_assoc)
qed simp

lemma domain_coverage_sound:
  "path_ok path \<Longrightarrow> expr_ok E e \<Longrightarrow> prefix (components path) ns \<Longrightarrow> cov_allows (domain_coverage e path) (sel E e ns)"
proof (induction e)
  case (UnionAll items)
  have "list_all2 cov_allows (map (\<lambda>item. domain_coverage item path) items) (map (\<lambda>item. sel E item ns) items)"
    using UnionAll by (auto simp: list_all2_conv_all_nth list_all_length)
  from foldl_cov_union[OF this, of CovNone False] show ?case by (simp add: list_ex_iff)
next
  case (SparseDifference a b)
  then show ?case using cov_intersect_allows[OF _ cov_not_allows] by auto
next
  case (FilePath p)
  then show ?case by (auto simp: starts_with_components)
next
  case (PrefixPath p)
  then show ?case by (auto simp: starts_with_components dest: prefix_same_cases)
next
  case (FileGlob dir pattern icase)
  have "prefix (components dir) ns" if "dir_pattern_hit E False (dir, glob) ns" for glob
    using that by (auto simp: dir_pattern_hit_def)
  with FileGlob show ?case by (auto simp: starts_with_components dest: prefix_same_cases)
next
  case (PrefixGlob dir pattern icase)
  have "prefix (components dir) ns" if "dir_pattern_hit E True (dir, glob) ns" for glob
    using that by (auto simp: dir_pattern_hit_def)
  with PrefixGlob show ?case by (auto simp: starts_with_components dest: prefix_same_cases)
qed (auto intro: cov_intersect_allows)

section \<open>Rules\<close>

definition rules_ok :: "('g, 'r, 'ge, 'x) path_engine_scheme \<Rightarrow> wc_patterns \<Rightarrow> bool" where
  "rules_ok E c \<longleftrightarrow> list_all (\<lambda>r. expr_ok E (rule_expression r)) (wc_rules c)"

definition rules_sel :: "('g, 'r, 'ge, 'x) path_engine_scheme \<Rightarrow> wc_patterns \<Rightarrow> string list \<Rightarrow> bool" where
  "rules_sel E c ns = last_hit (map (\<lambda>r. (rule_include r, sel E (rule_expression r) ns)) (wc_rules c))"

lemma find_rule_rev:
  "path_engine_law E \<Longrightarrow> list_all (\<lambda>r. expr_ok E (rule_expression r)) rules \<Longrightarrow> names_ok ns \<Longrightarrow>
     find_rule E (rev rules) (path_of ns) =
       Returns (last_hit (map (\<lambda>r. (rule_include r, sel E (rule_expression r) ns)) rules))"
  by (induction rules rule: rev_induct) (simp_all add: expression_matches_exact)

lemma rules_coverage_single:
  "path_engine_law E \<Longrightarrow> rules_ok E c \<Longrightarrow> names_ok ns \<Longrightarrow>
     rules_coverage E c (path_of ns) False = Returns (if rules_sel E c ns then CovAll else CovNone)"
  by (simp add: rules_coverage_def find_rule_rev rules_ok_def rules_sel_def)

lemma is_selected_exact:
  "path_engine_law E \<Longrightarrow> rules_ok E c \<Longrightarrow> names_ok ns \<Longrightarrow> is_selected E c (path_of ns) = Returns (rules_sel E c ns)"
  by (simp add: is_selected_def rules_coverage_single)

definition in_domain :: "string list \<Rightarrow> bool \<Rightarrow> string list \<Rightarrow> bool" where
  "in_domain ds recursive ns \<longleftrightarrow> prefix ds ns \<and> (recursive \<or> ns = ds)"

lemma rules_coverage_sound:
  assumes "path_engine_law E" "rules_ok E c" "names_ok ds"
  shows "\<exists>cov. rules_coverage E c (path_of ds) recursive = Returns cov \<and>
    (\<forall>ns. in_domain ds recursive ns \<longrightarrow> cov_allows cov (rules_sel E c ns))"
proof (cases recursive)
  case True
  have "cov_allows (foldl (\<lambda>selected rule. rule_state (rule_include rule) selected (domain_coverage (rule_expression rule) (path_of ds)))
      CovNone (wc_rules c)) (rules_sel E c ns)" if "prefix ds ns" for ns
    unfolding rules_sel_def
    by (rule rules_state_allows) (use domain_coverage_sound[of "path_of ds" E _ ns] assms that in \<open>auto simp: rules_ok_def list_all_iff\<close>)
  then show ?thesis using True by (simp add: rules_coverage_def in_domain_def)
next
  case False
  then show ?thesis using rules_coverage_single[OF assms] by (auto simp: in_domain_def)
qed

section \<open>Domains\<close>

lemma path_append_of:
  "names_ok ds \<Longrightarrow> names_ok ts \<Longrightarrow> path_append (path_of ds) (path_of ts) = Returns (path_of (ds @ ts))"
  using join_names_append[of ds ts] join_valid[of "ds @ ts"]
  by (cases "ds = []"; cases "ts = []")
    (simp_all add: path_append_def is_root_def expect_def from_internal_string_def path_of_def path_root_def)

lemma translate_of:
  assumes "names_ok ns" "names_ok ss" "names_ok ds"
  shows "translate (path_of ns) (path_of ss) (path_of ds) recursive =
    Returns (if in_domain ss recursive ns then Some (path_of (ds @ drop (length ss) ns)) else None)"
proof -
  have "names_ok (drop (length ss) ns)" using assms(1) by (rule names_ok_sub)
  then show ?thesis using assms
    by (auto simp: translate_def strip_prefix_of is_root_of path_append_of in_domain_def prefix_def)
qed

lemma domain_overlap_of:
  assumes "names_ok a" "names_ok b" "in_domain a ar ns" "in_domain b br ns"
  shows "\<exists>p r. domain_overlap (path_of a) ar (path_of b) br = Some (path_of p, r) \<and> names_ok p \<and>
    in_domain p r ns \<and> in_domain a ar p \<and> in_domain b br p"
proof -
  consider "a = b" | "a \<noteq> b" "prefix a b" | "a \<noteq> b" "prefix b a"
    using assms(3,4) prefix_same_cases[of a ns b] by (auto simp: in_domain_def)
  then show ?thesis
  proof cases
    case 1
    then show ?thesis using assms by (auto simp: domain_overlap_def in_domain_def)
  next
    case 2
    then have "ar" using assms(3,4) by (auto simp: in_domain_def)
    then show ?thesis using 2 assms by (auto simp: domain_overlap_def in_domain_def starts_with_of)
  next
    case 3
    then have "br" "\<not> prefix a b" using assms(3,4) by (auto simp: in_domain_def)
    then show ?thesis using 3 assms by (auto simp: domain_overlap_def in_domain_def starts_with_of)
  qed
qed

section \<open>Mappings\<close>

definition src :: "wc_mapping \<Rightarrow> string list" where
  "src m = components (mapping_source m)"

definition dst :: "wc_mapping \<Rightarrow> string list" where
  "dst m = components (as_repo_path (mapping_destination m))"

definition mapping_ok :: "wc_mapping \<Rightarrow> bool" where
  "mapping_ok m \<longleftrightarrow> path_ok (mapping_source m) \<and> path_ok (as_repo_path (mapping_destination m))"

lemma mapping_paths:
  assumes "mapping_ok m"
  shows "mapping_source m = path_of (src m)" "as_repo_path (mapping_destination m) = path_of (dst m)"
    "names_ok (src m)" "names_ok (dst m)"
  using assms by (simp_all add: mapping_ok_def src_def dst_def)

text \<open>The relation between the two sides of a mapping, and its two partial functions.\<close>

definition mapped :: "wc_mapping \<Rightarrow> string list \<Rightarrow> string list \<Rightarrow> bool" where
  "mapped m ns ws \<longleftrightarrow> (\<exists>t. ns = src m @ t \<and> ws = dst m @ t \<and> (mapping_recursive m \<or> t = []))"

definition to_dst :: "wc_mapping \<Rightarrow> string list \<Rightarrow> string list option" where
  "to_dst m ns = (if in_domain (src m) (mapping_recursive m) ns then Some (dst m @ drop (length (src m)) ns) else None)"

definition to_src :: "wc_mapping \<Rightarrow> string list \<Rightarrow> string list option" where
  "to_src m ws = (if in_domain (dst m) (mapping_recursive m) ws then Some (src m @ drop (length (dst m)) ws) else None)"

lemma to_dst_iff: "to_dst m ns = Some ws \<longleftrightarrow> mapped m ns ws"
  by (auto simp: to_dst_def mapped_def in_domain_def prefix_def)

lemma to_src_iff: "to_src m ws = Some ns \<longleftrightarrow> mapped m ns ws"
  by (auto simp: to_src_def mapped_def in_domain_def prefix_def)

lemma mapped_domains: "mapped m ns ws \<Longrightarrow> in_domain (src m) (mapping_recursive m) ns \<and> in_domain (dst m) (mapping_recursive m) ws"
  by (auto simp: mapped_def in_domain_def)

lemma mapped_names: "mapped m ns ws \<Longrightarrow> mapping_ok m \<Longrightarrow> names_ok ns \<longleftrightarrow> names_ok ws"
  using mapping_paths(3,4)[of m] by (auto simp: mapped_def)

lemma source_to_destination_of:
  "mapping_ok m \<Longrightarrow> names_ok ns \<Longrightarrow> source_to_destination (path_of ns) m = Returns (map_option path_of (to_dst m ns))"
  by (simp add: source_to_destination_def mapping_paths translate_of to_dst_def)

lemma destination_to_source_of:
  "mapping_ok m \<Longrightarrow> names_ok ws \<Longrightarrow> destination_to_source (path_of ws) m = Returns (map_option path_of (to_src m ws))"
  by (simp add: destination_to_source_def mapping_paths translate_of to_src_def)

definition mappings_ok :: "wc_patterns \<Rightarrow> bool" where
  "mappings_ok c \<longleftrightarrow> list_all mapping_ok (wc_mappings c)"

definition dst_candidates :: "wc_patterns \<Rightarrow> string list \<Rightarrow> string list list" where
  "dst_candidates c ns = List.map_filter (\<lambda>m. to_dst m ns) (wc_mappings c)"

definition src_candidates :: "wc_patterns \<Rightarrow> string list \<Rightarrow> string list list" where
  "src_candidates c ws = List.map_filter (\<lambda>m. to_src m ws) (wc_mappings c)"

lemma map_filter_Cons: "List.map_filter g (x # xs) = (case g x of None \<Rightarrow> List.map_filter g xs | Some y \<Rightarrow> y # List.map_filter g xs)"
  by (simp add: List.map_filter_simps)

lemma in_map_filter: "y \<in> set (List.map_filter g xs) \<longleftrightarrow> (\<exists>x \<in> set xs. g x = Some y)"
  by (induction xs) (auto simp: map_filter_Cons List.map_filter_simps split: option.splits)

lemma map_filter_map: "List.map_filter g (map f xs) = List.map_filter (\<lambda>x. g (f x)) xs"
  by (induction xs) (auto simp: map_filter_Cons List.map_filter_simps split: option.splits)

lemma next_some_exact:
  "(\<And>x. x \<in> set xs \<Longrightarrow> f x = Returns (g x)) \<Longrightarrow>
     \<exists>rest. next_some f xs = Returns (case List.map_filter g xs of [] \<Rightarrow> None | y # _ \<Rightarrow> Some (y, rest)) \<and>
       List.map_filter g rest = tl (List.map_filter g xs) \<and> set rest \<subseteq> set xs"
proof (induction xs)
  case Nil
  then show ?case by (auto simp: List.map_filter_simps intro: exI[of _ "[]"])
next
  case (Cons x xs)
  show ?case
  proof (cases "g x")
    case None
    then show ?thesis using Cons by (fastforce simp: map_filter_Cons)
  next
    case (Some y)
    then show ?thesis using Cons.prems by (intro exI[of _ xs]) (auto simp: map_filter_Cons)
  qed
qed

lemma map_filter_map_option: "List.map_filter (\<lambda>x. map_option f (g x)) xs = map f (List.map_filter g xs)"
  by (induction xs) (auto simp: map_filter_Cons List.map_filter_simps split: option.splits)

lemma repo_to_wc_impl_exact:
  assumes "mappings_ok c" "names_ok ns" "selected (path_of ns) = Returns h"
  shows "repo_to_wc_impl c (path_of ns) selected =
    (if wc_mappings c = [] then ok (Some (WorkingCopyPath (path_of ns)))
     else case dst_candidates c ns of
            [] \<Rightarrow> ok None
          | [ws] \<Rightarrow> ok (Some (WorkingCopyPath (path_of ws)))
          | _ \<Rightarrow> if h then err AmbiguousCanonical else ok None)"
proof -
  let ?g = "\<lambda>m. map_option path_of (to_dst m ns)" and ?f = "source_to_destination (path_of ns)"
  have f: "?f m = Returns (?g m)" if "m \<in> set (wc_mappings c)" for m
    using assms that by (simp add: source_to_destination_of mappings_ok_def list_all_iff)
  obtain rest where r1: "next_some ?f (wc_mappings c) =
      Returns (case List.map_filter ?g (wc_mappings c) of [] \<Rightarrow> None | y # _ \<Rightarrow> Some (y, rest))"
      "List.map_filter ?g rest = tl (List.map_filter ?g (wc_mappings c))" "set rest \<subseteq> set (wc_mappings c)"
    using next_some_exact[of "wc_mappings c" ?f ?g] f by blast
  obtain rest' where r2: "next_some ?f rest =
      Returns (case List.map_filter ?g rest of [] \<Rightarrow> None | y # _ \<Rightarrow> Some (y, rest'))"
    using next_some_exact[of rest ?f ?g] f r1(3) by blast
  have cand: "List.map_filter ?g (wc_mappings c) = map path_of (dst_candidates c ns)"
    by (simp add: map_filter_map_option dst_candidates_def)
  show ?thesis
    using assms(3) by (simp add: repo_to_wc_impl_def r1(1) r2 r1(2) cand split: list.splits)
qed

lemma src_candidates_ok: "mappings_ok c \<Longrightarrow> names_ok ws \<Longrightarrow> list_all names_ok (src_candidates c ws)"
proof -
  assume c: "mappings_ok c" "names_ok ws"
  have "names_ok ns" if "m \<in> set (wc_mappings c)" "to_src m ws = Some ns" for m ns
    using that c mapped_names[of m ns ws] by (simp add: to_src_iff mappings_ok_def list_all_iff)
  then show ?thesis unfolding list_all_iff[of names_ok] by (auto simp: src_candidates_def in_map_filter)
qed

lemma wc_to_repo_impl_exact:
  assumes "mappings_ok c" "names_ok ws" and sel: "\<And>ns. names_ok ns \<Longrightarrow> selected (path_of ns) = Returns (P ns)"
  shows "wc_to_repo_impl c (WorkingCopyPath (path_of ws)) selected =
    (if wc_mappings c = [] then ok (Some (path_of ws))
     else case src_candidates c ws of
            [] \<Rightarrow> ok None
          | [ns] \<Rightarrow> ok (Some (path_of ns))
          | _ \<Rightarrow> (case filter P (src_candidates c ws) of
                   [] \<Rightarrow> ok None | [ns] \<Rightarrow> ok (Some (path_of ns)) | _ \<Rightarrow> err AmbiguousPhysical))"
proof -
  let ?g = "\<lambda>m. map_option path_of (to_src m ws)" and ?f = "destination_to_source (path_of ws)"
  let ?keep = "\<lambda>ns. if P ns then Some (path_of ns) else None"
  let ?k = "\<lambda>x. case x of Inl p \<Rightarrow> ?keep (components p) | Inr m \<Rightarrow> Option.bind (to_src m ws) ?keep"
  have f: "?f m = Returns (?g m)" if "m \<in> set (wc_mappings c)" for m
    using assms that by (simp add: destination_to_source_of mappings_ok_def list_all_iff)
  have names: "names_ok ns" if "to_src m ws = Some ns" "m \<in> set (wc_mappings c)" for m ns
    using that assms mapped_names[of m ns ws] by (simp add: to_src_iff mappings_ok_def list_all_iff)
  obtain rest where r1: "next_some ?f (wc_mappings c) =
      Returns (case List.map_filter ?g (wc_mappings c) of [] \<Rightarrow> None | y # _ \<Rightarrow> Some (y, rest))"
      "List.map_filter ?g rest = tl (List.map_filter ?g (wc_mappings c))" "set rest \<subseteq> set (wc_mappings c)"
    using next_some_exact[of "wc_mappings c" ?f ?g] f by blast
  obtain rest2 where r2: "next_some ?f rest =
      Returns (case List.map_filter ?g rest of [] \<Rightarrow> None | y # _ \<Rightarrow> Some (y, rest2))"
      "List.map_filter ?g rest2 = tl (List.map_filter ?g rest)" "set rest2 \<subseteq> set rest"
    using next_some_exact[of rest ?f ?g] f r1(3) by blast
  have cand: "List.map_filter ?g (wc_mappings c) = map path_of (src_candidates c ws)"
    by (simp add: map_filter_map_option src_candidates_def)
  have single: "wc_to_repo_impl c (WorkingCopyPath (path_of ws)) selected =
      (if wc_mappings c = [] then ok (Some (path_of ws))
       else case src_candidates c ws of [] \<Rightarrow> ok None | [ns] \<Rightarrow> ok (Some (path_of ns)) | _ \<Rightarrow> undefined)"
    if "length (src_candidates c ws) < 2" "wc_mappings c \<noteq> []"
    using that by (auto simp: wc_to_repo_impl_def r1(1) r2(1) r1(2) cand split: list.splits)
  show ?thesis
  proof (cases "wc_mappings c = [] \<or> length (src_candidates c ws) < 2")
    case True
    then show ?thesis using single by (auto simp: wc_to_repo_impl_def split: list.splits)
  next
    case False
    then obtain n1 n2 nss where two: "src_candidates c ws = n1 # n2 # nss"
      by (metis One_nat_def Suc_1 length_0_conv length_Suc_conv less_2_cases_iff list.exhaust not_less_eq length_Cons)
    have ok12: "names_ok n1" "names_ok n2" using src_candidates_ok[OF assms(1,2)] two by auto
    have rest2: "List.map_filter (\<lambda>m. to_src m ws) rest2 = nss"
    proof -
      have "map path_of (List.map_filter (\<lambda>m. to_src m ws) rest2) = map path_of nss"
        using r1(2) r2(2) cand two by (simp add: map_filter_map_option)
      moreover have "list_all names_ok (List.map_filter (\<lambda>m. to_src m ws) rest2)"
        using names r1(3) r2(3) by (auto simp: List.map_filter_def list_all_iff)
      moreover have "list_all names_ok nss" using src_candidates_ok[OF assms(1,2)] two by simp
      ultimately show ?thesis
        by (intro map_inj_on[of path_of]) (auto simp: inj_on_def list_all_iff)
    qed
    let ?S = "Inl (path_of n1) # Inl (path_of n2) # map Inr rest2"
    have k: "select_candidate selected (path_of ws) x = Returns (?k x)" if "x \<in> set ?S" for x
    proof (cases x)
      case (Inl p)
      then show ?thesis using that ok12 sel by (auto simp: select_candidate_def)
    next
      case (Inr m)
      then have "m \<in> set (wc_mappings c)" using that r1(3) r2(3) by auto
      then show ?thesis using Inr f names sel
        by (cases "to_src m ws") (auto simp: select_candidate_def)
    qed
    have "List.map_filter (\<lambda>m. Option.bind (to_src m ws) ?keep) ms = map path_of (filter P (List.map_filter (\<lambda>m. to_src m ws) ms))" for ms
      by (induction ms) (auto simp: map_filter_Cons List.map_filter_simps split: option.splits)
    then have "List.map_filter ?k (map Inr rest2) = map path_of (filter P nss)"
      using rest2 by (simp add: map_filter_map)
    then have S: "List.map_filter ?k ?S = map path_of (filter P (n1 # n2 # nss))"
      using ok12 by (simp add: map_filter_Cons)
    define ps where "ps = map path_of (filter P (n1 # n2 # nss))"
    obtain rest3 where r3: "next_some (select_candidate selected (path_of ws)) ?S =
        Returns (case ps of [] \<Rightarrow> None | y # _ \<Rightarrow> Some (y, rest3))"
        "List.map_filter ?k rest3 = tl ps" "set rest3 \<subseteq> set ?S"
      using next_some_exact[of ?S "select_candidate selected (path_of ws)" ?k] k unfolding S ps_def[symmetric] by blast
    obtain rest4 where r4: "next_some (select_candidate selected (path_of ws)) rest3 =
        Returns (case tl ps of [] \<Rightarrow> None | y # _ \<Rightarrow> Some (y, rest4))"
      using next_some_exact[of rest3 "select_candidate selected (path_of ws)" ?k] k r3(3) unfolding r3(2) by blast
    have "wc_to_repo_impl c (WorkingCopyPath (path_of ws)) selected =
        (case ps of [] \<Rightarrow> ok None | p # ps' \<Rightarrow> if ps' \<noteq> [] then err AmbiguousPhysical else ok (Some p))"
      using False two r1(2) r4
      by (simp add: wc_to_repo_impl_def r1(1) r2(1) cand r3(1) del: next_some.simps split: list.splits)
    also have "\<dots> = (case filter P (src_candidates c ws) of
           [] \<Rightarrow> ok None | [ns] \<Rightarrow> ok (Some (path_of ns)) | _ \<Rightarrow> err AmbiguousPhysical)"
      unfolding ps_def two by (simp del: filter.simps split: list.splits)
    finally show ?thesis using False two by (simp del: filter.simps)
  qed
qed

section \<open>Validated configurations\<close>

type_synonym ('ge, 'de, 'a) outcome = "(('ge, 'de) patterns_error, 'a) result exec"
type_synonym ('ge, 'de) checked = "('ge, 'de, unit) outcome"

lemma check_pairs_ok:
  "check_pairs E c ms = (ok () :: ('ge, 'de) checked) \<Longrightarrow> i < j \<Longrightarrow> j < length ms \<Longrightarrow>
     check_pair E c (ms ! i) (ms ! j) = (ok () :: ('ge, 'de) checked)"
proof (induction ms arbitrary: i j)
  case (Cons m ms)
  then show ?case by (cases i; cases j) (auto simp: er_bind_ok for_each_ok)
qed simp

definition patterns_ok :: "('g, 'r, 'ge, 'x) path_engine_scheme \<Rightarrow> wc_patterns \<Rightarrow> bool" where
  "patterns_ok E c \<longleftrightarrow> path_engine_law E \<and> rules_ok E c \<and> mappings_ok c"

text \<open>What each check of a pair establishes, on lists of names.\<close>

lemma check_sources_sound:
  assumes "patterns_ok E c" "mapping_ok a" "mapping_ok b" "check_sources E c a b = ok ()"
    and "in_domain (src a) (mapping_recursive a) ns" "in_domain (src b) (mapping_recursive b) ns"
  shows "\<not> rules_sel E c ns"
proof -
  note c = assms(1)[unfolded patterns_ok_def]
  obtain p r where p: "domain_overlap (mapping_source a) (mapping_recursive a) (mapping_source b) (mapping_recursive b) = Some (path_of p, r)"
      "names_ok p" "in_domain p r ns"
    using domain_overlap_of[OF mapping_paths(3)[OF assms(2)] mapping_paths(3)[OF assms(3)] assms(5,6)]
    by (auto simp flip: mapping_paths[OF assms(2)] mapping_paths[OF assms(3)])
  obtain cov where cov: "rules_coverage E c (path_of p) r = Returns cov" "cov_allows cov (rules_sel E c ns)"
    using rules_coverage_sound[of E c p r] c p by blast
  then have "cov = CovNone" using assms(4) p(1) by (simp add: check_sources_def split: if_splits)
  with cov(2) show ?thesis by simp
qed

lemma translate_unwrap:
  assumes "mapping_ok m" "names_ok p" "mapped m q p"
  shows "exec_bind (translate (path_of p) (as_repo_path (mapping_destination m)) (mapping_source m) (mapping_recursive m)) unwrap =
    Returns (path_of q)"
  using assms(3) mapped_domains[OF assms(3)]
  by (auto simp: mapping_paths[OF assms(1)] translate_of assms(2) unwrap_def mapped_def)

lemma check_destinations_core:
  assumes "patterns_ok E c" "mapping_ok a" "mapping_ok b" "check_destinations E c a b = ok ()"
    and overlap: "domain_overlap (as_repo_path (mapping_destination a)) (mapping_recursive a)
        (as_repo_path (mapping_destination b)) (mapping_recursive b) = Some (path_of p, r)"
    and p: "names_ok p" "in_domain (dst a) (mapping_recursive a) p" "in_domain (dst b) (mapping_recursive b) p"
    and "mapped a pa wa" "in_domain p r wa" "rules_sel E c pa" "mapped b pb wb" "in_domain p r wb" "rules_sel E c pb"
  shows False
proof -
  note c = assms(1)[unfolded patterns_ok_def]
  have image: "\<exists>q. mapped m q p \<and> names_ok q \<and> in_domain q r ns"
    if m: "mapped m ns ws" "mapping_ok m" "in_domain (dst m) (mapping_recursive m) p" "in_domain p r ws" for m ns ws
  proof -
    obtain t0 where t0: "p = dst m @ t0" "mapping_recursive m \<or> t0 = []" using m(3) by (auto simp: in_domain_def prefix_def)
    then have q: "mapped m (src m @ t0) p" by (auto simp: mapped_def)
    moreover have "names_ok (src m @ t0)" using mapped_names[OF q m(2)] p(1) by simp
    moreover have "in_domain (src m @ t0) r ns" using m(1,4) t0 by (auto simp: mapped_def in_domain_def prefix_def)
    ultimately show ?thesis by blast
  qed
  obtain qa qb where q: "mapped a qa p" "names_ok qa" "in_domain qa r pa" "mapped b qb p" "names_ok qb" "in_domain qb r pb"
    using image[OF assms(9,2) p(2) assms(10)] image[OF assms(12,3) p(3) assms(13)] by blast
  obtain ca cb where cov: "rules_coverage E c (path_of qa) r = Returns ca" "cov_allows ca (rules_sel E c pa)"
      "rules_coverage E c (path_of qb) r = Returns cb" "cov_allows cb (rules_sel E c pb)"
    using rules_coverage_sound[of E c qa r] rules_coverage_sound[of E c qb r] c q by metis
  then have "ca \<noteq> CovNone" "cb \<noteq> CovNone" using assms(11,14) by auto
  then show False using assms(4) overlap cov(1,3)
    by (simp add: check_destinations_def translate_unwrap[OF assms(2) p(1) q(1)] translate_unwrap[OF assms(3) p(1) q(4)])
qed

lemma destinations_overlap:
  assumes "mapping_ok a" "mapping_ok b" "in_domain (dst a) (mapping_recursive a) ws" "in_domain (dst b) (mapping_recursive b) ws"
  obtains p r where "domain_overlap (as_repo_path (mapping_destination a)) (mapping_recursive a)
        (as_repo_path (mapping_destination b)) (mapping_recursive b) = Some (path_of p, r)"
      "names_ok p" "in_domain (dst a) (mapping_recursive a) p" "in_domain (dst b) (mapping_recursive b) p" "in_domain p r ws"
      "mapping_recursive a \<and> mapping_recursive b \<longrightarrow> r"
proof -
  obtain p r where p: "domain_overlap (path_of (dst a)) (mapping_recursive a) (path_of (dst b)) (mapping_recursive b) = Some (path_of p, r)"
      "names_ok p" "in_domain p r ws" "in_domain (dst a) (mapping_recursive a) p" "in_domain (dst b) (mapping_recursive b) p"
    using domain_overlap_of[OF mapping_paths(4)[OF assms(1)] mapping_paths(4)[OF assms(2)] assms(3,4)] by blast
  moreover have "mapping_recursive a \<and> mapping_recursive b \<longrightarrow> r"
    using p(1) by (auto simp: domain_overlap_def split: if_splits)
  ultimately show ?thesis using that by (simp add: mapping_paths(2) assms(1,2))
qed

lemma check_destinations_sound:
  assumes "patterns_ok E c" "mapping_ok a" "mapping_ok b" "check_destinations E c a b = ok ()"
    and "mapped a pa wa" "rules_sel E c pa" "mapped b pb wb" "rules_sel E c pb"
    and "wa = wb \<or> mapping_recursive a \<and> mapping_recursive b \<and> prefix (dst b) wa \<and> prefix (dst a) wb"
  shows False
proof (cases "wa = wb")
  case True
  then obtain p r where "domain_overlap (as_repo_path (mapping_destination a)) (mapping_recursive a)
        (as_repo_path (mapping_destination b)) (mapping_recursive b) = Some (path_of p, r)"
      "names_ok p" "in_domain (dst a) (mapping_recursive a) p" "in_domain (dst b) (mapping_recursive b) p" "in_domain p r wa"
    using destinations_overlap[OF assms(2,3), of wa] mapped_domains[OF assms(5)] mapped_domains[OF assms(7)] by blast
  then show False using check_destinations_core[OF assms(1-4), of p r pa wa pb wb] assms(5-8) True by blast
next
  case False
  then have rec: "mapping_recursive a" "mapping_recursive b" "prefix (dst b) wa" "prefix (dst a) wb" using assms(9) by auto
  then have d: "in_domain (dst a) (mapping_recursive a) wa" "in_domain (dst b) (mapping_recursive b) wa"
      "prefix (dst a) wa" "prefix (dst b) wb"
    using mapped_domains[OF assms(5)] mapped_domains[OF assms(7)] by (auto simp: in_domain_def)
  obtain p r where p: "domain_overlap (as_repo_path (mapping_destination a)) (mapping_recursive a)
        (as_repo_path (mapping_destination b)) (mapping_recursive b) = Some (path_of p, r)"
      "names_ok p" "in_domain (dst a) (mapping_recursive a) p" "in_domain (dst b) (mapping_recursive b) p" "in_domain p r wa" "r"
    using destinations_overlap[OF assms(2,3) d(1,2)] rec by blast
  have "p = dst a \<or> p = dst b"
  proof -
    have "path_of p = path_of (dst a) \<or> path_of p = path_of (dst b)"
      using p(1) mapping_paths(2)[OF assms(2)] mapping_paths(2)[OF assms(3)] by (auto simp: domain_overlap_def split: if_splits)
    then show ?thesis using p(2) mapping_paths(4)[OF assms(2)] mapping_paths(4)[OF assms(3)] by simp
  qed
  then have "in_domain p r wb" using rec d(4) p(6) by (auto simp: in_domain_def)
  then show False using check_destinations_core[OF assms(1-4) p(1-4) assms(5) p(5) assms(6,7) _ assms(8)] by blast
qed

lemma check_parents_sound:
  assumes "patterns_ok E c" "mapping_ok a" "mapping_ok b" "check_parents E c (a, b) = (ok () :: ('ge, 'de) checked)"
    and "in_domain (src b) (mapping_recursive b) q" "rules_sel E c q"
    and "mapped a p w" "strict_prefix w (dst b)" "w \<noteq> []" "\<not> prefix p (src b)"
  shows "\<not> rules_sel E c p"
proof -
  note c = assms(1)[unfolded patterns_ok_def]
  have w: "names_ok w" using assms(8) mapping_paths(4)[OF assms(3)] by (auto simp: strict_prefix_def prefix_def)
  have p: "names_ok p" using mapped_names[OF assms(7,2)] w by simp
  obtain cov where "rules_coverage E c (path_of (src b)) (mapping_recursive b) = Returns cov" "cov \<noteq> CovNone"
    using rules_coverage_sound[of E c "src b" "mapping_recursive b"] c assms(5,6) mapping_paths(3)[OF assms(3)] by fastforce
  then have all: "\<forall>par \<in> set (drop 1 (path_ancestors (path_of (dst b)))). check_parent E c a b par = (ok () :: ('ge, 'de) checked)"
    using assms(4) by (simp add: check_parents_def mapping_paths[OF assms(3)] for_each_ok)
  obtain k where k: "w = take k (dst b)" "k < length (dst b)"
    using assms(8) by (auto simp: strict_prefix_def prefix_def intro!: that[of "length w"])
  have "path_of w \<in> set (drop 1 (path_ancestors (path_of (dst b))))"
    using k mapping_paths(4)[OF assms(3)] by (auto simp: ancestors_of rev_map)
  with all have ok: "check_parent E c a b (path_of w) = (ok () :: ('ge, 'de) checked)" by blast
  have tr: "translate (path_of w) (as_repo_path (mapping_destination a)) (mapping_source a) (mapping_recursive a) = Returns (Some (path_of p))"
    using mapped_domains[OF assms(7)] assms(7) w
    by (auto simp: mapping_paths[OF assms(2)] translate_of mapped_def)
  have "\<not> path_starts_with (mapping_source b) (path_of p)"
    using assms(10) p mapping_paths[OF assms(3)] by (simp add: starts_with_of)
  then show ?thesis using ok tr w assms(9) rules_coverage_single[of E c p] c p
    by (auto simp: check_parent_def is_root_of split: if_splits)
qed

text \<open>The invariant of the types: every path is well formed.\<close>

definition patterns_typed :: "wc_patterns \<Rightarrow> bool" where
  "patterns_typed c \<longleftrightarrow> list_all (\<lambda>r. expr_paths_ok (rule_expression r)) (wc_rules c) \<and> mappings_ok c"

definition accepted :: "('g, 'r, 'ge, 'x) path_engine_scheme \<Rightarrow> wc_patterns \<Rightarrow> bool" where
  "accepted E c \<longleftrightarrow> path_engine_law E \<and> patterns_typed c \<and> patterns_validate E c = (ok () :: ('ge, unit) checked)"

lemma accepted_patterns_ok:
  fixes E :: "('g, 'r, 'c, 'x) path_engine_scheme"
  assumes "accepted E c"
  shows "patterns_ok E c"
proof -
  have "\<forall>r \<in> set (wc_rules c). expr_ok E (rule_expression r)"
  proof
    fix r assume r: "r \<in> set (wc_rules c)"
    have "Returns (expression_validate E (rule_expression r) 0) = (ok () :: ('c, unit) checked)"
      using assms r by (simp add: accepted_def patterns_validate_def er_bind_ok for_each_ok)
    then have "expression_validate E (rule_expression r) 0 = (Inr () :: (('c, unit) patterns_error, unit) result)"
      by (simp add: ok_def)
    then show "expr_ok E (rule_expression r)"
      using validate_expr_ok(1) assms r by (auto simp: accepted_def patterns_typed_def list_all_iff)
  qed
  then show ?thesis using assms by (simp add: accepted_def patterns_typed_def patterns_ok_def rules_ok_def list_all_iff)
qed

lemma accepted_pair:
  fixes E :: "('g, 'r, 'ge, 'x) path_engine_scheme"
  assumes "accepted E c" "i < length (wc_mappings c)" "j < length (wc_mappings c)" "i \<noteq> j"
  defines "a \<equiv> wc_mappings c ! i" and "b \<equiv> wc_mappings c ! j"
  shows "mapped a ns u \<Longrightarrow> mapped b ns v \<Longrightarrow> \<not> rules_sel E c ns"
    and "mapped a p u \<Longrightarrow> mapped b q v \<Longrightarrow> rules_sel E c p \<Longrightarrow> rules_sel E c q \<Longrightarrow>
      \<not> (u = v \<or> mapping_recursive a \<and> mapping_recursive b \<and> prefix (dst b) u \<and> prefix (dst a) v)"
    and "check_parents E c (a, b) = (ok () :: ('ge, unit) checked)"
proof -
  note c = accepted_patterns_ok[OF assms(1)]
  have m: "mapping_ok a" "mapping_ok b"
    using c assms(2,3) by (auto simp: patterns_ok_def mappings_ok_def list_all_iff a_def b_def)
  have pair: "check_pair E c (wc_mappings c ! k) (wc_mappings c ! l) = (ok () :: ('ge, unit) checked)"
    if "k < l" "l < length (wc_mappings c)" for k l
    using check_pairs_ok[of E c "wc_mappings c" k l] assms(1) that by (auto simp: accepted_def patterns_validate_def er_bind_ok)
  consider "check_pair E c a b = (ok () :: ('ge, unit) checked)" | "check_pair E c b a = (ok () :: ('ge, unit) checked)"
    using pair[of i j] pair[of j i] assms(2-4) unfolding a_def b_def by linarith
  then consider
      "check_sources E c a b = (ok () :: ('ge, unit) checked)" "check_destinations E c a b = (ok () :: ('ge, unit) checked)"
    | "check_sources E c b a = (ok () :: ('ge, unit) checked)" "check_destinations E c b a = (ok () :: ('ge, unit) checked)"
    by cases (auto simp: check_pair_def er_bind_ok)
  note checks = this
  show "\<not> rules_sel E c ns" if "mapped a ns u" "mapped b ns v"
    using checks check_sources_sound[OF c m] check_sources_sound[OF c m(2,1)] mapped_domains that by metis
  show "\<not> (u = v \<or> mapping_recursive a \<and> mapping_recursive b \<and> prefix (dst b) u \<and> prefix (dst a) v)"
    if h: "mapped a p u" "mapped b q v" "rules_sel E c p" "rules_sel E c q"
  proof
    assume o: "u = v \<or> mapping_recursive a \<and> mapping_recursive b \<and> prefix (dst b) u \<and> prefix (dst a) v"
    show False
      using checks
    proof cases
      case 1
      then show False using check_destinations_sound[OF c m 1(2) h(1,3,2,4) o] by blast
    next
      case 2
      have "v = u \<or> mapping_recursive b \<and> mapping_recursive a \<and> prefix (dst a) v \<and> prefix (dst b) u" using o by blast
      then show False using check_destinations_sound[OF c m(2,1) 2(2) h(2,4,1,3)] by blast
    qed
  qed
  show "check_parents E c (a, b) = (ok () :: ('ge, unit) checked)"
    using pair[of i j] pair[of j i] assms(2-4) by (cases "i < j") (auto simp: a_def b_def check_pair_def er_bind_ok for_each_ok)
qed

lemma map_filter_two:
  "List.map_filter g xs = y1 # y2 # ys \<Longrightarrow>
     \<exists>i j. i < j \<and> j < length xs \<and> g (xs ! i) = Some y1 \<and> g (xs ! j) = Some y2"
proof (induction xs)
  case (Cons x xs)
  show ?case
  proof (cases "g x")
    case None
    then obtain i j where "i < j" "j < length xs" "g (xs ! i) = Some y1" "g (xs ! j) = Some y2"
      using Cons by (auto simp: map_filter_Cons)
    then show ?thesis by (intro exI[of _ "Suc i"] exI[of _ "Suc j"]) simp
  next
    case (Some y)
    then have "y = y1" "y2 \<in> set (List.map_filter g xs)" using Cons.prems by (auto simp: map_filter_Cons)
    then obtain j where "j < length xs" "g (xs ! j) = Some y2" unfolding in_map_filter by (metis in_set_conv_nth)
    then show ?thesis using Some \<open>y = y1\<close> by (intro exI[of _ "0 :: nat"] exI[of _ "Suc j"]) simp
  qed
qed (simp add: List.map_filter_simps)

lemma filter_map_filter:
  "filter P (List.map_filter g xs) = List.map_filter (\<lambda>x. case g x of Some y \<Rightarrow> if P y then Some y else None | None \<Rightarrow> None) xs"
  by (induction xs) (auto simp: map_filter_Cons List.map_filter_simps split: option.splits)

lemma selected_one_destination:
  assumes "accepted E c" "rules_sel E c ns"
  shows "length (dst_candidates c ns) < 2"
proof (rule ccontr)
  assume "\<not> length (dst_candidates c ns) < 2"
  then obtain u v ws where "dst_candidates c ns = u # v # ws"
    by (metis One_nat_def Suc_1 length_Cons less_2_cases_iff list.exhaust list.size(3) not_less_eq zero_less_Suc)
  then obtain i j where "i < j" "j < length (wc_mappings c)" "mapped (wc_mappings c ! i) ns u" "mapped (wc_mappings c ! j) ns v"
    using map_filter_two[of "\<lambda>m. to_dst m ns" "wc_mappings c" u v ws] by (auto simp: dst_candidates_def to_dst_iff)
  then show False using accepted_pair(1)[OF assms(1), of i j ns u v] assms(2) by simp
qed

lemma selected_one_source:
  assumes "accepted E c"
  shows "length (filter (rules_sel E c) (src_candidates c ws)) < 2"
proof (rule ccontr)
  let ?g = "\<lambda>m. case to_src m ws of Some y \<Rightarrow> if rules_sel E c y then Some y else None | None \<Rightarrow> None"
  assume "\<not> length (filter (rules_sel E c) (src_candidates c ws)) < 2"
  then obtain u v vs where "filter (rules_sel E c) (src_candidates c ws) = u # v # vs"
    by (metis One_nat_def Suc_1 length_Cons less_2_cases_iff list.exhaust list.size(3) not_less_eq zero_less_Suc)
  then obtain i j where "i < j" "j < length (wc_mappings c)" "?g (wc_mappings c ! i) = Some u" "?g (wc_mappings c ! j) = Some v"
    using map_filter_two[of ?g "wc_mappings c" u v vs] by (auto simp: src_candidates_def filter_map_filter)
  then show False using accepted_pair(2)[OF assms(1), of i j u ws v ws]
    by (auto simp: to_src_iff split: option.splits if_splits)
qed

lemma accepted_selected:
  "accepted E c \<Longrightarrow> names_ok ns \<Longrightarrow> is_selected E c (path_of ns) = Returns (rules_sel E c ns)"
  using accepted_patterns_ok[of E c] by (simp add: patterns_ok_def is_selected_exact)

lemma short_list_cases: "length xs < 2 \<Longrightarrow> (xs = [] \<Longrightarrow> P) \<Longrightarrow> (\<And>x. xs = [x] \<Longrightarrow> P) \<Longrightarrow> P"
  by (cases xs rule: remdups_adj.cases) auto

lemma repo_to_wc_exact:
  assumes "accepted E c" "names_ok ns" "wc_mappings c \<noteq> []"
  shows "\<exists>r. repo_to_wc E c (path_of ns) = ok r"
    and "rules_sel E c ns \<Longrightarrow>
      repo_to_wc E c (path_of ns) = ok (Some (WorkingCopyPath (path_of ws))) \<longleftrightarrow> (\<exists>x \<in> set (dst_candidates c ns). path_of x = path_of ws)"
proof -
  have eq: "repo_to_wc E c (path_of ns) =
      (case dst_candidates c ns of [] \<Rightarrow> ok None | [x] \<Rightarrow> ok (Some (WorkingCopyPath (path_of x)))
       | _ \<Rightarrow> if rules_sel E c ns then err AmbiguousCanonical else ok None)"
    using repo_to_wc_impl_exact[of c ns "is_selected E c" "rules_sel E c ns"] accepted_selected[OF assms(1,2)]
      accepted_patterns_ok[OF assms(1)] assms(2,3)
    by (simp add: repo_to_wc_def patterns_ok_def)
  show "\<exists>r. repo_to_wc E c (path_of ns) = ok r"
    unfolding eq using selected_one_destination[OF assms(1), of ns] by (auto split: list.splits)
  show "repo_to_wc E c (path_of ns) = ok (Some (WorkingCopyPath (path_of ws))) \<longleftrightarrow> (\<exists>x \<in> set (dst_candidates c ns). path_of x = path_of ws)"
    if "rules_sel E c ns"
    unfolding eq by (rule short_list_cases[OF selected_one_destination[OF assms(1) that]]) simp_all
qed

lemma wc_to_repo_exact:
  assumes "accepted E c" "names_ok ws" "wc_mappings c \<noteq> []"
  shows "\<exists>r. wc_to_repo E c (WorkingCopyPath (path_of ws)) = ok r"
    and "names_ok ns \<Longrightarrow> rules_sel E c ns \<Longrightarrow>
      wc_to_repo E c (WorkingCopyPath (path_of ws)) = ok (Some (path_of ns)) \<longleftrightarrow> ns \<in> set (src_candidates c ws)"
proof -
  let ?cs = "src_candidates c ws" and ?P = "rules_sel E c"
  have eq: "wc_to_repo E c (WorkingCopyPath (path_of ws)) =
      (case ?cs of [] \<Rightarrow> ok None | [x] \<Rightarrow> ok (Some (path_of x))
       | _ \<Rightarrow> (case filter ?P ?cs of [] \<Rightarrow> ok None | [x] \<Rightarrow> ok (Some (path_of x)) | _ \<Rightarrow> err AmbiguousPhysical))"
    using wc_to_repo_impl_exact[of c ws "is_selected E c" "rules_sel E c"] accepted_selected[OF assms(1)]
      accepted_patterns_ok[OF assms(1)] assms(2,3)
    by (simp add: wc_to_repo_def patterns_ok_def)
  note one = selected_one_source[OF assms(1), of ws]
  have names: "names_ok x" if "x \<in> set ?cs" for x
    using src_candidates_ok[of c ws] accepted_patterns_ok[OF assms(1)] assms(2) that
    unfolding patterns_ok_def list_all_iff[of names_ok] by blast
  have inner: "(\<exists>r. (case filter ?P ?cs of [] \<Rightarrow> ok None | [x] \<Rightarrow> ok (Some (path_of x)) | _ \<Rightarrow> err AmbiguousPhysical) = ok r) \<and>
      (names_ok ns \<longrightarrow> ?P ns \<longrightarrow>
        ((case filter ?P ?cs of [] \<Rightarrow> ok None | [x] \<Rightarrow> ok (Some (path_of x)) | _ \<Rightarrow> err AmbiguousPhysical) = ok (Some (path_of ns)) \<longleftrightarrow>
         ns \<in> set ?cs))" for ns
  proof (rule short_list_cases[OF one])
    assume "filter ?P ?cs = []"
    then show ?thesis by (auto simp: filter_empty_conv)
  next
    fix x assume x: "filter ?P ?cs = [x]"
    have "{y \<in> set ?cs. ?P y} = {x}" using arg_cong[OF x, of set] by (simp only: set_filter list.set)
    then have "x \<in> set ?cs" "ns \<in> set ?cs \<and> ?P ns \<longleftrightarrow> ns = x" by blast+
    then show ?thesis using x names by auto
  qed
  show "\<exists>r. wc_to_repo E c (WorkingCopyPath (path_of ws)) = ok r"
    unfolding eq using inner by (auto split: list.splits)
  show "wc_to_repo E c (WorkingCopyPath (path_of ws)) = ok (Some (path_of ns)) \<longleftrightarrow> ns \<in> set ?cs"
    if "names_ok ns" "?P ns"
    unfolding eq using inner[of ns] that names by (auto split: list.splits)
qed

text \<open>
  (C9) A configuration that passes validation lays the selected files out invertibly: no translation
  in either direction reports an ambiguity or panics, and a selected file has the location \<open>w\<close> in the
  working copy exactly if reading \<open>w\<close> back gives that file.
\<close>

theorem layout_roundtrip:
  fixes E :: "('g, 'r, 'ge, 'x) path_engine_scheme"
  assumes "accepted E c" "path_ok p" "path_ok w"
  shows "(\<exists>r. repo_to_wc E c p = (ok r :: ('ge, 'de, WorkingCopyPath option) outcome)) \<and>
    (\<exists>r. wc_to_repo E c (WorkingCopyPath w) = (ok r :: ('ge, 'de, RepoPath option) outcome)) \<and>
    (is_selected E c p = Returns True \<longrightarrow>
      (repo_to_wc E c p = (ok (Some (WorkingCopyPath w)) :: ('ge, 'de, WorkingCopyPath option) outcome) \<longleftrightarrow>
       wc_to_repo E c (WorkingCopyPath w) = (ok (Some p) :: ('ge, 'de, RepoPath option) outcome)))"
proof (cases "wc_mappings c = []")
  case True
  then show ?thesis by (auto simp: repo_to_wc_def repo_to_wc_impl_def wc_to_repo_def wc_to_repo_impl_def)
next
  case False
  from assms(2) obtain ns where p: "p = path_of ns" "names_ok ns" by (rule path_cases)
  from assms(3) obtain ws where w: "w = path_of ws" "names_ok ws" by (rule path_cases)
  have m: "names_ok x" if "mapped m ns x" "m \<in> set (wc_mappings c)" for m x
    using mapped_names[OF that(1)] that(2) p(2) accepted_patterns_ok[OF assms(1)]
    by (auto simp: patterns_ok_def mappings_ok_def list_all_iff)
  have "(\<exists>x \<in> set (dst_candidates c ns). path_of x = path_of ws) \<longleftrightarrow> (\<exists>m \<in> set (wc_mappings c). mapped m ns ws)"
  proof -
    have "path_of x = path_of ws \<longleftrightarrow> x = ws" if "x \<in> set (dst_candidates c ns)" for x
      using that m w(2) by (auto simp: dst_candidates_def in_map_filter to_dst_iff)
    then have "(\<exists>x \<in> set (dst_candidates c ns). path_of x = path_of ws) \<longleftrightarrow> ws \<in> set (dst_candidates c ns)" by auto
    then show ?thesis by (simp add: dst_candidates_def in_map_filter to_dst_iff)
  qed
  moreover have "ns \<in> set (src_candidates c ws) \<longleftrightarrow> (\<exists>m \<in> set (wc_mappings c). mapped m ns ws)"
    by (simp add: src_candidates_def in_map_filter to_src_iff)
  moreover have "\<exists>r. repo_to_wc E c p = (ok r :: ('ge, 'de, WorkingCopyPath option) outcome)"
      "\<exists>r. wc_to_repo E c (WorkingCopyPath w) = (ok r :: ('ge, 'de, RepoPath option) outcome)"
    unfolding p(1) w(1) by (rule repo_to_wc_exact(1)[OF assms(1) p(2) False], rule wc_to_repo_exact(1)[OF assms(1) w(2) False])
  moreover have "repo_to_wc E c p = (ok (Some (WorkingCopyPath w)) :: ('ge, 'de, WorkingCopyPath option) outcome) \<longleftrightarrow>
        (\<exists>x \<in> set (dst_candidates c ns). path_of x = path_of ws)"
      "wc_to_repo E c (WorkingCopyPath w) = (ok (Some p) :: ('ge, 'de, RepoPath option) outcome) \<longleftrightarrow> ns \<in> set (src_candidates c ws)"
    if "rules_sel E c ns"
    unfolding p(1) w(1)
    by (rule repo_to_wc_exact(2)[OF assms(1) p(2) False that], rule wc_to_repo_exact(2)[OF assms(1) w(2) False p(2) that])
  ultimately show ?thesis using accepted_selected[OF assms(1) p(2)] p(1) by simp
qed

lemma no_collision:
  assumes "accepted E c" "i < length (wc_mappings c)" "j < length (wc_mappings c)"
    and "mapped (wc_mappings c ! i) p u" "mapped (wc_mappings c ! j) q v" "rules_sel E c p" "rules_sel E c q"
    and "mapping_recursive (wc_mappings c ! i)" "u \<noteq> []" "prefix u v"
  shows "prefix p q"
proof (cases "i = j")
  case True
  then show ?thesis using assms(4,5,10) by (auto simp: mapped_def)
next
  case False
  let ?a = "wc_mappings c ! i" and ?b = "wc_mappings c ! j"
  note c = accepted_patterns_ok[OF assms(1)]
  have m: "mapping_ok ?a" "mapping_ok ?b"
    using c assms(2,3) by (auto simp: patterns_ok_def mappings_ok_def list_all_iff)
  have d: "prefix (dst ?b) v" "prefix (src ?b) q" "prefix (dst ?a) u"
    using assms(4,5) by (auto simp: mapped_def)
  then consider "strict_prefix u (dst ?b)" | "prefix (dst ?b) u"
    using assms(10) prefix_same_cases[of u v "dst ?b"] by (auto simp: strict_prefix_def)
  then show ?thesis
  proof cases
    case 1
    have "in_domain (src ?b) (mapping_recursive ?b) q" using mapped_domains[OF assms(5)] by blast
    then have "prefix p (src ?b)"
      using check_parents_sound[OF c m accepted_pair(3)[OF assms(1-3) False] _ assms(7,4) 1 assms(9)] assms(6) by blast
    then show ?thesis using d(2) by (rule prefix_order.trans)
  next
    case 2
    have "u = v \<or> mapping_recursive ?b" using 2 assms(5,10) by (auto simp: mapped_def prefix_def)
    moreover have "prefix (dst ?a) v" using d(3) assms(10) by (rule prefix_order.trans)
    ultimately show ?thesis
      using accepted_pair(2)[OF assms(1-3) False assms(4-7)] assms(8) 2 by blast
  qed
qed

lemma selected_mapped:
  fixes E :: "('g, 'r, 'ge, 'x) path_engine_scheme"
  assumes "accepted E c" "wc_mappings c \<noteq> []" "names_ok ns" "names_ok ws" "rules_sel E c ns"
    and "repo_to_wc E c (path_of ns) = (ok (Some (WorkingCopyPath (path_of ws))) :: ('ge, 'de, WorkingCopyPath option) outcome)"
  shows "\<exists>i < length (wc_mappings c). mapped (wc_mappings c ! i) ns ws"
proof -
  obtain x m where x: "path_of x = path_of ws" "m \<in> set (wc_mappings c)" "mapped m ns x"
    using repo_to_wc_exact(2)[OF assms(1,3,2,5), of ws] assms(6) by (auto simp: dst_candidates_def in_map_filter to_dst_iff)
  have "mapping_ok m" using accepted_patterns_ok[OF assms(1)] x(2) by (simp add: patterns_ok_def mappings_ok_def list_all_iff)
  then have "x = ws" using x(1,3) mapped_names assms(3,4) by auto
  then show ?thesis using x(2,3) by (metis in_set_conv_nth)
qed

text \<open>
  (C10) In a validated layout of directory mappings, the files of one tree fit together: if two selected
  files lie at different places of the tree, neither inside the other, then the location of the first
  in the working copy is neither the location of the second nor a directory above it, unless it is
  the root itself. So no file ever takes the place of a directory that another file needs.
\<close>

theorem layout_no_collision:
  fixes E :: "('g, 'r, 'ge, 'x) path_engine_scheme"
  assumes "accepted E c" "list_all mapping_recursive (wc_mappings c)" "path_ok p" "path_ok q" "path_ok u" "path_ok v"
    and "is_selected E c p = Returns True" "is_selected E c q = Returns True"
    and "repo_to_wc E c p = (ok (Some (WorkingCopyPath u)) :: ('ge, 'de, WorkingCopyPath option) outcome)"
    and "repo_to_wc E c q = (ok (Some (WorkingCopyPath v)) :: ('ge, 'de, WorkingCopyPath option) outcome)"
    and "\<not> path_starts_with q p" "\<not> is_root u"
  shows "\<not> path_starts_with v u"
proof
  assume over: "path_starts_with v u"
  show False
  proof (cases "wc_mappings c = []")
    case True
    then show False using assms(9,10,11) over by (simp add: repo_to_wc_def repo_to_wc_impl_def)
  next
    case False
    obtain ns ms us vs where n: "p = path_of ns" "names_ok ns" "q = path_of ms" "names_ok ms"
        "u = path_of us" "names_ok us" "v = path_of vs" "names_ok vs" using assms(3-6) by (metis path_cases)
    have sel: "rules_sel E c ns" "rules_sel E c ms"
      using assms(7,8) accepted_selected[OF assms(1)] n by auto
    obtain i j where ij: "i < length (wc_mappings c)" "mapped (wc_mappings c ! i) ns us"
        "j < length (wc_mappings c)" "mapped (wc_mappings c ! j) ms vs"
      using selected_mapped[OF assms(1) False n(2,6) sel(1)] selected_mapped[OF assms(1) False n(4,8) sel(2)] assms(9,10) n
      by blast
    have "mapping_recursive (wc_mappings c ! i)" using assms(2) ij(1) by (simp add: list_all_length)
    then have "prefix ns ms"
      using no_collision[OF assms(1) ij(1,3,2,4) sel] assms(12) over n by (simp add: is_root_of starts_with_of)
    then show False using assms(11) n by (simp add: starts_with_of)
  qed
qed

text \<open>
  (C24) Compiling the selection does not change it: the matcher that groups the paths and globs of an
  expression and balances its unions, and the direct evaluation of the expression, answer the same on
  every path, and neither panics once the expression has been validated.
\<close>

theorem compiled_selection_equivalent:
  assumes "path_engine_law E" "expr_paths_ok e" "path_ok p"
    and "expression_validate E e k = (Inr () :: (('ge, 'de) patterns_error, unit) result)"
  shows "\<exists>m. expression_to_matcher E e = Returns m \<and> expression_matches E e p = Returns (matcher_matches E m p)"
proof -
  from assms(3) obtain ns where p: "p = path_of ns" "names_ok ns" by (rule path_cases)
  have ok: "expr_ok E e" using validate_expr_ok(1) assms(2,4) by blast
  show ?thesis using expression_to_matcher_exact[OF assms(1) ok] expression_matches_exact(1)[OF assms(1) ok p(2)] p by auto
qed

text \<open>
  (C25) The coverage of a domain is a sound abstraction of the selection: where the rules are said to
  cover all of a directory every path at or below it is selected, and where they are said to cover
  none of it no such path is, whatever files future trees contain.
\<close>

theorem rules_coverage_abstracts:
  assumes "path_engine_law E" "rules_ok E c" "path_ok dir" "path_ok p" "path_starts_with p dir"
  shows "\<exists>cov h. rules_coverage E c dir True = Returns cov \<and> is_selected E c p = Returns h \<and>
    (cov = CovAll \<longrightarrow> h) \<and> (cov = CovNone \<longrightarrow> \<not> h)"
proof -
  from assms(3) obtain ds where d: "dir = path_of ds" "names_ok ds" by (rule path_cases)
  from assms(4) obtain ns where p: "p = path_of ns" "names_ok ns" by (rule path_cases)
  have "in_domain ds True ns" using assms(5) d p by (simp add: starts_with_of in_domain_def)
  then obtain cov where "rules_coverage E c dir True = Returns cov" "cov_allows cov (rules_sel E c ns)"
    using rules_coverage_sound[OF assms(1,2) d(2), of True] d(1) by blast
  then show ?thesis using is_selected_exact[OF assms(1,2) p(2)] p(1) by auto
qed

section \<open>A sample configuration\<close>

definition sample_patterns :: wc_patterns where
  "sample_patterns =
     \<lparr>wc_rules = [\<lparr>rule_include = True, rule_expression = SparseAll\<rparr>,
        \<lparr>rule_include = False, rule_expression = PrefixPath (RepoPath ''a/b'')\<rparr>,
        \<lparr>rule_include = False, rule_expression = FilePath (RepoPath ''a'')\<rparr>],
      wc_mappings = [\<lparr>mapping_source = RepoPath ''a'', mapping_destination = WorkingCopyPath (RepoPath ''x''), mapping_recursive = True\<rparr>,
        \<lparr>mapping_source = RepoPath ''c'', mapping_destination = WorkingCopyPath (RepoPath ''x/b''), mapping_recursive = True\<rparr>]\<rparr>"

text \<open>
  A mapping of single files need not respect the directories of another mapping: the check of the
  destinations asks whether the mapped domains overlap, and an exact file below a mapped directory
  overlaps it in that file only. In the configuration below the file \<open>s/y\<close> is excluded, so the two
  mappings pass validation, and yet \<open>x\<close> is laid out as the file \<open>d/y\<close> and \<open>s/y/t\<close> below it.
\<close>

definition exact_patterns :: wc_patterns where
  "exact_patterns =
     \<lparr>wc_rules = [\<lparr>rule_include = True, rule_expression = SparseAll\<rparr>,
        \<lparr>rule_include = False, rule_expression = FilePath (RepoPath ''s'')\<rparr>,
        \<lparr>rule_include = False, rule_expression = FilePath (RepoPath ''s/y'')\<rparr>],
      wc_mappings = [\<lparr>mapping_source = RepoPath ''x'', mapping_destination = WorkingCopyPath (RepoPath ''d/y''), mapping_recursive = False\<rparr>,
        \<lparr>mapping_source = RepoPath ''s'', mapping_destination = WorkingCopyPath (RepoPath ''d''), mapping_recursive = True\<rparr>]\<rparr>"

lemma sample_accepted: "accepted literal_path_engine sample_patterns"
proof -
  have "patterns_validate literal_path_engine sample_patterns = (ok () :: (unit, unit) checked)" by code_simp
  moreover have "patterns_typed sample_patterns" by code_simp
  ultimately show ?thesis by (simp add: accepted_def literal_path_engine_law)
qed

lemma exact_mapping_collision:
  "patterns_validate literal_path_engine exact_patterns = (ok () :: (unit, unit) checked)"
  "is_selected literal_path_engine exact_patterns (RepoPath ''x'') = Returns True"
  "is_selected literal_path_engine exact_patterns (RepoPath ''s/y/t'') = Returns True"
  "repo_to_wc literal_path_engine exact_patterns (RepoPath ''x'') =
     (ok (Some (WorkingCopyPath (RepoPath ''d/y''))) :: (unit, unit, WorkingCopyPath option) outcome)"
  "repo_to_wc literal_path_engine exact_patterns (RepoPath ''s/y/t'') =
     (ok (Some (WorkingCopyPath (RepoPath ''d/y/t''))) :: (unit, unit, WorkingCopyPath option) outcome)"
  by code_simp+

lemma sample_layout:
  "is_selected literal_path_engine sample_patterns (RepoPath ''a/f'') = Returns True"
  "is_selected literal_path_engine sample_patterns (RepoPath ''c/g'') = Returns True"
  "repo_to_wc literal_path_engine sample_patterns (RepoPath ''a/f'') =
     (ok (Some (WorkingCopyPath (RepoPath ''x/f''))) :: (unit, unit, WorkingCopyPath option) outcome)"
  "repo_to_wc literal_path_engine sample_patterns (RepoPath ''c/g'') =
     (ok (Some (WorkingCopyPath (RepoPath ''x/b/g''))) :: (unit, unit, WorkingCopyPath option) outcome)"
  by code_simp+

lemma layout_paths_ok:
  "path_ok (RepoPath ''a/f'')" "path_ok (RepoPath ''c/g'')" "path_ok (RepoPath ''x/f'')" "path_ok (RepoPath ''x/b/g'')"
  by code_simp+

theorem layout_roundtrip_witness:
  "wc_to_repo literal_path_engine sample_patterns (WorkingCopyPath (RepoPath ''x/f'')) =
     (ok (Some (RepoPath ''a/f'')) :: (unit, unit, RepoPath option) outcome)"
  using layout_roundtrip[OF sample_accepted layout_paths_ok(1,3)] sample_layout(1,3) by blast

theorem layout_no_collision_witness: "\<not> path_starts_with (RepoPath ''x/b/g'') (RepoPath ''x/f'')"
proof -
  have "list_all mapping_recursive (wc_mappings sample_patterns)" by code_simp
  moreover have "\<not> path_starts_with (RepoPath ''c/g'') (RepoPath ''a/f'')" "\<not> is_root (RepoPath ''x/f'')" by code_simp+
  ultimately show ?thesis
    by (rule layout_no_collision[OF sample_accepted _ layout_paths_ok sample_layout])
qed

theorem compiled_selection_equivalent_witness:
  "let e = SparseDifference (UnionAll [PrefixPath (RepoPath ''a''), PrefixGlob (RepoPath ''c'') ''g'' False]) (FilePath (RepoPath ''a/f''))
   in \<exists>m. expression_to_matcher literal_path_engine e = Returns m \<and>
        expression_matches literal_path_engine e (RepoPath ''c/g'') = Returns (matcher_matches literal_path_engine m (RepoPath ''c/g''))"
proof -
  let ?e = "SparseDifference (UnionAll [PrefixPath (RepoPath ''a''), PrefixGlob (RepoPath ''c'') ''g'' False]) (FilePath (RepoPath ''a/f''))"
  have "expr_paths_ok ?e" by code_simp
  moreover have "expression_validate literal_path_engine ?e 0 = (Inr () :: ((unit, unit) patterns_error, unit) result)"
    by code_simp
  ultimately show ?thesis
    unfolding Let_def by (rule compiled_selection_equivalent[OF literal_path_engine_law _ layout_paths_ok(2)])
qed

theorem rules_coverage_abstracts_witness:
  "rules_coverage literal_path_engine sample_patterns (RepoPath ''c'') True = Returns CovAll \<and>
   is_selected literal_path_engine sample_patterns (RepoPath ''c/g'') = Returns True"
proof -
  have "rules_coverage literal_path_engine sample_patterns (RepoPath ''c'') True = Returns CovAll" by code_simp
  moreover have "rules_ok literal_path_engine sample_patterns"
    using accepted_patterns_ok[OF sample_accepted] by (simp add: patterns_ok_def)
  moreover have "path_ok (RepoPath ''c'')" "path_starts_with (RepoPath ''c/g'') (RepoPath ''c'')" by code_simp+
  ultimately show ?thesis
    using rules_coverage_abstracts[OF literal_path_engine_law _ _ layout_paths_ok(2), of sample_patterns "RepoPath ''c''"] by auto
qed

end
