(* ===== verification/Sample_Wire.thy ===== *)
theory Sample_Wire
  imports Object_Ids
begin

text \<open>
  A self-delimiting byte format for samples of parameters that store data: every number is written in
  unary, every list is preceded by its length. A reader \<open>f\<close> reads back what a writer \<open>g\<close> wrote of \<open>x\<close>
  if \<open>reads_back f g x\<close>, whatever follows it.
\<close>

type_synonym 'a reader = "bytes \<Rightarrow> ('a \<times> bytes) option"

definition reads_back :: "'a reader \<Rightarrow> ('a \<Rightarrow> bytes) \<Rightarrow> 'a \<Rightarrow> bool" where
  "reads_back f g x \<longleftrightarrow> (\<forall>rest. f (g x @ rest) = Some (x, rest))"

fun read_nat :: "nat reader" where
  "read_nat [] = None"
| "read_nat (b # bs) = (if b = 0 then Some (0, bs) else map_option (apfst Suc) (read_nat bs))"

definition write_nat :: "nat \<Rightarrow> bytes" where
  "write_nat n = replicate n 1 @ [0]"

fun read_many :: "'a reader \<Rightarrow> nat \<Rightarrow> 'a list reader" where
  "read_many f 0 bs = Some ([], bs)"
| "read_many f (Suc n) bs =
     Option.bind (f bs) (\<lambda>(x, bs). map_option (apfst ((#) x)) (read_many f n bs))"

definition read_list :: "'a reader \<Rightarrow> 'a list reader" where
  "read_list f bs = Option.bind (read_nat bs) (\<lambda>(n, bs). read_many f n bs)"

definition write_list :: "('a \<Rightarrow> bytes) \<Rightarrow> 'a list \<Rightarrow> bytes" where
  "write_list g xs = write_nat (length xs) @ concat (map g xs)"

definition read_pair :: "'a reader \<Rightarrow> 'b reader \<Rightarrow> ('a \<times> 'b) reader" where
  "read_pair f g bs = Option.bind (f bs) (\<lambda>(x, bs). map_option (apfst (Pair x)) (g bs))"

definition write_pair :: "('a \<Rightarrow> bytes) \<Rightarrow> ('b \<Rightarrow> bytes) \<Rightarrow> 'a \<times> 'b \<Rightarrow> bytes" where
  "write_pair f g xy = f (fst xy) @ g (snd xy)"

definition read_as :: "('a \<Rightarrow> 'b) \<Rightarrow> 'a reader \<Rightarrow> 'b reader" where
  "read_as h f bs = map_option (apfst h) (f bs)"

lemma reads_nat: "reads_back read_nat write_nat n"
  unfolding reads_back_def write_nat_def by (induction n) auto

lemma reads_pair: "reads_back f f' (fst xy) \<Longrightarrow> reads_back g g' (snd xy) \<Longrightarrow> reads_back (read_pair f g) (write_pair f' g') xy"
  by (simp add: reads_back_def read_pair_def write_pair_def)

lemma reads_as: "reads_back f g (k x) \<Longrightarrow> h (k x) = x \<Longrightarrow> reads_back (read_as h f) (\<lambda>x. g (k x)) x"
  by (simp add: reads_back_def read_as_def)

lemma reads_list: "\<forall>x \<in> set xs. reads_back f g x \<Longrightarrow> reads_back (read_list f) (write_list g) xs"
proof -
  have "read_many f (length xs) (concat (map g xs) @ rest) = Some (xs, rest)" if "\<forall>x \<in> set xs. reads_back f g x" for rest
    using that by (induction xs) (auto simp: reads_back_def)
  moreover assume "\<forall>x \<in> set xs. reads_back f g x"
  ultimately show ?thesis using reads_nat by (simp add: reads_back_def read_list_def write_list_def)
qed

definition read_string :: "string reader" where
  "read_string = read_list (read_as char_of read_nat)"

definition write_string :: "string \<Rightarrow> bytes" where
  "write_string = write_list (\<lambda>c. write_nat (of_char c))"

definition read_bool :: "bool reader" where
  "read_bool = read_as (\<lambda>n. n = 1) read_nat"

definition write_bool :: "bool \<Rightarrow> bytes" where
  "write_bool b = write_nat (of_bool b)"

definition read_int :: "int reader" where
  "read_int = read_as (\<lambda>(m, n). int m - int n) (read_pair read_nat read_nat)"

definition write_int :: "int \<Rightarrow> bytes" where
  "write_int i = write_pair write_nat write_nat (nat i, nat (- i))"

lemma reads_string: "reads_back read_string write_string s"
  unfolding read_string_def write_string_def by (intro reads_list ballI reads_as reads_nat) simp

lemma reads_bool: "reads_back read_bool write_bool b"
  unfolding read_bool_def write_bool_def by (intro reads_as reads_nat) simp

lemma reads_int: "reads_back read_int write_int i"
  unfolding read_int_def write_int_def by (intro reads_as reads_pair reads_nat) simp

lemmas reads_basic = reads_as reads_pair reads_nat reads_string reads_bool reads_int

end
