(* ===== verification/Patterns_Codec.thy ===== *)
theory Patterns_Codec
  imports Working_Copy_Laws Sample_Wire
begin

text \<open>
  The stored form of a working-copy configuration: the conversions \<open>to_proto\<close> and \<open>from_proto\<close> and the
  methods \<open>encode\<close> and \<open>decode\<close> of \<open>jj/core/src/working_copy_patterns.rs\<close> over the messages of
  \<open>working_copy_patterns/proto.rs\<close>. The wire format of the crate \<open>prost\<close> is the parameter \<open>config_codec\<close>.
\<close>

section \<open>Messages\<close>

text \<open>
  The kind is an \<open>i32\<close> and the version a \<open>u32\<close>. They are unbounded here: only the kinds 0 to 8 and the
  version 1 are produced, and any other number is refused.
\<close>

datatype proto_expression = ProtoExpression
  (proto_kind: int) (proto_path: string) (proto_glob: string) (proto_case_insensitive: bool)
  (proto_children: "proto_expression list")

record proto_rule =
  proto_include :: bool
  proto_rule_expression :: "proto_expression option"

record proto_mapping =
  proto_source :: string
  proto_destination :: string
  proto_recursive :: bool

record proto_configuration =
  proto_version :: nat
  proto_rules :: "proto_rule list"
  proto_mappings :: "proto_mapping list"

record 'de config_codec =
  encode_to_vec :: "proto_configuration \<Rightarrow> bytes"
  decode_config :: "bytes \<Rightarrow> ('de, proto_configuration) result"

section \<open>Conversions\<close>

fun to_proto :: "sparse_expression \<Rightarrow> proto_expression" where
  "to_proto SparseNone = ProtoExpression 0 [] [] False []"
| "to_proto SparseAll = ProtoExpression 1 [] [] False []"
| "to_proto (FilePath p) = ProtoExpression 2 (internal_str p) [] False []"
| "to_proto (PrefixPath p) = ProtoExpression 3 (internal_str p) [] False []"
| "to_proto (FileGlob dir pattern icase) = ProtoExpression 4 (internal_str dir) pattern icase []"
| "to_proto (PrefixGlob dir pattern icase) = ProtoExpression 5 (internal_str dir) pattern icase []"
| "to_proto (UnionAll items) = ProtoExpression 6 [] [] False (map to_proto items)"
| "to_proto (SparseIntersection a b) = ProtoExpression 7 [] [] False [to_proto a, to_proto b]"
| "to_proto (SparseDifference a b) = ProtoExpression 8 [] [] False [to_proto a, to_proto b]"

text \<open>The condition under which the fields or the arity are refused.\<close>

definition invalid_fields :: "proto_expression \<Rightarrow> bool" where
  "invalid_fields p \<longleftrightarrow>
     proto_kind p \<notin> {2..5} \<and> proto_path p \<noteq> [] \<or>
     proto_kind p \<notin> {4..5} \<and> (proto_glob p \<noteq> [] \<or> proto_case_insensitive p) \<or>
     proto_kind p < 6 \<and> proto_children p \<noteq> [] \<or>
     proto_kind p \<in> {7..8} \<and> length (proto_children p) \<noteq> 2"

definition checked_path :: "string \<Rightarrow> (('ge, 'de) patterns_error, RepoPath) result exec" where
  "checked_path s = Returns (res_map_err InvalidPath (from_internal_string s))"

function from_proto :: "proto_expression \<Rightarrow> nat \<Rightarrow> (('ge, 'de) patterns_error, sparse_expression) result exec"
  and from_proto_items :: "proto_expression list \<Rightarrow> nat \<Rightarrow> (('ge, 'de) patterns_error, sparse_expression list) result exec"
where
  "from_proto p level =
     (if level > MAX_DEPTH then err ExceedsRecursionLimit
      else if invalid_fields p then err InvalidFields
      else if proto_kind p = 0 then ok SparseNone
      else if proto_kind p = 1 then ok SparseAll
      else if proto_kind p = 2 then er_bind (checked_path (proto_path p)) (\<lambda>path. ok (FilePath path))
      else if proto_kind p = 3 then er_bind (checked_path (proto_path p)) (\<lambda>path. ok (PrefixPath path))
      else if proto_kind p = 4 then
        er_bind (checked_path (proto_path p)) (\<lambda>dir. ok (FileGlob dir (proto_glob p) (proto_case_insensitive p)))
      else if proto_kind p = 5 then
        er_bind (checked_path (proto_path p)) (\<lambda>dir. ok (PrefixGlob dir (proto_glob p) (proto_case_insensitive p)))
      else if proto_kind p = 6 then
        er_bind (from_proto_items (proto_children p) (level + 1)) (\<lambda>items. ok (UnionAll items))
      else if proto_kind p = 7 \<or> proto_kind p = 8 then
        (case proto_children p of
           a # b # _ \<Rightarrow>
             er_bind (from_proto a (level + 1)) (\<lambda>a'.
             er_bind (from_proto b (level + 1)) (\<lambda>b'.
             ok (if proto_kind p = 7 then SparseIntersection a' b' else SparseDifference a' b')))
         | _ \<Rightarrow> Panics)
      else err UnknownKind)"
| "from_proto_items [] level = ok []"
| "from_proto_items (p # ps) level =
     er_bind (from_proto p level) (\<lambda>e. er_bind (from_proto_items ps level) (\<lambda>es. ok (e # es)))"
  by pat_completeness auto
termination
proof (relation "measure (\<lambda>x. case x of Inl (p, d) \<Rightarrow> 2 * size p + 1 | Inr (ps, d) \<Rightarrow> 2 * size_list size ps)", goal_cases)
  case (2 p d)
  then show ?case by (cases p) simp
next
  case (3 p d)
  then show ?case by (cases p) simp
next
  case (4 p d)
  then show ?case by (cases p) simp
qed auto

declare from_proto.simps [simp del]

definition rule_message :: "sparse_rule \<Rightarrow> proto_rule" where
  "rule_message r = \<lparr>proto_include = rule_include r, proto_rule_expression = Some (to_proto (rule_expression r))\<rparr>"

definition mapping_message :: "wc_mapping \<Rightarrow> proto_mapping" where
  "mapping_message m = \<lparr>proto_source = internal_str (mapping_source m),
     proto_destination = internal_str (as_repo_path (mapping_destination m)), proto_recursive = mapping_recursive m\<rparr>"

definition configuration_message :: "wc_patterns \<Rightarrow> proto_configuration" where
  "configuration_message c = \<lparr>proto_version = 1, proto_rules = map rule_message (wc_rules c),
     proto_mappings = map mapping_message (wc_mappings c)\<rparr>"

definition patterns_encode :: "('de, 'y) config_codec_scheme \<Rightarrow> wc_patterns \<Rightarrow> bytes" where
  "patterns_encode C c = encode_to_vec C (configuration_message c)"

text \<open>\<open>collect\<close> into a \<open>Result\<close> stops at the first error.\<close>

fun collect_ok :: "('a \<Rightarrow> ('e, 'b) result exec) \<Rightarrow> 'a list \<Rightarrow> ('e, 'b list) result exec" where
  "collect_ok f [] = ok []"
| "collect_ok f (x # xs) = er_bind (f x) (\<lambda>y. er_bind (collect_ok f xs) (\<lambda>ys. ok (y # ys)))"

definition decode_rule :: "proto_rule \<Rightarrow> (('ge, 'de) patterns_error, sparse_rule) result exec" where
  "decode_rule r =
     (case proto_rule_expression r of
        None \<Rightarrow> err MissingExpression
      | Some p \<Rightarrow> er_bind (from_proto p 0) (\<lambda>e. ok \<lparr>rule_include = proto_include r, rule_expression = e\<rparr>))"

definition decode_mapping :: "proto_mapping \<Rightarrow> (('ge, 'de) patterns_error, wc_mapping) result exec" where
  "decode_mapping m =
     er_bind (checked_path (proto_source m)) (\<lambda>source.
     er_bind (checked_path (proto_destination m)) (\<lambda>destination.
     ok \<lparr>mapping_source = source, mapping_destination = WorkingCopyPath destination,
         mapping_recursive = proto_recursive m\<rparr>))"

definition patterns_decode ::
  "('g, 'r, 'ge, 'x) path_engine_scheme \<Rightarrow> ('de, 'y) config_codec_scheme \<Rightarrow> bytes \<Rightarrow>
   (('ge, 'de) patterns_error, wc_patterns) result exec" where
  "patterns_decode E C bytes =
     er_bind (Returns (res_map_err DecodeError (decode_config C bytes))) (\<lambda>p.
     if proto_version p \<noteq> 1 then err UnsupportedVersion
     else er_bind (collect_ok decode_rule (proto_rules p)) (\<lambda>rules.
     er_bind (collect_ok decode_mapping (proto_mappings p)) (\<lambda>mappings.
     er_bind (patterns_validate E \<lparr>wc_rules = rules, wc_mappings = mappings\<rparr>) (\<lambda>_.
     if patterns_encode C \<lparr>wc_rules = rules, wc_mappings = mappings\<rparr> \<noteq> bytes then err NoncanonicalEncoding
     else ok \<lparr>wc_rules = rules, wc_mappings = mappings\<rparr>))))"

section \<open>The two conversions are inverse\<close>

text \<open>The nesting of an expression: how many levels its evaluation descends.\<close>

fun height :: "sparse_expression \<Rightarrow> nat" where
  "height (UnionAll items) = fold max (map (\<lambda>e. Suc (height e)) items) 0"
| "height (SparseIntersection a b) = Suc (max (height a) (height b))"
| "height (SparseDifference a b) = Suc (max (height a) (height b))"
| "height _ = 0"

lemma fold_max_le: "fold max xs (k :: nat) \<le> n \<longleftrightarrow> k \<le> n \<and> (\<forall>x \<in> set xs. x \<le> n)"
  by (induction xs arbitrary: k) auto

definition readable :: "sparse_expression \<Rightarrow> nat \<Rightarrow> bool" where
  "readable e level \<longleftrightarrow> expr_paths_ok e \<and> level + height e \<le> MAX_DEPTH"

lemma readable_simps [simp]:
  "readable SparseNone k \<longleftrightarrow> k \<le> MAX_DEPTH"
  "readable SparseAll k \<longleftrightarrow> k \<le> MAX_DEPTH"
  "readable (FilePath p) k \<longleftrightarrow> path_ok p \<and> k \<le> MAX_DEPTH"
  "readable (PrefixPath p) k \<longleftrightarrow> path_ok p \<and> k \<le> MAX_DEPTH"
  "readable (FileGlob p g i) k \<longleftrightarrow> path_ok p \<and> k \<le> MAX_DEPTH"
  "readable (PrefixGlob p g i) k \<longleftrightarrow> path_ok p \<and> k \<le> MAX_DEPTH"
  "readable (UnionAll items) k \<longleftrightarrow> k \<le> MAX_DEPTH \<and> list_all (\<lambda>e. readable e (Suc k)) items"
  "readable (SparseIntersection a b) k \<longleftrightarrow> readable a (Suc k) \<and> readable b (Suc k)"
  "readable (SparseDifference a b) k \<longleftrightarrow> readable a (Suc k) \<and> readable b (Suc k)"
proof -
  show "readable (UnionAll items) k \<longleftrightarrow> k \<le> MAX_DEPTH \<and> list_all (\<lambda>e. readable e (Suc k)) items"
  proof (cases "k \<le> MAX_DEPTH")
    case True
    then have "k + height (UnionAll items) \<le> MAX_DEPTH \<longleftrightarrow> (\<forall>e \<in> set items. Suc (height e) \<le> MAX_DEPTH - k)"
      using fold_max_le[of "map (\<lambda>e. Suc (height e)) items" 0 "MAX_DEPTH - k"] le_diff_conv2[OF True] by (simp add: add.commute)
    moreover have "Suc (height e) \<le> MAX_DEPTH - k \<longleftrightarrow> Suc k + height e \<le> MAX_DEPTH" for e using True by arith
    ultimately show ?thesis using True by (auto simp: readable_def list_all_iff)
  qed (simp add: readable_def)
qed (auto simp: readable_def)

lemma checked_path_ok: "checked_path s = ok p \<longleftrightarrow> p = RepoPath s \<and> path_ok p"
  by (auto simp: checked_path_def ok_def res_map_err_def from_internal_string_ok split: sum.splits)
    (metis from_internal_string_ok sum.inject(2) Inl_Inr_False)

lemma readable_level: "readable e k \<Longrightarrow> k \<le> MAX_DEPTH"
  by (simp add: readable_def)

lemma to_proto_valid: "\<not> invalid_fields (to_proto e)"
  by (cases e) (auto simp: invalid_fields_def)

lemma two_children: "length cs = 2 \<longleftrightarrow> (\<exists>a b. cs = [a, b])"
  by (auto simp: length_Suc_conv numeral_2_eq_2)

abbreviation reads :: "('ge, 'de) patterns_error itself \<Rightarrow> proto_expression \<Rightarrow> bool" where
  "reads t p \<equiv> \<forall>k e. (from_proto p k :: ('ge, 'de, sparse_expression) outcome) = ok e \<longleftrightarrow> p = to_proto e \<and> readable e k"

lemma items_ok:
  assumes "\<forall>p \<in> set ps. reads TYPE(('ge, 'de) patterns_error) p"
  shows "(from_proto_items ps k :: ('ge, 'de, sparse_expression list) outcome) = ok es \<longleftrightarrow>
    ps = map to_proto es \<and> list_all (\<lambda>e. readable e k) es"
  using assms by (induction ps arbitrary: es) (auto simp: er_bind_ok Cons_eq_map_conv)

lemmas from_proto_message = from_proto.simps(1)[of "ProtoExpression kind path glob icase cs" for kind path glob icase cs]

lemma from_to_proto: "reads TYPE(('ge, 'de) patterns_error) p"
proof (induction p)
  case (ProtoExpression kind path glob icase cs)
  let ?p = "ProtoExpression kind path glob icase cs"
  have IH: "reads TYPE(('ge, 'de) patterns_error) c" if "c \<in> set cs" for c using ProtoExpression that by blast
  show ?case
  proof (intro allI)
    fix k e
    consider "k > MAX_DEPTH \<or> invalid_fields ?p" | "kind = 6" "k \<le> MAX_DEPTH" "\<not> invalid_fields ?p"
      | "kind = 7 \<or> kind = 8" "k \<le> MAX_DEPTH" "\<not> invalid_fields ?p"
      | "kind \<notin> {6, 7, 8}" "k \<le> MAX_DEPTH" "\<not> invalid_fields ?p" by force
    then show "(from_proto ?p k :: ('ge, 'de, sparse_expression) outcome) = ok e \<longleftrightarrow> ?p = to_proto e \<and> readable e k"
    proof cases
      case 1
      then show ?thesis using to_proto_valid[of e] readable_level[of e k] by (auto simp: from_proto_message)
    next
      case 2
      then have "path = []" "glob = []" "\<not> icase" by (auto simp: invalid_fields_def)
      then show ?thesis using 2 IH items_ok[where 'ge = 'ge and 'de = 'de, of cs "Suc k"]
        by (cases e) (auto simp: from_proto_message er_bind_ok)
    next
      case 3
      then obtain a b where fields: "path = []" "glob = []" "\<not> icase" "cs = [a, b]"
        by (auto simp: invalid_fields_def two_children)
      then have "(from_proto ?p k :: ('ge, 'de, sparse_expression) outcome) = ok e \<longleftrightarrow>
          (\<exists>x y. (from_proto a (Suc k) :: ('ge, 'de, sparse_expression) outcome) = ok x \<and>
            (from_proto b (Suc k) :: ('ge, 'de, sparse_expression) outcome) = ok y \<and>
            e = (if kind = 7 then SparseIntersection x y else SparseDifference x y))"
        using 3 by (auto simp: from_proto_message er_bind_ok)
      also have "\<dots> \<longleftrightarrow> (\<exists>x y. (a = to_proto x \<and> readable x (Suc k)) \<and> (b = to_proto y \<and> readable y (Suc k)) \<and>
            e = (if kind = 7 then SparseIntersection x y else SparseDifference x y))"
        using IH fields(4) by simp
      also have "\<dots> \<longleftrightarrow> ?p = to_proto e \<and> readable e k"
        using 3(1) fields by (cases e) auto
      finally show ?thesis .
    next
      case 4
      then consider "kind = 0" | "kind = 1" | "kind = 2" | "kind = 3" | "kind = 4" | "kind = 5" | "kind \<notin> {0..8}" by force
      then show ?thesis
      proof cases
        case 7
        then have "kind \<noteq> 0" "kind \<noteq> 1" "kind \<noteq> 2" "kind \<noteq> 3" "kind \<noteq> 4" "kind \<noteq> 5" by auto
        then have "(from_proto ?p k :: ('ge, 'de, sparse_expression) outcome) = err UnknownKind"
          using 4 by (simp add: from_proto_message)
        moreover have "?p \<noteq> to_proto e" using 7 by (cases e) auto
        ultimately show ?thesis by simp
      qed (use 4 in \<open>cases e; force simp: from_proto_message er_bind_ok checked_path_ok invalid_fields_def\<close>)+
    qed
  qed
qed

lemmas from_proto_ok = from_to_proto[rule_format]

lemma collect_ok_iff: "collect_ok f xs = ok ys \<longleftrightarrow> list_all2 (\<lambda>x y. f x = ok y) xs ys"
  by (induction xs arbitrary: ys) (auto simp: er_bind_ok list_all2_Cons1)

section \<open>Configurations\<close>

lemma validate_readable:
  "expression_validate E e k = (Inr () :: (('ge, 'de) patterns_error, unit) result) \<Longrightarrow> expr_paths_ok e \<Longrightarrow> readable e k"
  "items_validate E items k = (Inr () :: (('ge, 'de) patterns_error, unit) result) \<Longrightarrow> list_all expr_paths_ok items \<Longrightarrow>
     list_all (\<lambda>e. readable e k) items"
proof (induction E e k and E items k rule: expression_validate_items_validate.induct)
  case (1 E e k)
  then have "\<not> MAX_DEPTH < k" by (auto simp: expression_validate.simps)
  with 1 show ?case by (cases e) (auto simp: expression_validate.simps[of E _ k] res_bind_eq_Inr)
qed (auto simp: res_bind_eq_Inr)

lemma decode_rule_ok:
  "(decode_rule p :: ('ge, 'de, sparse_rule) outcome) = ok r \<longleftrightarrow> p = rule_message r \<and> readable (rule_expression r) 0"
proof (cases "proto_rule_expression p")
  case (Some q)
  then have "(decode_rule p :: ('ge, 'de, sparse_rule) outcome) = ok r \<longleftrightarrow>
      (\<exists>e. (q = to_proto e \<and> readable e 0) \<and> r = \<lparr>rule_include = proto_include p, rule_expression = e\<rparr>)"
    by (simp add: decode_rule_def er_bind_ok from_proto_ok eq_commute[of r])
  also have "\<dots> \<longleftrightarrow> p = rule_message r \<and> readable (rule_expression r) 0"
    using Some by (cases p; cases r) (auto simp: rule_message_def)
  finally show ?thesis .
qed (auto simp: decode_rule_def rule_message_def)

lemma decode_mapping_ok:
  "(decode_mapping p :: ('ge, 'de, wc_mapping) outcome) = ok m \<longleftrightarrow> p = mapping_message m \<and> mapping_ok m"
proof -
  have "(decode_mapping p :: ('ge, 'de, wc_mapping) outcome) = ok m \<longleftrightarrow>
      (\<exists>s d. (s = RepoPath (proto_source p) \<and> path_ok s) \<and> (d = RepoPath (proto_destination p) \<and> path_ok d) \<and>
        m = \<lparr>mapping_source = s, mapping_destination = WorkingCopyPath d, mapping_recursive = proto_recursive p\<rparr>)"
    by (simp add: decode_mapping_def er_bind_ok checked_path_ok eq_commute[of m])
  also have "\<dots> \<longleftrightarrow> p = mapping_message m \<and> mapping_ok m"
    by (cases p; cases m) (auto simp: mapping_message_def mapping_ok_def)
  finally show ?thesis .
qed

lemma collect_messages:
  assumes "\<And>x y. f x = ok y \<longleftrightarrow> x = g y \<and> P y"
  shows "collect_ok f xs = ok ys \<longleftrightarrow> xs = map g ys \<and> list_all P ys"
  unfolding collect_ok_iff assms by (induction ys arbitrary: xs) (auto simp: list_all2_Cons2)

definition config_readable :: "wc_patterns \<Rightarrow> bool" where
  "config_readable c \<longleftrightarrow> list_all (\<lambda>r. readable (rule_expression r) 0) (wc_rules c) \<and> mappings_ok c"

lemma decode_iff:
  "(patterns_decode E C bytes :: ('ge, 'de, wc_patterns) outcome) = ok c \<longleftrightarrow>
     decode_config C bytes = Inr (configuration_message c) \<and> config_readable c \<and>
     patterns_validate E c = (ok () :: ('ge, 'de) checked) \<and> bytes = patterns_encode C c"
proof (cases "decode_config C bytes")
  case (Inr p)
  have "(patterns_decode E C bytes :: ('ge, 'de, wc_patterns) outcome) = ok c \<longleftrightarrow>
      proto_version p = 1 \<and> (collect_ok decode_rule (proto_rules p) :: ('ge, 'de, sparse_rule list) outcome) = ok (wc_rules c) \<and>
      (collect_ok decode_mapping (proto_mappings p) :: ('ge, 'de, wc_mapping list) outcome) = ok (wc_mappings c) \<and>
      patterns_validate E c = (ok () :: ('ge, 'de) checked) \<and> bytes = patterns_encode C c"
    unfolding patterns_decode_def Inr
    by (cases c) (auto simp: er_bind_ok res_map_err_def simp flip: ok_def)
  also have "\<dots> \<longleftrightarrow> p = configuration_message c \<and> config_readable c \<and>
      patterns_validate E c = (ok () :: ('ge, 'de) checked) \<and> bytes = patterns_encode C c"
    unfolding collect_messages[OF decode_rule_ok] collect_messages[OF decode_mapping_ok]
    by (cases p) (auto simp: configuration_message_def config_readable_def mappings_ok_def)
  finally show ?thesis using Inr by simp
qed (auto simp: patterns_decode_def res_map_err_def er_bind_ok ok_def er_bind_def)

lemma validate_config_readable:
  assumes "patterns_typed c" "patterns_validate E c = (ok () :: ('ge, 'de) checked)"
  shows "config_readable c"
proof -
  have "readable (rule_expression r) 0" if r: "r \<in> set (wc_rules c)" for r
  proof -
    have "Returns (expression_validate E (rule_expression r) 0) = (ok () :: ('ge, 'de) checked)"
      using assms(2) r by (simp add: patterns_validate_def er_bind_ok for_each_ok)
    then have "expression_validate E (rule_expression r) 0 = (Inr () :: (('ge, 'de) patterns_error, unit) result)"
      by (simp add: ok_def)
    then show ?thesis
      by (rule validate_readable(1)) (use assms(1) r in \<open>simp add: patterns_typed_def list_all_iff\<close>)
  qed
  then show ?thesis using assms(1) by (simp add: config_readable_def patterns_typed_def list_all_iff)
qed

lemma readable_typed: "config_readable c \<Longrightarrow> patterns_typed c"
  by (auto simp: config_readable_def patterns_typed_def list_all_iff readable_def)

text \<open>
  What is relied on of \<open>prost\<close>: a message whose submessages are nested at most 100 deep is read back from
  its encoding.
\<close>

fun nesting :: "proto_expression \<Rightarrow> nat" where
  "nesting (ProtoExpression kind path glob icase cs) = Suc (fold max (map nesting cs) 0)"

definition rule_nesting :: "proto_rule \<Rightarrow> nat" where
  "rule_nesting r = (case proto_rule_expression r of None \<Rightarrow> 1 | Some e \<Rightarrow> Suc (nesting e))"

definition config_codec_law :: "('de, 'y) config_codec_scheme \<Rightarrow> bool" where
  "config_codec_law C \<longleftrightarrow>
     (\<forall>m. (\<forall>r \<in> set (proto_rules m). rule_nesting r \<le> 100) \<longrightarrow> decode_config C (encode_to_vec C m) = Inr m)"

lemma nesting_to_proto: "nesting (to_proto e) = Suc (height e)"
proof (induction e)
  case (UnionAll items)
  then show ?case by (simp add: comp_def cong: map_cong)
qed simp_all

text \<open>
  (C15) The stored form of a configuration is canonical: bytes are read as the configuration \<open>c\<close> exactly
  if they are its encoding and \<open>c\<close> is well formed and valid. So every valid configuration that can be
  stored can be read back, however deep its expressions are nested, two encodings of one configuration
  do not exist, and nothing invalid is ever read.
\<close>

theorem decode_exact:
  assumes "config_codec_law C"
  shows "(patterns_decode E C bytes :: ('ge, 'de, wc_patterns) outcome) = ok c \<longleftrightarrow>
    bytes = patterns_encode C c \<and> patterns_typed c \<and> patterns_validate E c = (ok () :: ('ge, 'de) checked)"
proof -
  have "decode_config C (patterns_encode C c) = Inr (configuration_message c)" if c: "config_readable c"
  proof -
    have "rule_nesting (rule_message r) \<le> 100" if "r \<in> set (wc_rules c)" for r
      using c that by (auto simp: rule_nesting_def rule_message_def nesting_to_proto config_readable_def list_all_iff
          readable_def MAX_DEPTH_def)
    then show ?thesis using assms by (simp add: config_codec_law_def patterns_encode_def configuration_message_def)
  qed
  then show ?thesis unfolding decode_iff using validate_config_readable readable_typed by blast
qed

section \<open>A sample wire format\<close>

primrec read_expr :: "nat \<Rightarrow> proto_expression reader" where
  "read_expr 0 = (\<lambda>bs. None)"
| "read_expr (Suc n) = read_as (\<lambda>(kind, path, glob, icase, cs). ProtoExpression kind path glob icase cs)
     (read_pair read_int (read_pair read_string (read_pair read_string (read_pair read_bool (read_list (read_expr n))))))"

fun write_expr :: "proto_expression \<Rightarrow> bytes" where
  "write_expr (ProtoExpression kind path glob icase cs) =
     write_int kind @ write_string path @ write_string glob @ write_bool icase @
     write_nat (length cs) @ concat (map write_expr cs)"

lemma write_expr_pairs:
  "write_expr e = write_pair write_int (write_pair write_string (write_pair write_string
     (write_pair write_bool (write_list write_expr))))
     (proto_kind e, proto_path e, proto_glob e, proto_case_insensitive e, proto_children e)"
  by (cases e) (simp add: write_pair_def write_list_def)

lemma nesting_nonzero [simp]: "nesting e \<noteq> 0"
  by (cases e) simp

lemma reads_expr: "nesting e \<le> n \<Longrightarrow> reads_back (read_expr n) write_expr e"
proof (induction n arbitrary: e)
  case (Suc n)
  then have "\<forall>c \<in> set (proto_children e). nesting c \<le> n" by (cases e) (auto simp: fold_max_le)
  then have "reads_back (read_list (read_expr n)) (write_list write_expr) (proto_children e)"
    using Suc.IH by (intro reads_list) blast
  then have "reads_back (read_expr (Suc n)) (\<lambda>e. write_pair write_int (write_pair write_string (write_pair write_string
      (write_pair write_bool (write_list write_expr))))
      (proto_kind e, proto_path e, proto_glob e, proto_case_insensitive e, proto_children e)) e"
    unfolding read_expr.simps by (intro reads_basic) simp_all
  then show ?case by (simp add: reads_back_def write_expr_pairs[of e] del: read_expr.simps)
qed simp

definition read_rule :: "proto_rule reader" where
  "read_rule = read_as (\<lambda>(b, es). \<lparr>proto_include = b, proto_rule_expression = (case es of [] \<Rightarrow> None | e # _ \<Rightarrow> Some e)\<rparr>)
     (read_pair read_bool (read_list (read_expr 99)))"

definition write_rule :: "proto_rule \<Rightarrow> bytes" where
  "write_rule r = write_pair write_bool (write_list write_expr)
     (proto_include r, case proto_rule_expression r of None \<Rightarrow> [] | Some e \<Rightarrow> [e])"

definition read_mapping :: "proto_mapping reader" where
  "read_mapping = read_as (\<lambda>(s, d, r). \<lparr>proto_source = s, proto_destination = d, proto_recursive = r\<rparr>)
     (read_pair read_string (read_pair read_string read_bool))"

definition write_mapping :: "proto_mapping \<Rightarrow> bytes" where
  "write_mapping m = write_pair write_string (write_pair write_string write_bool)
     (proto_source m, proto_destination m, proto_recursive m)"

lemma reads_rule: "rule_nesting r \<le> 100 \<Longrightarrow> reads_back read_rule write_rule r"
  unfolding read_rule_def write_rule_def
  by (intro reads_basic reads_list ballI reads_expr) (auto simp: rule_nesting_def split: option.splits)

lemma reads_mapping: "reads_back read_mapping write_mapping m"
  unfolding read_mapping_def write_mapping_def by (intro reads_basic) simp

definition read_config :: "proto_configuration reader" where
  "read_config = read_as (\<lambda>(v, rs, ms). \<lparr>proto_version = v, proto_rules = rs, proto_mappings = ms\<rparr>)
     (read_pair read_nat (read_pair (read_list read_rule) (read_list read_mapping)))"

definition write_config :: "proto_configuration \<Rightarrow> bytes" where
  "write_config m = write_pair write_nat (write_pair (write_list write_rule) (write_list write_mapping))
     (proto_version m, proto_rules m, proto_mappings m)"

lemma reads_config: "\<forall>r \<in> set (proto_rules m). rule_nesting r \<le> 100 \<Longrightarrow> reads_back read_config write_config m"
  unfolding read_config_def write_config_def
  by (intro reads_basic reads_list ballI reads_mapping reads_rule) auto

definition sample_codec :: "unit config_codec" where
  "sample_codec = \<lparr>encode_to_vec = write_config,
     decode_config = (\<lambda>bs. case read_config bs of Some (m, []) \<Rightarrow> Inr m | _ \<Rightarrow> Inl ())\<rparr>"

lemma sample_codec_law: "config_codec_law sample_codec"
proof -
  have "read_config (write_config m) = Some (m, [])" if "\<forall>r \<in> set (proto_rules m). rule_nesting r \<le> 100" for m
    using reads_config[OF that] append_Nil2[of "write_config m"] unfolding reads_back_def by metis
  then show ?thesis by (simp add: config_codec_law_def sample_codec_def)
qed

theorem decode_exact_witness:
  "patterns_decode literal_path_engine sample_codec (patterns_encode sample_codec sample_patterns) =
     (ok sample_patterns :: (unit, unit, wc_patterns) outcome)"
  using decode_exact[OF sample_codec_law, of literal_path_engine "patterns_encode sample_codec sample_patterns" sample_patterns]
    sample_accepted by (simp add: accepted_def)

end
