(* ===== verification/Remote_Identity.thy ===== *)
theory Remote_Identity
  imports Op_Store
begin

text \<open>
  The identity of a remote, \<open>jj/lib/src/view/remote_identity.rs\<close>: which connection owns a
  physical remote key and under which project-scoped name, read from the current membership or,
  where there is none, from the retained observations.
\<close>

datatype identity_source = Logical | Historical

record remote_identity =
  ri_source :: identity_source
  ri_connection :: ConnectionId
  ri_scoped_name :: "scoped_remote_name option"

definition qualified_name :: "remote_identity \<Rightarrow> project_state \<Rightarrow> remote_name \<Rightarrow> string" where
  "qualified_name identity state physical =
     (case ri_scoped_name identity of
        None \<Rightarrow> physical
      | Some name \<Rightarrow>
          (case find (\<lambda>(_, target). as_normal target = Some (sn_project name)) (entries (labels state)) of
             Some (label, _) \<Rightarrow> sn_name name @ ''#'' @ label
           | None \<Rightarrow> physical))"

record identity_records =
  rec_source :: identity_source
  rec_owners :: "ConnectionId option merge"
  rec_names :: "(ConnectionId, scoped_remote_name option merge) btree"

definition records :: "view \<Rightarrow> remote_name \<Rightarrow> identity_records option" where
  "records v remote =
     (case bt_get (remote_connections v) remote of
        Some owners \<Rightarrow>
          Some \<lparr>rec_source = Logical, rec_owners = owners, rec_names = remote_names (view_project_state v)\<rparr>
      | None \<Rightarrow>
          map_option (\<lambda>owners.
            \<lparr>rec_source = Historical, rec_owners = owners, rec_names = observed_remote_names v\<rparr>)
            (bt_get (observed_remote_connections v) remote))"

definition resolve :: "view \<Rightarrow> remote_name \<Rightarrow> (message, remote_identity option) result" where
  "resolve v remote =
     (case records v remote of
        None \<Rightarrow> Inr None
      | Some recs \<Rightarrow>
          res_bind (ok_or (RemoteOwnershipUnresolved remote) (as_resolved (rec_owners recs))) (\<lambda>owner.
          res_bind (ok_or (RemoteOwnershipDeleted remote) owner) (\<lambda>connection.
          res_bind (case bt_get (rec_names recs) connection of
                      None \<Rightarrow> Inr None
                    | Some names \<Rightarrow>
                        res_bind (ok_or (ConnectionNameUnresolvedOrDeleted connection (rec_source recs = Logical))
                                    (as_normal names)) (\<lambda>name. Inr (Some name))) (\<lambda>scoped_name.
          Inr (Some \<lparr>ri_source = rec_source recs, ri_connection = connection, ri_scoped_name = scoped_name\<rparr>)))))"

text \<open>The loop over the owners; the flags are \<open>scoped\<close> and \<open>matching\<close>.\<close>

definition owner_bindings :: "view \<Rightarrow> ConnectionId \<Rightarrow> binding_record list" where
  "owner_bindings v owner =
     filter (\<lambda>binding. br_connection_id binding = owner)
       (concat (map (\<lambda>target. somes (adds target)) (bt_values (bindings (view_project_state v)))))"

definition binding_projects :: "binding_record list \<Rightarrow> ProjectId list" where
  "binding_projects bs =
     List.map_filter (\<lambda>b. case br_target b of Project p \<Rightarrow> Some p | RepositoryView \<Rightarrow> None) bs"

definition scope_step ::
  "view \<Rightarrow> identity_records \<Rightarrow> ProjectId option \<Rightarrow> ConnectionId \<Rightarrow> bool \<times> bool \<Rightarrow> bool \<times> bool" where
  "scope_step v recs project owner flags =
     (let (scoped, matching) = flags;
          (scoped, matching) =
            (case bt_get (rec_names recs) owner of
               None \<Rightarrow> (scoped, matching)
             | Some names \<Rightarrow>
                 let identities = somes (merge_values names) in
                 (True, matching \<or> list_ex (\<lambda>identity. Some (sn_project identity) = project) identities \<or>
                        (rec_source recs = Logical \<and> identities = [])))
      in if rec_source recs = Historical then (scoped, matching)
         else let ps = binding_projects (owner_bindings v owner)
              in (scoped \<or> ps \<noteq> [], matching \<or> list_ex (\<lambda>p. Some p = project) ps))"

definition may_be_in_scope :: "view \<Rightarrow> remote_name \<Rightarrow> ProjectId option \<Rightarrow> bool" where
  "may_be_in_scope v remote project =
     (case records v remote of
        None \<Rightarrow> project = None
      | Some recs \<Rightarrow>
          let (scoped, matching) =
            fold (scope_step v recs project) (somes (adds (rec_owners recs))) (False, False)
          in matching \<or> (\<not> scoped \<and> project = None))"

end
