(* ===== verification/Remote_Observations.thy ===== *)
theory Remote_Observations
  imports Op_Store
begin

text \<open>
  The observation snapshot of the remotes, \<open>jj/lib/src/view/remote_observations.rs\<close>: the remote
  views, the observed connection owners and names, and the conversion evidence. The operations
  change these four maps of the view together and nothing else.
\<close>

definition copy_from :: "view \<Rightarrow> view \<Rightarrow> view" where
  "copy_from source v =
     v\<lparr>remote_views := remote_views source,
       observed_remote_connections := observed_remote_connections source,
       observed_remote_names := observed_remote_names source,
       project_observations := project_observations source\<rparr>"

definition contains :: "view \<Rightarrow> remote_name \<Rightarrow> bool" where
  "contains v remote \<longleftrightarrow>
     bt_contains_key (remote_views v) remote \<or>
     bt_contains_key (observed_remote_connections v) remote \<or>
     list_ex (\<lambda>key. ok_remote key = remote) (bt_keys (project_observations v))"

definition check_relocation :: "view \<Rightarrow> remote_name \<Rightarrow> remote_name \<Rightarrow> (message, unit) result" where
  "check_relocation v old new =
     (if old \<noteq> new \<and> contains v new then Inl (HistoricalRemoteExists new) else Inr ())"

text \<open>Whether some observed remote still has the connection among its terms.\<close>

definition connection_observed :: "view \<Rightarrow> ConnectionId \<Rightarrow> bool" where
  "connection_observed v owner =
     list_ex (\<lambda>target. owner \<in> set (somes (merge_values target))) (bt_values (observed_remote_connections v))"

definition forget_owner :: "ConnectionId \<Rightarrow> view \<Rightarrow> view" where
  "forget_owner owner v =
     (if connection_observed v owner then v
      else v\<lparr>observed_remote_names := bt_remove owner (observed_remote_names v)\<rparr>)"

definition remove_observations :: "remote_name \<Rightarrow> view \<Rightarrow> view" where
  "remove_observations remote v =
     (let v' = v\<lparr>remote_views := bt_remove remote (remote_views v),
                 project_observations :=
                   bt_retain (\<lambda>key _. ok_remote key \<noteq> remote) (project_observations v)\<rparr>
      in case bt_get (observed_remote_connections v') remote of
           None \<Rightarrow> v'
         | Some owners \<Rightarrow>
             fold forget_owner (somes (merge_values owners))
               (v'\<lparr>observed_remote_connections := bt_remove remote (observed_remote_connections v')\<rparr>))"

definition record_observation :: "observation_key \<Rightarrow> conversion_observation \<Rightarrow> view \<Rightarrow> view" where
  "record_observation key evidence v =
     (let v' = v\<lparr>observed_remote_connections :=
                   bt_insert (ok_remote key) (normal (co_connection_id evidence)) (observed_remote_connections v)\<rparr>;
          v'' = (case bt_get (remote_names (view_project_state v')) (co_connection_id evidence) of
                   Some name \<Rightarrow>
                     v'\<lparr>observed_remote_names :=
                          bt_insert (co_connection_id evidence) name (observed_remote_names v')\<rparr>
                 | None \<Rightarrow> v')
      in v''\<lparr>project_observations := bt_insert key (normal evidence) (project_observations v'')\<rparr>)"

definition capture_name :: "project_state \<Rightarrow> ConnectionId \<Rightarrow> view \<Rightarrow> view" where
  "capture_name state connection v =
     (case bt_get (remote_names state) connection of
        Some name \<Rightarrow> v\<lparr>observed_remote_names := bt_insert connection name (observed_remote_names v)\<rparr>
      | None \<Rightarrow> v)"

definition capture_identity_from :: "remote_name \<Rightarrow> view \<Rightarrow> view \<Rightarrow> view" where
  "capture_identity_from remote source v =
     (case bt_get (remote_connections source) remote of
        None \<Rightarrow> v
      | Some owner \<Rightarrow>
          fold (capture_name (view_project_state source)) (somes (merge_values owner))
            (v\<lparr>observed_remote_connections := bt_insert remote owner (observed_remote_connections v)\<rparr>))"

definition capture_identity :: "remote_name \<Rightarrow> view \<Rightarrow> view" where
  "capture_identity remote v =
     (case bt_get (remote_connections v) remote of
        None \<Rightarrow> v
      | Some owner \<Rightarrow>
          fold (capture_name (view_project_state v)) (somes (merge_values owner))
            (v\<lparr>observed_remote_connections := bt_insert remote owner (observed_remote_connections v)\<rparr>))"

text \<open>
  Moving an entry of a map to a new key: \<open>remove\<close>, then \<open>insert\<close> if there was one. The key of an
  observation is moved by replacing its remote.
\<close>

definition move_key :: "'k::linorder \<Rightarrow> 'k \<Rightarrow> ('k, 'v) btree \<Rightarrow> ('k, 'v) btree" where
  "move_key old new m =
     (case bt_get m old of None \<Rightarrow> m | Some v \<Rightarrow> bt_insert new v (bt_remove old m))"

definition with_remote :: "remote_name \<Rightarrow> observation_key \<Rightarrow> observation_key" where
  "with_remote remote key = ObservationKey remote (ok_name key) (ok_kind key)"

definition relocate :: "remote_name \<Rightarrow> remote_name \<Rightarrow> view \<Rightarrow> (message, view) result" where
  "relocate old new v =
     res_bind (check_relocation v old new) (\<lambda>_.
     if old = new then Inr v
     else Inr (v\<lparr>remote_views := move_key old new (remote_views v),
                 observed_remote_connections := move_key old new (observed_remote_connections v),
                 project_observations :=
                   fold (\<lambda>key. move_key key (with_remote new key))
                     (filter (\<lambda>key. ok_remote key = old) (bt_keys (project_observations v)))
                     (project_observations v)\<rparr>))"

section \<open>Remapping an imported snapshot\<close>

text \<open>The first item that a set already holds.\<close>

fun first_duplicate :: "'a list \<Rightarrow> 'a list \<Rightarrow> 'a option" where
  "first_duplicate seen [] = None"
| "first_duplicate seen (x # xs) = (if x \<in> set seen then Some x else first_duplicate (x # seen) xs)"

definition mapped_ref :: "(ref_name, ref_name) btree \<Rightarrow> ref_name \<Rightarrow> ref_name" where
  "mapped_ref ref_names name = (case bt_get ref_names name of Some n \<Rightarrow> n | None \<Rightarrow> name)"

text \<open>The key that an observation gets, unless its remote is not mapped.\<close>

definition mapped_key ::
  "(remote_name, remote_name) btree \<Rightarrow> (ref_name, ref_name) btree \<Rightarrow> observation_key \<Rightarrow> observation_key option" where
  "mapped_key remotes ref_names key =
     map_option (\<lambda>remote.
       ObservationKey remote
         (if ok_kind key = Revision then ok_name key else mapped_ref ref_names (ok_name key)) (ok_kind key))
       (bt_get remotes (ok_remote key))"

fun first_collision :: "(ref_name, ref_name) btree \<Rightarrow> (remote_name \<times> remote_view) list \<Rightarrow> message option" where
  "first_collision ref_names [] = None"
| "first_collision ref_names ((remote, v) # rest) =
     (case first_duplicate [] (map (mapped_ref ref_names) (bt_keys (bookmarks v))) of
        Some mapped \<Rightarrow> Some (ImportedReferencesCollide mapped remote)
      | None \<Rightarrow>
          (case first_duplicate [] (map (mapped_ref ref_names) (bt_keys (tags v))) of
             Some mapped \<Rightarrow> Some (ImportedReferencesCollide mapped remote)
           | None \<Rightarrow> first_collision ref_names rest))"

definition remap_check ::
  "view \<Rightarrow> (remote_name, remote_name) btree \<Rightarrow> (ref_name, ref_name) btree \<Rightarrow> message option" where
  "remap_check v remotes ref_names =
     (case first_duplicate [] (bt_values remotes) of
        Some remote \<Rightarrow> Some (ImportedRemotesCollide remote)
      | None \<Rightarrow>
          (case first_collision ref_names
                  (filter (\<lambda>(remote, _). bt_contains_key remotes remote) (entries (remote_views v))) of
             Some m \<Rightarrow> Some m
           | None \<Rightarrow>
               map_option (\<lambda>key. ImportedObservationsCollide (ok_name key) (ok_remote key))
                 (first_duplicate []
                   (List.map_filter (mapped_key remotes ref_names) (bt_keys (project_observations v))))))"

definition remap_refs :: "(ref_name, ref_name) btree \<Rightarrow> (ref_name, remote_ref) btree \<Rightarrow> (ref_name, remote_ref) btree" where
  "remap_refs ref_names refs =
     bt_from_list (map (\<lambda>(name, target). (mapped_ref ref_names name, target)) (entries refs))"

definition remap_view :: "(ref_name, ref_name) btree \<Rightarrow> remote_view \<Rightarrow> remote_view" where
  "remap_view ref_names v =
     \<lparr>bookmarks = remap_refs ref_names (bookmarks v), tags = remap_refs ref_names (tags v)\<rparr>"

text \<open>\<open>take\<close> of a map and the insertion of its entries under their new keys.\<close>

definition rekey :: "('k::linorder \<Rightarrow> 'k option) \<Rightarrow> ('v \<Rightarrow> 'v) \<Rightarrow> ('k, 'v) btree \<Rightarrow> ('k, 'v) btree" where
  "rekey f g m = bt_from_list (List.map_filter (\<lambda>(k, v). map_option (\<lambda>k'. (k', g v)) (f k)) (entries m))"

definition remap ::
  "(remote_name, remote_name) btree \<Rightarrow> (ref_name, ref_name) btree \<Rightarrow> view \<Rightarrow> (message, view) result" where
  "remap remotes ref_names v =
     (case remap_check v remotes ref_names of
        Some m \<Rightarrow> Inl m
      | None \<Rightarrow>
          let observed = rekey (bt_get remotes) (\<lambda>x. x) (observed_remote_connections v);
              owners = concat (map (\<lambda>target. somes (merge_values target)) (bt_values observed))
          in Inr (v\<lparr>remote_views := rekey (bt_get remotes) (remap_view ref_names) (remote_views v),
                    observed_remote_connections := observed,
                    observed_remote_names :=
                      bt_retain (\<lambda>connection _. connection \<in> set owners) (observed_remote_names v),
                    project_observations :=
                      rekey (mapped_key remotes ref_names) (\<lambda>x. x) (project_observations v)\<rparr>))"

end
