(* ===== verification/Repo_View.thy ===== *)
theory Repo_View
  imports Refs Str_Util Commit_Index Remote_Identity Remote_Observations
begin

text \<open>
  The view of a repository at an operation, \<open>jj/lib/src/view.rs\<close>: the stored view with the flag
  that says whether its heads are normalized. The methods that read and validate remotes, the
  methods that change references, workspaces, heads and remotes, and the normalization of the heads
  against the commit index.

  The iteration order of a \<open>HashSet\<close> of commits is the parameter \<open>iter\<close>; \<open>merge_join_by\<close> and
  \<open>kmerge_by\<close> are the adaptors of itertools. The trivial accessors of the fields are the fields.
\<close>

record repo_view =
  data :: view
  head_normalized :: bool

definition view_new :: "view \<Rightarrow> bool \<Rightarrow> repo_view" where
  "view_new op_store_view normalized = \<lparr>data = op_store_view, head_normalized = normalized\<rparr>"

definition view_eq :: "repo_view \<Rightarrow> repo_view \<Rightarrow> bool" where
  "view_eq v other \<longleftrightarrow> data v = data other"

definition get_wc_commit_id :: "repo_view \<Rightarrow> workspace_name \<Rightarrow> CommitId option" where
  "get_wc_commit_id v name = bt_get (wc_commit_ids (data v)) name"

section \<open>Identity of remotes\<close>

definition connection_shared :: "view \<Rightarrow> remote_name \<Rightarrow> ConnectionId \<Rightarrow> bool" where
  "connection_shared d remote connection =
     list_ex (\<lambda>(other, owners). other \<noteq> remote \<and> connection \<in> set (somes (adds owners)))
       (entries (remote_connections d))"

definition check_binding ::
  "project_state \<Rightarrow> remote_name \<Rightarrow> remote_identity \<Rightarrow> (BindingId \<times> binding_record) option \<Rightarrow>
   (message, unit) result" where
  "check_binding state remote identity binding =
     (case ri_scoped_name identity of
        Some name \<Rightarrow>
          if (case binding of None \<Rightarrow> False | Some (_, b) \<Rightarrow> br_target b \<noteq> Project (sn_project name))
          then Inl (ConnectionScopeIncompatible (ri_connection identity))
          else validate_project state (sn_project name)
      | None \<Rightarrow>
          (case binding of
             Some (_, b) \<Rightarrow>
               (case br_target b of
                  Project _ \<Rightarrow> Inl (RemoteRequiresMigration remote)
                | RepositoryView \<Rightarrow> Inr ())
           | None \<Rightarrow> Inr ()))"

definition view_remote_identity :: "repo_view \<Rightarrow> remote_name \<Rightarrow> (message, remote_identity option) result" where
  "view_remote_identity v remote =
     res_bind (resolve (data v) remote) (\<lambda>found.
     case found of
       None \<Rightarrow> Inr None
     | Some identity \<Rightarrow>
         if ri_source identity = Historical then Inr (Some identity)
         else if connection_shared (data v) remote (ri_connection identity)
         then Inl (ConnectionHasMultipleRemotes (ri_connection identity))
         else
           res_bind (binding_for_connection (view_project_state (data v)) (ri_connection identity)) (\<lambda>binding.
           res_bind (check_binding (view_project_state (data v)) remote identity binding) (\<lambda>_.
           Inr (Some identity))))"

definition is_historical_remote_ref :: "repo_view \<Rightarrow> remote_ref_symbol \<Rightarrow> (message, bool) result" where
  "is_historical_remote_ref v symbol =
     (if bt_contains_key (remote_connections (data v)) (sym_remote symbol) \<or>
         \<not> (case bt_get (remote_views (data v)) (sym_remote symbol) of
              None \<Rightarrow> False
            | Some remote \<Rightarrow>
                bt_contains_key (bookmarks remote) (sym_name symbol) \<or>
                bt_contains_key (tags remote) (sym_name symbol))
      then Inr False
      else res_bind (view_remote_identity v (sym_remote symbol)) (\<lambda>found.
           Inr (case found of None \<Rightarrow> False | Some identity \<Rightarrow> ri_source identity = Historical)))"

text \<open>\<open>self.remote_identity(remote).ok().flatten()\<close> and the scoped name of an identity.\<close>

definition identity_ok :: "repo_view \<Rightarrow> remote_name \<Rightarrow> remote_identity option" where
  "identity_ok v remote = Option.bind (res_ok (view_remote_identity v remote)) (\<lambda>x. x)"

definition scoped_of :: "remote_identity option \<Rightarrow> scoped_remote_name option" where
  "scoped_of identity = Option.bind identity ri_scoped_name"

definition local_name :: "remote_name \<Rightarrow> scoped_remote_name option \<Rightarrow> remote_name" where
  "local_name remote scoped = (case scoped of None \<Rightarrow> remote | Some name \<Rightarrow> sn_name name)"

definition remote_local_name :: "repo_view \<Rightarrow> remote_name \<Rightarrow> remote_name" where
  "remote_local_name v remote = local_name remote (scoped_of (identity_ok v remote))"

definition remote_in_scope :: "repo_view \<Rightarrow> remote_name \<Rightarrow> ProjectId option \<Rightarrow> (message, bool) result" where
  "remote_in_scope v remote project =
     (if \<not> may_be_in_scope (data v) remote project then Inr False
      else res_bind (view_remote_identity v remote) (\<lambda>identity.
           Inr (map_option sn_project (scoped_of identity) = project)))"

section \<open>Resolving a remote name\<close>

text \<open>Whether an owner of the remote has the name among the terms of its scoped names.\<close>

definition owner_has_name :: "view \<Rightarrow> remote_name \<Rightarrow> remote_name \<Rightarrow> bool" where
  "owner_has_name d remote name =
     (case bt_get (remote_connections d) remote of
        None \<Rightarrow> False
      | Some owners \<Rightarrow>
          list_ex (\<lambda>owner.
            case bt_get (remote_names (view_project_state d)) owner of
              None \<Rightarrow> False
            | Some names \<Rightarrow> list_ex (\<lambda>identity. sn_name identity = name) (somes (merge_values names)))
            (somes (merge_values owners)))"

fun scan_remotes ::
  "repo_view \<Rightarrow> ProjectId option \<Rightarrow> remote_name \<Rightarrow> bool \<Rightarrow> remote_name list \<Rightarrow>
   remote_name option \<Rightarrow> message option \<Rightarrow> (message, remote_name option \<times> message option) result" where
  "scan_remotes v project name logical [] found invalid = Inr (found, invalid)"
| "scan_remotes v project name logical (remote # rest) found invalid =
     (if bt_contains_key (remote_connections (data v)) remote \<noteq> logical \<or>
         \<not> may_be_in_scope (data v) remote project
      then scan_remotes v project name logical rest found invalid
      else
        case view_remote_identity v remote of
          Inr identity \<Rightarrow>
            let scoped = scoped_of identity in
            if map_option sn_project scoped = project \<and>
               (local_name remote scoped = name \<or> (\<not> logical \<and> remote = name))
            then if (case found of None \<Rightarrow> False | Some previous \<Rightarrow> previous \<noteq> remote)
                 then Inl (RemoteNameDuplicatedInScope name)
                 else scan_remotes v project name logical rest (Some remote) invalid
            else scan_remotes v project name logical rest found invalid
        | Inl error \<Rightarrow>
            if logical \<and> (remote = name \<or> owner_has_name (data v) remote name)
            then Inl error
            else scan_remotes v project name logical rest found
                   (case invalid of None \<Rightarrow> Some error | Some e \<Rightarrow> Some e))"

definition resolve_remote_name ::
  "repo_view \<Rightarrow> remote_name list \<Rightarrow> ProjectId option \<Rightarrow> remote_name \<Rightarrow> (message, remote_name) result" where
  "resolve_remote_name v remotes project name =
     (let all = remotes @ bt_keys (remote_connections (data v)) in
      res_bind (scan_remotes v project name True all None None) (\<lambda>(found, invalid).
      case found of
        Some remote \<Rightarrow> Inr remote
      | None \<Rightarrow>
          (case invalid of
             Some error \<Rightarrow> Inl error
           | None \<Rightarrow>
               res_bind (scan_remotes v project name False all None None) (\<lambda>(found, invalid).
               case found of
                 Some remote \<Rightarrow> Inr remote
               | None \<Rightarrow>
                   Inl (case invalid of Some error \<Rightarrow> error | None \<Rightarrow> NoRemoteNamed name)))))"

definition REMOTE_NAME_FOR_LOCAL_GIT_REPO :: remote_name where
  "REMOTE_NAME_FOR_LOCAL_GIT_REPO = ''git''"

definition label_of_name :: "ref_name \<Rightarrow> string option" where
  "label_of_name name = map_option snd (rsplit_once CHR ''#'' name)"

definition remote_ref_remote_name :: "repo_view \<Rightarrow> remote_ref_symbol \<Rightarrow> string" where
  "remote_ref_remote_name v symbol =
     (if sym_remote symbol = REMOTE_NAME_FOR_LOCAL_GIT_REPO then sym_remote symbol
      else
        let state = view_project_state (data v);
            identity = view_remote_identity v (sym_remote symbol);
            scoped_name = scoped_of (identity_ok v (sym_remote symbol));
            historical = (case identity of Inr (Some i) \<Rightarrow> ri_source i = Historical | _ \<Rightarrow> False);
            local = local_name (sym_remote symbol) scoped_name
        in
        if historical \<and>
           (case scoped_name of
              None \<Rightarrow> False
            | Some name \<Rightarrow>
                Option.bind (label_of_name (sym_name symbol))
                  (\<lambda>label. Option.bind (res_ok (resolve_label state label)) (\<lambda>x. x)) \<noteq> Some (sn_project name))
        then sym_remote symbol
        else if historical \<and>
           res_ok (resolve_remote_name v (bt_keys (remote_views (data v)))
             (map_option sn_project scoped_name) local) \<noteq> Some (sym_remote symbol)
        then sym_remote symbol
        else if res_ok identity \<noteq> None \<and> scoped_name = None \<and>
           (case label_of_name (sym_name symbol) of
              None \<Rightarrow> False
            | Some label \<Rightarrow>
                (case bt_get (labels state) label of None \<Rightarrow> False | Some target \<Rightarrow> is_present target))
        then sym_remote symbol @ ''#''
        else local)"

definition remote_ref_symbol_display :: "repo_view \<Rightarrow> remote_ref_symbol \<Rightarrow> remote_ref_symbol" where
  "remote_ref_symbol_display v symbol =
     \<lparr>sym_name = sym_name symbol, sym_remote = remote_ref_remote_name v symbol\<rparr>"

definition remote_qualified_name :: "repo_view \<Rightarrow> remote_name \<Rightarrow> string" where
  "remote_qualified_name v remote =
     (case identity_ok v remote of
        None \<Rightarrow> remote
      | Some identity \<Rightarrow> qualified_name identity (view_project_state (data v)) remote)"

section \<open>Labels and observations\<close>

definition all_ref_names :: "view \<Rightarrow> ref_name list" where
  "all_ref_names d =
     bt_keys (local_bookmarks d) @ bt_keys (local_tags d) @
     concat (map (\<lambda>rv. bt_keys (bookmarks rv) @ bt_keys (tags rv)) (bt_values (remote_views d))) @
     map ok_name (bt_keys (project_observations d))"

definition check_project_label_available :: "repo_view \<Rightarrow> string \<Rightarrow> (message, unit) result" where
  "check_project_label_available v label =
     (if (case bt_get (labels (view_project_state (data v))) label of
            None \<Rightarrow> False | Some target \<Rightarrow> is_present target)
      then Inl (LabelAlreadyRegistered label)
      else if list_ex (\<lambda>name. label_of_name name = Some label) (all_ref_names (data v))
      then Inl (LabelWouldAdopt label)
      else Inr ())"

definition observation_owner :: "view \<Rightarrow> observation_key \<Rightarrow> (message, ConnectionId option) result" where
  "observation_owner d key =
     (case (case bt_get (remote_connections d) (ok_remote key) of
              Some target \<Rightarrow> Some target
            | None \<Rightarrow> bt_get (observed_remote_connections d) (ok_remote key)) of
        None \<Rightarrow> Inr None
      | Some target \<Rightarrow> ok_or (ObservationOwnershipUnresolved key) (as_resolved target))"

text \<open>The positive terms of an observation: \<open>terms.iter().step_by(2)\<close>.\<close>

definition positive_terms :: "conversion_observation \<Rightarrow> conversion_term list" where
  "positive_terms observation = step2 (co_terms observation)"

definition check_observation ::
  "view \<Rightarrow> observation_key \<Rightarrow> ConnectionId option \<Rightarrow> conversion_observation \<Rightarrow> (message, unit) result" where
  "check_observation d key owner observation =
     (if (case owner of None \<Rightarrow> False | Some c \<Rightarrow> c \<noteq> co_connection_id observation)
      then Inl (ObservationOfOtherConnection key)
      else
        res_bind
          (case bt_get (bindings (view_project_state d)) (co_binding_id observation) of
             None \<Rightarrow> Inr ()
           | Some binding \<Rightarrow>
               if list_ex (\<lambda>b. b \<noteq> co_binding observation) (somes (merge_values binding))
               then Inl (ObservationIncompatibleBinding key (co_binding_id observation))
               else if \<not> is_resolved binding
               then Inl (ObservationRequiresUnresolvedBinding key (co_binding_id observation))
               else Inr ()) (\<lambda>_.
        res_bind
          (case br_target (co_binding observation) of
             RepositoryView \<Rightarrow> Inr ()
           | Project pid \<Rightarrow>
               (case Option.bind (label_of_name (ok_name key)) (bt_get (labels (view_project_state d))) of
                  None \<Rightarrow> Inr ()
                | Some target \<Rightarrow>
                    if as_normal target \<noteq> Some pid then Inl (ObservationIncompatibleLabel key) else Inr ())) (\<lambda>_.
        if ok_kind key = Revision \<and>
           (co_raw_ref observation \<noteq> [] \<or>
            \<not> list_ex (\<lambda>t. ct_raw t = Some (ok_name key)) (positive_terms observation))
        then Inl (RevisionUnexplained key)
        else Inr ())))"

fun check_observations ::
  "view \<Rightarrow> observation_key \<Rightarrow> ConnectionId option \<Rightarrow> conversion_observation list \<Rightarrow> (message, unit) result" where
  "check_observations d key owner [] = Inr ()"
| "check_observations d key owner (observation # rest) =
     res_bind (check_observation d key owner observation) (\<lambda>_. check_observations d key owner rest)"

definition get_remote_bookmark :: "repo_view \<Rightarrow> remote_ref_symbol \<Rightarrow> remote_ref" where
  "get_remote_bookmark v symbol =
     (case bt_get (remote_views (data v)) (sym_remote symbol) of
        Some remote_view \<Rightarrow> flatten_remote_ref (bt_get (bookmarks remote_view) (sym_name symbol))
      | None \<Rightarrow> absent_remote_ref)"

definition get_remote_tag :: "repo_view \<Rightarrow> remote_ref_symbol \<Rightarrow> remote_ref" where
  "get_remote_tag v symbol =
     (case bt_get (remote_views (data v)) (sym_remote symbol) of
        Some remote_view \<Rightarrow> flatten_remote_ref (bt_get (tags remote_view) (sym_name symbol))
      | None \<Rightarrow> absent_remote_ref)"

definition explains :: "conversion_observation option merge \<Rightarrow> CommitId option \<Rightarrow> bool" where
  "explains evidence canonical =
     list_ex (\<lambda>observation. list_ex (\<lambda>t. ct_canonical t = canonical) (positive_terms observation))
       (somes (adds evidence))"

definition validate_project_observation :: "repo_view \<Rightarrow> observation_key \<Rightarrow> (message, unit) result" where
  "validate_project_observation v key =
     (case bt_get (project_observations (data v)) key of
        None \<Rightarrow> Inr ()
      | Some evidence \<Rightarrow>
          res_bind (observation_owner (data v) key) (\<lambda>owner.
          res_bind (check_observations (data v) key owner (somes (adds evidence))) (\<lambda>_.
          let symbol = \<lparr>sym_name = ok_name key, sym_remote = ok_remote key\<rparr>;
              explained = (\<lambda>target.
                if list_all (explains evidence) (adds target) then Inr ()
                else Inl (ObservationUnexplainedTarget key))
          in case ok_kind key of
               Bookmark \<Rightarrow> explained (rr_target (get_remote_bookmark v symbol))
             | Tag \<Rightarrow> explained (rr_target (get_remote_tag v symbol))
             | Revision \<Rightarrow> Inr ())))"

definition remote_diagnostic ::
  "repo_view \<Rightarrow> remote_name \<Rightarrow> ConnectionId option merge \<Rightarrow> project_diagnostic list" where
  "remote_diagnostic v remote owners =
     (case view_remote_identity v remote of
        Inr _ \<Rightarrow> []
      | Inl m \<Rightarrow>
          let state = view_project_state (data v);
              owned = concat (map (\<lambda>(bid, target).
                map (\<lambda>record. (bid, record))
                  (filter (\<lambda>record. br_connection_id record \<in> set (somes (adds owners))) (somes (adds target))))
                (entries (bindings state)))
          in [diag m
                (target_projects (map snd owned) @
                 map sn_project (concat (map (\<lambda>target. somes (adds target))
                   (List.map_filter (bt_get (remote_names state)) (somes (adds owners))))))
                (map fst owned) []])"

definition observation_diagnostic ::
  "repo_view \<Rightarrow> observation_key \<Rightarrow> conversion_observation option merge \<Rightarrow> project_diagnostic list" where
  "observation_diagnostic v key evidence =
     (case validate_project_observation v key of
        Inr _ \<Rightarrow> []
      | Inl m \<Rightarrow>
          [diag m (target_projects (map co_binding (somes (adds evidence))))
             (map co_binding_id (somes (adds evidence)))
             (case label_of_name (ok_name key) of None \<Rightarrow> [] | Some label \<Rightarrow> [label])])"

definition project_diagnostics :: "repo_view \<Rightarrow> project_diagnostic list" where
  "project_diagnostics v =
     diagnostics (view_project_state (data v)) @
     concat (map (\<lambda>(remote, owners). remote_diagnostic v remote owners) (entries (remote_connections (data v)))) @
     concat (map (\<lambda>(key, evidence). observation_diagnostic v key evidence) (entries (project_observations (data v))))"

end
