(* ===== verification/View_Ops.thy ===== *)
theory View_Ops
  imports Repo_View
begin

text \<open>
  The methods of \<open>jj/lib/src/view.rs\<close> that list and change what a view holds: working copies,
  heads, local and remote references, remotes and the Git mirrors. A setter given an absent target
  removes the entry, except that a tracked remote reference is kept as long as its local reference
  is present.
\<close>

section \<open>Workspaces\<close>

definition get_wc_sparse_patterns :: "repo_view \<Rightarrow> workspace_name \<Rightarrow> WorkingCopyPatternsId option merge option" where
  "get_wc_sparse_patterns v name =
     (case bt_get (wc_sparse_patterns (data v)) name of
        None \<Rightarrow> None
      | Some target \<Rightarrow> if is_present target then Some target else None)"

definition set_wc_sparse_patterns ::
  "workspace_name \<Rightarrow> WorkingCopyPatternsId option merge \<Rightarrow> repo_view \<Rightarrow> repo_view" where
  "set_wc_sparse_patterns name target v =
     v\<lparr>data := (data v)\<lparr>wc_sparse_patterns :=
         if is_absent target then bt_remove name (wc_sparse_patterns (data v))
         else bt_insert name target (wc_sparse_patterns (data v))\<rparr>\<rparr>"

definition workspaces_for_wc_commit_id :: "repo_view \<Rightarrow> CommitId \<Rightarrow> workspace_name list" where
  "workspaces_for_wc_commit_id v commit_id =
     map fst (filter (\<lambda>(_, wc_commit_id). wc_commit_id = commit_id) (entries (wc_commit_ids (data v))))"

definition is_wc_commit_id :: "repo_view \<Rightarrow> CommitId \<Rightarrow> bool" where
  "is_wc_commit_id v commit_id = (commit_id \<in> set (bt_values (wc_commit_ids (data v))))"

definition git_head :: "repo_view \<Rightarrow> workspace_name \<Rightarrow> ref_target" where
  "git_head v workspace = flatten_target (bt_get (git_heads (data v)) workspace)"

definition set_wc_commit :: "workspace_name \<Rightarrow> CommitId \<Rightarrow> repo_view \<Rightarrow> repo_view" where
  "set_wc_commit name commit_id v =
     v\<lparr>data := (data v)\<lparr>wc_commit_ids := bt_insert name commit_id (wc_commit_ids (data v))\<rparr>\<rparr>"

definition remove_workspace :: "workspace_name \<Rightarrow> repo_view \<Rightarrow> repo_view" where
  "remove_workspace name v =
     v\<lparr>data := (data v)
         \<lparr>wc_commit_ids := bt_remove name (wc_commit_ids (data v)),
          git_heads := bt_remove name (git_heads (data v)),
          wc_sparse_patterns := bt_remove name (wc_sparse_patterns (data v))\<rparr>\<rparr>"

datatype rename_workspace_error =
  WorkspaceDoesNotExist workspace_name | WorkspaceAlreadyExists workspace_name

definition rename_workspace ::
  "workspace_name \<Rightarrow> workspace_name \<Rightarrow> repo_view \<Rightarrow> (rename_workspace_error, repo_view) result" where
  "rename_workspace old_name new_name v =
     (if bt_contains_key (wc_commit_ids (data v)) new_name then Inl (WorkspaceAlreadyExists new_name)
      else
        res_bind (ok_or (WorkspaceDoesNotExist old_name) (bt_get (wc_commit_ids (data v)) old_name)) (\<lambda>wc_commit_id.
        Inr (v\<lparr>data := (data v)
          \<lparr>wc_commit_ids := bt_insert new_name wc_commit_id (bt_remove old_name (wc_commit_ids (data v))),
           git_heads := move_key old_name new_name (git_heads (data v)),
           wc_sparse_patterns := move_key old_name new_name (wc_sparse_patterns (data v))\<rparr>\<rparr>)))"

section \<open>Heads\<close>

definition add_head :: "CommitId \<Rightarrow> repo_view \<Rightarrow> repo_view" where
  "add_head head_id v =
     v\<lparr>data := (data v)\<lparr>head_ids := insert head_id (head_ids (data v))\<rparr>, head_normalized := False\<rparr>"

definition remove_head :: "CommitId \<Rightarrow> repo_view \<Rightarrow> repo_view" where
  "remove_head head_id v =
     v\<lparr>data := (data v)\<lparr>head_ids := head_ids (data v) - {head_id}\<rparr>, head_normalized := False\<rparr>"

definition replace_heads :: "CommitId \<Rightarrow> CommitId list \<Rightarrow> repo_view \<Rightarrow> repo_view" where
  "replace_heads add_head_id remove_head_ids v =
     v\<lparr>data := (data v)\<lparr>head_ids :=
         fold (\<lambda>head_id ids. ids - {head_id}) remove_head_ids (insert add_head_id (head_ids (data v)))\<rparr>\<rparr>"

text \<open>
  The outcome is the result and the view: an error of the index returns after the root was removed.
  \<open>iter\<close> is the iteration order of the hash set; the assertion panics on an empty set.
\<close>

definition normalize_heads ::
  "(CommitId set \<Rightarrow> CommitId list) \<Rightarrow> (CommitId list \<Rightarrow> (index_error, CommitId list) result exec) \<Rightarrow>
   CommitId \<Rightarrow> repo_view \<Rightarrow> ((index_error, unit) result \<times> repo_view) exec" where
  "normalize_heads iter index_heads root_commit_id v =
     (if head_normalized v then Returns (Inr (), v)
      else
        let finish = (\<lambda>ids.
              if ids = {} then Panics
              else Returns (Inr (), v\<lparr>data := (data v)\<lparr>head_ids := ids\<rparr>, head_normalized := True\<rparr>))
        in
        if head_ids (data v) = {} then finish {root_commit_id}
        else if card (head_ids (data v)) > 1 then
          let ids = head_ids (data v) - {root_commit_id} in
          exec_bind (index_heads (iter ids)) (\<lambda>r.
          case r of
            Inl e \<Rightarrow> Returns (Inl e, v\<lparr>data := (data v)\<lparr>head_ids := ids\<rparr>\<rparr>)
          | Inr hs \<Rightarrow> finish (set hs))
        else finish (head_ids (data v)))"

section \<open>Bookmarks\<close>

definition list_bookmarks :: "kmerge \<Rightarrow> repo_view \<Rightarrow> (ref_name \<times> local_remote_ref_target) list" where
  "list_bookmarks kmerge_by v =
     merge_join_ref_views kmerge_by (local_bookmarks (data v)) (remote_views (data v)) bookmarks"

definition local_bookmarks_for_commit :: "repo_view \<Rightarrow> CommitId \<Rightarrow> (ref_name \<times> ref_target) list" where
  "local_bookmarks_for_commit v commit_id =
     filter (\<lambda>(_, target). commit_id \<in> set (present_adds target)) (entries (local_bookmarks (data v)))"

definition local_bookmarks_matching :: "repo_view \<Rightarrow> string_matcher \<Rightarrow> (ref_name \<times> ref_target) list" where
  "local_bookmarks_matching v matcher = filter_btree_map matcher (local_bookmarks (data v))"

definition get_local_bookmark :: "repo_view \<Rightarrow> ref_name \<Rightarrow> ref_target" where
  "get_local_bookmark v name = flatten_target (bt_get (local_bookmarks (data v)) name)"

text \<open>The loop body over the remote views when a local reference is removed.\<close>

definition drop_absent :: "ref_name \<Rightarrow> (ref_name, remote_ref) btree \<Rightarrow> (ref_name, remote_ref) btree" where
  "drop_absent name remote_refs =
     (case bt_get remote_refs name of
        None \<Rightarrow> remote_refs
      | Some r \<Rightarrow> if remote_ref_is_absent r then bt_remove name remote_refs else remote_refs)"

definition set_local_bookmark_target :: "ref_name \<Rightarrow> ref_target \<Rightarrow> repo_view \<Rightarrow> repo_view" where
  "set_local_bookmark_target name target v =
     (if is_present target
      then v\<lparr>data := (data v)\<lparr>local_bookmarks := bt_insert name target (local_bookmarks (data v))\<rparr>\<rparr>
      else v\<lparr>data := (data v)
              \<lparr>local_bookmarks := bt_remove name (local_bookmarks (data v)),
               remote_views := bt_map (\<lambda>_ rv. rv\<lparr>bookmarks := drop_absent name (bookmarks rv)\<rparr>)
                 (remote_views (data v))\<rparr>\<rparr>)"

definition all_remote_bookmarks :: "kmerge \<Rightarrow> repo_view \<Rightarrow> ref_item list" where
  "all_remote_bookmarks kmerge_by v = flatten_remote_refs kmerge_by (remote_views (data v)) bookmarks"

definition remote_bookmarks :: "repo_view \<Rightarrow> remote_name \<Rightarrow> (ref_name \<times> remote_ref) list" where
  "remote_bookmarks v remote_name =
     (case bt_get (remote_views (data v)) remote_name of None \<Rightarrow> [] | Some rv \<Rightarrow> entries (bookmarks rv))"

definition remote_bookmarks_matching ::
  "kmerge \<Rightarrow> repo_view \<Rightarrow> string_matcher \<Rightarrow> string_matcher \<Rightarrow> ref_item list" where
  "remote_bookmarks_matching kmerge_by v bookmark_matcher remote_matcher =
     kmerge_by (\<lambda>(symbol1, _) (symbol2, _). symbol_less symbol1 symbol2)
       (map (\<lambda>(remote, rv).
              map (\<lambda>(name, r). (\<lparr>sym_name = name, sym_remote = remote\<rparr>, r))
                (filter_btree_map bookmark_matcher (bookmarks rv)))
         (filter_btree_map remote_matcher (remote_views (data v))))"

text \<open>The method in the view that captures the identity, \<open>capture_remote_observation_identity\<close>.\<close>

definition capture_remote_observation_identity :: "remote_name \<Rightarrow> repo_view \<Rightarrow> repo_view" where
  "capture_remote_observation_identity remote v = v\<lparr>data := capture_identity remote (data v)\<rparr>"

definition entry_or_default :: "(remote_name, remote_view) btree \<Rightarrow> remote_name \<Rightarrow> remote_view" where
  "entry_or_default views remote =
     (case bt_get views remote of None \<Rightarrow> remote_view_default | Some rv \<Rightarrow> rv)"

definition set_remote_bookmark :: "remote_ref_symbol \<Rightarrow> remote_ref \<Rightarrow> repo_view \<Rightarrow> repo_view" where
  "set_remote_bookmark symbol r v0 =
     (let v = capture_remote_observation_identity (sym_remote symbol) v0;
          views = remote_views (data v)
      in if remote_ref_is_present r \<or> (is_tracked r \<and> is_present (get_local_bookmark v (sym_name symbol)))
         then let rv = entry_or_default views (sym_remote symbol)
              in v\<lparr>data := (data v)\<lparr>remote_views :=
                   bt_insert (sym_remote symbol)
                     (rv\<lparr>bookmarks := bt_insert (sym_name symbol) r (bookmarks rv)\<rparr>) views\<rparr>\<rparr>
         else case bt_get views (sym_remote symbol) of
                None \<Rightarrow> v
              | Some rv \<Rightarrow>
                  v\<lparr>data := (data v)\<lparr>remote_views :=
                     bt_insert (sym_remote symbol)
                       (rv\<lparr>bookmarks := bt_remove (sym_name symbol) (bookmarks rv)\<rparr>) views\<rparr>\<rparr>)"

definition forget_remote_bookmark :: "remote_ref_symbol \<Rightarrow> repo_view \<Rightarrow> repo_view" where
  "forget_remote_bookmark symbol v =
     (let views = remote_views (data v);
          views' = (case bt_get views (sym_remote symbol) of
                      None \<Rightarrow> views
                    | Some rv \<Rightarrow>
                        bt_insert (sym_remote symbol)
                          (rv\<lparr>bookmarks := bt_remove (sym_name symbol) (bookmarks rv)\<rparr>) views)
      in v\<lparr>data := (data v)
           \<lparr>remote_views := views',
            project_observations :=
              bt_remove (ObservationKey (sym_remote symbol) (sym_name symbol) Bookmark)
                (project_observations (data v))\<rparr>\<rparr>)"

type_synonym local_remote_join = "(ref_name \<times> ref_target, ref_name \<times> remote_ref) merge_join"

text \<open>The final \<open>map\<close> that builds \<open>LocalAndRemoteRef\<close>.\<close>

definition to_local_and_remote :: "ref_name \<times> ref_target \<times> remote_ref \<Rightarrow> ref_name \<times> local_and_remote_ref" where
  "to_local_and_remote = (\<lambda>(name, local, remote). (name, \<lparr>la_local_target = local, la_remote_ref = remote\<rparr>))"

definition local_remote_bookmarks ::
  "local_remote_join \<Rightarrow> repo_view \<Rightarrow> remote_name \<Rightarrow> (ref_name \<times> local_and_remote_ref) list" where
  "local_remote_bookmarks merge_join_by v remote_name =
     map to_local_and_remote
       (iter_named_local_remote_refs merge_join_by (entries (local_bookmarks (data v)))
          (remote_bookmarks v remote_name))"

definition local_remote_bookmarks_matching ::
  "local_remote_join \<Rightarrow> repo_view \<Rightarrow> string_matcher \<Rightarrow> remote_name \<Rightarrow> (ref_name \<times> local_and_remote_ref) list" where
  "local_remote_bookmarks_matching merge_join_by v matcher remote_name =
     map to_local_and_remote
       (iter_named_local_remote_refs merge_join_by
          (filter_btree_map matcher (local_bookmarks (data v)))
          (case bt_get (remote_views (data v)) remote_name of
             None \<Rightarrow> []
           | Some rv \<Rightarrow> filter_btree_map matcher (bookmarks rv)))"

section \<open>Remotes\<close>

definition remote_views_matching :: "repo_view \<Rightarrow> string_matcher \<Rightarrow> (remote_name \<times> remote_view) list" where
  "remote_views_matching v matcher = filter_btree_map matcher (remote_views (data v))"

definition ensure_remote :: "remote_name \<Rightarrow> repo_view \<Rightarrow> repo_view" where
  "ensure_remote remote_name v =
     (if bt_contains_key (remote_views (data v)) remote_name then v
      else v\<lparr>data := (data v)\<lparr>remote_views :=
               bt_insert remote_name remote_view_default (remote_views (data v))\<rparr>\<rparr>)"

definition remove_remote :: "remote_name \<Rightarrow> repo_view \<Rightarrow> repo_view" where
  "remove_remote remote_name v = v\<lparr>data := remove_observations remote_name (data v)\<rparr>"

definition check_rename_remote :: "repo_view \<Rightarrow> remote_name \<Rightarrow> remote_name \<Rightarrow> (message, unit) result" where
  "check_rename_remote v old new =
     (if old \<noteq> new \<and> bt_contains_key (remote_connections (data v)) new
      then Inl (RemoteAlreadyConnected new)
      else check_relocation (data v) old new)"

definition clear_remote_observations :: "remote_name \<Rightarrow> repo_view \<Rightarrow> repo_view" where
  "clear_remote_observations remote v = v\<lparr>data := remove_observations remote (data v)\<rparr>"

definition relocate_remote_observations ::
  "remote_name \<Rightarrow> remote_name \<Rightarrow> repo_view \<Rightarrow> (message, repo_view) result" where
  "relocate_remote_observations old new v =
     res_bind (relocate old new (data v)) (\<lambda>d. Inr (v\<lparr>data := d\<rparr>))"

definition rename_remote :: "remote_name \<Rightarrow> remote_name \<Rightarrow> repo_view \<Rightarrow> (message, repo_view) result" where
  "rename_remote old new v =
     res_bind (check_rename_remote v old new) (\<lambda>_.
     if old = new then Inr v
     else res_bind (relocate_remote_observations old new v) (\<lambda>v'.
          Inr (v'\<lparr>data := (data v')\<lparr>remote_connections := move_key old new (remote_connections (data v'))\<rparr>\<rparr>)))"

section \<open>Tags\<close>

definition list_tags :: "kmerge \<Rightarrow> repo_view \<Rightarrow> (ref_name \<times> local_remote_ref_target) list" where
  "list_tags kmerge_by v = merge_join_ref_views kmerge_by (local_tags (data v)) (remote_views (data v)) tags"

definition get_local_tag :: "repo_view \<Rightarrow> ref_name \<Rightarrow> ref_target" where
  "get_local_tag v name = flatten_target (bt_get (local_tags (data v)) name)"

definition local_tags_matching :: "repo_view \<Rightarrow> string_matcher \<Rightarrow> (ref_name \<times> ref_target) list" where
  "local_tags_matching v matcher = filter_btree_map matcher (local_tags (data v))"

definition set_local_tag_target :: "ref_name \<Rightarrow> ref_target \<Rightarrow> repo_view \<Rightarrow> repo_view" where
  "set_local_tag_target name target v =
     (if is_present target
      then v\<lparr>data := (data v)\<lparr>local_tags := bt_insert name target (local_tags (data v))\<rparr>\<rparr>
      else v\<lparr>data := (data v)
              \<lparr>local_tags := bt_remove name (local_tags (data v)),
               remote_views := bt_map (\<lambda>_ rv. rv\<lparr>tags := drop_absent name (tags rv)\<rparr>)
                 (remote_views (data v))\<rparr>\<rparr>)"

definition all_remote_tags :: "kmerge \<Rightarrow> repo_view \<Rightarrow> ref_item list" where
  "all_remote_tags kmerge_by v = flatten_remote_refs kmerge_by (remote_views (data v)) tags"

definition remote_tags :: "repo_view \<Rightarrow> remote_name \<Rightarrow> (ref_name \<times> remote_ref) list" where
  "remote_tags v remote_name =
     (case bt_get (remote_views (data v)) remote_name of None \<Rightarrow> [] | Some rv \<Rightarrow> entries (tags rv))"

definition remote_tags_matching ::
  "kmerge \<Rightarrow> repo_view \<Rightarrow> string_matcher \<Rightarrow> string_matcher \<Rightarrow> ref_item list" where
  "remote_tags_matching kmerge_by v tag_matcher remote_matcher =
     kmerge_by (\<lambda>(symbol1, _) (symbol2, _). symbol_less symbol1 symbol2)
       (map (\<lambda>(remote, rv).
              map (\<lambda>(name, r). (\<lparr>sym_name = name, sym_remote = remote\<rparr>, r))
                (filter_btree_map tag_matcher (tags rv)))
         (filter_btree_map remote_matcher (remote_views (data v))))"

definition set_remote_tag :: "remote_ref_symbol \<Rightarrow> remote_ref \<Rightarrow> repo_view \<Rightarrow> repo_view" where
  "set_remote_tag symbol r v0 =
     (let v = capture_remote_observation_identity (sym_remote symbol) v0;
          views = remote_views (data v)
      in if remote_ref_is_present r \<or> (is_tracked r \<and> is_present (get_local_tag v (sym_name symbol)))
         then let rv = entry_or_default views (sym_remote symbol)
              in v\<lparr>data := (data v)\<lparr>remote_views :=
                   bt_insert (sym_remote symbol)
                     (rv\<lparr>tags := bt_insert (sym_name symbol) r (tags rv)\<rparr>) views\<rparr>\<rparr>
         else case bt_get views (sym_remote symbol) of
                None \<Rightarrow> v
              | Some rv \<Rightarrow>
                  v\<lparr>data := (data v)\<lparr>remote_views :=
                     bt_insert (sym_remote symbol)
                       (rv\<lparr>tags := bt_remove (sym_name symbol) (tags rv)\<rparr>) views\<rparr>\<rparr>)"

definition local_remote_tags ::
  "local_remote_join \<Rightarrow> repo_view \<Rightarrow> remote_name \<Rightarrow> (ref_name \<times> local_and_remote_ref) list" where
  "local_remote_tags merge_join_by v remote_name =
     map to_local_and_remote
       (iter_named_local_remote_refs merge_join_by (entries (local_tags (data v)))
          (remote_tags v remote_name))"

definition local_remote_tags_matching ::
  "local_remote_join \<Rightarrow> repo_view \<Rightarrow> string_matcher \<Rightarrow> remote_name \<Rightarrow> (ref_name \<times> local_and_remote_ref) list" where
  "local_remote_tags_matching merge_join_by v matcher remote_name =
     map to_local_and_remote
       (iter_named_local_remote_refs merge_join_by
          (filter_btree_map matcher (local_tags (data v)))
          (case bt_get (remote_views (data v)) remote_name of
             None \<Rightarrow> []
           | Some rv \<Rightarrow> filter_btree_map matcher (tags rv)))"

section \<open>Git mirrors\<close>

definition get_git_ref :: "repo_view \<Rightarrow> git_ref_name \<Rightarrow> ref_target" where
  "get_git_ref v name = flatten_target (bt_get (git_refs (data v)) name)"

definition set_git_ref_target :: "git_ref_name \<Rightarrow> ref_target \<Rightarrow> repo_view \<Rightarrow> repo_view" where
  "set_git_ref_target name target v =
     v\<lparr>data := (data v)\<lparr>git_refs :=
         if is_present target then bt_insert name target (git_refs (data v))
         else bt_remove name (git_refs (data v))\<rparr>\<rparr>"

definition set_git_head_target :: "workspace_name \<Rightarrow> ref_target \<Rightarrow> repo_view \<Rightarrow> repo_view" where
  "set_git_head_target workspace target v =
     v\<lparr>data := (data v)\<lparr>git_heads :=
         if is_present target then bt_insert workspace target (git_heads (data v))
         else bt_remove workspace (git_heads (data v))\<rparr>\<rparr>"

section \<open>Referenced commits\<close>

definition ref_target_ids :: "ref_target \<Rightarrow> CommitId list" where
  "ref_target_ids target = somes (merge_values target)"

definition all_referenced_commit_ids :: "(CommitId set \<Rightarrow> CommitId list) \<Rightarrow> repo_view \<Rightarrow> CommitId list" where
  "all_referenced_commit_ids iter v =
     (let d = data v in
      iter (head_ids d) @
      concat (map ref_target_ids (bt_values (local_bookmarks d))) @
      concat (map ref_target_ids (bt_values (local_tags d))) @
      concat (map (\<lambda>rv. concat (map (\<lambda>r. ref_target_ids (rr_target r)) (bt_values (bookmarks rv) @ bt_values (tags rv))))
        (bt_values (remote_views d))) @
      concat (map ref_target_ids (bt_values (git_refs d))) @
      concat (map ref_target_ids (bt_values (git_heads d))) @
      bt_values (wc_commit_ids d) @
      List.map_filter ct_canonical
        (concat (map co_terms (concat (map (\<lambda>target. somes (merge_values target)) (bt_values (project_observations d)))))))"

definition set_view :: "view \<Rightarrow> bool \<Rightarrow> repo_view \<Rightarrow> repo_view" where
  "set_view d normalized v = v\<lparr>data := d, head_normalized := normalized\<rparr>"

end
