(* ===== verification/Project_Merge_Laws.thy ===== *)
theory Project_Merge_Laws
  imports Merge_Laws Project_State
begin

text \<open>
  The three-way merge of project state: what \<open>merge_map\<close> leaves at each key, and the laws of
  \<open>ProjectState::merge\<close> that concurrent operations rely on. The contract of one key is the
  locale \<open>three_way\<close>; it is interpreted on \<open>trivial_merge\<close>-based \<open>merge_entry\<close> below.
\<close>

section \<open>One key\<close>

lemma trivial_merge_three:
  "trivial_merge [a, r, b] Accept =
     Returns (if a = b then Some a else if a = r then Some b else if b = r then Some a else None)"
  by (simp add: trivial_merge_def)

text \<open>The signed meaning of a three-way merge.\<close>

abbreviation signed_sum :: "'a merge \<Rightarrow> 'a merge \<Rightarrow> 'a merge \<Rightarrow> 'a \<Rightarrow> int" where
  "signed_sum own base other v \<equiv>
     scount (merge_values own) v - scount (merge_values base) v + scount (merge_values other) v"

lemma merge_entry_trivial:
  "merge_entry b b c = Returns c" "merge_entry a b b = Returns a" "merge_entry a b a = Returns a"
  by (simp_all add: merge_entry_def trivial_merge_three)

lemma merge_entry_nontrivial:
  assumes ok: "merge_ok own" "merge_ok base" "merge_ok other"
    and ne: "own \<noteq> other" "own \<noteq> base" "other \<noteq> base"
  obtains f r where "merge_ok f" and "\<And>v. scount (merge_values f) v = signed_sum own base other v"
    and "set (adds f) \<inter> set (removes f) = {}" and "resolve_trivial f Accept = Returns r"
    and "merge_entry own base other = Returns (case r of Some v \<Rightarrow> resolved v | None \<Rightarrow> f)"
proof -
  have m: "merge_ok (Merge [own, base, other])"
    "\<forall>n \<in> set (merge_values (Merge [own, base, other])). merge_ok n"
    using ok by (simp_all add: merge_ok_def)
  obtain f where f: "flatten (Merge [own, base, other]) = Returns f" "merge_ok f"
    "\<And>v. scount (merge_values f) v = nested_scount (merge_values (Merge [own, base, other])) v"
    using flatten_spec[OF m] by metis
  obtain g where g: "simplify f = Returns g" "merge_ok g"
    "scount (merge_values g) = scount (merge_values f)" "set (adds g) \<inter> set (removes g) = {}"
    using simplify_spec[OF f(2)] .
  obtain r where r: "resolve_trivial g Accept = Returns r"
    using trivial_merge_spec[of "merge_values g" Accept] g(2)
    by (auto simp: resolve_trivial_def merge_ok_def)
  have "merge_entry own base other = Returns (case r of Some v \<Rightarrow> resolved v | None \<Rightarrow> g)"
    using ne f g r by (simp add: merge_entry_def trivial_merge_three from_vec_def split: option.split)
  then show ?thesis
    using that[of g r] g f r by simp
qed

lemma merge_entry_total:
  assumes "merge_ok own" "merge_ok base" "merge_ok other"
  obtains t where "merge_entry own base other = Returns t" and "merge_ok t"
proof (cases "own = other \<or> own = base \<or> other = base")
  case True
  with assms show ?thesis using that merge_entry_trivial by metis
next
  case False
  then obtain f r where f: "merge_ok f"
    "merge_entry own base other = Returns (case r of Some v \<Rightarrow> resolved v | None \<Rightarrow> f)"
    using merge_entry_nontrivial[OF assms] by metis
  have "merge_ok (case r of Some v \<Rightarrow> resolved v | None \<Rightarrow> f)"
    using f(1) by (auto simp: resolved_def merge_ok_def split: option.split)
  with f(2) that show ?thesis by blast
qed

text \<open>
  The contract of a three-way merge of one value, total on well-formed inputs, and what every
  client of it may assume: a side that did not change yields to the other one, and the same
  change on both sides is taken once.
\<close>

locale three_way =
  fixes wf :: "'a \<Rightarrow> bool" and merge3 :: "'a \<Rightarrow> 'a \<Rightarrow> 'a \<Rightarrow> 'a exec"
  assumes total: "wf a \<Longrightarrow> wf b \<Longrightarrow> wf c \<Longrightarrow> \<exists>t. merge3 a b c = Returns t \<and> wf t"
    and left_unchanged: "merge3 b b c = Returns c"
    and right_unchanged: "merge3 a b b = Returns a"
    and same_change: "merge3 a b a = Returns a"
begin

lemma no_change: "merge3 a a a = Returns a"
  by (rule same_change)

lemma merge_twice_left:
  assumes "wf a" "wf b" "wf c"
  shows "\<exists>t. merge3 a b c = Returns t \<and> merge3 t c c = Returns t \<and> merge3 c c t = Returns t"
  using total[OF assms] left_unchanged right_unchanged by blast

end

interpretation entry: three_way merge_ok merge_entry
proof
  fix a b c :: "'a option merge"
  show "merge_ok a \<Longrightarrow> merge_ok b \<Longrightarrow> merge_ok c \<Longrightarrow> \<exists>t. merge_entry a b c = Returns t \<and> merge_ok t"
    using merge_entry_total by metis
qed (simp_all add: merge_entry_trivial)

text \<open>Two results that say the same: equal, or both unresolved with the same signed counts.\<close>

definition same_meaning :: "'a merge \<Rightarrow> 'a merge \<Rightarrow> bool" where
  "same_meaning s t \<longleftrightarrow> s = t \<or> scount (merge_values s) = scount (merge_values t)"

lemma merge_entry_commute:
  assumes ok: "merge_ok own" "merge_ok base" "merge_ok other"
    and s: "merge_entry own base other = Returns s" and t: "merge_entry other base own = Returns t"
  shows "same_meaning s t"
proof (cases "own = other \<or> own = base \<or> other = base")
  case True
  with s t show ?thesis
    by (auto simp: merge_entry_trivial same_meaning_def)
next
  case False
  then obtain f q where f: "merge_ok f" "\<And>v. scount (merge_values f) v = signed_sum own base other v"
    "resolve_trivial f Accept = Returns q" "s = (case q of Some v \<Rightarrow> resolved v | None \<Rightarrow> f)"
    using merge_entry_nontrivial[OF ok] s by (metis exec.inject)
  from False obtain g r where g: "merge_ok g" "\<And>v. scount (merge_values g) v = signed_sum other base own v"
    "resolve_trivial g Accept = Returns r" "t = (case r of Some v \<Rightarrow> resolved v | None \<Rightarrow> g)"
    using merge_entry_nontrivial[OF ok(3,2,1)] t by (metis exec.inject)
  have eq: "scount (merge_values f) = scount (merge_values g)"
    using f(2) g(2) by (auto simp: fun_eq_iff)
  then have "q = r"
    using trivial_merge_cong[of "merge_values f" "merge_values g" Accept] f(1,3) g(1,3)
    unfolding resolve_trivial_def merge_ok_def by simp
  then show ?thesis
    using f(4) g(4) eq by (auto simp: same_meaning_def split: option.split)
qed

lemma merge_entry_unresolved:
  assumes ok: "merge_ok own" "merge_ok base" "merge_ok other"
    and ne: "own \<noteq> other" "own \<noteq> base" "other \<noteq> base"
    and t: "merge_entry own base other = Returns t" and "\<not> is_resolved t"
  shows "scount (merge_values t) v = signed_sum own base other v"
    and "set (adds t) \<inter> set (removes t) = {}"
proof -
  obtain f r where f: "\<And>v. scount (merge_values f) v = signed_sum own base other v"
    "set (adds f) \<inter> set (removes f) = {}" "t = (case r of Some v \<Rightarrow> resolved v | None \<Rightarrow> f)"
    using merge_entry_nontrivial[OF ok ne] t by (metis exec.inject)
  have "t = f"
    using f(3) \<open>\<not> is_resolved t\<close> by (auto simp: is_resolved_def resolved_def split: option.splits)
  with f show "scount (merge_values t) v = signed_sum own base other v"
    and "set (adds t) \<inter> set (removes t) = {}" by auto
qed

section \<open>All keys\<close>

definition map_ok :: "('k::linorder, 'v merge) btree \<Rightarrow> bool" where
  "map_ok m \<longleftrightarrow> (\<forall>k t. bt_get m k = Some t \<longrightarrow> merge_ok t)"

text \<open>No stored entry is an absent value.\<close>

definition map_tidy :: "('k::linorder, 'v option merge) btree \<Rightarrow> bool" where
  "map_tidy m \<longleftrightarrow> (\<forall>k t. bt_get m k = Some t \<longrightarrow> is_present t)"

lemma absent_ok [simp]: "merge_ok absent" "is_absent absent"
  by (simp_all add: merge_ok_def absent_def resolved_def is_absent_def as_resolved_def)

lemma is_absent_iff: "is_absent t \<longleftrightarrow> t = absent"
  by (cases t)
    (auto simp: is_absent_def as_resolved_def absent_def resolved_def split: list.splits option.splits)

lemma get_or_absent_ok: "map_ok m \<Longrightarrow> merge_ok (get_or_absent m k)"
  by (auto simp: map_ok_def get_or_absent_def split: option.split)

lemma bt_get_put_present:
  "bt_get (put_present k t m) k' =
     (if k' = k then (if is_absent t then None else Some t) else bt_get m k')"
  by (simp add: put_present_def)

lemma get_or_absent_put_present:
  "get_or_absent (put_present k t m) k' = (if k' = k then t else get_or_absent m k')"
  by (simp add: get_or_absent_def bt_get_put_present is_absent_iff)

interpretation present_store: keyed_store get_or_absent put_present
  by unfold_locales (rule get_or_absent_put_present)

lemma put_present_ok: "map_ok m \<Longrightarrow> merge_ok t \<Longrightarrow> map_ok (put_present k t m)"
  by (auto simp: map_ok_def bt_get_put_present split: if_splits)

lemma put_present_tidy: "map_tidy m \<Longrightarrow> map_tidy (put_present k t m)"
  by (auto simp: map_tidy_def bt_get_put_present is_present_def split: if_splits)

lemma tidy_get: "map_tidy m \<Longrightarrow> bt_get m k = (if is_absent (get_or_absent m k) then None else Some (get_or_absent m k))"
  by (auto simp: map_tidy_def get_or_absent_def is_present_def split: option.split)

lemma tidy_eqI: "map_tidy m \<Longrightarrow> map_tidy n \<Longrightarrow> get_or_absent m = get_or_absent n \<Longrightarrow> m = n"
  by (rule bt_eqI) (simp add: tidy_get)

text \<open>What a merge leaves at one key.\<close>

definition entry_result ::
  "'v option merge \<Rightarrow> 'v option merge \<Rightarrow> 'v option merge \<Rightarrow> 'v option merge exec" where
  "entry_result own base other = (if base = other then Returns own else merge_entry own base other)"

lemma entry_result_eq: "entry_result own base other = merge_entry own base other"
  by (simp add: entry_result_def entry.right_unchanged)

lemma merge_keys_spec:
  assumes "distinct ks" and "map_ok base" and "map_ok other" and "map_ok current"
  shows "\<exists>m. merge_keys ks base other current = Returns m \<and> map_ok m \<and>
    (map_tidy current \<longrightarrow> map_tidy m) \<and>
    (\<forall>k. (k \<notin> set ks \<or> get_or_absent base k = get_or_absent other k \<longrightarrow> bt_get m k = bt_get current k) \<and>
         (k \<in> set ks \<longrightarrow> merge_entry (get_or_absent current k) (get_or_absent base k) (get_or_absent other k)
                          = Returns (get_or_absent m k)))"
  using assms
proof (induction ks arbitrary: current)
  case Nil
  then show ?case by simp
next
  case (Cons x ks)
  let ?b = "get_or_absent base x" and ?t = "get_or_absent other x"
  show ?case
  proof (cases "?b = ?t")
    case True
    with Cons obtain m where m: "merge_keys ks base other current = Returns m" "map_ok m"
      "map_tidy current \<longrightarrow> map_tidy m"
      "\<forall>k. (k \<notin> set ks \<or> get_or_absent base k = get_or_absent other k \<longrightarrow> bt_get m k = bt_get current k) \<and>
         (k \<in> set ks \<longrightarrow> merge_entry (get_or_absent current k) (get_or_absent base k) (get_or_absent other k)
                          = Returns (get_or_absent m k))" by auto
    moreover have "get_or_absent m x = get_or_absent current x"
      using m(4) True by (simp add: get_or_absent_def)
    ultimately show ?thesis using True Cons.prems(1)
      by (auto simp: entry.right_unchanged)
  next
    case False
    obtain t where t: "merge_entry (get_or_absent current x) ?b ?t = Returns t" "merge_ok t"
      using merge_entry_total get_or_absent_ok Cons.prems(2-4) by metis
    let ?cur = "put_present x t current"
    have "map_ok ?cur" using put_present_ok Cons.prems(4) t(2) by blast
    with Cons.IH[of ?cur] Cons.prems obtain m where m: "merge_keys ks base other ?cur = Returns m"
      "map_ok m" "map_tidy ?cur \<longrightarrow> map_tidy m"
      "\<forall>k. (k \<notin> set ks \<or> get_or_absent base k = get_or_absent other k \<longrightarrow> bt_get m k = bt_get ?cur k) \<and>
         (k \<in> set ks \<longrightarrow> merge_entry (get_or_absent ?cur k) (get_or_absent base k) (get_or_absent other k)
                          = Returns (get_or_absent m k))" by auto
    have x: "get_or_absent m x = t"
      using m(4) Cons.prems(1) by (simp add: get_or_absent_def bt_get_put_present is_absent_iff)
    have eq: "merge_keys (x # ks) base other current = Returns m" using False t(1) m(1) by simp
    have keys: "(k \<notin> set (x # ks) \<or> get_or_absent base k = get_or_absent other k \<longrightarrow> bt_get m k = bt_get current k) \<and>
         (k \<in> set (x # ks) \<longrightarrow> merge_entry (get_or_absent current k) (get_or_absent base k) (get_or_absent other k)
                          = Returns (get_or_absent m k))" for k
    proof (cases "k = x")
      case True
      with False t(1) x Cons.prems(1) show ?thesis by simp
    next
      case False
      with m(4)[rule_format, of k] show ?thesis
        by (simp add: bt_get_put_present get_or_absent_put_present)
    qed
    show ?thesis
      using eq keys m(2,3) put_present_tidy by blast
  qed
qed

lemma merge_map_spec:
  assumes "map_ok current" and "map_ok base" and "map_ok other"
  obtains m where "merge_map current base other = Returns m" and "map_ok m"
    and "map_tidy current \<Longrightarrow> map_tidy m"
    and "\<And>k. get_or_absent base k = get_or_absent other k \<Longrightarrow> bt_get m k = bt_get current k"
    and "\<And>k. merge_entry (get_or_absent current k) (get_or_absent base k) (get_or_absent other k)
               = Returns (get_or_absent m k)"
proof -
  let ?ks = "bt_set (bt_keys base @ bt_keys other)"
  obtain m where m: "merge_keys ?ks base other current = Returns m" "map_ok m"
    "map_tidy current \<longrightarrow> map_tidy m"
    "\<forall>k. (k \<notin> set ?ks \<or> get_or_absent base k = get_or_absent other k \<longrightarrow> bt_get m k = bt_get current k) \<and>
         (k \<in> set ?ks \<longrightarrow> merge_entry (get_or_absent current k) (get_or_absent base k) (get_or_absent other k)
                          = Returns (get_or_absent m k))"
    using merge_keys_spec[OF bt_set_distinct assms(2,3,1)] by blast
  have untouched: "k \<notin> set ?ks \<Longrightarrow> get_or_absent base k = get_or_absent other k" for k
    by (auto simp: get_or_absent_def split: option.splits)
  have "merge_entry (get_or_absent current k) (get_or_absent base k) (get_or_absent other k)
               = Returns (get_or_absent m k)" for k
  proof (cases "k \<in> set ?ks")
    case False
    then have "get_or_absent base k = get_or_absent other k" "get_or_absent m k = get_or_absent current k"
      using untouched m(4) by (auto simp: get_or_absent_def)
    then show ?thesis by (simp add: entry.right_unchanged)
  qed (use m(4) in blast)
  with m that show ?thesis by (auto simp: merge_map_def)
qed

lemma merge_map_fast_forward:
  assumes "map_ok base" "map_ok other" "map_tidy base" "map_tidy other"
  shows "merge_map base base other = Returns other"
proof -
  obtain m where m: "merge_map base base other = Returns m" "map_tidy base \<Longrightarrow> map_tidy m"
    "\<And>k. merge_entry (get_or_absent base k) (get_or_absent base k) (get_or_absent other k)
               = Returns (get_or_absent m k)"
    using merge_map_spec[OF assms(1,1,2)] by metis
  have "get_or_absent m = get_or_absent other"
    using m(3) by (simp add: merge_entry_trivial fun_eq_iff)
  with m assms show ?thesis using tidy_eqI by metis
qed

lemma merge_map_unchanged:
  assumes "map_ok current" "map_ok base"
  shows "merge_map current base base = Returns current"
proof -
  obtain m where m: "merge_map current base base = Returns m" "\<And>k. bt_get m k = bt_get current k"
    using merge_map_spec[OF assms(1,2,2)] by metis
  then show ?thesis using bt_eqI by metis
qed

section \<open>The state\<close>

definition state_ok :: "project_state \<Rightarrow> bool" where
  "state_ok s \<longleftrightarrow>
     map_ok (projects s) \<and> map_ok (bindings s) \<and> map_ok (labels s) \<and> map_ok (remote_names s)"

definition state_tidy :: "project_state \<Rightarrow> bool" where
  "state_tidy s \<longleftrightarrow>
     map_tidy (projects s) \<and> map_tidy (bindings s) \<and> map_tidy (labels s) \<and> map_tidy (remote_names s)"

lemma state_okD:
  "state_ok s \<Longrightarrow> map_ok (projects s)" "state_ok s \<Longrightarrow> map_ok (bindings s)"
  "state_ok s \<Longrightarrow> map_ok (labels s)" "state_ok s \<Longrightarrow> map_ok (remote_names s)"
  by (simp_all add: state_ok_def)

text \<open>
  (C3) Merging concurrent changes of the project state never panics, keeps every stored
  expression well formed (an odd number of terms), and never stores an absent entry where there
  was none.
\<close>

theorem state_merge_preserves:
  assumes "state_ok s" and "state_ok base" and "state_ok other"
  shows "\<exists>r. state_merge s base other = Returns r \<and> state_ok r \<and> (state_tidy s \<longrightarrow> state_tidy r)"
proof -
  note ok = state_okD[OF assms(1)] state_okD[OF assms(2)] state_okD[OF assms(3)]
  obtain p where p: "merge_map (projects s) (projects base) (projects other) = Returns p"
    "map_ok p" "map_tidy (projects s) \<Longrightarrow> map_tidy p" using merge_map_spec ok by metis
  obtain b where b: "merge_map (bindings s) (bindings base) (bindings other) = Returns b"
    "map_ok b" "map_tidy (bindings s) \<Longrightarrow> map_tidy b" using merge_map_spec ok by metis
  obtain l where l: "merge_map (labels s) (labels base) (labels other) = Returns l"
    "map_ok l" "map_tidy (labels s) \<Longrightarrow> map_tidy l" using merge_map_spec ok by metis
  obtain n where n: "merge_map (remote_names s) (remote_names base) (remote_names other) = Returns n"
    "map_ok n" "map_tidy (remote_names s) \<Longrightarrow> map_tidy n" using merge_map_spec ok by metis
  show ?thesis
    using p b l n by (simp add: state_merge_def state_ok_def state_tidy_def)
qed

definition sample_record :: "string \<Rightarrow> project_record" where
  "sample_record n = \<lparr>pr_name = n, canonical_root = RepoPath n\<rparr>"

definition sample_state :: "string \<Rightarrow> project_state" where
  "sample_state n =
     project_state_default\<lparr>projects := bt_insert (ProjectId [1]) (normal (sample_record n)) bt_empty\<rparr>"

lemma sample_state_ok: "state_ok (sample_state n)" "state_tidy (sample_state n)"
  by (simp_all add: sample_state_def project_state_default_def state_ok_def state_tidy_def map_ok_def
      map_tidy_def normal_def resolved_def merge_ok_def is_present_def is_absent_def as_resolved_def)

theorem state_merge_preserves_witness:
  "\<exists>r. state_merge (sample_state ''a'') (sample_state ''b'') (sample_state ''c'') = Returns r \<and>
     state_ok r \<and> state_tidy r"
  using state_merge_preserves [OF sample_state_ok(1) sample_state_ok(1) sample_state_ok(1),
      of "''a''" "''b''" "''c''"] sample_state_ok(2) by blast

text \<open>
  An operation whose state did not change since the common base takes the other side's
  state as it is, and merging an unchanged other side changes nothing.
\<close>

theorem state_merge_fast_forward:
  assumes "state_ok base" "state_ok other" "state_tidy base" "state_tidy other"
  shows "state_merge base base other = Returns other \<and> state_merge other base base = Returns other"
  using assms unfolding state_merge_def state_ok_def state_tidy_def
  by (simp_all add: merge_map_fast_forward merge_map_unchanged)

theorem state_merge_fast_forward_witness:
  "state_merge (sample_state ''a'') (sample_state ''a'') (sample_state ''b'') = Returns (sample_state ''b'') \<and>
   state_merge (sample_state ''b'') (sample_state ''a'') (sample_state ''a'') = Returns (sample_state ''b'')"
  using state_merge_fast_forward [OF sample_state_ok(1) sample_state_ok(1) sample_state_ok(2) sample_state_ok(2)]
  by blast

text \<open>
  The order of the two sides of a merge does not matter: at every key both orders give
  the same value, or expressions with the same signed terms.
\<close>

theorem merge_map_commutes:
  assumes "map_ok a" and "map_ok base" and "map_ok b"
  shows "\<exists>m n. merge_map a base b = Returns m \<and> merge_map b base a = Returns n \<and>
    (\<forall>k. same_meaning (get_or_absent m k) (get_or_absent n k))"
proof -
  obtain m where m: "merge_map a base b = Returns m"
    "\<And>k. merge_entry (get_or_absent a k) (get_or_absent base k) (get_or_absent b k) = Returns (get_or_absent m k)"
    using merge_map_spec[OF assms] by metis
  obtain n where n: "merge_map b base a = Returns n"
    "\<And>k. merge_entry (get_or_absent b k) (get_or_absent base k) (get_or_absent a k) = Returns (get_or_absent n k)"
    using merge_map_spec[OF assms(3,2,1)] by metis
  have "same_meaning (get_or_absent m k) (get_or_absent n k)" for k
    using merge_entry_commute[OF _ _ _ m(2) n(2)] get_or_absent_ok assms by blast
  with m n show ?thesis by blast
qed

theorem merge_map_commutes_witness:
  "\<exists>m n. merge_map (projects (sample_state ''a'')) (projects (sample_state ''b'')) (projects (sample_state ''c''))
       = Returns m \<and>
     merge_map (projects (sample_state ''c'')) (projects (sample_state ''b'')) (projects (sample_state ''a''))
       = Returns n \<and>
     same_meaning (get_or_absent m (ProjectId [1])) (get_or_absent n (ProjectId [1]))"
  using merge_map_commutes [OF state_okD(1)[OF sample_state_ok(1)] state_okD(1)[OF sample_state_ok(1)]
      state_okD(1)[OF sample_state_ok(1)], of "''a''" "''b''" "''c''"] by blast

text \<open>
  A conflict is kept as a signed expression: where both sides changed a key in different
  ways and the result is not resolved, its terms are the terms of one side minus the base plus
  the other side, with nothing left to cancel; absent terms are kept like any other.
\<close>

theorem merge_map_keeps_conflict:
  assumes "map_ok a" and "map_ok base" and "map_ok b"
    and "get_or_absent a k \<noteq> get_or_absent b k" and "get_or_absent a k \<noteq> get_or_absent base k"
    and "get_or_absent b k \<noteq> get_or_absent base k"
  shows "\<exists>m. merge_map a base b = Returns m \<and>
    (is_resolved (get_or_absent m k) \<or>
     set (adds (get_or_absent m k)) \<inter> set (removes (get_or_absent m k)) = {} \<and>
     (\<forall>v. scount (merge_values (get_or_absent m k)) v =
        scount (merge_values (get_or_absent a k)) v - scount (merge_values (get_or_absent base k)) v +
        scount (merge_values (get_or_absent b k)) v))"
proof -
  obtain m where m: "merge_map a base b = Returns m"
    "merge_entry (get_or_absent a k) (get_or_absent base k) (get_or_absent b k) = Returns (get_or_absent m k)"
    using merge_map_spec[OF assms(1-3)] by metis
  show ?thesis
    using m merge_entry_unresolved[OF _ _ _ assms(4-6) m(2)] get_or_absent_ok assms(1-3) by blast
qed

theorem merge_map_keeps_conflict_witness:
  "\<exists>m. merge_map bt_empty (projects (sample_state ''a'')) (projects (sample_state ''b'')) = Returns m \<and>
    (is_resolved (get_or_absent m (ProjectId [1])) \<or>
     (\<forall>v. scount (merge_values (get_or_absent m (ProjectId [1]))) v =
        scount [None] v - scount [Some (sample_record ''a'')] v + scount [Some (sample_record ''b'')] v))"
proof -
  have ok: "map_ok (bt_empty :: (ProjectId, project_record option merge) btree)" by (simp add: map_ok_def)
  have g: "get_or_absent (bt_empty :: (ProjectId, project_record option merge) btree) (ProjectId [1]) = Merge [None]"
    "get_or_absent (projects (sample_state n)) (ProjectId [1]) = Merge [Some (sample_record n)]" for n
    by (simp_all add: get_or_absent_def sample_state_def project_state_default_def normal_def resolved_def absent_def)
  show ?thesis
    using merge_map_keeps_conflict [OF ok state_okD(1)[OF sample_state_ok(1)] state_okD(1)[OF sample_state_ok(1)],
        of "ProjectId [1]" "''b''" "''a''"]
    by (auto simp: g sample_record_def)
qed

end
