(* ===== verification/Project_Laws.thy ===== *)
theory Project_Laws
  imports Project_Merge_Laws
begin

text \<open>
  What the diagnostics of a project state mean. \<open>state_consistent\<close> says declaratively what a
  healthy state is; the diagnostics are empty exactly then. The lookups that operations use
  (\<open>validate_project\<close>, \<open>project_by_name\<close>, \<open>resolve_label\<close>,
  \<open>binding_for_connection\<close>) only succeed where no positive candidate of any record,
  resolved or not, competes with the answer.
\<close>

section \<open>Candidates\<close>

definition project_candidate :: "project_state \<Rightarrow> ProjectId \<Rightarrow> project_record \<Rightarrow> bool" where
  "project_candidate s i r \<longleftrightarrow> (\<exists>t. bt_get (projects s) i = Some t \<and> Some r \<in> set (adds t))"

definition binding_candidate :: "project_state \<Rightarrow> BindingId \<Rightarrow> binding_record \<Rightarrow> bool" where
  "binding_candidate s b r \<longleftrightarrow> (\<exists>t. bt_get (bindings s) b = Some t \<and> Some r \<in> set (adds t))"

definition name_candidate :: "project_state \<Rightarrow> ConnectionId \<Rightarrow> scoped_remote_name \<Rightarrow> bool" where
  "name_candidate s c n \<longleftrightarrow> (\<exists>t. bt_get (remote_names s) c = Some t \<and> Some n \<in> set (adds t))"

lemma in_candidates: "(i, r) \<in> set (candidates s) \<longleftrightarrow> project_candidate s i r"
  by (auto simp: candidates_def project_candidate_def in_entries_iff Bex_def split: prod.splits)

lemma ball_entries: "(\<forall>p \<in> set (entries m). P p) \<longleftrightarrow> (\<forall>k v. bt_get m k = Some v \<longrightarrow> P (k, v))"
  using in_entries_iff[of _ _ m] by auto

lemma resolved_somes_inconsistent: "is_resolved t \<Longrightarrow> \<not> inconsistent (map f (somes (merge_values t)))"
  by (cases "merge_values t")
    (auto simp: is_resolved_def inconsistent_def somes_def List.map_filter_def split: list.splits)

section \<open>Each group of diagnostics\<close>

lemma definition_diagnostics_empty:
  "definition_diagnostics s = [] \<longleftrightarrow>
     (\<forall>i t. bt_get (projects s) i = Some t \<longrightarrow> is_resolved t)"
  using resolved_somes_inconsistent[of _ canonical_root]
  by (auto simp: definition_diagnostics_def ball_entries)

lemma candidate_diagnostics_empty:
  "candidate_diagnostics cs = [] \<longleftrightarrow>
     (\<forall>(i, r) \<in> set cs. \<not> invalid_record r) \<and>
     (\<forall>(i, r) \<in> set cs. \<forall>(j, q) \<in> set cs.
        i \<noteq> j \<longrightarrow> pr_name r \<noteq> pr_name q \<and> canonical_root r \<noteq> canonical_root q)"
proof (induction cs rule: candidate_diagnostics.induct)
  case (2 i r rest)
  have "concat (map (\<lambda>(j, q). if i = j then [] else
          if pr_name r = pr_name q \<or> canonical_root r = canonical_root q
          then [diag (ProjectsConflict i j) [i, j] [] []] else []) rest) = [] \<longleftrightarrow>
        (\<forall>(j, q) \<in> set rest. i \<noteq> j \<longrightarrow> pr_name r \<noteq> pr_name q \<and> canonical_root r \<noteq> canonical_root q)"
    by (auto split: if_splits)
  then have "candidate_diagnostics ((i, r) # rest) = [] \<longleftrightarrow>
      \<not> invalid_record r \<and>
      (\<forall>(j, q) \<in> set rest. i \<noteq> j \<longrightarrow> pr_name r \<noteq> pr_name q \<and> canonical_root r \<noteq> canonical_root q) \<and>
      candidate_diagnostics rest = []"
    by (simp only: candidate_diagnostics.simps append_is_Nil_conv) (simp split: if_splits)
  then show ?case unfolding 2 by (auto simp: eq_commute[of _ "pr_name r"] eq_commute[of _ "canonical_root r"])
qed simp

lemma record_diagnostics_empty:
  "record_diagnostics s b r = [] \<longleftrightarrow> (\<forall>p. br_target r = Project p \<longrightarrow> healthy_project s p)"
  by (auto simp: record_diagnostics_def split: binding_target.split)

lemma binding_entry_diagnostics_empty:
  "binding_entry_diagnostics s b t = [] \<longleftrightarrow>
     is_resolved t \<and> (\<forall>r. Some r \<in> set (adds t) \<longrightarrow> (\<forall>p. br_target r = Project p \<longrightarrow> healthy_project s p))"
  using resolved_somes_inconsistent[of t "\<lambda>x. x"]
  by (auto simp: binding_entry_diagnostics_def record_diagnostics_empty Let_def)

lemma binding_diagnostics_empty:
  "binding_diagnostics s = [] \<longleftrightarrow>
     (\<forall>b t. bt_get (bindings s) b = Some t \<longrightarrow> is_resolved t) \<and>
     (\<forall>b r p. binding_candidate s b r \<longrightarrow> br_target r = Project p \<longrightarrow> healthy_project s p)"
  by (simp add: binding_diagnostics_def ball_entries binding_entry_diagnostics_empty binding_candidate_def)
    blast

lemma get_add_connection:
  "bt_get (add_connection b r cs) c =
     (if c = br_connection_id r
      then Some (bt_insert b () (case bt_get cs c of None \<Rightarrow> bt_empty | Some ids \<Rightarrow> ids))
      else bt_get cs c)"
  by (auto simp: add_connection_def Let_def)

definition connected :: "(ConnectionId, (BindingId, unit) btree) btree \<Rightarrow> ConnectionId \<Rightarrow> BindingId \<Rightarrow> bool" where
  "connected cs c b \<longleftrightarrow> (\<exists>ids. bt_get cs c = Some ids \<and> bt_get ids b = Some ())"

lemma connected_add:
  "connected (add_connection b r cs) c b' \<longleftrightarrow> connected cs c b' \<or> (c = br_connection_id r \<and> b' = b)"
  by (auto simp: connected_def get_add_connection split: option.splits)

lemma connected_fold_add:
  "connected (fold (add_connection b) rs cs) c b' \<longleftrightarrow>
     connected cs c b' \<or> (b' = b \<and> (\<exists>r \<in> set rs. br_connection_id r = c))"
  by (induction rs arbitrary: cs) (auto simp: connected_add)

lemma connected_fold:
  "connected (fold (\<lambda>(b, t) cs. fold (add_connection b) (somes (adds t)) cs) es cs) c b' \<longleftrightarrow>
     connected cs c b' \<or>
     (\<exists>t. (b', t) \<in> set es \<and> (\<exists>r. Some r \<in> set (adds t) \<and> br_connection_id r = c))"
  by (induction es arbitrary: cs) (auto simp: connected_fold_add split: prod.splits)

lemma connected_connections:
  "connected (connections s) c b \<longleftrightarrow> (\<exists>r. binding_candidate s b r \<and> br_connection_id r = c)"
proof -
  have "\<not> connected bt_empty c b" by (simp add: connected_def)
  then show ?thesis
    by (auto simp: connections_def connected_fold in_entries_iff binding_candidate_def)
qed

lemma entries_at_most_one:
  "length (entries m) \<le> 1 \<longleftrightarrow> (\<forall>a b. bt_get m a \<noteq> None \<longrightarrow> bt_get m b \<noteq> None \<longrightarrow> a = b)"
proof
  assume "length (entries m) \<le> 1"
  then have "entries m = [] \<or> (\<exists>p. entries m = [p])" by (cases "entries m") auto
  then show "\<forall>a b. bt_get m a \<noteq> None \<longrightarrow> bt_get m b \<noteq> None \<longrightarrow> a = b"
    by (auto simp: bt_get_def split: if_splits)
next
  assume one: "\<forall>a b. bt_get m a \<noteq> None \<longrightarrow> bt_get m b \<noteq> None \<longrightarrow> a = b"
  show "length (entries m) \<le> 1"
  proof (rule ccontr)
    assume "\<not> length (entries m) \<le> 1"
    then obtain p q ps where "entries m = p # q # ps"
      by (cases "entries m"; cases "tl (entries m)") auto
    then have "fst p \<noteq> fst q" "bt_get m (fst p) = Some (snd p)" "bt_get m (fst q) = Some (snd q)"
      using distinct_entries[of m] by (auto simp: bt_get_def)
    with one show False by force
  qed
qed

lemma connection_diagnostics_empty:
  "connection_diagnostics s = [] \<longleftrightarrow>
     (\<forall>b r b' r'. binding_candidate s b r \<longrightarrow> binding_candidate s b' r' \<longrightarrow>
        br_connection_id r = br_connection_id r' \<longrightarrow> b = b')"
proof -
  have "connection_diagnostics s = [] \<longleftrightarrow>
      (\<forall>c ids. bt_get (connections s) c = Some ids \<longrightarrow> length (entries ids) \<le> 1)"
    unfolding not_less[symmetric] by (auto simp: connection_diagnostics_def ball_entries)
  also have "\<dots> \<longleftrightarrow> (\<forall>c b b'. connected (connections s) c b \<longrightarrow> connected (connections s) c b' \<longrightarrow> b = b')"
    unfolding entries_at_most_one connected_def by auto
  finally show ?thesis unfolding connected_connections by blast
qed

lemma label_diagnostics_empty:
  "label_diagnostics s = [] \<longleftrightarrow>
     (\<forall>l t. bt_get (labels s) l = Some t \<longrightarrow> is_resolved t) \<and>
     (\<forall>l t p. bt_get (labels s) l = Some t \<longrightarrow> Some p \<in> set (adds t) \<longrightarrow> healthy_project s p)"
  by (auto simp: label_diagnostics_def ball_entries Let_def list_ex_iff)

lemma name_binding_diagnostics_empty:
  "name_binding_diagnostics s c n = [] \<longleftrightarrow>
     (\<forall>b r. binding_candidate s b r \<longrightarrow> br_connection_id r = c \<longrightarrow> br_target r = Project (sn_project n))"
  by (auto simp: name_binding_diagnostics_def ball_entries binding_candidate_def split: if_splits)

abbreviation name_key :: "scoped_remote_name \<Rightarrow> ProjectId \<times> remote_name" where
  "name_key n \<equiv> (sn_project n, sn_name n)"

definition name_fits :: "project_state \<Rightarrow> ConnectionId \<Rightarrow> scoped_remote_name \<Rightarrow> bool" where
  "name_fits s c n \<longleftrightarrow>
     sn_name n \<noteq> [] \<and> healthy_project s (sn_project n) \<and>
     (\<forall>b r. binding_candidate s b r \<longrightarrow> br_connection_id r = c \<longrightarrow> br_target r = Project (sn_project n))"

lemma identity_diagnostics_names:
  "bt_get (snd (identity_diagnostics s c ids names)) k =
     (if \<exists>n \<in> set ids. name_key n = k then Some c else bt_get names k)"
  by (induction s c ids names rule: identity_diagnostics.induct) (auto simp: Let_def split: prod.splits)

lemma identity_diagnostics_empty:
  "fst (identity_diagnostics s c ids names) = [] \<longleftrightarrow>
     (\<forall>n \<in> set ids. name_fits s c n \<and> bt_get names (name_key n) \<in> {None, Some c})"
proof (induction s c ids names rule: identity_diagnostics.induct)
  case (2 s c n rest names)
  let ?names = "bt_insert (name_key n) c names"
  have IH: "fst (identity_diagnostics s c rest ?names) = [] \<longleftrightarrow>
      (\<forall>m \<in> set rest. name_fits s c m \<and> bt_get ?names (name_key m) \<in> {None, Some c})"
    by (rule 2[OF refl refl refl])
  have "fst (identity_diagnostics s c (n # rest) names) = [] \<longleftrightarrow>
      (sn_name n \<noteq> [] \<and> healthy_project s (sn_project n)) \<and>
      (case bt_get names (name_key n) of Some c' \<Rightarrow> c' = c | None \<Rightarrow> True) \<and>
      name_binding_diagnostics s c n = [] \<and> fst (identity_diagnostics s c rest ?names) = []"
    by (cases "identity_diagnostics s c rest ?names"; cases "bt_get names (name_key n)") simp_all
  also have "\<dots> \<longleftrightarrow> name_fits s c n \<and> bt_get names (name_key n) \<in> {None, Some c} \<and>
      fst (identity_diagnostics s c rest ?names) = []"
    by (cases "bt_get names (name_key n)")
      (simp_all only: name_fits_def name_binding_diagnostics_empty option.case insert_iff empty_iff
        option.inject option.distinct conj_ac simp_thms)
  finally show ?case unfolding IH
    by (auto simp only: list.set ball_simps bt_get_insert split: if_splits)
qed simp

lemma remote_name_diagnostics_empty:
  "distinct (map fst es) \<Longrightarrow>
   remote_name_diagnostics s es names = [] \<longleftrightarrow>
     (\<forall>(c, t) \<in> set es. is_resolved t \<and>
        (\<forall>n \<in> set (somes (adds t)). name_fits s c n \<and> bt_get names (name_key n) \<in> {None, Some c})) \<and>
     (\<forall>(c, t) \<in> set es. \<forall>(c', t') \<in> set es.
        \<forall>n \<in> set (somes (adds t)). \<forall>n' \<in> set (somes (adds t')). name_key n = name_key n' \<longrightarrow> c = c')"
proof (induction s es names rule: remote_name_diagnostics.induct)
  case (2 s c t rest names)
  let ?ids = "somes (adds t)" and ?P = "identity_diagnostics s c (somes (adds t)) names"
  have IH: "remote_name_diagnostics s rest (snd ?P) = [] \<longleftrightarrow>
     (\<forall>(c, t) \<in> set rest. is_resolved t \<and>
        (\<forall>n \<in> set (somes (adds t)). name_fits s c n \<and> bt_get (snd ?P) (name_key n) \<in> {None, Some c})) \<and>
     (\<forall>(c, t) \<in> set rest. \<forall>(c', t') \<in> set rest.
        \<forall>n \<in> set (somes (adds t)). \<forall>n' \<in> set (somes (adds t')). name_key n = name_key n' \<longrightarrow> c = c')"
    by (rule 2) (use 2(2) in \<open>auto simp: prod_eq_iff\<close>)
  have fresh: "(c', t') \<in> set rest \<Longrightarrow> c' \<noteq> c" for c' t' using 2(2) by force
  have step: "remote_name_diagnostics s ((c, t) # rest) names = [] \<longleftrightarrow>
      is_resolved t \<and> fst ?P = [] \<and> remote_name_diagnostics s rest (snd ?P) = []"
    by (auto simp: Let_def split: prod.splits)
  have later: "bt_get (snd ?P) (name_key n) \<in> {None, Some c'} \<longleftrightarrow>
      bt_get names (name_key n) \<in> {None, Some c'} \<and> (\<forall>m \<in> set ?ids. name_key m \<noteq> name_key n)"
    if "fst ?P = []" and "c' \<noteq> c" for n c'
    using that identity_diagnostics_empty[of s c ?ids names]
    by (auto simp: identity_diagnostics_names)
  show ?case
  proof (cases "fst ?P = []")
    case True
    have rest: "(\<forall>(c', t') \<in> set rest. is_resolved t' \<and>
          (\<forall>n \<in> set (somes (adds t')). name_fits s c' n \<and> bt_get (snd ?P) (name_key n) \<in> {None, Some c'})) \<longleftrightarrow>
        (\<forall>(c', t') \<in> set rest. is_resolved t' \<and>
          (\<forall>n \<in> set (somes (adds t')). name_fits s c' n \<and> bt_get names (name_key n) \<in> {None, Some c'})) \<and>
        (\<forall>(c', t') \<in> set rest. \<forall>n \<in> set (somes (adds t')). \<forall>m \<in> set ?ids. name_key m \<noteq> name_key n)"
      using later[OF True fresh] by (simp only: split_paired_Ball_Sigma Ball_def split_paired_All prod.case) blast
    have pairs: "(\<forall>(c1, t1) \<in> set ((c, t) # rest). \<forall>(c2, t2) \<in> set ((c, t) # rest).
          \<forall>n \<in> set (somes (adds t1)). \<forall>n' \<in> set (somes (adds t2)). name_key n = name_key n' \<longrightarrow> c1 = c2) \<longleftrightarrow>
        (\<forall>(c1, t1) \<in> set rest. \<forall>(c2, t2) \<in> set rest.
          \<forall>n \<in> set (somes (adds t1)). \<forall>n' \<in> set (somes (adds t2)). name_key n = name_key n' \<longrightarrow> c1 = c2) \<and>
        (\<forall>(c', t') \<in> set rest. \<forall>n \<in> set (somes (adds t')). \<forall>m \<in> set ?ids. name_key m \<noteq> name_key n)"
      (is "?L \<longleftrightarrow> ?R1 \<and> ?R2")
    proof
      show "?R1 \<and> ?R2 \<Longrightarrow> ?L" by (simp only: list.set ball_simps Ball_def split_paired_All prod.case insert_iff prod.inject) metis
    next
      assume L: ?L
      have "name_key m \<noteq> name_key n"
        if "(c', t') \<in> set rest" "n \<in> set (somes (adds t'))" "m \<in> set ?ids" for c' t' n m
        using L that fresh[OF that(1)] by fastforce
      then have ?R2 by blast
      moreover have ?R1 using L by (simp only: list.set ball_simps Ball_def insert_iff) blast
      ultimately show "?R1 \<and> ?R2" by blast
    qed
    show ?thesis
      unfolding step IH rest pairs
      using True[unfolded identity_diagnostics_empty] True
      by (simp only: list.set ball_simps prod.case simp_thms conj_ac) argo
  next
    case False
    then show ?thesis unfolding step using identity_diagnostics_empty[of s c ?ids names] by auto
  qed
qed simp

lemma in_somes_adds_resolved: "is_resolved t \<Longrightarrow> Some r \<in> set (adds t) \<longleftrightarrow> as_normal t = Some r"
  by (cases t; cases "merge_values t")
    (auto simp: is_resolved_def adds_def as_normal_def as_resolved_def)

section \<open>Consistency\<close>

definition state_consistent :: "project_state \<Rightarrow> bool" where
  "state_consistent s \<longleftrightarrow>
     (\<forall>i t. bt_get (projects s) i = Some t \<longrightarrow> is_resolved t) \<and>
     (\<forall>b t. bt_get (bindings s) b = Some t \<longrightarrow> is_resolved t) \<and>
     (\<forall>l t. bt_get (labels s) l = Some t \<longrightarrow> is_resolved t) \<and>
     (\<forall>c t. bt_get (remote_names s) c = Some t \<longrightarrow> is_resolved t) \<and>
     (\<forall>i r. project_candidate s i r \<longrightarrow> \<not> invalid_record r) \<and>
     (\<forall>i r j q. project_candidate s i r \<longrightarrow> project_candidate s j q \<longrightarrow> i \<noteq> j \<longrightarrow>
        pr_name r \<noteq> pr_name q \<and> canonical_root r \<noteq> canonical_root q) \<and>
     (\<forall>b r p. binding_candidate s b r \<longrightarrow> br_target r = Project p \<longrightarrow> healthy_project s p) \<and>
     (\<forall>b r b' r'. binding_candidate s b r \<longrightarrow> binding_candidate s b' r' \<longrightarrow>
        br_connection_id r = br_connection_id r' \<longrightarrow> b = b') \<and>
     (\<forall>l t p. bt_get (labels s) l = Some t \<longrightarrow> Some p \<in> set (adds t) \<longrightarrow> healthy_project s p) \<and>
     (\<forall>c n. name_candidate s c n \<longrightarrow> name_fits s c n) \<and>
     (\<forall>c n c' n'. name_candidate s c n \<longrightarrow> name_candidate s c' n' \<longrightarrow> name_key n = name_key n' \<longrightarrow> c = c')"

lemma candidate_diagnostics_candidates:
  "candidate_diagnostics (candidates s) = [] \<longleftrightarrow>
     (\<forall>i r. project_candidate s i r \<longrightarrow> \<not> invalid_record r) \<and>
     (\<forall>i r j q. project_candidate s i r \<longrightarrow> project_candidate s j q \<longrightarrow> i \<noteq> j \<longrightarrow>
        pr_name r \<noteq> pr_name q \<and> canonical_root r \<noteq> canonical_root q)"
  unfolding candidate_diagnostics_empty Ball_def split_paired_All prod.case in_candidates by blast

lemma remote_name_diagnostics_names:
  "remote_name_diagnostics s (entries (remote_names s)) bt_empty = [] \<longleftrightarrow>
     (\<forall>c t. bt_get (remote_names s) c = Some t \<longrightarrow> is_resolved t) \<and>
     (\<forall>c n. name_candidate s c n \<longrightarrow> name_fits s c n) \<and>
     (\<forall>c n c' n'. name_candidate s c n \<longrightarrow> name_candidate s c' n' \<longrightarrow> name_key n = name_key n' \<longrightarrow> c = c')"
  unfolding remote_name_diagnostics_empty[OF distinct_entries] ball_entries prod.case name_candidate_def
    bt_get_empty set_somes
  by blast

lemma diagnostics_consistent: "diagnostics s = [] \<longleftrightarrow> state_consistent s"
  unfolding diagnostics_def append_is_Nil_conv state_consistent_def
    definition_diagnostics_empty candidate_diagnostics_candidates binding_diagnostics_empty
    connection_diagnostics_empty label_diagnostics_empty remote_name_diagnostics_names
  by (simp only: conj_ac)

section \<open>Lookups\<close>

lemma find_None_all: "find P xs = None \<Longrightarrow> x \<in> set xs \<Longrightarrow> \<not> P x"
  by (simp add: find_None_iff)

lemma candidate_diagnostics_invalid:
  "(i, r) \<in> set cs \<Longrightarrow> invalid_record r \<Longrightarrow> \<exists>d \<in> set (candidate_diagnostics cs). i \<in> set (pd_projects d)"
  by (induction cs rule: candidate_diagnostics.induct) (auto simp: diag_def)

lemma candidate_diagnostics_conflict:
  "(i, r) \<in> set cs \<Longrightarrow> (j, q) \<in> set cs \<Longrightarrow> i \<noteq> j \<Longrightarrow>
   pr_name r = pr_name q \<or> canonical_root r = canonical_root q \<Longrightarrow>
   \<exists>d \<in> set (candidate_diagnostics cs). i \<in> set (pd_projects d)"
proof (induction cs rule: candidate_diagnostics.induct)
  case (2 k p rest)
  have IH: "(i, r) \<in> set rest \<Longrightarrow> (j, q) \<in> set rest \<Longrightarrow>
      \<exists>d \<in> set (candidate_diagnostics rest). i \<in> set (pd_projects d)" using 2 by blast
  have now: "\<exists>d \<in> set (candidate_diagnostics ((k, p) # rest)). k \<in> set (pd_projects d) \<and> l \<in> set (pd_projects d)"
    if "(l, u) \<in> set rest" "k \<noteq> l" "pr_name p = pr_name u \<or> canonical_root p = canonical_root u" for l u
    using that by (intro bexI[of _ "diag (ProjectsConflict k l) [k, l] [] []"]) (auto simp: diag_def intro!: bexI[of _ "(l, u)"])
  consider "(i, r) = (k, p)" "(j, q) \<in> set rest" | "(j, q) = (k, p)" "(i, r) \<in> set rest"
    | "(i, r) \<in> set rest" "(j, q) \<in> set rest" using 2(2-4) by auto
  then show ?case
  proof cases
    case 1
    with now[of j q] 2(4,5) show ?thesis by blast
  next
    case 2
    with now[of i r] \<open>i \<noteq> j\<close> \<open>pr_name r = pr_name q \<or> _\<close> show ?thesis
      by (auto simp del: candidate_diagnostics.simps)
  next
    case 3
    with IH show ?thesis by auto
  qed
qed simp

definition project_settled :: "project_state \<Rightarrow> ProjectId \<Rightarrow> project_record \<Rightarrow> bool" where
  "project_settled s i r \<longleftrightarrow>
     bt_get (projects s) i = Some (resolved (Some r)) \<and> \<not> invalid_record r \<and>
     (\<forall>j q. project_candidate s j q \<longrightarrow> j \<noteq> i \<longrightarrow>
        pr_name q \<noteq> pr_name r \<and> canonical_root q \<noteq> canonical_root r)"

lemma validate_project_diagnostics:
  "validate_project s i = Inr () \<Longrightarrow> d \<in> set (diagnostics s) \<Longrightarrow> i \<notin> set (pd_projects d)"
  by (auto simp: validate_project_def find_None_iff split: if_splits option.splits)

lemma as_resolved_Some: "as_resolved t = Some x \<longleftrightarrow> t = resolved x"
  by (cases t; cases "merge_values t") (auto simp: as_resolved_def resolved_def split: list.splits)

lemma as_normal_Some: "as_normal t = Some x \<longleftrightarrow> t = resolved (Some x)"
  by (simp add: as_normal_def as_resolved_Some split: option.splits) (metis as_resolved_Some option.distinct(1) option.inject)

lemma as_resolved_resolved [simp]: "as_resolved (resolved x) = Some x"
  by (simp add: as_resolved_Some)

lemma resolved_inject [simp]: "resolved x = resolved y \<longleftrightarrow> x = y"
  by (simp add: resolved_def)

lemma healthy_project_iff: "healthy_project s i \<longleftrightarrow> (\<exists>r. bt_get (projects s) i = Some (resolved (Some r)))"
  by (cases "bt_get (projects s) i") (auto simp: healthy_project_def as_resolved_Some split: option.split)

lemma in_adds_resolved [simp]: "set (adds (resolved x)) = {x}"
  by (simp add: adds_def resolved_def)

lemma validate_project_settled:
  assumes "validate_project s i = Inr ()"
  shows "\<exists>r. project_settled s i r"
proof -
  from assms have "healthy_project s i" by (simp add: validate_project_def split: if_splits)
  then obtain r where r: "bt_get (projects s) i = Some (resolved (Some r))"
    unfolding healthy_project_iff by blast
  then have c: "(i, r) \<in> set (candidates s)" by (simp add: in_candidates project_candidate_def)
  have none: "i \<notin> set (pd_projects d)" if "d \<in> set (candidate_diagnostics (candidates s))" for d
    using that validate_project_diagnostics[OF assms, of d] by (simp add: diagnostics_def)
  have "\<not> invalid_record r" using candidate_diagnostics_invalid[OF c] none by blast
  moreover have "pr_name q \<noteq> pr_name r \<and> canonical_root q \<noteq> canonical_root r"
    if "project_candidate s j q" "j \<noteq> i" for j q
    using candidate_diagnostics_conflict[OF c that(1)[folded in_candidates]] that(2) none by metis
  ultimately show ?thesis using r unfolding project_settled_def by blast
qed

lemma project_by_name_Inr:
  assumes "project_by_name s name = Inr (i, r)"
  shows "validate_project s i = Inr ()" "bt_get (projects s) i = Some (resolved (Some r))" "pr_name r = name"
    "project_candidate s j q \<Longrightarrow> pr_name q = name \<Longrightarrow> j = i"
proof -
  let ?hits = "filter (\<lambda>(_, target). list_ex (\<lambda>r. pr_name r = name) (somes (adds target))) (entries (projects s))"
  obtain t where t: "?hits = [(i, t)]" and v: "validate_project s i = Inr ()" and n: "as_normal t = Some r"
    using assms by (auto simp: project_by_name_def ok_or_def res_bind_eq_Inr split: list.splits option.splits if_splits)
  have hits: "(k, u) \<in> set ?hits \<longleftrightarrow> bt_get (projects s) k = Some u \<and> (\<exists>q. Some q \<in> set (adds u) \<and> pr_name q = name)" for k u
    by (auto simp: in_entries_iff list_ex_iff)
  from n have t': "t = resolved (Some r)" by (simp add: as_normal_Some)
  show "validate_project s i = Inr ()" by fact
  show "bt_get (projects s) i = Some (resolved (Some r))" "pr_name r = name" using hits[of i t] t' unfolding t by auto
  show "j = i" if "project_candidate s j q" "pr_name q = name"
    using that hits[of j] unfolding t project_candidate_def by auto
qed

lemma consistent_validates:
  "state_consistent s \<Longrightarrow> validate_project s i = Inr () \<longleftrightarrow> healthy_project s i"
  using diagnostics_consistent[of s] by (simp add: validate_project_def)

lemma singleton_list: "set xs = {x} \<Longrightarrow> distinct xs \<Longrightarrow> xs = [x]"
  by (cases xs; cases "tl xs") (auto simp: subset_singleton_iff)

lemma filter_entries_unique:
  assumes "bt_get m k = Some v" "P (k, v)"
    and "\<And>k' v'. bt_get m k' = Some v' \<Longrightarrow> P (k', v') \<Longrightarrow> k' = k"
  shows "filter P (entries m) = [(k, v)]"
proof -
  have "p = (k, v)" if "p \<in> set (filter P (entries m))" for p
    using that assms(1) assms(3)[of "fst p" "snd p"] by (cases p rule: prod.exhaust) (simp add: in_entries_iff)
  moreover have "(k, v) \<in> set (filter P (entries m))" using assms(1,2) by (simp add: in_entries_iff)
  ultimately have "set (filter P (entries m)) = {(k, v)}" by blast
  moreover have "distinct (filter P (entries m))"
    using distinct_entries[of m] by (auto simp: distinct_map)
  ultimately show ?thesis
    by (rule singleton_list)
qed

lemma project_by_name_complete:
  assumes "state_consistent s" "bt_get (projects s) i = Some (resolved (Some r))"
  shows "project_by_name s (pr_name r) = Inr (i, r)"
proof -
  let ?P = "\<lambda>(_, target). list_ex (\<lambda>q. pr_name q = pr_name r) (somes (adds target))"
  have "project_candidate s i r" using assms(2) by (simp add: project_candidate_def)
  then have unique: "project_candidate s j q \<Longrightarrow> pr_name q = pr_name r \<Longrightarrow> j = i" for j q
    using assms(1) unfolding state_consistent_def by metis
  have "filter ?P (entries (projects s)) = [(i, resolved (Some r))]"
    using unique by (intro filter_entries_unique assms(2)) (auto simp: list_ex_iff project_candidate_def)
  moreover have "validate_project s i = Inr ()"
    using consistent_validates[OF assms(1)] assms(2) by (simp add: healthy_project_iff)
  ultimately show ?thesis by (simp add: project_by_name_def as_normal_Some[THEN iffD2, OF refl])
qed

definition connection_bound :: "project_state \<Rightarrow> ConnectionId \<Rightarrow> BindingId \<Rightarrow> binding_record \<Rightarrow> bool" where
  "connection_bound s c b r \<longleftrightarrow>
     bt_get (bindings s) b = Some (resolved (Some r)) \<and> br_connection_id r = c \<and>
     (\<forall>b' r'. binding_candidate s b' r' \<longrightarrow> br_connection_id r' = c \<longrightarrow> b' = b) \<and>
     (\<forall>p. br_target r = Project p \<longrightarrow> (\<exists>q. project_settled s p q))"

lemma connection_hits:
  "(k, u) \<in> set (filter (\<lambda>(_, target). list_ex (\<lambda>r. br_connection_id r = c) (somes (adds target))) (entries (bindings s))) \<longleftrightarrow>
   bt_get (bindings s) k = Some u \<and> (\<exists>q. Some q \<in> set (adds u) \<and> br_connection_id q = c)"
  by (auto simp: in_entries_iff list_ex_iff)

lemma binding_for_connection_None:
  "binding_for_connection s c = Inr None \<longleftrightarrow> (\<nexists>b r. binding_candidate s b r \<and> br_connection_id r = c)"
proof -
  have "binding_for_connection s c = Inr None \<longleftrightarrow>
    filter (\<lambda>(_, target). list_ex (\<lambda>r. br_connection_id r = c) (somes (adds target))) (entries (bindings s)) = []"
    by (auto simp: binding_for_connection_def res_bind_eq_Inr split: list.splits option.splits binding_target.splits)
  also have "\<dots> \<longleftrightarrow> (\<nexists>b r. binding_candidate s b r \<and> br_connection_id r = c)"
    unfolding binding_candidate_def filter_empty_conv ball_entries by (auto simp: list_ex_iff)
  finally show ?thesis .
qed

lemma binding_for_connection_Some:
  assumes "binding_for_connection s c = Inr (Some (b, r))"
  shows "connection_bound s c b r"
proof -
  let ?hits = "filter (\<lambda>(_, target). list_ex (\<lambda>r. br_connection_id r = c) (somes (adds target))) (entries (bindings s))"
  obtain t where t: "?hits = [(b, t)]" and n: "as_normal t = Some r"
    and p: "\<And>p. br_target r = Project p \<Longrightarrow> validate_project s p = Inr ()"
    using assms
    by (auto simp: binding_for_connection_def res_bind_eq_Inr split: list.splits option.splits binding_target.splits)
      (metis binding_target.exhaust)
  from n have t': "t = resolved (Some r)" by (simp add: as_normal_Some)
  have "bt_get (bindings s) b = Some (resolved (Some r))" "br_connection_id r = c"
    using connection_hits[of b t c s] t' unfolding t by auto
  moreover have "b' = b" if "binding_candidate s b' r'" "br_connection_id r' = c" for b' r'
    using that connection_hits[of b' _ c s] unfolding t binding_candidate_def by auto
  ultimately show ?thesis unfolding connection_bound_def using validate_project_settled p by blast
qed

lemma binding_for_connection_complete:
  assumes "state_consistent s" "bt_get (bindings s) b = Some (resolved (Some r))"
  shows "binding_for_connection s (br_connection_id r) = Inr (Some (b, r))"
proof -
  let ?P = "\<lambda>(_, target). list_ex (\<lambda>q. br_connection_id q = br_connection_id r) (somes (adds target))"
  have cand: "binding_candidate s b r" using assms(2) by (simp add: binding_candidate_def)
  then have unique: "binding_candidate s b' r' \<Longrightarrow> br_connection_id r' = br_connection_id r \<Longrightarrow> b' = b" for b' r'
    using assms(1) unfolding state_consistent_def by metis
  have "filter ?P (entries (bindings s)) = [(b, resolved (Some r))]"
    using unique by (intro filter_entries_unique assms(2)) (auto simp: list_ex_iff binding_candidate_def)
  moreover have "validate_project s p = Inr ()" if "br_target r = Project p" for p
    unfolding consistent_validates[OF assms(1)]
    using assms(1) cand that unfolding state_consistent_def by blast
  ultimately show ?thesis using diagnostics_consistent[of s] assms(1)
    by (simp add: binding_for_connection_def as_normal_Some[THEN iffD2, OF refl] split: binding_target.split)
qed

section \<open>Healthy states\<close>

text \<open>The white-space characters of Unicode below U+10000 (there are none above) and their UTF-8 encoding.\<close>

definition white_space :: "nat list" where
  "white_space = [9, 10, 11, 12, 13, 32, 0x85, 0xA0, 0x1680, 0x2000, 0x2001, 0x2002, 0x2003, 0x2004, 0x2005, 0x2006,
     0x2007, 0x2008, 0x2009, 0x200A, 0x2028, 0x2029, 0x202F, 0x205F, 0x3000]"

definition utf8 :: "nat \<Rightarrow> nat list" where
  "utf8 u =
     (if u < 0x80 then [u]
      else if u < 0x800 then [0xC0 + u div 64, 0x80 + u mod 64]
      else [0xE0 + u div 4096, 0x80 + u div 64 mod 64, 0x80 + u mod 64])"

definition name_valid :: "string \<Rightarrow> bool" where
  "name_valid n \<longleftrightarrow> n \<noteq> [] \<and> (\<forall>c \<in> set n. c \<notin> {CHR ''#'', CHR ''/'', CHR 0x5C}) \<and>
     (\<forall>u \<in> set white_space. \<nexists>before after. map of_char n = before @ utf8 u @ after)"

definition project_present :: "project_state \<Rightarrow> ProjectId \<Rightarrow> bool" where
  "project_present s p \<longleftrightarrow> (\<exists>r. bt_get (projects s) p = Some (resolved (Some r)))"

definition state_healthy :: "project_state \<Rightarrow> bool" where
  "state_healthy s \<longleftrightarrow>
     (\<forall>i t. bt_get (projects s) i = Some t \<longrightarrow> (\<exists>r. t = resolved r)) \<and>
     (\<forall>b t. bt_get (bindings s) b = Some t \<longrightarrow> (\<exists>r. t = resolved r)) \<and>
     (\<forall>l t. bt_get (labels s) l = Some t \<longrightarrow> (\<exists>p. t = resolved p)) \<and>
     (\<forall>c t. bt_get (remote_names s) c = Some t \<longrightarrow> (\<exists>n. t = resolved n)) \<and>
     (\<forall>i r. project_candidate s i r \<longrightarrow> name_valid (pr_name r) \<and> internal_str (canonical_root r) \<noteq> []) \<and>
     (\<forall>i r j q. project_candidate s i r \<longrightarrow> project_candidate s j q \<longrightarrow> i \<noteq> j \<longrightarrow>
        pr_name r \<noteq> pr_name q \<and> canonical_root r \<noteq> canonical_root q) \<and>
     (\<forall>b r p. binding_candidate s b r \<longrightarrow> br_target r = Project p \<longrightarrow> project_present s p) \<and>
     (\<forall>b r b' r'. binding_candidate s b r \<longrightarrow> binding_candidate s b' r' \<longrightarrow>
        br_connection_id r = br_connection_id r' \<longrightarrow> b = b') \<and>
     (\<forall>l t p. bt_get (labels s) l = Some t \<longrightarrow> Some p \<in> set (adds t) \<longrightarrow> project_present s p) \<and>
     (\<forall>c n. name_candidate s c n \<longrightarrow> sn_name n \<noteq> [] \<and> project_present s (sn_project n) \<and>
        (\<forall>b r. binding_candidate s b r \<longrightarrow> br_connection_id r = c \<longrightarrow> br_target r = Project (sn_project n))) \<and>
     (\<forall>c n c' n'. name_candidate s c n \<longrightarrow> name_candidate s c' n' \<longrightarrow>
        sn_project n = sn_project n' \<longrightarrow> sn_name n = sn_name n' \<longrightarrow> c = c')"

lemma starts_with_whitespace_iff:
  "starts_with_whitespace bs \<longleftrightarrow> (\<exists>u \<in> set white_space. \<exists>after. bs = utf8 u @ after)"
proof -
  have range: "128 \<le> c \<and> c \<le> 138 \<longleftrightarrow>
      c \<in> {128, 129, 130, 131, 132, 133, 134, 135, 136, 137, 138}" "9 \<le> c \<and> c \<le> 13 \<longleftrightarrow> c \<in> {9, 10, 11, 12, 13}" for c :: nat
    unfolding insert_iff empty_iff by arith+
  have enc: "map utf8 white_space = [[9], [10], [11], [12], [13], [32], [194, 133], [194, 160], [225, 154, 128],
      [226, 128, 128], [226, 128, 129], [226, 128, 130], [226, 128, 131], [226, 128, 132], [226, 128, 133],
      [226, 128, 134], [226, 128, 135], [226, 128, 136], [226, 128, 137], [226, 128, 138], [226, 128, 168],
      [226, 128, 169], [226, 128, 175], [226, 129, 159], [227, 128, 128]]"
    by (simp add: white_space_def utf8_def)
  have "(\<exists>u \<in> set white_space. \<exists>after. bs = utf8 u @ after) \<longleftrightarrow> (\<exists>e \<in> set (map utf8 white_space). \<exists>after. bs = e @ after)"
    by simp
  also have "\<dots> \<longleftrightarrow> starts_with_whitespace bs"
    unfolding enc by (cases bs; cases "tl bs"; cases "tl (tl bs)") (auto simp: range)
  finally show ?thesis by blast
qed

lemma bytes_contain_whitespace_iff:
  "bytes_contain_whitespace bs \<longleftrightarrow> (\<exists>u \<in> set white_space. \<exists>before after. bs = before @ utf8 u @ after)"
proof (induction bs)
  case Nil
  have "utf8 u \<noteq> []" for u by (simp add: utf8_def)
  then show ?case by simp
next
  case (Cons b bs)
  have "(\<exists>before after. b # bs = before @ e @ after) \<longleftrightarrow>
      (\<exists>after. b # bs = e @ after) \<or> (\<exists>before after. bs = before @ e @ after)" for e
    by (metis append_Cons append_eq_Cons_conv self_append_conv2)
  then show ?case using Cons starts_with_whitespace_iff[of "b # bs"] by (simp del: starts_with_whitespace.simps) blast
qed

lemma name_valid_iff:
  "name_valid n \<longleftrightarrow> n \<noteq> [] \<and> \<not> list_ex (\<lambda>c. c \<in> {CHR ''#'', CHR ''/'', CHR 0x5C}) n \<and> \<not> contains_whitespace n"
  by (auto simp: name_valid_def contains_whitespace_def bytes_contain_whitespace_iff list_ex_iff)

lemma invalid_record_iff:
  "invalid_record r \<longleftrightarrow> \<not> name_valid (pr_name r) \<or> internal_str (canonical_root r) = []"
  unfolding invalid_record_def name_valid_iff is_root_def by (simp only: de_Morgan_conj not_not disj_assoc)

lemma is_resolved_iff: "is_resolved t \<longleftrightarrow> (\<exists>x. t = resolved x)"
  by (cases t) (auto simp: is_resolved_def resolved_def length_Suc_conv)

lemma state_consistent_healthy: "state_consistent s \<longleftrightarrow> state_healthy s"
  unfolding state_consistent_def state_healthy_def name_fits_def is_resolved_iff invalid_record_iff de_Morgan_disj not_not
    healthy_project_iff project_present_def prod.inject imp_conjL ..

section \<open>Properties\<close>

text \<open>
  (C35) The diagnostics decide whether a project state is healthy. They are empty exactly when:
  every project, binding, label and scoped name is resolved; every candidate of a project has a non-empty
  name without \<open>#\<close>, slash, backslash and white space, and a root other than the repository's; candidates of
  different projects differ in name and in root; every project that a candidate of a binding targets, or a
  label or scoped name refers to, is present; a connection has candidates of one binding only; every
  candidate of a connection's scoped name is non-empty and in the project that all bindings of that
  connection target; and different connections never have the same name in the same project.
\<close>

theorem diagnostics_empty_iff: "diagnostics s = [] \<longleftrightarrow> state_healthy s"
  by (simp add: diagnostics_consistent state_consistent_healthy)

definition sample_spaced :: project_state where
  "sample_spaced = sample_state [CHR ''a'', CHR 0xE2, CHR 0x80, CHR 0x89, CHR ''b'']"

theorem diagnostics_empty_iff_witness:
  "diagnostics (sample_state ''a'') = [] \<and> state_healthy (sample_state ''a'') \<and>
   diagnostics sample_spaced \<noteq> [] \<and> \<not> state_healthy sample_spaced"
proof -
  have "diagnostics (sample_state ''a'') = []" "diagnostics sample_spaced \<noteq> []" by code_simp+
  then show ?thesis by (simp flip: diagnostics_empty_iff)
qed

text \<open>
  (C36) \<open>project_by_name\<close> answers a name only with a settled project of that name: its
  definition is resolved and present, its name and root are valid, and no candidate of any other
  record, not even one side of an unresolved conflict, has its name or its root. In a consistent
  state it answers every name that a record has.
\<close>

theorem project_by_name_exact:
  "(project_by_name s name = Inr (i, r) \<longrightarrow> project_settled s i r \<and> pr_name r = name) \<and>
   (state_consistent s \<and> bt_get (projects s) i = Some (resolved (Some r)) \<longrightarrow>
      project_by_name s (pr_name r) = Inr (i, r))"
proof -
  have "project_settled s i r" if "project_by_name s name = Inr (i, r)"
  proof -
    from project_by_name_Inr[OF that] obtain q where "project_settled s i q"
      using validate_project_settled by blast
    then show ?thesis using project_by_name_Inr(2)[OF that] unfolding project_settled_def by simp
  qed
  then show ?thesis using project_by_name_Inr(3) project_by_name_complete by blast
qed

lemma sample_consistent: "state_consistent (sample_state ''a'')"
  unfolding diagnostics_consistent[symmetric] by code_simp

theorem project_by_name_exact_witness:
  "project_by_name (sample_state ''a'') ''a'' = Inr (ProjectId [1], sample_record ''a'') \<and>
   project_settled (sample_state ''a'') (ProjectId [1]) (sample_record ''a'')"
proof -
  have g: "bt_get (projects (sample_state ''a'')) (ProjectId [1]) = Some (resolved (Some (sample_record ''a'')))"
    "pr_name (sample_record ''a'') = ''a''"
    by (simp_all add: sample_state_def sample_record_def project_state_default_def normal_def)
  have found: "project_by_name (sample_state ''a'') ''a'' = Inr (ProjectId [1], sample_record ''a'')"
    using project_by_name_exact[of "sample_state ''a''" "''a''" "ProjectId [1]" "sample_record ''a''"]
      sample_consistent g by simp
  then show ?thesis using project_by_name_exact by blast
qed

text \<open>
  \<open>binding_for_connection\<close> finds no binding exactly when no candidate uses the connection;
  a binding that it returns is resolved, is the only binding with a candidate for the
  connection, and targets a settled project or the repository view. In a consistent state every
  binding is found by its connection.
\<close>

theorem binding_for_connection_exact:
  "(binding_for_connection s c = Inr None \<longleftrightarrow> (\<nexists>b r. binding_candidate s b r \<and> br_connection_id r = c)) \<and>
   (binding_for_connection s c = Inr (Some (b, r)) \<longrightarrow> connection_bound s c b r) \<and>
   (state_consistent s \<and> bt_get (bindings s) b = Some (resolved (Some r)) \<longrightarrow>
      binding_for_connection s (br_connection_id r) = Inr (Some (b, r)))"
  using binding_for_connection_None binding_for_connection_Some binding_for_connection_complete by blast

definition sample_binding :: binding_record where
  "sample_binding =
     \<lparr>br_target = Project (ProjectId [1]), br_connection_id = ConnectionId [7],
      br_representation = Whole, br_base = None\<rparr>"

definition sample_bound :: project_state where
  "sample_bound = (sample_state ''a'')\<lparr>bindings := bt_insert (BindingId [2]) (normal sample_binding) bt_empty\<rparr>"

lemma sample_bound_consistent: "state_consistent sample_bound"
  unfolding diagnostics_consistent[symmetric] by code_simp

theorem binding_for_connection_exact_witness:
  "binding_for_connection sample_bound (ConnectionId [7]) = Inr (Some (BindingId [2], sample_binding)) \<and>
   connection_bound sample_bound (ConnectionId [7]) (BindingId [2]) sample_binding"
proof -
  have g: "bt_get (bindings sample_bound) (BindingId [2]) = Some (resolved (Some sample_binding))"
    "br_connection_id sample_binding = ConnectionId [7]"
    by (simp_all add: sample_bound_def sample_binding_def normal_def)
  have found: "binding_for_connection sample_bound (ConnectionId [7]) = Inr (Some (BindingId [2], sample_binding))"
    using binding_for_connection_exact[of sample_bound "ConnectionId [7]" "BindingId [2]" sample_binding]
      sample_bound_consistent g by simp
  then show ?thesis using binding_for_connection_exact by blast
qed

end
