(* ===== verification/Remote_Observation_Laws.thy ===== *)
theory Remote_Observation_Laws
  imports Remote_Observations
begin

text \<open>
  What the operations on the observation snapshot do. Every operation is a change of the four
  observation maps only, which \<open>copy_from v v' = v\<close> states: putting the old snapshot back gives the
  old view. The reader \<open>ref_at\<close> names one remote bookmark or tag of a view.
\<close>

definition ref_at :: "(remote_view \<Rightarrow> (ref_name, remote_ref) btree) \<Rightarrow> view \<Rightarrow> remote_name \<Rightarrow> ref_name \<Rightarrow> remote_ref option" where
  "ref_at refs v remote name = Option.bind (bt_get (remote_views v) remote) (\<lambda>rv. bt_get (refs rv) name)"

definition owned :: "view \<Rightarrow> ConnectionId \<Rightarrow> bool" where
  "owned v c \<longleftrightarrow> (\<exists>remote target. bt_get (observed_remote_connections v) remote = Some target \<and>
     Some c \<in> set (merge_values target))"

lemma connection_observed_iff: "connection_observed v c \<longleftrightarrow> owned v c"
  unfolding connection_observed_def owned_def list_ex_iff set_somes Bex_def in_bt_values_iff by blast

lemma contains_iff:
  "contains v remote \<longleftrightarrow>
     bt_get (remote_views v) remote \<noteq> None \<or> bt_get (observed_remote_connections v) remote \<noteq> None \<or>
     (\<exists>key. ok_remote key = remote \<and> bt_get (project_observations v) key \<noteq> None)"
  by (auto simp: contains_def list_ex_iff)

section \<open>Relocation\<close>

definition exchange :: "'k \<Rightarrow> 'k \<Rightarrow> 'k \<Rightarrow> 'k" where
  "exchange old new k = (if k = old then new else if k = new then old else k)"

lemma exchange_invol [simp]: "exchange new old (exchange old new k) = k"
  by (auto simp: exchange_def)

lemma exchange_same [simp]: "exchange k k = (\<lambda>x. x)"
  by (auto simp: exchange_def fun_eq_iff)

lemma exchange_simps [simp]: "exchange old new old = new" "exchange old new new = old"
  by (auto simp: exchange_def)

lemma with_remote_simps [simp]:
  "ok_remote (with_remote r key) = r" "with_remote r (with_remote r' key) = with_remote r key"
  "with_remote (ok_remote key) key = key"
  by (simp_all add: with_remote_def)

lemma with_remote_cancel: "with_remote r a = with_remote r b \<Longrightarrow> ok_remote a = ok_remote b \<Longrightarrow> a = b"
  by (cases a; cases b) (simp add: with_remote_def)

lemma bt_get_move_key:
  assumes "bt_get m new = None" and "old \<noteq> new"
  shows "bt_get (move_key old new m) k = bt_get m (exchange old new k)"
  using assms by (auto simp: move_key_def exchange_def split: option.splits)

lemma fold_move_key_get:
  assumes "old \<noteq> new" and "distinct ks" and "\<forall>k \<in> set ks. ok_remote k = old"
    and "\<forall>k. ok_remote k = new \<longrightarrow> with_remote old k \<in> set ks \<longrightarrow> bt_get m k = None"
  shows "bt_get (fold (\<lambda>key. move_key key (with_remote new key)) ks m) k =
    (if k \<in> set ks \<or> (ok_remote k = new \<and> with_remote old k \<in> set ks)
     then bt_get m (with_remote (exchange old new (ok_remote k)) k) else bt_get m k)"
  using assms(2-)
proof (induction ks arbitrary: m)
  case (Cons a ks)
  have a: "ok_remote a = old" "a \<notin> set ks" using Cons.prems by auto
  have free: "bt_get m (with_remote new a) = None"
    using Cons.prems(3) a(1) with_remote_simps(3)[of a] by simp
  have neq: "a \<noteq> with_remote new a" using a(1) assms(1) by (metis with_remote_simps(1))
  note step = bt_get_move_key[OF free neq]
  have other: "k' \<noteq> a" if "ok_remote k' = new" for k' using that a(1) assms(1) by auto
  have image: "k' = with_remote new a \<longleftrightarrow> with_remote old k' = a" if "ok_remote k' = new" for k'
    using that a(1) by (metis with_remote_simps(2,3))
  have fresh: "bt_get (move_key a (with_remote new a) m) k' = None"
    if "ok_remote k' = new" "with_remote old k' \<in> set ks" for k'
  proof -
    have "k' \<noteq> with_remote new a" using image[OF that(1)] that(2) a(2) by auto
    then show ?thesis
      unfolding step using Cons.prems(3) that other[OF that(1)] by (simp add: exchange_def)
  qed
  have IH: "bt_get (fold (\<lambda>key. move_key key (with_remote new key)) ks (move_key a (with_remote new a) m)) k =
    (if k \<in> set ks \<or> (ok_remote k = new \<and> with_remote old k \<in> set ks)
     then bt_get (move_key a (with_remote new a) m) (with_remote (exchange old new (ok_remote k)) k)
     else bt_get (move_key a (with_remote new a) m) k)"
    using Cons.prems fresh by (intro Cons.IH) auto
  consider "k = a" | "k = with_remote new a" | "k \<noteq> a" "k \<noteq> with_remote new a" by blast
  then show ?case
  proof cases
    case 1
    then show ?thesis using IH a step assms(1) neq by simp
  next
    case 2
    have "with_remote old k = a" "ok_remote k = new" using 2 a(1) by (metis with_remote_simps(2,3)) (simp add: 2)
    moreover have "k \<notin> set ks" using Cons.prems(2) \<open>ok_remote k = new\<close> assms(1) by auto
    ultimately show ?thesis using IH a(2) step neq 2 by simp
  next
    case 3
    have e: "exchange a (with_remote new a) k = k" using 3 by (simp add: exchange_def)
    have "with_remote (exchange old new (ok_remote k)) k \<noteq> with_remote new a" if "k \<in> set ks"
      using that Cons.prems(2) a 3 by (auto dest: with_remote_cancel)
    moreover have "with_remote (exchange old new (ok_remote k)) k \<noteq> a" if "k \<in> set ks"
      using that Cons.prems(2) a(1) assms(1) by auto
    moreover have "with_remote old k \<noteq> a" if "ok_remote k = new" using image[OF that] 3(2) by blast
    moreover have "with_remote old k \<noteq> with_remote new a" using assms(1) by (metis with_remote_simps(1))
    ultimately show ?thesis using IH step e 3 by (auto simp: exchange_def)
  qed
qed simp

lemma relocate_Inr:
  "relocate old new v = Inr v' \<longleftrightarrow>
     (if old = new then v' = v
      else \<not> contains v new \<and>
        v' = v\<lparr>remote_views := move_key old new (remote_views v),
               observed_remote_connections := move_key old new (observed_remote_connections v),
               project_observations :=
                 fold (\<lambda>key. move_key key (with_remote new key))
                   (filter (\<lambda>key. ok_remote key = old) (bt_keys (project_observations v)))
                   (project_observations v)\<rparr>)"
  by (auto simp: relocate_def check_relocation_def)

lemma relocate_observations:
  assumes "old \<noteq> new" and "\<not> contains v new"
  shows "bt_get (fold (\<lambda>key. move_key key (with_remote new key))
      (filter (\<lambda>key. ok_remote key = old) (bt_keys (project_observations v))) (project_observations v)) k =
    bt_get (project_observations v) (with_remote (exchange old new (ok_remote k)) k)"
proof -
  let ?ks = "filter (\<lambda>key. ok_remote key = old) (bt_keys (project_observations v))"
  have free: "bt_get (project_observations v) k = None" if "ok_remote k = new" for k
    using assms(2) that by (auto simp: contains_iff)
  have "bt_get (fold (\<lambda>key. move_key key (with_remote new key)) ?ks (project_observations v)) k =
    (if k \<in> set ?ks \<or> (ok_remote k = new \<and> with_remote old k \<in> set ?ks)
     then bt_get (project_observations v) (with_remote (exchange old new (ok_remote k)) k)
     else bt_get (project_observations v) k)"
    using free by (intro fold_move_key_get assms(1)) (auto simp: bt_keys_distinct)
  also have "\<dots> = bt_get (project_observations v) (with_remote (exchange old new (ok_remote k)) k)"
    using free by (auto simp: exchange_def)
  finally show ?thesis .
qed

lemma relocate_reads:
  assumes "relocate old new v = Inr v'"
  shows "bt_get (remote_views v') r = bt_get (remote_views v) (exchange old new r)"
    and "bt_get (observed_remote_connections v') r = bt_get (observed_remote_connections v) (exchange old new r)"
    and "bt_get (project_observations v') k =
      bt_get (project_observations v) (with_remote (exchange old new (ok_remote k)) k)"
    and "observed_remote_names v' = observed_remote_names v"
    and "copy_from v v' = v"
  using assms
  by (auto simp: relocate_Inr bt_get_move_key contains_iff relocate_observations copy_from_def split: if_splits)

lemma relocate_contains:
  assumes "relocate old new v = Inr v'"
  shows "contains v' r \<longleftrightarrow> contains v (exchange old new r)"
proof -
  have "(\<exists>key. ok_remote key = r \<and> bt_get (project_observations v') key \<noteq> None) \<longleftrightarrow>
    (\<exists>key. ok_remote key = exchange old new r \<and> bt_get (project_observations v) key \<noteq> None)"
    (is "?L \<longleftrightarrow> ?R")
  proof
    assume ?L
    then show ?R unfolding relocate_reads(3)[OF assms] by force
  next
    assume ?R
    then obtain key where key: "ok_remote key = exchange old new r" "bt_get (project_observations v) key \<noteq> None"
      by blast
    then have "bt_get (project_observations v') (with_remote r key) \<noteq> None"
      unfolding relocate_reads(3)[OF assms] by (simp flip: key(1))
    then show ?L by force
  qed
  then show ?thesis
    unfolding contains_iff relocate_reads(1,2)[OF assms] by simp
qed

lemma view_eqI:
  assumes "copy_from v v' = v" and "remote_views v' = remote_views v"
    and "observed_remote_connections v' = observed_remote_connections v"
    and "observed_remote_names v' = observed_remote_names v"
    and "project_observations v' = project_observations v"
  shows "v' = (v :: view)"
  using assms by (cases v; cases v') (simp add: copy_from_def)

text \<open>
  Renaming a remote's observations is exact: when it succeeds, what was recorded for the old
  key, its references, its owner and its conversion evidence, is recorded for the new key, the old
  key has nothing left, and every other remote, the connection names and the rest of the view are
  as they were. Both the keys are exchanged because the new key had nothing recorded.
\<close>
theorem relocate_exact:
  assumes "relocate old new v = Inr v'"
  shows "bt_get (remote_views v') r = bt_get (remote_views v) (exchange old new r) \<and>
    bt_get (observed_remote_connections v') r = bt_get (observed_remote_connections v) (exchange old new r) \<and>
    bt_get (project_observations v') k =
      bt_get (project_observations v) (with_remote (exchange old new (ok_remote k)) k) \<and>
    observed_remote_names v' = observed_remote_names v \<and> copy_from v v' = v \<and>
    (old \<noteq> new \<longrightarrow> \<not> contains v new \<and> \<not> contains v' old)"
proof -
  have "\<not> contains v new" if "old \<noteq> new" using assms that by (auto simp: relocate_Inr)
  with relocate_contains[OF assms, of old] relocate_reads(1,2)[OF assms, of r] relocate_reads(3)[OF assms, of k]
    relocate_reads(4,5)[OF assms]
  show ?thesis by auto
qed

lemma relocate_back:
  assumes "relocate old new v = Inr v'"
  shows "relocate new old v' = Inr v"
proof -
  have "old = new \<or> \<not> contains v' old"
    using assms relocate_contains[OF assms, of old] by (auto simp: relocate_Inr)
  then obtain v'' where v'': "relocate new old v' = Inr v''"
    by (cases "new = old") (auto simp: relocate_def check_relocation_def)
  have "v'' = v"
  proof (rule view_eqI)
    show "copy_from v v'' = v"
      using relocate_reads(5)[OF assms] relocate_reads(5)[OF v'']
      by (cases v; cases v'; cases v'') (simp add: copy_from_def)
  qed (auto intro!: bt_eqI simp: relocate_reads(1-4)[OF v''] relocate_reads(1-4)[OF assms])
  with v'' show ?thesis by simp
qed

text \<open>
  Renaming a remote's observations can be undone: renaming back succeeds and gives the view
  that was renamed.
\<close>
theorem relocate_round_trip:
  assumes "relocate old new v = Inr v'"
  shows "relocate new old v' = Inr v"
  by (rule relocate_back[OF assms])

text \<open>A view with one remote, its owner, that connection's name and one piece of evidence.\<close>

definition sample_observed :: view where
  "sample_observed =
     (make_root (CommitId [0]))
       \<lparr>remote_views := bt_insert ''a''
          (remote_view_default\<lparr>bookmarks := bt_insert ''main'' \<lparr>rr_target = normal (CommitId [1]), rr_state = Tracked\<rparr> bt_empty\<rparr>)
          bt_empty,
        observed_remote_connections := bt_insert ''a'' (normal (ConnectionId [7])) bt_empty,
        observed_remote_names := bt_insert (ConnectionId [7]) (normal \<lparr>sn_project = ProjectId [1], sn_name = ''up''\<rparr>) bt_empty,
        project_observations := bt_insert (ObservationKey ''a'' ''main'' Bookmark) absent bt_empty\<rparr>"

lemma sample_contains: "contains sample_observed ''a''" "\<not> contains sample_observed ''b''"
  by code_simp+

lemma relocate_Inr_ex: "\<not> contains v new \<Longrightarrow> \<exists>v'. relocate old new v = Inr v'"
  by (cases "old = new") (auto simp: relocate_def check_relocation_def)

theorem relocate_exact_witness:
  "\<exists>v'. relocate ''a'' ''b'' sample_observed = Inr v' \<and>
     bt_get (observed_remote_connections v') ''b'' = Some (normal (ConnectionId [7])) \<and> \<not> contains v' ''a''"
proof -
  obtain v' where v': "relocate ''a'' ''b'' sample_observed = Inr v'"
    using relocate_Inr_ex[OF sample_contains(2)] by blast
  then show ?thesis
    using relocate_exact[OF v', of "''b''"] by (auto simp: sample_observed_def make_root_def)
qed

theorem relocate_round_trip_witness:
  "\<exists>v'. relocate ''a'' ''b'' sample_observed = Inr v' \<and> relocate ''b'' ''a'' v' = Inr sample_observed"
  using relocate_Inr_ex[OF sample_contains(2), of "''a''"] relocate_round_trip[of "''a''" "''b''" sample_observed]
  by blast

section \<open>Removal\<close>

lemma forget_owner_reads [simp]:
  "remote_views (forget_owner c v) = remote_views v"
  "observed_remote_connections (forget_owner c v) = observed_remote_connections v"
  "project_observations (forget_owner c v) = project_observations v"
  "copy_from w (forget_owner c v) = copy_from w v"
  by (simp_all add: forget_owner_def copy_from_def)

lemma owned_cong: "observed_remote_connections v = observed_remote_connections w \<Longrightarrow> owned v = owned w"
  by (auto simp: owned_def fun_eq_iff)

lemma fold_forget_owner:
  "remote_views (fold forget_owner cs v) = remote_views v"
  "observed_remote_connections (fold forget_owner cs v) = observed_remote_connections v"
  "project_observations (fold forget_owner cs v) = project_observations v"
  "copy_from w (fold forget_owner cs v) = copy_from w v"
  "bt_get (observed_remote_names (fold forget_owner cs v)) c =
     (if c \<in> set cs \<and> \<not> owned v c then None else bt_get (observed_remote_names v) c)"
proof (induction cs arbitrary: v)
  case (Cons a cs)
  case 5
  have "owned (forget_owner a v) = owned v" by (rule owned_cong) simp
  then show ?case using Cons(5)[of "forget_owner a v"]
    by (auto simp: forget_owner_def connection_observed_iff)
qed auto

text \<open>
  Removing a remote's observations leaves nothing recorded under its key and touches no other
  remote. Of the connection names it forgets exactly those of the removed remote's former owners
  that no other observed remote still has among its terms. Nothing else of the view changes.
\<close>
theorem remove_observations_exact:
  "\<not> contains (remove_observations remote v) remote \<and>
   (r \<noteq> remote \<longrightarrow>
      bt_get (remote_views (remove_observations remote v)) r = bt_get (remote_views v) r \<and>
      bt_get (observed_remote_connections (remove_observations remote v)) r =
        bt_get (observed_remote_connections v) r) \<and>
   (ok_remote key \<noteq> remote \<longrightarrow>
      bt_get (project_observations (remove_observations remote v)) key = bt_get (project_observations v) key) \<and>
   bt_get (observed_remote_names (remove_observations remote v)) c =
     (if owned v c \<and> \<not> owned (remove_observations remote v) c then None
      else bt_get (observed_remote_names v) c) \<and>
   copy_from v (remove_observations remote v) = v"
proof -
  have reads: "remote_views (remove_observations remote v) = bt_remove remote (remote_views v)"
    "observed_remote_connections (remove_observations remote v) = bt_remove remote (observed_remote_connections v)"
    "project_observations (remove_observations remote v) =
      bt_retain (\<lambda>key _. ok_remote key \<noteq> remote) (project_observations v)"
    by (simp_all add: remove_observations_def Let_def fold_forget_owner bt_remove_absent split: option.split)
  have frame: "copy_from v (remove_observations remote v) = v"
    by (auto simp: remove_observations_def Let_def fold_forget_owner split: option.split)
      (simp_all add: copy_from_def)
  have owned': "owned (remove_observations remote v) c \<longleftrightarrow>
      (\<exists>r target. r \<noteq> remote \<and> bt_get (observed_remote_connections v) r = Some target \<and>
        Some c \<in> set (merge_values target))"
    by (auto simp: owned_def reads)
  have names: "bt_get (observed_remote_names (remove_observations remote v)) c =
     (if owned v c \<and> \<not> owned (remove_observations remote v) c then None
      else bt_get (observed_remote_names v) c)"
  proof (cases "bt_get (observed_remote_connections v) remote")
    case None
    then have "owned v c = owned (remove_observations remote v) c"
      unfolding owned' by (auto simp: owned_def) (metis option.distinct(1))
    with None show ?thesis by (simp add: remove_observations_def Let_def)
  next
    case (Some owners)
    then have "owned v c \<longleftrightarrow> Some c \<in> set (merge_values owners) \<or> owned (remove_observations remote v) c"
      unfolding owned' by (auto simp: owned_def) (metis option.inject)
    moreover have "owned (v\<lparr>remote_views := x, project_observations := y,
        observed_remote_connections := bt_remove remote (observed_remote_connections v)\<rparr>) =
      owned (remove_observations remote v)" for x y
      by (rule owned_cong) (simp add: reads)
    ultimately show ?thesis using Some by (simp add: remove_observations_def Let_def fold_forget_owner)
  qed
  have "\<not> contains (remove_observations remote v) remote"
    by (auto simp: contains_iff reads split: option.splits)
  with frame names show ?thesis by (simp add: reads split: option.split)
qed

theorem remove_observations_exact_witness:
  "bt_get (remote_views (remove_observations ''b'' sample_observed)) ''a'' = bt_get (remote_views sample_observed) ''a'' \<and>
   \<not> contains (remove_observations ''a'' sample_observed) ''a''"
  using remove_observations_exact[of "''b''" sample_observed "''a''"]
    remove_observations_exact[of "''a''" sample_observed] by simp

section \<open>Remapping\<close>

lemma first_duplicate_None: "first_duplicate seen xs = None \<longleftrightarrow> distinct xs \<and> set seen \<inter> set xs = {}"
  by (induction xs arbitrary: seen) auto

lemma map_fst_map_filter:
  "map fst (List.map_filter (\<lambda>(k, v). map_option (\<lambda>k'. (k', g v)) (f k)) ps) = List.map_filter f (map fst ps)"
proof (induction ps)
  case (Cons p ps)
  then show ?case by (cases p; cases "f (fst p)") (auto simp: List.map_filter_simps)
qed (simp add: List.map_filter_simps)

lemma map_of_rev_distinct: "distinct (map fst ps) \<Longrightarrow> map_of (rev ps) k = map_of ps k"
  by (rule fun_cong[of _ _ k]) (simp add: map_of_inject_set flip: rev_map)

lemma rekey_get:
  assumes "distinct (List.map_filter f (bt_keys m))"
  shows "bt_get (rekey f g m) k' = Some w \<longleftrightarrow> (\<exists>k v. f k = Some k' \<and> bt_get m k = Some v \<and> w = g v)"
proof -
  let ?ps = "List.map_filter (\<lambda>(k, v). map_option (\<lambda>k'. (k', g v)) (f k)) (entries m)"
  have d: "distinct (map fst ?ps)"
    unfolding map_fst_map_filter using assms by (simp add: bt_keys_def)
  then have "bt_get (rekey f g m) k' = map_of ?ps k'"
    by (simp add: rekey_def bt_get_from_list map_of_rev_distinct)
  then have "bt_get (rekey f g m) k' = Some w \<longleftrightarrow> (k', w) \<in> set ?ps"
    using d by simp
  also have "\<dots> \<longleftrightarrow> (\<exists>k v. f k = Some k' \<and> bt_get m k = Some v \<and> w = g v)"
    by (force simp: List.map_filter_def in_entries_iff[symmetric])
  finally show ?thesis .
qed

lemma distinct_map_filter:
  assumes "distinct xs" and "\<And>x y z. x \<in> set xs \<Longrightarrow> y \<in> set xs \<Longrightarrow> f x = Some z \<Longrightarrow> f y = Some z \<Longrightarrow> x = y"
  shows "distinct (List.map_filter f xs)"
  using assms
proof (induction xs)
  case (Cons a xs)
  then show ?case
    by (cases "f a") (auto simp: List.map_filter_simps List.map_filter_def, metis)
qed (simp add: List.map_filter_def)

lemma map_filter_distinct_inj:
  "distinct (List.map_filter f xs) \<Longrightarrow> x \<in> set xs \<Longrightarrow> y \<in> set xs \<Longrightarrow> f x = Some z \<Longrightarrow> f y = Some z \<Longrightarrow> x = y"
  by (induction xs) (force simp: List.map_filter_def split: if_splits)+

lemma values_distinct_inj:
  assumes "distinct (bt_values m)" and "bt_get m x = Some z" and "bt_get m y = Some z"
  shows "x = y"
proof -
  have "(x, z) \<in> set (entries m)" "(y, z) \<in> set (entries m)" using assms(2,3) by (simp_all add: in_entries_iff)
  with assms(1) show ?thesis unfolding bt_values_def distinct_map inj_on_def by fastforce
qed

lemma first_collision_None:
  "first_collision ref_names rvs = None \<longleftrightarrow>
     (\<forall>(remote, rv) \<in> set rvs. distinct (map (mapped_ref ref_names) (bt_keys (bookmarks rv))) \<and>
        distinct (map (mapped_ref ref_names) (bt_keys (tags rv))))"
  by (induction ref_names rvs rule: first_collision.induct)
    (auto simp: first_duplicate_None option.case_eq_if)

lemma remap_check_None:
  "remap_check v remotes ref_names = None \<longleftrightarrow>
     distinct (bt_values remotes) \<and>
     (\<forall>remote rv. bt_get (remote_views v) remote = Some rv \<longrightarrow> bt_get remotes remote \<noteq> None \<longrightarrow>
        distinct (map (mapped_ref ref_names) (bt_keys (bookmarks rv))) \<and>
        distinct (map (mapped_ref ref_names) (bt_keys (tags rv)))) \<and>
     distinct (List.map_filter (mapped_key remotes ref_names) (bt_keys (project_observations v)))"
proof -
  have "first_collision ref_names (filter (\<lambda>(remote, _). bt_contains_key remotes remote) (entries (remote_views v)))
      = None \<longleftrightarrow>
    (\<forall>remote rv. bt_get (remote_views v) remote = Some rv \<longrightarrow> bt_get remotes remote \<noteq> None \<longrightarrow>
        distinct (map (mapped_ref ref_names) (bt_keys (bookmarks rv))) \<and>
        distinct (map (mapped_ref ref_names) (bt_keys (tags rv))))"
    by (fastforce simp: first_collision_None in_entries_iff)
  note collision = this
  show ?thesis
    unfolding collision[symmetric]
    by (auto simp: remap_check_def first_duplicate_None option.case_eq_if simp del: bt_contains_key_iff)
qed

lemma remap_refs_rekey: "remap_refs ref_names refs = rekey (\<lambda>k. Some (mapped_ref ref_names k)) (\<lambda>x. x) refs"
  by (simp add: remap_refs_def rekey_def List.map_filter_def comp_def case_prod_unfold)

lemma map_filter_Some: "List.map_filter (\<lambda>x. Some (f x)) xs = map f xs"
  by (simp add: List.map_filter_def comp_def)

lemma remap_refs_get:
  assumes "distinct (map (mapped_ref ref_names) (bt_keys refs))"
  shows "bt_get (remap_refs ref_names refs) name' = Some r \<longleftrightarrow>
    (\<exists>name. mapped_ref ref_names name = name' \<and> bt_get refs name = Some r)"
  using rekey_get[of "\<lambda>k. Some (mapped_ref ref_names k)" refs "\<lambda>x. x" name' r] assms
  by (auto simp: remap_refs_rekey map_filter_Some)

lemma mapped_ref_unique:
  assumes "distinct (map (mapped_ref ref_names) (bt_keys refs))"
    and "mapped_ref ref_names a = mapped_ref ref_names b" and "bt_get refs a = Some x" and "bt_get refs b = Some y"
  shows "a = b"
  using assms by (auto simp: distinct_map dest!: inj_onD)

lemma remap_fields:
  assumes "remap remotes ref_names v = Inr v'"
  shows "remap_check v remotes ref_names = None"
    and "remote_views v' = rekey (bt_get remotes) (remap_view ref_names) (remote_views v)"
    and "observed_remote_connections v' = rekey (bt_get remotes) (\<lambda>x. x) (observed_remote_connections v)"
    and "project_observations v' = rekey (mapped_key remotes ref_names) (\<lambda>x. x) (project_observations v)"
    and "copy_from v v' = v"
    and "bt_get (observed_remote_names v') c = (if owned v' c then bt_get (observed_remote_names v) c else None)"
proof -
  have own: "owned v' c \<longleftrightarrow> c \<in> set (concat (map (\<lambda>target. somes (merge_values target))
      (bt_values (observed_remote_connections v'))))"
    unfolding owned_def by (simp only: set_concat set_map set_somes image_image UN_iff Bex_def in_bt_values_iff mem_Collect_eq) blast
  from assms show "remap_check v remotes ref_names = None"
    "remote_views v' = rekey (bt_get remotes) (remap_view ref_names) (remote_views v)"
    "observed_remote_connections v' = rekey (bt_get remotes) (\<lambda>x. x) (observed_remote_connections v)"
    "project_observations v' = rekey (mapped_key remotes ref_names) (\<lambda>x. x) (project_observations v)"
    "copy_from v v' = v"
    by (auto simp: remap_def Let_def copy_from_def split: option.splits)
  from assms show "bt_get (observed_remote_names v') c = (if owned v' c then bt_get (observed_remote_names v) c else None)"
    unfolding own by (simp add: remap_def Let_def del: set_concat split: option.splits)
      (auto simp del: set_concat split: option.splits)
qed

lemma remotes_distinct:
  "distinct (bt_values remotes) \<Longrightarrow> distinct (List.map_filter (bt_get remotes) (bt_keys m))"
  by (rule distinct_map_filter[OF bt_keys_distinct]) (rule values_distinct_inj)

lemma ex1_pair:
  assumes "\<And>a b c e. P a b \<Longrightarrow> P c e \<Longrightarrow> a = c \<and> b = e"
  shows "(\<exists>a b. P a b) \<longleftrightarrow> (\<exists>!(a, b). P a b)"
  using assms by fastforce

lemma remap_ref_at:
  assumes "remap remotes ref_names v = Inr v'"
    and get: "\<And>rv. refs (remap_view ref_names rv) = remap_refs ref_names (refs rv)"
    and d: "\<And>remote rv. bt_get (remote_views v) remote = Some rv \<Longrightarrow> bt_get remotes remote \<noteq> None \<Longrightarrow>
      distinct (map (mapped_ref ref_names) (bt_keys (refs rv)))"
  shows "ref_at refs v' remote' name' = Some r \<longleftrightarrow>
    (\<exists>!(remote, name). bt_get remotes remote = Some remote' \<and> mapped_ref ref_names name = name' \<and>
      ref_at refs v remote name = Some r)"
proof -
  let ?P = "\<lambda>remote name. bt_get remotes remote = Some remote' \<and> mapped_ref ref_names name = name' \<and>
      ref_at refs v remote name = Some r"
  note inj = values_distinct_inj[OF conjunct1[OF remap_fields(1)[OF assms(1), unfolded remap_check_None]]]
  note dr = remotes_distinct[OF conjunct1[OF remap_fields(1)[OF assms(1), unfolded remap_check_None]]]
  have "ref_at refs v' remote' name' = Some r \<longleftrightarrow>
    (\<exists>remote rv. bt_get remotes remote = Some remote' \<and> bt_get (remote_views v) remote = Some rv \<and>
       bt_get (remap_refs ref_names (refs rv)) name' = Some r)"
    using rekey_get[OF dr, of "remap_view ref_names" _ remote']
    by (auto simp: ref_at_def bind_eq_Some_conv remap_fields(2)[OF assms(1)] get) (metis get)
  also have "\<dots> \<longleftrightarrow> (\<exists>remote name. ?P remote name)"
  proof -
    have "bt_get (remap_refs ref_names (refs rv)) name' = Some r \<longleftrightarrow>
      (\<exists>name. mapped_ref ref_names name = name' \<and> bt_get (refs rv) name = Some r)"
      if "bt_get remotes remote = Some remote'" "bt_get (remote_views v) remote = Some rv" for remote rv
      using remap_refs_get[OF d[OF that(2)], of name' r] that(1) by simp
    then show ?thesis by (simp add: ref_at_def bind_eq_Some_conv) blast
  qed
  also have "\<dots> \<longleftrightarrow> (\<exists>!(remote, name). ?P remote name)"
  proof -
    have "a = c \<and> b = e" if ab: "?P a b" and ce: "?P c e" for a b c e
    proof -
      have "a = c" using inj ab ce by blast
      moreover obtain rv where "bt_get (remote_views v) a = Some rv" "bt_get (refs rv) b = Some r"
        using ab by (auto simp: ref_at_def bind_eq_Some_conv)
      ultimately show ?thesis
        using ab ce mapped_ref_unique[OF d[of a rv], of b e] by (auto simp: ref_at_def)
    qed
    then show ?thesis by (rule ex1_pair)
  qed
  finally show ?thesis .
qed

lemma remap_ref_at_both:
  assumes "remap remotes ref_names v = Inr v'" and "refs \<in> {bookmarks, tags}"
  shows "ref_at refs v' remote' name' = Some r \<longleftrightarrow>
      (\<exists>!(remote, name). bt_get remotes remote = Some remote' \<and> mapped_ref ref_names name = name' \<and>
        ref_at refs v remote name = Some r)"
  using remap_fields(1)[OF assms(1), unfolded remap_check_None] assms(2)
  by (intro remap_ref_at[OF assms(1)]) (auto simp: remap_view_def)

text \<open>
  Remapping an imported snapshot to new remote keys and reference names loses, invents and
  merges nothing. When it succeeds, each bookmark, tag, owner and piece of evidence of the result
  comes from exactly one entry of the imported snapshot under a mapped remote, and each such entry
  appears in the result. A connection name is kept exactly when an observed remote of the result
  still has the connection, and the rest of the view is unchanged.
\<close>
theorem remap_exact:
  assumes "remap remotes ref_names v = Inr v'"
  shows "(ref_at bookmarks v' remote' name' = Some r \<longleftrightarrow>
      (\<exists>!(remote, name). bt_get remotes remote = Some remote' \<and> mapped_ref ref_names name = name' \<and>
        ref_at bookmarks v remote name = Some r)) \<and>
    (ref_at tags v' remote' name' = Some r \<longleftrightarrow>
      (\<exists>!(remote, name). bt_get remotes remote = Some remote' \<and> mapped_ref ref_names name = name' \<and>
        ref_at tags v remote name = Some r)) \<and>
    (bt_get (observed_remote_connections v') remote' = Some owners \<longleftrightarrow>
      (\<exists>!remote. bt_get remotes remote = Some remote' \<and>
        bt_get (observed_remote_connections v) remote = Some owners)) \<and>
    (bt_get (project_observations v') key' = Some evidence \<longleftrightarrow>
      (\<exists>!key. mapped_key remotes ref_names key = Some key' \<and>
        bt_get (project_observations v) key = Some evidence)) \<and>
    bt_get (observed_remote_names v') c = (if owned v' c then bt_get (observed_remote_names v) c else None) \<and>
    copy_from v v' = v"
proof -
  note f = remap_fields[OF assms]
  note chk = f(1)[unfolded remap_check_None]
  note refs = remap_ref_at_both[OF assms, of _ remote' name' r]
  have owners: "bt_get (observed_remote_connections v') remote' = Some owners \<longleftrightarrow>
      (\<exists>!remote. bt_get remotes remote = Some remote' \<and>
        bt_get (observed_remote_connections v) remote = Some owners)"
    unfolding f(3) using rekey_get[OF remotes_distinct[OF conjunct1[OF chk]], of "\<lambda>x. x" _ remote' owners]
      values_distinct_inj[OF conjunct1[OF chk]] by auto
  have d: "distinct (List.map_filter (mapped_key remotes ref_names) (bt_keys (project_observations v)))"
    using chk by blast
  have "a = b" if "mapped_key remotes ref_names a = Some key'" "mapped_key remotes ref_names b = Some key'"
    "bt_get (project_observations v) a = Some x" "bt_get (project_observations v) b = Some y" for a b x y
    using map_filter_distinct_inj[OF d _ _ that(1,2)] that(3,4) by simp
  then have evidence: "bt_get (project_observations v') key' = Some evidence \<longleftrightarrow>
      (\<exists>!key. mapped_key remotes ref_names key = Some key' \<and>
        bt_get (project_observations v) key = Some evidence)"
    unfolding f(4) using rekey_get[OF d, of "\<lambda>x. x" key' evidence] by auto
  show ?thesis using refs owners evidence f(5,6) by (intro conjI) simp_all
qed

definition sample_remotes :: "(remote_name, remote_name) btree" where
  "sample_remotes = bt_insert ''a'' ''imported'' bt_empty"

theorem remap_exact_witness:
  "\<exists>v'. remap sample_remotes bt_empty sample_observed = Inr v' \<and>
     bt_get (observed_remote_connections v') ''imported'' = Some (normal (ConnectionId [7]))"
proof -
  have "remap_check sample_observed sample_remotes bt_empty = None" by code_simp
  then obtain v' where v': "remap sample_remotes bt_empty sample_observed = Inr v'"
    by (simp add: remap_def Let_def)
  moreover have "\<exists>!remote. bt_get sample_remotes remote = Some ''imported'' \<and>
        bt_get (observed_remote_connections sample_observed) remote = Some (normal (ConnectionId [7]))"
    by (auto simp: sample_remotes_def sample_observed_def)
  ultimately show ?thesis using remap_exact[OF v', where remote' = "''imported''" and owners = "normal (ConnectionId [7])"]
    by (intro exI[of _ v']) simp
qed

end
