(* ===== verification/View_Laws.thy ===== *)
theory View_Laws
  imports View_Ops Project_Laws Remote_Observation_Laws
begin

text \<open>
  References of a view: reading after writing, and the invariant that a view stores no absent
  target, except for a tracked remote reference whose local reference is present. \<open>View_Reachable\<close>
  proves it for all views that the operations reach.
\<close>

section \<open>Capturing an identity touches two maps\<close>

lemma capture_name_reads [simp]:
  "remote_views (capture_name s c d) = remote_views d" "local_bookmarks (capture_name s c d) = local_bookmarks d"
  "local_tags (capture_name s c d) = local_tags d" "git_refs (capture_name s c d) = git_refs d"
  "git_heads (capture_name s c d) = git_heads d" "wc_sparse_patterns (capture_name s c d) = wc_sparse_patterns d"
  "observed_remote_connections (capture_name s c d) = observed_remote_connections d"
  by (simp_all add: capture_name_def split: option.split)

lemma fold_capture_name_reads [simp]:
  "remote_views (fold (capture_name s) cs d) = remote_views d"
  "local_bookmarks (fold (capture_name s) cs d) = local_bookmarks d"
  "local_tags (fold (capture_name s) cs d) = local_tags d" "git_refs (fold (capture_name s) cs d) = git_refs d"
  "git_heads (fold (capture_name s) cs d) = git_heads d"
  "wc_sparse_patterns (fold (capture_name s) cs d) = wc_sparse_patterns d"
  "observed_remote_connections (fold (capture_name s) cs d) = observed_remote_connections d"
  by (induction cs arbitrary: d) simp_all

lemma capture_identity_reads [view_simps]:
  "remote_views (capture_identity r d) = remote_views d" "local_bookmarks (capture_identity r d) = local_bookmarks d"
  "local_tags (capture_identity r d) = local_tags d" "git_refs (capture_identity r d) = git_refs d"
  "git_heads (capture_identity r d) = git_heads d" "wc_sparse_patterns (capture_identity r d) = wc_sparse_patterns d"
  by (simp_all add: capture_identity_def split: option.split)

lemma remove_observations_reads [view_simps]:
  "remote_views (remove_observations r d) = bt_remove r (remote_views d)"
  "local_bookmarks (remove_observations r d) = local_bookmarks d"
  "local_tags (remove_observations r d) = local_tags d" "git_refs (remove_observations r d) = git_refs d"
  "git_heads (remove_observations r d) = git_heads d"
  "wc_sparse_patterns (remove_observations r d) = wc_sparse_patterns d"
proof -
  have other: "local_bookmarks (fold forget_owner cs d) = local_bookmarks d"
    "local_tags (fold forget_owner cs d) = local_tags d" "git_refs (fold forget_owner cs d) = git_refs d"
    "git_heads (fold forget_owner cs d) = git_heads d"
    "wc_sparse_patterns (fold forget_owner cs d) = wc_sparse_patterns d" for cs d
    by (induction cs arbitrary: d) (simp_all add: forget_owner_def)
  show "remote_views (remove_observations r d) = bt_remove r (remote_views d)"
    "local_bookmarks (remove_observations r d) = local_bookmarks d"
    "local_tags (remove_observations r d) = local_tags d" "git_refs (remove_observations r d) = git_refs d"
    "git_heads (remove_observations r d) = git_heads d"
    "wc_sparse_patterns (remove_observations r d) = wc_sparse_patterns d"
    by (simp_all add: remove_observations_def Let_def fold_forget_owner other split: option.split)
qed

section \<open>Reading after writing\<close>

lemma flatten_target_simps [simp]: "flatten_target None = absent" "flatten_target (Some t) = t"
  by (simp_all add: flatten_target_def)

lemma not_present [simp]: "\<not> is_present t \<longleftrightarrow> t = absent"
  by (simp add: is_present_def is_absent_iff)

lemma absent_not_present [simp]: "\<not> is_present absent"
  by simp

interpretation local_bookmark: keyed_store get_local_bookmark set_local_bookmark_target
  by unfold_locales (auto simp: get_local_bookmark_def set_local_bookmark_target_def)

interpretation local_tag: keyed_store get_local_tag set_local_tag_target
  by unfold_locales (auto simp: get_local_tag_def set_local_tag_target_def)

interpretation git_ref: keyed_store get_git_ref set_git_ref_target
  by unfold_locales (auto simp: get_git_ref_def set_git_ref_target_def)

interpretation workspace_git_head: keyed_store git_head set_git_head_target
  by unfold_locales (auto simp: git_head_def set_git_head_target_def)

interpretation workspace_patterns: keyed_store "\<lambda>v name. flatten_target (get_wc_sparse_patterns v name)" set_wc_sparse_patterns
  by unfold_locales (auto simp: get_wc_sparse_patterns_def set_wc_sparse_patterns_def is_absent_iff split: option.split)

lemma absent_remote_ref_simps [simp]:
  "remote_ref_is_present absent_remote_ref = False" "is_tracked absent_remote_ref = False"
  by (simp_all add: absent_remote_ref_def remote_ref_is_present_def is_tracked_def)

lemma flatten_remote_ref_simps [simp]:
  "flatten_remote_ref None = absent_remote_ref" "flatten_remote_ref (Some r) = r"
  by (simp_all add: flatten_remote_ref_def)

lemma entry_or_default_bookmarks:
  "bt_get (bookmarks (entry_or_default views remote)) name =
     (case bt_get views remote of None \<Rightarrow> None | Some rv \<Rightarrow> bt_get (bookmarks rv) name)"
  "bt_get (tags (entry_or_default views remote)) name =
     (case bt_get views remote of None \<Rightarrow> None | Some rv \<Rightarrow> bt_get (tags rv) name)"
  by (simp_all add: entry_or_default_def remote_view_default_def split: option.split)

lemma symbol_eqI: "sym_name a = sym_name b \<Longrightarrow> sym_remote a = sym_remote b \<Longrightarrow> a = (b :: remote_ref_symbol)"
  by simp

text \<open>
  Setting a remote bookmark or tag is exact: the reference then reads back as given, or as
  absent when it is absent and either untracked or without a present local reference, and every
  other remote bookmark and tag and all local references keep their values.
\<close>
theorem set_remote_ref_exact:
  "get_remote_bookmark (set_remote_bookmark symbol r v) s =
     (if s \<noteq> symbol then get_remote_bookmark v s
      else if remote_ref_is_present r \<or> (is_tracked r \<and> is_present (get_local_bookmark v (sym_name symbol))) then r
      else absent_remote_ref) \<and>
   get_remote_tag (set_remote_bookmark symbol r v) s = get_remote_tag v s \<and>
   get_remote_tag (set_remote_tag symbol r v) s =
     (if s \<noteq> symbol then get_remote_tag v s
      else if remote_ref_is_present r \<or> (is_tracked r \<and> is_present (get_local_tag v (sym_name symbol))) then r
      else absent_remote_ref) \<and>
   get_remote_bookmark (set_remote_tag symbol r v) s = get_remote_bookmark v s \<and>
   get_local_bookmark (set_remote_bookmark symbol r v) name = get_local_bookmark v name \<and>
   get_local_tag (set_remote_tag symbol r v) name = get_local_tag v name"
proof -
  note defs = set_remote_bookmark_def set_remote_tag_def get_remote_bookmark_def get_remote_tag_def
    get_local_bookmark_def get_local_tag_def capture_remote_observation_identity_def Let_def
  have "get_remote_bookmark (set_remote_bookmark symbol r v) s =
     (if s \<noteq> symbol then get_remote_bookmark v s
      else if remote_ref_is_present r \<or> (is_tracked r \<and> is_present (get_local_bookmark v (sym_name symbol))) then r
      else absent_remote_ref)"
    by (cases s; cases symbol) (auto simp: defs view_simps entry_or_default_bookmarks split: option.split)
  moreover have "get_remote_tag (set_remote_tag symbol r v) s =
     (if s \<noteq> symbol then get_remote_tag v s
      else if remote_ref_is_present r \<or> (is_tracked r \<and> is_present (get_local_tag v (sym_name symbol))) then r
      else absent_remote_ref)"
    by (cases s; cases symbol) (auto simp: defs view_simps entry_or_default_bookmarks split: option.split)
  moreover have "get_remote_tag (set_remote_bookmark symbol r v) s = get_remote_tag v s"
    "get_remote_bookmark (set_remote_tag symbol r v) s = get_remote_bookmark v s"
    by (auto simp: defs view_simps entry_or_default_bookmarks split: option.split)
  moreover have "get_local_bookmark (set_remote_bookmark symbol r v) name = get_local_bookmark v name"
    "get_local_tag (set_remote_tag symbol r v) name = get_local_tag v name"
    by (auto simp: defs view_simps split: option.split)
  ultimately show ?thesis by blast
qed

section \<open>The invariant\<close>

text \<open>
  A stored remote reference is present or tracked. The strict form of the invariant also asks for the
  local reference that an absent one is kept for.
\<close>

definition refs_tidy :: "bool \<Rightarrow> (ref_name, ref_target) btree \<Rightarrow> (ref_name, remote_ref) btree \<Rightarrow> bool" where
  "refs_tidy strict locals refs \<longleftrightarrow>
     (\<forall>name r. bt_get refs name = Some r \<longrightarrow>
        remote_ref_is_present r \<or> (is_tracked r \<and> (strict \<longrightarrow> bt_get locals name \<noteq> None)))"

definition view_tidy :: "bool \<Rightarrow> view \<Rightarrow> bool" where
  "view_tidy strict d \<longleftrightarrow>
     map_tidy (local_bookmarks d) \<and> map_tidy (local_tags d) \<and>
     map_tidy (git_refs d) \<and> map_tidy (git_heads d) \<and> map_tidy (wc_sparse_patterns d) \<and>
     (\<forall>remote rv. bt_get (remote_views d) remote = Some rv \<longrightarrow>
        refs_tidy strict (local_bookmarks d) (bookmarks rv) \<and> refs_tidy strict (local_tags d) (tags rv))"

lemma tidy_put [intro]: "map_tidy m \<Longrightarrow> is_present t \<Longrightarrow> map_tidy (bt_insert k t m)"
  by (auto simp: map_tidy_def)

lemma tidy_remove [intro]: "map_tidy m \<Longrightarrow> map_tidy (bt_remove k m)"
  by (auto simp: map_tidy_def split: if_splits)

lemma tidy_move [intro]: "map_tidy m \<Longrightarrow> map_tidy (move_key old new m)"
  by (auto simp: map_tidy_def move_key_def split: option.split if_splits)

lemma refs_tidy_insert [intro]:
  "refs_tidy strict locals refs \<Longrightarrow> remote_ref_is_present r \<or> (is_tracked r \<and> (strict \<longrightarrow> bt_get locals name \<noteq> None)) \<Longrightarrow>
   refs_tidy strict locals (bt_insert name r refs)"
  by (auto simp: refs_tidy_def)

lemma refs_tidy_remove [intro]: "refs_tidy strict locals refs \<Longrightarrow> refs_tidy strict locals (bt_remove name refs)"
  by (auto simp: refs_tidy_def split: if_splits)

lemma refs_tidy_grow [intro]: "refs_tidy strict locals refs \<Longrightarrow> refs_tidy strict (bt_insert name t locals) refs"
  by (auto simp: refs_tidy_def)

lemma refs_tidy_drop: "refs_tidy strict locals refs \<Longrightarrow> refs_tidy strict (bt_remove name locals) (drop_absent name refs)"
  by (auto simp: refs_tidy_def drop_absent_def remote_ref_is_absent_def remote_ref_is_present_def is_present_def
      split: option.splits if_splits)

lemma refs_tidy_empty [intro, simp]: "refs_tidy strict locals bt_empty"
  by (simp add: refs_tidy_def)

text \<open>The invariant depends on six fields; an operation that keeps them keeps it.\<close>

lemma tidy_cong:
  assumes "view_tidy strict (data v)" and "local_bookmarks (data v') = local_bookmarks (data v)"
    and "local_tags (data v') = local_tags (data v)" and "git_refs (data v') = git_refs (data v)"
    and "git_heads (data v') = git_heads (data v)" and "wc_sparse_patterns (data v') = wc_sparse_patterns (data v)"
    and "\<And>remote rv. bt_get (remote_views (data v')) remote = Some rv \<Longrightarrow>
      rv = remote_view_default \<or> (\<exists>remote'. bt_get (remote_views (data v)) remote' = Some rv)"
  shows "view_tidy strict (data v')"
  using assms unfolding view_tidy_def
  by (auto simp: remote_view_default_def) (metis refs_tidy_empty remote_view.select_convs)+

lemma relocate_view_reads:
  assumes "relocate old new d = Inr d'"
  shows "local_bookmarks d' = local_bookmarks d" "local_tags d' = local_tags d" "git_refs d' = git_refs d"
    "git_heads d' = git_heads d" "wc_sparse_patterns d' = wc_sparse_patterns d"
    "remote_connections d' = remote_connections d" "view_project_state d' = view_project_state d"
    "head_ids d' = head_ids d" "wc_commit_ids d' = wc_commit_ids d"
  using assms by (auto simp: relocate_Inr split: if_splits)

lemma rename_remote_Inr:
  "rename_remote old new v = Inr v' \<longleftrightarrow>
     (if old = new then v' = v
      else bt_get (remote_connections (data v)) new = None \<and>
        (\<exists>d. relocate old new (data v) = Inr d \<and>
          v' = v\<lparr>data := d\<lparr>remote_connections := move_key old new (remote_connections d)\<rparr>\<rparr>))"
proof (cases "old = new")
  case True
  then show ?thesis by (auto simp: rename_remote_def check_rename_remote_def check_relocation_def)
next
  case False
  then show ?thesis
    by (cases "contains (data v) new"; cases "bt_get (remote_connections (data v)) new")
      (auto simp: rename_remote_def check_rename_remote_def relocate_remote_observations_def relocate_def check_relocation_def)
qed

lemma normalize_reads:
  assumes "normalize_heads iter index_heads root v = Returns (r, v')"
  shows "\<exists>ids. data v' = (data v)\<lparr>head_ids := ids\<rparr>"
proof -
  have id: "\<exists>ids. data v = (data v)\<lparr>head_ids := ids\<rparr>" by (rule exI[of _ "head_ids (data v)"]) simp
  show ?thesis
  proof (cases "index_heads (iter (head_ids (data v) - {root}))")
    case Panics
    with assms id show ?thesis by (auto simp: normalize_heads_def Let_def split: if_splits)
  next
    case (Returns res)
    with assms id show ?thesis
      by (cases res) (auto simp: normalize_heads_def Let_def split: if_splits)
  qed
qed

lemma present_flatten: "is_present (flatten_target x) \<Longrightarrow> \<exists>y. x = Some y"
  by (cases x) auto

lemma set_remote_bookmark_tidy: "view_tidy strict (data v) \<Longrightarrow> view_tidy strict (data (set_remote_bookmark symbol r v))"
  by (auto simp: view_tidy_def set_remote_bookmark_def Let_def capture_remote_observation_identity_def view_simps
      get_local_bookmark_def entry_or_default_def remote_view_default_def
      split: option.splits if_splits intro!: refs_tidy_insert refs_tidy_remove dest: present_flatten)

lemma set_remote_tag_tidy: "view_tidy strict (data v) \<Longrightarrow> view_tidy strict (data (set_remote_tag symbol r v))"
  by (auto simp: view_tidy_def set_remote_tag_def Let_def capture_remote_observation_identity_def view_simps
      get_local_tag_def entry_or_default_def remote_view_default_def
      split: option.splits if_splits intro!: refs_tidy_insert refs_tidy_remove dest: present_flatten)

lemma set_local_tidy:
  assumes "view_tidy strict (data v)"
  shows "view_tidy strict (data (set_local_bookmark_target name t v))" "view_tidy strict (data (set_local_tag_target name t v))"
  using assms by (auto simp: view_tidy_def set_local_bookmark_target_def set_local_tag_target_def refs_tidy_drop)

end
