(* ===== verification/Remote_Laws.thy ===== *)
theory Remote_Laws
  imports View_Laws
begin

text \<open>
  Remotes of a view: an identity is what the recorded ownership, names and bindings agree on; a
  local name resolves to at most one remote of a scope, a current one before a historical one; and
  a rename moves a remote with everything that is recorded for it.
\<close>

section \<open>Renaming a remote\<close>



lemma view_remote_identity_Inr:
  "view_remote_identity v remote = Inr x \<longleftrightarrow>
     resolve (data v) remote = Inr x \<and>
     (case x of None \<Rightarrow> True
      | Some identity \<Rightarrow>
          ri_source identity = Historical \<or>
          \<not> connection_shared (data v) remote (ri_connection identity) \<and>
          (\<exists>binding. binding_for_connection (view_project_state (data v)) (ri_connection identity) = Inr binding \<and>
             check_binding (view_project_state (data v)) remote identity binding = Inr ()))"
proof (cases "resolve (data v) remote")
  case (Inr found)
  show ?thesis
  proof (cases found)
    case (Some identity)
    with Inr show ?thesis
      by (cases "ri_source identity = Historical"; cases "connection_shared (data v) remote (ri_connection identity)")
        (auto simp: view_remote_identity_def res_bind_eq_Inr)
  qed (use Inr in \<open>auto simp: view_remote_identity_def\<close>)
qed (simp add: view_remote_identity_def)

lemma connection_shared_iff:
  "connection_shared d remote c \<longleftrightarrow>
     (\<exists>other owners. bt_get (remote_connections d) other = Some owners \<and> other \<noteq> remote \<and> Some c \<in> set (adds owners))"
  unfolding connection_shared_def list_ex_iff by (force simp: in_entries_iff[symmetric])







definition sample_connected :: repo_view where
  "sample_connected =
     view_new (sample_observed\<lparr>remote_connections := bt_insert ''a'' (normal (ConnectionId [7])) bt_empty\<rparr>) True"


section \<open>Identities\<close>

lemma resolve_Some:
  assumes "resolve d remote = Inr (Some i)"
  shows "\<exists>recs. records d remote = Some recs \<and> rec_source recs = ri_source i \<and>
    rec_owners recs = normal (ri_connection i) \<and>
    bt_get (rec_names recs) (ri_connection i) = map_option normal (ri_scoped_name i)"
proof -
  from assms obtain recs c where r: "records d remote = Some recs" "rec_owners recs = resolved (Some c)"
    "(case bt_get (rec_names recs) c of
        None \<Rightarrow> Inr None
      | Some names \<Rightarrow>
          res_bind (ok_or (ConnectionNameUnresolvedOrDeleted c (rec_source recs = Logical)) (as_normal names))
            (\<lambda>name. Inr (Some name))) = Inr (ri_scoped_name i)"
    "ri_source i = rec_source recs" "ri_connection i = c"
    unfolding resolve_def by (auto simp: res_bind_eq_Inr as_resolved_Some split: option.splits)
  then show ?thesis
    by (cases "ri_scoped_name i") (auto simp: normal_def as_normal_Some res_bind_eq_Inr split: option.splits)
qed

lemma records_source:
  "records d remote = Some recs \<Longrightarrow> rec_source recs = Logical \<Longrightarrow>
   bt_get (remote_connections d) remote = Some (rec_owners recs) \<and> rec_names recs = remote_names (view_project_state d)"
  "records d remote = Some recs \<Longrightarrow> rec_source recs = Historical \<Longrightarrow>
   bt_get (remote_connections d) remote = None \<and>
   bt_get (observed_remote_connections d) remote = Some (rec_owners recs) \<and> rec_names recs = observed_remote_names d"
  by (auto simp: records_def split: option.splits)

lemma bound_unique:
  assumes "binding_for_connection s c = Inr binding" and "connection_bound s c b r"
  shows "binding = Some (b, r)"
proof (cases binding)
  case None
  then show ?thesis using assms binding_for_connection_None[of s c]
    by (force simp: connection_bound_def binding_candidate_def)
next
  case (Some p)
  obtain b' r' where p: "p = (b', r')" by force
  with assms(1) Some have "connection_bound s c b' r'" by (simp add: binding_for_connection_Some)
  with assms(2) have "b' = b" by (force simp: connection_bound_def binding_candidate_def)
  with \<open>connection_bound s c b' r'\<close> assms(2) have "r' = r" by (auto simp: connection_bound_def)
  with Some p \<open>b' = b\<close> show ?thesis by simp
qed

text \<open>
  (C31) A current identity is never guessed. When a remote resolves to a logical identity, the
  recorded ownership of that key is settled on the connection, no other key has the connection on
  any positive side, and the scoped name is the settled name of the connection: its project is a
  settled project and the connection's active binding is to that project. Without a scoped name the
  connection has no recorded name and its active binding is not to a project. A historical identity
  is only given to a key that has no logical owner.
\<close>
theorem remote_identity_sound:
  assumes "view_remote_identity v remote = Inr (Some i)"
  shows "(ri_source i = Logical \<longrightarrow>
      bt_get (remote_connections (data v)) remote = Some (normal (ri_connection i)) \<and>
      (\<forall>other owners. bt_get (remote_connections (data v)) other = Some owners \<longrightarrow>
         Some (ri_connection i) \<in> set (adds owners) \<longrightarrow> other = remote) \<and>
      bt_get (remote_names (view_project_state (data v))) (ri_connection i) = map_option normal (ri_scoped_name i) \<and>
      (\<forall>n. ri_scoped_name i = Some n \<longrightarrow> (\<exists>q. project_settled (view_project_state (data v)) (sn_project n) q)) \<and>
      (\<forall>b r. connection_bound (view_project_state (data v)) (ri_connection i) b r \<longrightarrow>
         br_target r = (case ri_scoped_name i of Some n \<Rightarrow> Project (sn_project n) | None \<Rightarrow> RepositoryView))) \<and>
    (ri_source i = Historical \<longrightarrow>
      bt_get (remote_connections (data v)) remote = None \<and>
      bt_get (observed_remote_connections (data v)) remote = Some (normal (ri_connection i)) \<and>
      bt_get (observed_remote_names (data v)) (ri_connection i) = map_option normal (ri_scoped_name i))"
proof -
  let ?s = "view_project_state (data v)"
  note i = assms[unfolded view_remote_identity_Inr option.case]
  obtain recs where recs: "records (data v) remote = Some recs" "rec_source recs = ri_source i"
    "rec_owners recs = normal (ri_connection i)"
    "bt_get (rec_names recs) (ri_connection i) = map_option normal (ri_scoped_name i)"
    using resolve_Some i by blast
  show ?thesis
  proof (cases "ri_source i")
    case Logical
    then obtain binding where b: "\<not> connection_shared (data v) remote (ri_connection i)"
      "binding_for_connection ?s (ri_connection i) = Inr binding" "check_binding ?s remote i binding = Inr ()"
      using i by auto
    have "\<exists>q. project_settled ?s (sn_project n) q" if "ri_scoped_name i = Some n" for n
      using b(3) that validate_project_settled by (auto simp: check_binding_def split: if_splits)
    moreover have "br_target r = (case ri_scoped_name i of Some n \<Rightarrow> Project (sn_project n) | None \<Rightarrow> RepositoryView)"
      if "connection_bound ?s (ri_connection i) b r" for b r
      using b(3) bound_unique[OF b(2) that]
      by (auto simp: check_binding_def split: option.splits if_splits binding_target.splits)
    ultimately show ?thesis
      using recs records_source(1)[OF recs(1)] b(1) Logical by (auto simp: connection_shared_iff)
  next
    case Historical
    then show ?thesis using recs records_source(2)[OF recs(1)] by simp
  qed
qed

lemma sample_connected_identity:
  "view_remote_identity sample_connected ''a'' =
     Inr (Some \<lparr>ri_source = Logical, ri_connection = ConnectionId [7], ri_scoped_name = None\<rparr>)"
  by code_simp

theorem remote_identity_sound_witness:
  "bt_get (remote_connections (data sample_connected)) ''a'' = Some (normal (ConnectionId [7])) \<and>
   bt_get (remote_names (view_project_state (data sample_connected))) (ConnectionId [7]) = None"
  using remote_identity_sound[OF sample_connected_identity] by simp

section \<open>Resolving a local name\<close>

definition named_in_scope :: "repo_view \<Rightarrow> ProjectId option \<Rightarrow> remote_name \<Rightarrow> bool \<Rightarrow> remote_name \<Rightarrow> bool" where
  "named_in_scope v project name logical remote \<longleftrightarrow>
     bt_contains_key (remote_connections (data v)) remote = logical \<and>
     may_be_in_scope (data v) remote project \<and>
     (\<exists>identity. view_remote_identity v remote = Inr identity \<and>
        map_option sn_project (scoped_of identity) = project \<and>
        (local_name remote (scoped_of identity) = name \<or> (\<not> logical \<and> remote = name)))"

text \<open>What a scan that returns has established of the remotes it saw.\<close>

definition scan_found ::
  "repo_view \<Rightarrow> ProjectId option \<Rightarrow> remote_name \<Rightarrow> bool \<Rightarrow> remote_name list \<Rightarrow>
   remote_name option \<Rightarrow> remote_name option \<Rightarrow> bool" where
  "scan_found v project name logical rs found found' \<longleftrightarrow>
     set_option found \<union> {r \<in> set rs. named_in_scope v project name logical r} = set_option found'"

definition scan_valid :: "repo_view \<Rightarrow> ProjectId option \<Rightarrow> bool \<Rightarrow> remote_name list \<Rightarrow> bool" where
  "scan_valid v project logical rs \<longleftrightarrow>
     (\<forall>r \<in> set rs. bt_contains_key (remote_connections (data v)) r = logical \<longrightarrow>
        may_be_in_scope (data v) r project \<longrightarrow> (\<exists>i. view_remote_identity v r = Inr i))"

lemma select_Cons:
  "{r \<in> set (x # xs). P r} = (if P x then insert x {r \<in> set xs. P r} else {r \<in> set xs. P r})"
  by auto

lemma scan_found_skip:
  "scan_found v project name logical rs found found' \<Longrightarrow> \<not> named_in_scope v project name logical remote \<Longrightarrow>
   scan_found v project name logical (remote # rs) found found'"
  unfolding scan_found_def select_Cons by simp

lemma scan_found_hit:
  assumes "scan_found v project name logical rs (Some remote) found'" and "named_in_scope v project name logical remote"
    and "found = None \<or> found = Some remote"
  shows "scan_found v project name logical (remote # rs) found found'"
  using assms(1,3) unfolding scan_found_def select_Cons if_P[OF assms(2)] by (elim disjE) (simp_all, blast)

lemma scan_valid_Cons:
  "scan_valid v project logical rs \<Longrightarrow>
   bt_contains_key (remote_connections (data v)) remote \<noteq> logical \<or> \<not> may_be_in_scope (data v) remote project \<or>
     view_remote_identity v remote = Inr i \<Longrightarrow>
   scan_valid v project logical (remote # rs)"
  by (auto simp: scan_valid_def)

lemma scan_remotes_Inr:
  assumes "scan_remotes v project name logical rs found invalid = Inr (found', invalid')"
  shows "scan_found v project name logical rs found found' \<and>
    (invalid' = None \<longrightarrow> invalid = None \<and> scan_valid v project logical rs)"
  using assms
proof (induction v project name logical rs found invalid rule: scan_remotes.induct)
  case (1 v project name logical found invalid)
  then show ?case by (simp add: scan_found_def scan_valid_def)
next
  case (2 v project name logical remote rest found invalid)
  show ?case
  proof (cases "bt_contains_key (remote_connections (data v)) remote \<noteq> logical \<or> \<not> may_be_in_scope (data v) remote project")
    case True
    then have n: "\<not> named_in_scope v project name logical remote" by (auto simp: named_in_scope_def)
    have rec: "scan_remotes v project name logical rest found invalid = Inr (found', invalid')"
      using 2(5) True by (simp del: bt_contains_key_iff)
    show ?thesis using 2(1)[OF True rec] scan_found_skip[OF _ n] scan_valid_Cons True by blast
  next
    case False
    show ?thesis
    proof (cases "view_remote_identity v remote")
      case (Inl e)
      then have n: "\<not> named_in_scope v project name logical remote" by (auto simp: named_in_scope_def)
      from 2(5) False Inl have ne: "\<not> (logical \<and> (remote = name \<or> owner_has_name (data v) remote name))"
        and rec: "scan_remotes v project name logical rest found (case invalid of None \<Rightarrow> Some e | Some e \<Rightarrow> Some e) =
          Inr (found', invalid')"
        by (auto simp del: bt_contains_key_iff split: if_splits)
      have ninv: "(case invalid of None \<Rightarrow> Some e | Some e \<Rightarrow> Some e) \<noteq> None" by (simp split: option.split)
      show ?thesis using 2(2)[OF False Inl ne rec] ninv scan_found_skip[OF _ n] by blast
    next
      case (Inr identity)
      let ?hit = "map_option sn_project (scoped_of identity) = project \<and>
        (local_name remote (scoped_of identity) = name \<or> \<not> logical \<and> remote = name)"
      have hit: "named_in_scope v project name logical remote \<longleftrightarrow> ?hit"
        using False Inr by (auto simp: named_in_scope_def simp del: bt_contains_key_iff)
      note valid = scan_valid_Cons[OF _ disjI2[OF disjI2[OF Inr]]]
      show ?thesis
      proof (cases ?hit)
        case True
        from 2(5) False Inr True have nd: "\<not> (case found of None \<Rightarrow> False | Some previous \<Rightarrow> previous \<noteq> remote)"
          and rec: "scan_remotes v project name logical rest (Some remote) invalid = Inr (found', invalid')"
          by (auto simp: Let_def simp del: bt_contains_key_iff split: if_splits)
        have "found = None \<or> found = Some remote" using nd by (auto split: option.splits)
        then show ?thesis
          using 2(3)[OF False Inr refl True nd rec] scan_found_hit[OF _ hit[THEN iffD2, OF True]] valid by blast
      next
        case nohit: False
        from 2(5) False Inr nohit have rec: "scan_remotes v project name logical rest found invalid = Inr (found', invalid')"
          by (simp add: Let_def del: bt_contains_key_iff split: if_splits)
        have n: "\<not> named_in_scope v project name logical remote" using hit nohit by blast
        show ?thesis using 2(4)[OF False Inr refl nohit rec] scan_found_skip[OF _ n] valid by blast
      qed
    qed
  qed
qed

text \<open>
  (C7) A remote name resolves unambiguously. The answer is a listed or logically connected remote
  whose valid identity lies in the requested scope, and it is the only remote of its class that the
  name selects. A logical remote is selected by its name in the scope alone. A historical remote is also
  selected by its physical key, although the documentation of the method excludes physical handles
  (\<open>historical_key_resolves\<close>); it is only answered when the name selects no logical remote of the scope and
  every logical remote that may lie in the scope has a valid identity.
\<close>
theorem resolve_remote_name_exact:
  assumes "resolve_remote_name v remotes project name = Inr remote"
  shows "remote \<in> set remotes \<union> set (bt_keys (remote_connections (data v))) \<and>
    (\<exists>logical. named_in_scope v project name logical remote \<and>
      (\<forall>r \<in> set remotes \<union> set (bt_keys (remote_connections (data v))).
         named_in_scope v project name logical r \<longrightarrow> r = remote) \<and>
      (\<not> logical \<longrightarrow> (\<forall>r \<in> set (bt_keys (remote_connections (data v))).
         \<not> named_in_scope v project name True r \<and>
         (may_be_in_scope (data v) r project \<longrightarrow> (\<exists>i. view_remote_identity v r = Inr i)))))"
proof -
  let ?all = "remotes @ bt_keys (remote_connections (data v))"
  obtain found invalid where first: "scan_remotes v project name True ?all None None = Inr (found, invalid)"
    using assms by (auto simp: resolve_remote_name_def Let_def res_bind_eq_Inr)
  note s1 = scan_remotes_Inr[OF first, unfolded scan_found_def]
  show ?thesis
  proof (cases found)
    case (Some r)
    with assms first have "r = remote" by (simp add: resolve_remote_name_def Let_def)
    with s1 Some have eq: "{r \<in> set ?all. named_in_scope v project name True r} = {remote}" by simp
    then have "remote \<in> set ?all" and "named_in_scope v project name True remote" by blast+
    moreover have "r = remote" if "r \<in> set ?all" "named_in_scope v project name True r" for r using eq that by blast
    ultimately show ?thesis unfolding set_append by (intro conjI exI[of _ True]) blast+
  next
    case None
    with assms first obtain invalid' where inv: "invalid = None"
      and second: "scan_remotes v project name False ?all None None = Inr (Some remote, invalid')"
      by (auto simp: resolve_remote_name_def Let_def res_bind_eq_Inr split: option.splits)
    have eq: "{r \<in> set ?all. named_in_scope v project name False r} = {remote}"
      using scan_remotes_Inr[OF second] by (simp add: scan_found_def)
    then have "remote \<in> set ?all" and "named_in_scope v project name False remote" by blast+
    moreover have "r = remote" if "r \<in> set ?all" "named_in_scope v project name False r" for r using eq that by blast
    moreover have "may_be_in_scope (data v) r project \<longrightarrow> (\<exists>i. view_remote_identity v r = Inr i)"
      if "r \<in> set (bt_keys (remote_connections (data v)))" for r
      using s1 inv that by (auto simp: scan_valid_def)
    moreover have "\<not> named_in_scope v project name True r" if "r \<in> set (bt_keys (remote_connections (data v)))" for r
    proof -
      have "{r \<in> set ?all. named_in_scope v project name True r} = {}" using s1 None by simp
      moreover have "r \<in> set ?all" using that by simp
      ultimately show ?thesis by blast
    qed
    ultimately show ?thesis unfolding set_append by (intro conjI exI[of _ False]) blast+
  qed
qed

theorem resolve_remote_name_exact_witness:
  "resolve_remote_name sample_connected [] None ''a'' = Inr ''a'' \<and>
   (\<exists>logical. named_in_scope sample_connected None ''a'' logical ''a'')"
proof -
  have "resolve_remote_name sample_connected [] None ''a'' = Inr ''a''" by code_simp
  with resolve_remote_name_exact[OF this] show ?thesis by blast
qed

text \<open>A historical remote \<open>a\<close> that is called \<open>up\<close> in its project answers to both.\<close>

lemma historical_key_resolves:
  "resolve_remote_name (view_new sample_observed True) [''a''] (Some (ProjectId [1])) ''up'' = Inr ''a''"
  "resolve_remote_name (view_new sample_observed True) [''a''] (Some (ProjectId [1])) ''a'' = Inr ''a''"
  by code_simp+

end
