(* ===== verification/Restore_View.thy ===== *)
theory Restore_View
  imports Repo_View
begin

text \<open>
  Restoring an operation, \<open>jj/lib/src/view/restore.rs\<close>: the repository part of one view, the
  remote-tracking snapshot of another and the Git baseline of the current one are composed. The
  historical snapshot is moved to the current physical names by the identity of the connections.
\<close>

text \<open>
  The loop of \<open>immutable_binding\<close>: \<open>None\<close> is the early return of an ambiguous candidate, and the
  inner option is the candidate found so far.
\<close>

fun immutable_loop ::
  "ConnectionId \<Rightarrow> (BindingId \<times> binding_record option merge) list \<Rightarrow> (BindingId \<times> binding_record) option \<Rightarrow>
   (BindingId \<times> binding_record) option option" where
  "immutable_loop connection [] candidate = Some candidate"
| "immutable_loop connection ((bid, target) # rest) candidate =
     (let records = somes (merge_values target) in
      if \<not> list_ex (\<lambda>record. br_connection_id record = connection) records
      then immutable_loop connection rest candidate
      else case records of
             [] \<Rightarrow> None
           | record # others \<Rightarrow>
               if candidate \<noteq> None \<or> list_ex (\<lambda>other. other \<noteq> record) others then None
               else immutable_loop connection rest (Some (bid, record)))"

definition immutable_binding :: "project_state \<Rightarrow> ConnectionId \<Rightarrow> (BindingId \<times> binding_record) option option" where
  "immutable_binding state connection = immutable_loop connection (entries (bindings state)) None"

text \<open>The keys that a connection has in the repository source, \<open>None\<close> once there are several.\<close>

definition current_key_step ::
  "view \<Rightarrow> view \<Rightarrow> remote_name \<times> ConnectionId option merge \<Rightarrow> (ConnectionId, remote_name option) btree \<Rightarrow>
   (ConnectionId, remote_name option) btree" where
  "current_key_step repo_source remote_source entry keys =
     (let (remote, owners) = entry in
      case as_normal owners of
        None \<Rightarrow> keys
      | Some connection \<Rightarrow>
          (case immutable_binding (view_project_state repo_source) connection of
             None \<Rightarrow> keys
           | Some binding \<Rightarrow>
               if immutable_binding (view_project_state remote_source) connection = Some binding
               then bt_insert connection
                      (case bt_get keys connection of None \<Rightarrow> Some remote | Some _ \<Rightarrow> None) keys
               else keys))"

definition current_keys :: "view \<Rightarrow> view \<Rightarrow> (ConnectionId, remote_name option) btree" where
  "current_keys repo_source remote_source =
     fold (current_key_step repo_source remote_source) (entries (remote_connections repo_source)) bt_empty"

definition snapshot_remotes :: "view \<Rightarrow> remote_name list" where
  "snapshot_remotes remote_source =
     bt_set (bt_keys (remote_views remote_source) @
       map ok_remote (bt_keys (project_observations remote_source)) @
       bt_keys (observed_remote_connections remote_source))"

definition capture_missing :: "view \<Rightarrow> remote_name \<Rightarrow> view \<Rightarrow> view" where
  "capture_missing remote_source remote restored =
     (if bt_contains_key (observed_remote_connections restored) remote then restored
      else capture_identity_from remote remote_source restored)"

text \<open>\<open>historical_by_connection\<close>: the historical keys of each settled connection, in order.\<close>

definition historical_keys :: "view \<Rightarrow> ConnectionId \<Rightarrow> remote_name list" where
  "historical_keys restored connection =
     map fst (filter (\<lambda>(_, owners). as_normal owners = Some connection)
       (entries (observed_remote_connections restored)))"

definition kept_name_step ::
  "view \<Rightarrow> view \<Rightarrow> view \<Rightarrow> remote_name \<Rightarrow> (remote_name, remote_name) btree \<Rightarrow> (remote_name, remote_name) btree" where
  "kept_name_step repo_source current_view restored remote names =
     (if remote = REMOTE_NAME_FOR_LOCAL_GIT_REPO then bt_insert remote remote names
      else case bt_get (observed_remote_connections restored) remote of
             Some owner \<Rightarrow>
               if \<not> is_absent owner \<and> bt_get (remote_connections repo_source) remote = Some owner
               then bt_insert remote remote names else names
           | None \<Rightarrow>
               if \<not> bt_contains_key (remote_connections repo_source) remote \<and>
                  \<not> bt_contains_key (remote_connections current_view) remote
               then bt_insert remote remote names else names)"

text \<open>The historical key to move: the current name itself, or the only candidate.\<close>

definition moved_source :: "view \<Rightarrow> ConnectionId \<Rightarrow> remote_name \<Rightarrow> remote_name option" where
  "moved_source restored connection current =
     (let candidates = historical_keys restored connection in
      if current \<in> set candidates then Some current
      else case candidates of [only] \<Rightarrow> Some only | _ \<Rightarrow> None)"

definition moved_name_step ::
  "view \<Rightarrow> ConnectionId \<times> remote_name option \<Rightarrow> (remote_name, remote_name) btree \<Rightarrow> (remote_name, remote_name) btree" where
  "moved_name_step restored entry names =
     (case snd entry of
        None \<Rightarrow> names
      | Some current \<Rightarrow>
          (case moved_source restored (fst entry) current of
             None \<Rightarrow> names
           | Some source \<Rightarrow> bt_insert source current names))"

definition restored_names :: "view \<Rightarrow> view \<Rightarrow> view \<Rightarrow> view \<Rightarrow> (remote_name, remote_name) btree" where
  "restored_names repo_source remote_source current_view restored =
     fold (moved_name_step restored) (entries (current_keys repo_source remote_source))
       (fold (kept_name_step repo_source current_view restored) (snapshot_remotes remote_source) bt_empty)"

definition compose_view :: "view \<Rightarrow> view \<Rightarrow> view" where
  "compose_view repo_source current_view =
     \<lparr>head_ids = head_ids repo_source, local_bookmarks = local_bookmarks repo_source,
      local_tags = local_tags repo_source, remote_views = bt_empty, git_refs = git_refs current_view,
      git_heads = git_heads current_view, wc_commit_ids = wc_commit_ids repo_source,
      wc_sparse_patterns = wc_sparse_patterns repo_source, view_project_state = view_project_state repo_source,
      remote_connections = remote_connections repo_source, observed_remote_connections = bt_empty,
      observed_remote_names = bt_empty, project_observations = bt_empty\<rparr>"

text \<open>The restored view before the snapshot is moved: copied, with the missing identities captured.\<close>

definition snapshot_view :: "view \<Rightarrow> view \<Rightarrow> view \<Rightarrow> view" where
  "snapshot_view repo_source remote_source current_view =
     fold (capture_missing remote_source) (snapshot_remotes remote_source)
       (copy_from remote_source (compose_view repo_source current_view))"

definition restore_view :: "view \<Rightarrow> view \<Rightarrow> view \<Rightarrow> (message, view) result" where
  "restore_view repo_source remote_source current_view =
     (let restored = snapshot_view repo_source remote_source current_view in
      res_bind (remap (restored_names repo_source remote_source current_view restored) bt_empty restored) (\<lambda>restored.
      case find (\<lambda>(remote, observed).
               case bt_get (remote_connections repo_source) remote of
                 None \<Rightarrow> False | Some logical \<Rightarrow> logical \<noteq> observed)
             (entries (observed_remote_connections restored)) of
        Some (remote, _) \<Rightarrow> Inl (HistoricalRemoteCollides remote)
      | None \<Rightarrow> Inr restored))"

end
