(* ===== verification/Restore_Laws.thy ===== *)
theory Restore_Laws
  imports Restore_View View_Laws
begin

text \<open>
  What a restored view holds. The snapshot of the remote source is moved along the names of
  \<open>restored_names\<close>; \<open>kept\<close> lists the four reasons for which a historical key is mapped to a current
  one. From them follow that the moves do not collide and that no tracking state is given to a
  connection that did not own it.
\<close>

section \<open>The snapshot\<close>

definition captured_owner :: "view \<Rightarrow> remote_name \<Rightarrow> ConnectionId option merge option" where
  "captured_owner d remote =
     (case bt_get (observed_remote_connections d) remote of
        Some owner \<Rightarrow> Some owner | None \<Rightarrow> bt_get (remote_connections d) remote)"

lemma copy_from_simps:
  "copy_from w (d\<lparr>observed_remote_connections := x\<rparr>) = copy_from w d"
  "copy_from w (copy_from source d) = copy_from w d"
  "remote_views (copy_from source d) = remote_views source"
  "project_observations (copy_from source d) = project_observations source"
  "observed_remote_connections (copy_from source d) = observed_remote_connections source"
  by (simp_all add: copy_from_def)

lemma fold_capture_name_frame:
  "project_observations (fold (capture_name s) cs d) = project_observations d"
  "copy_from w (fold (capture_name s) cs d) = copy_from w d"
  by (induction cs arbitrary: d) (simp_all add: capture_name_def copy_from_def split: option.split)

lemma capture_identity_from_reads:
  "remote_views (capture_identity_from r source d) = remote_views d"
  "project_observations (capture_identity_from r source d) = project_observations d"
  "copy_from w (capture_identity_from r source d) = copy_from w d"
  "bt_get (observed_remote_connections (capture_identity_from r source d)) r' =
     (if r' = r \<and> bt_get (remote_connections source) r \<noteq> None then bt_get (remote_connections source) r
      else bt_get (observed_remote_connections d) r')"
  by (simp_all add: capture_identity_from_def fold_capture_name_frame copy_from_simps split: option.split)

lemma capture_missing_reads:
  "remote_views (capture_missing source r d) = remote_views d"
  "project_observations (capture_missing source r d) = project_observations d"
  "copy_from w (capture_missing source r d) = copy_from w d"
  "bt_get (observed_remote_connections (capture_missing source r d)) r' =
     (case bt_get (observed_remote_connections d) r' of
        Some owner \<Rightarrow> Some owner
      | None \<Rightarrow> if r' = r then bt_get (remote_connections source) r else None)"
  by (auto simp: capture_missing_def capture_identity_from_reads split: option.split)

lemma fold_capture_missing_reads:
  "remote_views (fold (capture_missing source) rs d) = remote_views d"
  "project_observations (fold (capture_missing source) rs d) = project_observations d"
  "copy_from w (fold (capture_missing source) rs d) = copy_from w d"
  "bt_get (observed_remote_connections (fold (capture_missing source) rs d)) r =
     (case bt_get (observed_remote_connections d) r of
        Some owner \<Rightarrow> Some owner
      | None \<Rightarrow> if r \<in> set rs then bt_get (remote_connections source) r else None)"
  by (induction rs arbitrary: d) (auto simp: capture_missing_reads split: option.splits)

lemma snapshot_reads:
  "remote_views (snapshot_view repo source current) = remote_views source"
  "project_observations (snapshot_view repo source current) = project_observations source"
  "copy_from w (snapshot_view repo source current) = copy_from w (compose_view repo current)"
  "r \<in> set (snapshot_remotes source) \<Longrightarrow>
   bt_get (observed_remote_connections (snapshot_view repo source current)) r = captured_owner source r"
  "r \<notin> set (snapshot_remotes source) \<Longrightarrow>
   bt_get (observed_remote_connections (snapshot_view repo source current)) r = None"
  by (auto simp: snapshot_view_def fold_capture_missing_reads copy_from_simps captured_owner_def snapshot_remotes_def
      split: option.split)

section \<open>Why a key is kept\<close>

lemma current_keys_sound:
  assumes "bt_get (current_keys repo source) c = Some (Some remote)"
  shows "bt_get (remote_connections repo) remote = Some (normal c)"
proof -
  have "bt_get (fold (current_key_step repo source) xs keys) c = Some (Some remote) \<Longrightarrow>
      set xs \<subseteq> set (entries (remote_connections repo)) \<Longrightarrow>
      (bt_get keys c = Some (Some remote) \<Longrightarrow> bt_get (remote_connections repo) remote = Some (normal c)) \<Longrightarrow>
      bt_get (remote_connections repo) remote = Some (normal c)" for xs keys
  proof (induction xs arbitrary: keys)
    case (Cons x xs)
    obtain r owners where x: "x = (r, owners)" by force
    have "bt_get (remote_connections repo) r = Some owners" using Cons.prems(2) x by (simp add: in_entries_iff)
    then have "bt_get (current_key_step repo source x keys) c = Some (Some remote) \<Longrightarrow>
        bt_get (remote_connections repo) remote = Some (normal c)"
      using Cons.prems(3) x
      by (auto simp: current_key_step_def as_normal_Some normal_def split: option.splits if_splits)
    then show ?case using Cons.IH[of "current_key_step repo source x keys"] Cons.prems(1,2) by simp
  qed simp
  from this[of "entries (remote_connections repo)" bt_empty] assms show ?thesis by (simp add: current_keys_def)
qed

definition kept :: "view \<Rightarrow> view \<Rightarrow> view \<Rightarrow> view \<Rightarrow> remote_name \<Rightarrow> remote_name \<Rightarrow> bool" where
  "kept repo source current restored src dst \<longleftrightarrow>
     (src = dst \<and> dst = REMOTE_NAME_FOR_LOCAL_GIT_REPO) \<or>
     (src = dst \<and> bt_get (observed_remote_connections restored) src \<noteq> None \<and>
        bt_get (remote_connections repo) src = bt_get (observed_remote_connections restored) src) \<or>
     (src = dst \<and> bt_get (observed_remote_connections restored) src = None \<and>
        bt_get (remote_connections repo) src = None) \<or>
     (\<exists>c. bt_get (remote_connections repo) dst = Some (normal c) \<and>
        bt_get (current_keys repo source) c = Some (Some dst) \<and> moved_source restored c dst = Some src)"

lemma fold_map_invariant:
  assumes "\<And>x m. x \<in> set xs \<Longrightarrow> P m \<Longrightarrow> P (f x m)" and "P m"
  shows "P (fold f xs m)"
  using assms by (induction xs arbitrary: m) auto

lemma restored_names_kept:
  assumes "bt_get (restored_names repo source current restored) src = Some dst"
  shows "kept repo source current restored src dst"
proof -
  let ?P = "\<lambda>m. \<forall>src dst. bt_get m src = Some dst \<longrightarrow> kept repo source current restored src dst"
  have "?P (fold (kept_name_step repo current restored) (snapshot_remotes source) bt_empty)"
    by (rule fold_map_invariant) (auto simp: kept_name_step_def kept_def split: option.splits if_splits)
  then have "?P (restored_names repo source current restored)"
    unfolding restored_names_def
  proof (rule fold_map_invariant[rotated])
    fix x m assume x: "x \<in> set (entries (current_keys repo source))" and m: "?P m"
    obtain c r where cr: "x = (c, r)" by force
    with x have "bt_get (current_keys repo source) c = Some r" by (simp add: in_entries_iff)
    with m cr show "?P (moved_name_step restored x m)"
      using current_keys_sound[of repo source c]
      by (auto simp: moved_name_step_def kept_def split: option.splits if_splits)
  qed
  with assms show ?thesis by blast
qed

lemma historical_keys_iff:
  "r \<in> set (historical_keys restored c) \<longleftrightarrow> bt_get (observed_remote_connections restored) r = Some (normal c)"
  by (force simp: historical_keys_def in_entries_iff as_normal_Some normal_def)

lemma moved_source_owner:
  "moved_source restored c dst = Some src \<Longrightarrow> bt_get (observed_remote_connections restored) src = Some (normal c)"
  unfolding historical_keys_iff[symmetric]
  by (auto simp: moved_source_def Let_def split: if_splits list.splits)

lemma moved_source_same:
  "bt_get (observed_remote_connections restored) dst = Some (normal c) \<Longrightarrow> moved_source restored c dst = Some dst"
  unfolding historical_keys_iff[symmetric] by (simp add: moved_source_def)

lemma kept_owner:
  assumes "kept repo source current restored src dst" and "dst \<noteq> REMOTE_NAME_FOR_LOCAL_GIT_REPO"
  shows "bt_get (remote_connections repo) dst = bt_get (observed_remote_connections restored) src"
  using assms moved_source_owner unfolding kept_def by metis

lemma normal_inject: "normal c = normal e \<longleftrightarrow> c = e"
  by (simp add: normal_def resolved_inject)

lemma kept_inj:
  assumes "kept repo source current restored a dst" and "kept repo source current restored b dst"
    and "bt_get (remote_connections repo) REMOTE_NAME_FOR_LOCAL_GIT_REPO = None"
  shows "a = b"
proof -
  have self: "moved_source restored c dst = Some dst"
    if "bt_get (remote_connections repo) dst = Some (normal c)" "kept repo source current restored dst dst" for c
    using that kept_owner[OF that(2)] assms(3)
    by (intro moved_source_same) (cases "dst = REMOTE_NAME_FOR_LOCAL_GIT_REPO"; simp)
  have other: "x = dst \<or> (\<exists>c. bt_get (remote_connections repo) dst = Some (normal c) \<and> moved_source restored c dst = Some x)"
    if "kept repo source current restored x dst" for x
    using that unfolding kept_def by blast
  from other[OF assms(1)] other[OF assms(2)] self assms(1,2) show ?thesis
    by (auto simp: normal_inject)
qed

lemma distinct_valuesI:
  assumes "\<And>a b x. bt_get m a = Some x \<Longrightarrow> bt_get m b = Some x \<Longrightarrow> a = b"
  shows "distinct (bt_values m)"
proof -
  have "inj_on snd (set (entries m))"
  proof (rule inj_onI)
    fix p q assume "p \<in> set (entries m)" "q \<in> set (entries m)" "snd p = snd q"
    then show "p = q" using assms[of "fst p" "snd p" "fst q"] by (metis in_entries_iff prod.collapse)
  qed
  moreover have "distinct (entries m)" using distinct_entries[of m] by (simp add: distinct_map)
  ultimately show ?thesis by (simp add: bt_values_def distinct_map)
qed

lemma mapped_ref_empty [simp]: "mapped_ref bt_empty = (\<lambda>name. name)"
  by (simp add: mapped_ref_def fun_eq_iff)

lemma remap_names_only:
  assumes "distinct (bt_values names)"
  shows "\<exists>v'. remap names bt_empty v = Inr v'"
proof -
  have "distinct (List.map_filter (mapped_key names bt_empty) (bt_keys (project_observations v)))"
  proof (rule distinct_map_filter[OF bt_keys_distinct])
    fix x y z assume "mapped_key names bt_empty x = Some z" "mapped_key names bt_empty y = Some z"
    then show "x = y"
      using values_distinct_inj[OF assms, of "ok_remote x" "ok_remote z" "ok_remote y"]
      by (cases x; cases y) (auto simp: mapped_key_def split: if_splits)
  qed
  then have "remap_check v names bt_empty = None"
    unfolding remap_check_None using assms by (simp add: bt_keys_distinct)
  then show ?thesis by (simp add: remap_def Let_def)
qed

lemma restore_Inr:
  "restore_view repo source current = Inr v' \<longleftrightarrow>
     remap (restored_names repo source current (snapshot_view repo source current)) bt_empty
       (snapshot_view repo source current) = Inr v' \<and>
     (\<forall>remote observed logical. bt_get (observed_remote_connections v') remote = Some observed \<longrightarrow>
        bt_get (remote_connections repo) remote = Some logical \<longrightarrow> logical = observed)"
proof -
  have "find (\<lambda>(remote, observed). case bt_get (remote_connections repo) remote of
          None \<Rightarrow> False | Some logical \<Rightarrow> logical \<noteq> observed) (entries (observed_remote_connections v)) = None \<longleftrightarrow>
      (\<forall>remote observed logical. bt_get (observed_remote_connections v) remote = Some observed \<longrightarrow>
        bt_get (remote_connections repo) remote = Some logical \<longrightarrow> logical = observed)" for v
    unfolding find_None_iff by (fastforce simp: in_entries_iff split: option.splits)
  note collision = this
  have step: "(case hit of Some (remote, x) \<Rightarrow> Inl (HistoricalRemoteCollides remote) | None \<Rightarrow> Inr v) = Inr v' \<longleftrightarrow>
      v = v' \<and> hit = None" for hit :: "(remote_name \<times> ConnectionId option merge) option" and v
    by (auto split: option.split)
  show ?thesis
    unfolding restore_view_def Let_def res_bind_eq_Inr step collision by blast
qed

lemma restored_observed:
  assumes "remap names bt_empty v = Inr v'" and "bt_get (observed_remote_connections v') dst = Some owner"
  shows "\<exists>src. bt_get names src = Some dst \<and> bt_get (observed_remote_connections v) src = Some owner"
  using assms(2) rekey_get[OF remotes_distinct[of names "observed_remote_connections v"], of "\<lambda>x. x" dst owner]
    remap_fields(1,3)[OF assms(1)]
  by (auto simp: remap_check_None)

section \<open>Properties\<close>

text \<open>
  (C33) Restoring an operation always succeeds as long as the reserved name of the local Git
  repository is not itself a logical connection: the moved historical names never collide, and no
  moved observation contradicts the restored membership.
\<close>
theorem restore_view_succeeds:
  assumes "bt_get (remote_connections repo) REMOTE_NAME_FOR_LOCAL_GIT_REPO = None"
  shows "\<exists>v'. restore_view repo source current = Inr v'"
proof -
  let ?s = "snapshot_view repo source current"
  let ?n = "restored_names repo source current ?s"
  have "distinct (bt_values ?n)"
    using kept_inj[OF restored_names_kept restored_names_kept assms] by (intro distinct_valuesI)
  then obtain v' where v': "remap ?n bt_empty ?s = Inr v'" using remap_names_only by blast
  have "logical = observed"
    if o: "bt_get (observed_remote_connections v') remote = Some observed"
      and l: "bt_get (remote_connections repo) remote = Some logical" for remote observed logical
  proof -
    obtain src where src: "bt_get ?n src = Some remote" "bt_get (observed_remote_connections ?s) src = Some observed"
      using restored_observed[OF v' o] by blast
    moreover have "remote \<noteq> REMOTE_NAME_FOR_LOCAL_GIT_REPO" using l assms by auto
    ultimately show ?thesis using kept_owner[OF restored_names_kept[OF src(1)]] l by simp
  qed
  with v' show ?thesis by (auto simp: restore_Inr)
qed

lemma restore_fields:
  assumes "restore_view repo source current = Inr v'"
  shows "head_ids v' = head_ids repo" "local_bookmarks v' = local_bookmarks repo" "local_tags v' = local_tags repo"
    "wc_commit_ids v' = wc_commit_ids repo" "wc_sparse_patterns v' = wc_sparse_patterns repo"
    "view_project_state v' = view_project_state repo" "remote_connections v' = remote_connections repo"
    "git_refs v' = git_refs current" "git_heads v' = git_heads current"
proof -
  let ?s = "snapshot_view repo source current" and ?c = "compose_view repo current"
  have "copy_from ?c v' = copy_from ?c ?s"
    using remap_fields(5)[OF conjunct1[OF assms[unfolded restore_Inr]]]
    by (cases v'; cases ?s; cases ?c) (simp add: copy_from_def)
  also have "\<dots> = ?c" by (simp add: snapshot_reads(3)) (simp add: copy_from_def)
  finally have eq: "copy_from ?c v' = ?c" .
  show "head_ids v' = head_ids repo" "local_bookmarks v' = local_bookmarks repo" "local_tags v' = local_tags repo"
    "wc_commit_ids v' = wc_commit_ids repo" "wc_sparse_patterns v' = wc_sparse_patterns repo"
    "view_project_state v' = view_project_state repo" "remote_connections v' = remote_connections repo"
    "git_refs v' = git_refs current" "git_heads v' = git_heads current"
    using arg_cong[OF eq, of head_ids] arg_cong[OF eq, of local_bookmarks] arg_cong[OF eq, of local_tags]
      arg_cong[OF eq, of wc_commit_ids] arg_cong[OF eq, of wc_sparse_patterns] arg_cong[OF eq, of view_project_state]
      arg_cong[OF eq, of remote_connections] arg_cong[OF eq, of git_refs] arg_cong[OF eq, of git_heads]
    by (simp_all add: copy_from_def compose_view_def)
qed

lemma restored_ref:
  assumes "restore_view repo source current = Inr v'" "refs \<in> {bookmarks, tags}" "ref_at refs v' remote name = Some r"
  shows "\<exists>src. ref_at refs source src name = Some r \<and>
    (remote \<noteq> REMOTE_NAME_FOR_LOCAL_GIT_REPO \<longrightarrow> bt_get (remote_connections repo) remote = captured_owner source src)"
proof -
  let ?s = "snapshot_view repo source current"
  obtain src where src: "bt_get (restored_names repo source current ?s) src = Some remote" "ref_at refs ?s src name = Some r"
    using remap_ref_at_both[OF conjunct1[OF assms(1)[unfolded restore_Inr]] assms(2), of remote name r] assms(3) by auto
  then have here: "ref_at refs source src name = Some r" by (simp add: ref_at_def snapshot_reads(1))
  then have "src \<in> set (snapshot_remotes source)"
    by (auto simp: ref_at_def snapshot_remotes_def bind_eq_Some_conv)
  then show ?thesis
    using kept_owner[OF restored_names_kept[OF src(1)]] here snapshot_reads(4)[of src source repo current] by auto
qed

text \<open>
  (C1) A restored view has the heads, the local bookmarks and tags, the working-copy commits and
  patterns, the project state and the logical connections of the repository source, and the Git
  references and Git heads of the current view, whatever the tracking source holds. No observed owner
  contradicts the logical owner of the same key. Every remote bookmark and tag comes from the tracking
  source. For a remote other than \<open>git\<close>, the mirror of the local Git repository, it comes from a key
  that had there the very owner that the restored connections give to the remote, or no owner where
  they give none: tracking state is never inherited through a reused name.
\<close>
theorem restore_view_identity:
  assumes "restore_view repo source current = Inr v'" and "refs \<in> {bookmarks, tags}"
  shows "head_ids v' = head_ids repo \<and> local_bookmarks v' = local_bookmarks repo \<and> local_tags v' = local_tags repo \<and>
    wc_commit_ids v' = wc_commit_ids repo \<and> wc_sparse_patterns v' = wc_sparse_patterns repo \<and>
    view_project_state v' = view_project_state repo \<and> remote_connections v' = remote_connections repo \<and>
    git_refs v' = git_refs current \<and> git_heads v' = git_heads current \<and>
    (bt_get (observed_remote_connections v') remote = Some observed \<longrightarrow>
       bt_get (remote_connections repo) remote = Some logical \<longrightarrow> logical = observed) \<and>
    (ref_at refs v' remote name = Some r \<longrightarrow>
       (\<exists>src. ref_at refs source src name = Some r \<and>
          (remote \<noteq> REMOTE_NAME_FOR_LOCAL_GIT_REPO \<longrightarrow>
             bt_get (remote_connections repo) remote = captured_owner source src)))"
  using restore_fields[OF assms(1)] restored_ref[OF assms, of remote name r] assms(1)[unfolded restore_Inr] by blast

text \<open>A connection \<open>7\<close> that the source knew as \<open>a\<close> and the repository now calls \<open>b\<close>.\<close>

definition sample_renamed :: view where
  "sample_renamed =
     (make_root (CommitId [0]))\<lparr>remote_connections := bt_insert ''b'' (normal (ConnectionId [7])) bt_empty\<rparr>"

theorem restore_view_succeeds_witness:
  "\<exists>v'. restore_view sample_renamed sample_observed sample_renamed = Inr v'"
  by (rule restore_view_succeeds) code_simp

theorem restore_view_identity_witness:
  "\<exists>v' src. restore_view sample_renamed sample_observed sample_renamed = Inr v' \<and>
     ref_at bookmarks v' ''b'' ''main'' = ref_at bookmarks sample_observed src ''main'' \<and>
     captured_owner sample_observed src = Some (normal (ConnectionId [7]))"
proof -
  have "(case restore_view sample_renamed sample_observed sample_renamed of
           Inl _ \<Rightarrow> False | Inr v' \<Rightarrow> ref_at bookmarks v' ''b'' ''main'' \<noteq> None)"
    by code_simp
  then obtain v' r where v': "restore_view sample_renamed sample_observed sample_renamed = Inr v'"
    "ref_at bookmarks v' ''b'' ''main'' = Some r"
    by (auto split: sum.splits)
  have rc: "bt_get (remote_connections sample_renamed) ''b'' = Some (normal (ConnectionId [7]))"
    "''b'' \<noteq> REMOTE_NAME_FOR_LOCAL_GIT_REPO"
    by code_simp+
  from restore_view_identity[OF v'(1), of bookmarks "''b''" absent absent "''main''" r] v' rc
  obtain src where "ref_at bookmarks sample_observed src ''main'' = Some r"
    "captured_owner sample_observed src = Some (normal (ConnectionId [7]))" by (auto simp: eq_commute)
  with v' show ?thesis by (intro exI[of _ v'] exI[of _ src]) simp
qed

end
