(* ===== verification/View_Reachable.thy ===== *)
theory View_Reachable
  imports Restore_Laws
begin

text \<open>
  The views a repository goes through, as a step relation over the operations of \<open>View\<close>, and the
  invariant of all of them. A view can also be replaced as a whole by \<open>set_view\<close>: undo, redo, revert and
  operation restore install what \<open>restore_view\<close> composes of three views.
\<close>

text \<open>
  One rule per method that changes a view in place; a method that fails leaves no successor.
  \<open>project_state_mut\<close>, \<open>store_view_mut\<close> and the calls of \<open>set_view\<close> with an edited copy of the view itself
  are the rule \<open>step_store_view\<close>: their callers in \<open>jj/lib\<close>, \<open>jj/cli\<close> and the project commands write the
  heads, the project state, the connections and the observations only. The view that a project import
  builds out of another repository (\<open>project_import.rs\<close>) is not modelled.
\<close>

inductive view_step :: "repo_view \<Rightarrow> repo_view \<Rightarrow> bool" where
  step_set_sparse: "view_step v (set_wc_sparse_patterns name patterns v)"
| step_set_wc: "view_step v (set_wc_commit name commit v)"
| step_remove_workspace: "view_step v (remove_workspace name v)"
| step_rename_workspace: "rename_workspace old new v = Inr v' \<Longrightarrow> view_step v v'"
| step_add_head: "view_step v (add_head commit v)"
| step_remove_head: "view_step v (remove_head commit v)"
| step_replace_heads: "view_step v (replace_heads commit commits v)"
| step_normalize: "normalize_heads iter index_heads root v = Returns (r, v') \<Longrightarrow> view_step v v'"
| step_local_bookmark: "view_step v (set_local_bookmark_target name target v)"
| step_remote_bookmark: "view_step v (set_remote_bookmark symbol remote_ref v)"
| step_forget_bookmark: "view_step v (forget_remote_bookmark symbol v)"
| step_local_tag: "view_step v (set_local_tag_target name target v)"
| step_remote_tag: "view_step v (set_remote_tag symbol remote_ref v)"
| step_ensure_remote: "view_step v (ensure_remote remote v)"
| step_remove_remote: "view_step v (remove_remote remote v)"
| step_clear: "view_step v (clear_remote_observations remote v)"
| step_capture: "view_step v (capture_remote_observation_identity remote v)"
| step_relocate: "relocate_remote_observations old new v = Inr v' \<Longrightarrow> view_step v v'"
| step_rename_remote: "rename_remote old new v = Inr v' \<Longrightarrow> view_step v v'"
| step_git_ref: "view_step v (set_git_ref_target name target v)"
| step_git_head: "view_step v (set_git_head_target name target v)"
| step_store_view: "view_step v (set_view ((data v)\<lparr>head_ids := ids, view_project_state := state, remote_connections := logical,
    observed_remote_connections := owners, observed_remote_names := names, project_observations := observations\<rparr>) normalized v)"

text \<open>
  The views reached from a root view; \<open>restoring\<close> tells whether restored views may be installed. Views of
  former operations are read back as they were written.
\<close>

inductive view_reachable :: "bool \<Rightarrow> repo_view \<Rightarrow> bool" for restoring :: bool where
  reachable_root: "view_reachable restoring (view_new (make_root commit) normalized)"
| reachable_step: "view_reachable restoring v \<Longrightarrow> view_step v v' \<Longrightarrow> view_reachable restoring v'"
| reachable_restored: "restoring \<Longrightarrow> view_reachable restoring repo \<Longrightarrow> view_reachable restoring source \<Longrightarrow>
    view_reachable restoring current \<Longrightarrow> view_reachable restoring v \<Longrightarrow>
    restore_view (data repo) (data source) (data current) = Inr d \<Longrightarrow> view_reachable restoring (set_view d normalized v)"

lemma view_step_tidy:
  assumes "view_step v v'" and "view_tidy strict (data v)"
  shows "view_tidy strict (data v')"
  using assms
proof induction
  case (step_normalize iter index_heads root v r v')
  then show ?case using normalize_reads[of iter index_heads root v r v'] by (auto simp: view_tidy_def)
next
  case (step_relocate old new v v')
  then obtain d where d: "relocate old new (data v) = Inr d" "v' = v\<lparr>data := d\<rparr>"
    by (auto simp: relocate_remote_observations_def res_bind_eq_Inr)
  then show ?case using relocate_view_reads[OF d(1)] relocate_reads(1)[OF d(1)]
    by (intro tidy_cong[OF step_relocate(2)]) auto
next
  case (step_rename_remote old new v v')
  then consider "v' = v" | d where "relocate old new (data v) = Inr d"
      "v' = v\<lparr>data := d\<lparr>remote_connections := move_key old new (remote_connections d)\<rparr>\<rparr>"
    unfolding rename_remote_Inr by (metis (no_types))
  then show ?case
  proof cases
    case (2 d)
    then show ?thesis using relocate_view_reads[OF 2(1)] relocate_reads(1)[OF 2(1)]
      by (intro tidy_cong[OF step_rename_remote(2)]) auto
  qed (use step_rename_remote in simp)
next
  case (step_forget_bookmark v symbol)
  then show ?case
    by (auto simp: view_tidy_def forget_remote_bookmark_def Let_def split: option.splits if_splits)
next
  case (step_rename_workspace old new v v')
  then show ?case by (auto simp: view_tidy_def rename_workspace_def res_bind_eq_Inr split: if_splits)
next
  case (step_set_sparse v name patterns)
  then show ?case by (auto simp: view_tidy_def set_wc_sparse_patterns_def is_present_def)
next
  case (step_ensure_remote v remote)
  then show ?case by (intro tidy_cong[OF step_ensure_remote]) (auto simp: ensure_remote_def split: if_splits)
next
  case (step_remove_remote v remote)
  then show ?case
    by (intro tidy_cong[OF step_remove_remote]) (auto simp: remove_remote_def view_simps split: if_splits)
next
  case (step_clear v remote)
  then show ?case
    by (intro tidy_cong[OF step_clear]) (auto simp: clear_remote_observations_def view_simps split: if_splits)
next
  case (step_remote_bookmark v symbol r)
  then show ?case by (rule set_remote_bookmark_tidy)
next
  case (step_remote_tag v symbol r)
  then show ?case by (rule set_remote_tag_tidy)
next
  case (step_local_bookmark v name t)
  then show ?case by (rule set_local_tidy)
next
  case (step_local_tag v name t)
  then show ?case by (rule set_local_tidy)
qed (auto simp: view_tidy_def set_wc_commit_def set_view_def
    remove_workspace_def add_head_def remove_head_def replace_heads_def capture_remote_observation_identity_def
    view_simps set_git_ref_target_def set_git_head_target_def)

lemma root_tidy: "view_tidy strict (data (view_new (make_root commit) normalized))"
  by (simp add: view_tidy_def view_new_def make_root_def map_tidy_def)

lemma refs_tidy_ref_at:
  "view_tidy False d \<Longrightarrow> refs \<in> {bookmarks, tags} \<Longrightarrow> ref_at refs d remote name = Some r \<Longrightarrow>
   remote_ref_is_present r \<or> is_tracked r"
  unfolding view_tidy_def refs_tidy_def ref_at_def by (fastforce simp: bind_eq_Some_conv)

lemma restored_tidy:
  assumes "restore_view repo source current = Inr d" "view_tidy False repo" "view_tidy False source" "view_tidy False current"
  shows "view_tidy False d"
proof -
  have "remote_ref_is_present r \<or> is_tracked r"
    if "bt_get (remote_views d) remote = Some rv" "bt_get (refs rv) name = Some r" "refs \<in> {bookmarks, tags}" for refs remote rv name r
  proof -
    have "ref_at refs d remote name = Some r" using that(1,2) by (simp add: ref_at_def)
    from restored_ref[OF assms(1) that(3) this] obtain src where "ref_at refs source src name = Some r" by blast
    then show ?thesis by (rule refs_tidy_ref_at[OF assms(3) that(3)])
  qed
  then have "refs_tidy False locals (refs rv)" if "bt_get (remote_views d) remote = Some rv" "refs \<in> {bookmarks, tags}" for locals refs remote rv
    unfolding refs_tidy_def using that by blast
  then show ?thesis using assms(2,4) unfolding view_tidy_def restore_fields[OF assms(1)] by blast
qed

section \<open>Properties\<close>

text \<open>
  (C8) Every view that is reached from a root view by the methods of \<open>View\<close>, by direct edits of the heads,
  the project state, the connections and the observations, and by installing restored views stores no
  absent local bookmark, tag, Git reference, Git head or sparse pattern, and every remote bookmark or tag
  it stores is present or tracked. Without restored views, an absent one that is tracked also has its local
  reference: deleting a local reference also deletes the absent remote references that only it kept. A
  restored view, which joins the local references of one view with the remote ones of another, need not
  have it (\<open>restored_view_untidy\<close>).
\<close>
theorem reachable_tidy:
  assumes "view_reachable restoring v"
  shows "view_tidy (\<not> restoring) (data v)"
  using assms
proof induction
  case (reachable_restored repo source current v d normalized)
  then show ?case using restored_tidy[of "data repo" "data source" "data current" d] by (simp add: set_view_def)
qed (auto intro: root_tidy view_step_tidy)

definition main_at_origin :: remote_ref_symbol where
  "main_at_origin = \<lparr>sym_name = ''main'', sym_remote = ''origin''\<rparr>"

text \<open>A local bookmark that tracks a remote one which does not exist yet.\<close>

definition sample_view :: repo_view where
  "sample_view =
     set_remote_bookmark main_at_origin \<lparr>rr_target = absent, rr_state = Tracked\<rparr>
       (set_local_bookmark_target ''main'' (normal (CommitId [1])) (view_new (make_root (CommitId [0])) True))"

lemma sample_reachable: "view_reachable restoring sample_view"
  unfolding sample_view_def
  by (rule reachable_step[OF reachable_step[OF reachable_root step_local_bookmark] step_remote_bookmark])

lemma sample_restored:
  obtains d where "restore_view (make_root (CommitId [0])) (data sample_view) (make_root (CommitId [0])) = Inr d"
    "bt_get (local_bookmarks d) ''main'' = None"
    "ref_at bookmarks d ''origin'' ''main'' = Some \<lparr>rr_target = absent, rr_state = Tracked\<rparr>"
proof -
  have "case restore_view (make_root (CommitId [0])) (data sample_view) (make_root (CommitId [0])) of
      Inl _ \<Rightarrow> False
    | Inr d \<Rightarrow> bt_get (local_bookmarks d) ''main'' = None \<and>
        ref_at bookmarks d ''origin'' ''main'' = Some \<lparr>rr_target = absent, rr_state = Tracked\<rparr>"
    by code_simp
  then show thesis using that by (auto split: sum.splits)
qed

lemma sample_restored_reachable:
  assumes "restore_view (make_root (CommitId [0])) (data sample_view) (make_root (CommitId [0])) = Inr d"
  shows "view_reachable True (set_view d False sample_view)"
proof -
  let ?root = "view_new (make_root (CommitId [0])) True"
  have "restore_view (data ?root) (data sample_view) (data ?root) = Inr d" using assms by (simp add: view_new_def)
  then show ?thesis by (intro reachable_restored[OF _ reachable_root sample_reachable reachable_root sample_reachable]) simp_all
qed

theorem reachable_tidy_witness:
  "view_tidy True (data sample_view) \<and>
   (\<exists>d. restore_view (make_root (CommitId [0])) (data sample_view) (make_root (CommitId [0])) = Inr d \<and> view_tidy False d)"
proof -
  have "view_tidy True (data sample_view)" using reachable_tidy[OF sample_reachable[of False]] by simp
  moreover obtain d where "restore_view (make_root (CommitId [0])) (data sample_view) (make_root (CommitId [0])) = Inr d"
    by (rule sample_restored)
  ultimately show ?thesis using reachable_tidy[OF sample_restored_reachable, of d] by (simp add: set_view_def)
qed

lemma restored_view_untidy: "\<exists>v. view_reachable True v \<and> \<not> view_tidy True (data v)"
proof -
  obtain d where d: "restore_view (make_root (CommitId [0])) (data sample_view) (make_root (CommitId [0])) = Inr d"
    "bt_get (local_bookmarks d) ''main'' = None"
    "ref_at bookmarks d ''origin'' ''main'' = Some \<lparr>rr_target = absent, rr_state = Tracked\<rparr>"
    by (rule sample_restored)
  have "\<not> view_tidy True d" using d(2,3)
    unfolding view_tidy_def refs_tidy_def ref_at_def by (fastforce simp: bind_eq_Some_conv remote_ref_is_present_def)
  then show ?thesis using sample_restored_reachable[OF d(1)] by (intro exI[of _ "set_view d False sample_view"]) (simp add: set_view_def)
qed

end
