(* ===== verification/Dag_Walk.thy ===== *)
theory Dag_Walk
  imports Merge_Expr
begin

text \<open>
  Walks over directed graphs, \<open>jj/core/src/dag_walk.rs\<close>. Nodes are compared by an identifier; the
  neighbours of a node may fail. The loops end only on a finite graph, so each of them is a partial
  function whose result \<open>None\<close> stands for a walk without end. An iterator is the list of what it
  yields when it is drained; a vector used as a stack has its last element first. The iteration
  order of a \<open>HashSet\<close> is the parameter \<open>iter\<close>.
\<close>

section \<open>Depth-first search\<close>

partial_function (option) dfs_loop ::
  "('t \<Rightarrow> 'i) \<Rightarrow> ('t \<Rightarrow> ('e, 't) result list) \<Rightarrow> ('e, 't) result list \<Rightarrow> 'i set \<Rightarrow> ('e, 't) result list option" where
  "dfs_loop id_fn neighbors_fn work visited =
     (case work of
        [] \<Rightarrow> Some []
      | Inl e # rest \<Rightarrow>
          Option.bind (dfs_loop id_fn neighbors_fn rest visited) (\<lambda>nodes. Some (Inl e # nodes))
      | Inr c # rest \<Rightarrow>
          if id_fn c \<in> visited then dfs_loop id_fn neighbors_fn rest visited
          else Option.bind (dfs_loop id_fn neighbors_fn (rev (neighbors_fn c) @ rest) (insert (id_fn c) visited))
                 (\<lambda>nodes. Some (Inr c # nodes)))"

definition dfs_ok ::
  "('e, 't) result list \<Rightarrow> ('t \<Rightarrow> 'i) \<Rightarrow> ('t \<Rightarrow> ('e, 't) result list) \<Rightarrow> ('e, 't) result list option" where
  "dfs_ok start id_fn neighbors_fn = dfs_loop id_fn neighbors_fn (rev start) {}"

definition to_ok_iter :: "'t list \<Rightarrow> ('e, 't) result list" where
  "to_ok_iter xs = map Inr xs"

text \<open>\<open>map(|Ok(node)| node)\<close> over an error type without values.\<close>

definition ok_nodes :: "(unit, 't) result list \<Rightarrow> 't list" where
  "ok_nodes rs = List.map_filter res_ok rs"

definition dfs :: "'t list \<Rightarrow> ('t \<Rightarrow> 'i) \<Rightarrow> ('t \<Rightarrow> 't list) \<Rightarrow> 't list option" where
  "dfs start id_fn neighbors_fn =
     map_option ok_nodes (dfs_ok (to_ok_iter start) id_fn (\<lambda>node. to_ok_iter (neighbors_fn node)))"

section \<open>Topological order\<close>

partial_function (option) topo_loop ::
  "('t \<Rightarrow> 'i) \<Rightarrow> ('t \<Rightarrow> ('e, 't) result list) \<Rightarrow> ('t \<Rightarrow> 'e) \<Rightarrow> ('t \<times> bool) list \<Rightarrow> 'i set \<Rightarrow> 'i set \<Rightarrow> 't list \<Rightarrow>
   ('e, 't list) result option" where
  "topo_loop id_fn neighbors_fn cycle_fn stack visiting emitted res =
     (case stack of
        [] \<Rightarrow> Some (Inr res)
      | (node, neighbors_visited) # rest \<Rightarrow>
          if id_fn node \<in> emitted then topo_loop id_fn neighbors_fn cycle_fn rest visiting emitted res
          else if \<not> neighbors_visited then
            if id_fn node \<in> visiting then Some (Inl (cycle_fn node))
            else (case list_try_map (\<lambda>r. r) (neighbors_fn node) of
                    Inl e \<Rightarrow> Some (Inl e)
                  | Inr neighbors \<Rightarrow>
                      topo_loop id_fn neighbors_fn cycle_fn
                        (map (\<lambda>n. (n, False)) (rev neighbors) @ (node, True) # rest)
                        (insert (id_fn node) visiting) emitted res)
          else
            topo_loop id_fn neighbors_fn cycle_fn rest (visiting - {id_fn node}) (insert (id_fn node) emitted)
              (res @ [node]))"

definition topo_order_forward_ok ::
  "('e, 't) result list \<Rightarrow> ('t \<Rightarrow> 'i) \<Rightarrow> ('t \<Rightarrow> ('e, 't) result list) \<Rightarrow> ('t \<Rightarrow> 'e) \<Rightarrow>
   ('e, 't list) result option" where
  "topo_order_forward_ok start id_fn neighbors_fn cycle_fn =
     (case list_try_map (\<lambda>r. r) start of
        Inl e \<Rightarrow> Some (Inl e)
      | Inr nodes \<Rightarrow> topo_loop id_fn neighbors_fn cycle_fn (map (\<lambda>n. (n, False)) (rev nodes)) {} {} [])"

definition topo_order_forward ::
  "'t list \<Rightarrow> ('t \<Rightarrow> 'i) \<Rightarrow> ('t \<Rightarrow> 't list) \<Rightarrow> ('t \<Rightarrow> 'e) \<Rightarrow> ('e, 't list) result option" where
  "topo_order_forward start id_fn neighbors_fn cycle_fn =
     topo_order_forward_ok (to_ok_iter start) id_fn (\<lambda>node. to_ok_iter (neighbors_fn node)) cycle_fn"

definition topo_order_reverse_ok ::
  "('e, 't) result list \<Rightarrow> ('t \<Rightarrow> 'i) \<Rightarrow> ('t \<Rightarrow> ('e, 't) result list) \<Rightarrow> ('t \<Rightarrow> 'e) \<Rightarrow>
   ('e, 't list) result option" where
  "topo_order_reverse_ok start id_fn neighbors_fn cycle_fn =
     map_option (\<lambda>r. res_bind r (\<lambda>nodes. Inr (rev nodes)))
       (topo_order_forward_ok start id_fn neighbors_fn cycle_fn)"

definition topo_order_reverse ::
  "'t list \<Rightarrow> ('t \<Rightarrow> 'i) \<Rightarrow> ('t \<Rightarrow> 't list) \<Rightarrow> ('t \<Rightarrow> 'e) \<Rightarrow> ('e, 't list) result option" where
  "topo_order_reverse start id_fn neighbors_fn cycle_fn =
     topo_order_reverse_ok (to_ok_iter start) id_fn (\<lambda>node. to_ok_iter (neighbors_fn node)) cycle_fn"

section \<open>Heads\<close>

text \<open>\<open>frontier.retain(|node| visited.insert(id_fn(node)))\<close>: the first occurrence of each new identifier.\<close>

fun retain_new :: "('t \<Rightarrow> 'i) \<Rightarrow> 't list \<Rightarrow> 'i set \<Rightarrow> 't list \<times> 'i set" where
  "retain_new id_fn [] visited = ([], visited)"
| "retain_new id_fn (node # nodes) visited =
     (if id_fn node \<in> visited then retain_new id_fn nodes visited
      else let (kept, visited') = retain_new id_fn nodes (insert (id_fn node) visited) in (node # kept, visited'))"

partial_function (option) heads_loop ::
  "('t \<Rightarrow> 'i) \<Rightarrow> ('t \<Rightarrow> ('e, 't) result list) \<Rightarrow> 't set \<Rightarrow> 't list \<Rightarrow> 'i set \<Rightarrow> bool \<Rightarrow> ('e, 't set) result option" where
  "heads_loop id_fn neighbors_fn heads frontier visited root_reached =
     (if length frontier > 1 \<or> (frontier \<noteq> [] \<and> root_reached)
      then case list_try_map (\<lambda>r. r) (concat (map neighbors_fn frontier)) of
             Inl e \<Rightarrow> Some (Inl e)
           | Inr next \<Rightarrow>
               let (kept, visited') = retain_new id_fn next visited
               in heads_loop id_fn neighbors_fn (heads - set next) kept visited'
                    (root_reached \<or> list_ex (\<lambda>node. neighbors_fn node = []) frontier)
      else Some (Inr heads))"

definition heads_ok ::
  "('t set \<Rightarrow> 't list) \<Rightarrow> ('e, 't) result list \<Rightarrow> ('t \<Rightarrow> 'i) \<Rightarrow> ('t \<Rightarrow> ('e, 't) result list) \<Rightarrow>
   ('e, 't set) result option" where
  "heads_ok iter start id_fn neighbors_fn =
     (case list_try_map (\<lambda>r. r) start of
        Inl e \<Rightarrow> Some (Inl e)
      | Inr nodes \<Rightarrow>
          heads_loop id_fn neighbors_fn (set nodes) (iter (set nodes)) (id_fn ` set nodes) False)"

definition dag_heads :: "('t set \<Rightarrow> 't list) \<Rightarrow> 't list \<Rightarrow> ('t \<Rightarrow> 'i) \<Rightarrow> ('t \<Rightarrow> 't list) \<Rightarrow> 't set option" where
  "dag_heads iter start id_fn neighbors_fn =
     Option.bind (heads_ok iter (to_ok_iter start) id_fn (\<lambda>node. to_ok_iter (neighbors_fn node)))
       (\<lambda>r. res_ok (r :: (unit, _) result))"

end
