(* ===== verification/Dag_Walk_Laws.thy ===== *)
theory Dag_Walk_Laws
  imports Dag_Walk
begin

text \<open>
  Walks over a graph with finitely many reachable nodes end, and what they return: the depth-first
  search visits every reachable node once; the topological order lists every reachable node after
  its neighbours, or reports a node that lies on a cycle; the heads are the start nodes that no
  other start node reaches.
\<close>

section \<open>Graphs\<close>

definition edges :: "('t \<Rightarrow> 't list) \<Rightarrow> ('t \<times> 't) set" where
  "edges succ = {(a, b). b \<in> set (succ a)}"

definition reachable :: "('t \<Rightarrow> 't list) \<Rightarrow> 't set \<Rightarrow> 't set" where
  "reachable succ S = (edges succ)\<^sup>* `` S"

lemma reachable_start: "S \<subseteq> reachable succ S"
  by (auto simp: reachable_def)

lemma reachable_succ: "a \<in> reachable succ S \<Longrightarrow> b \<in> set (succ a) \<Longrightarrow> b \<in> reachable succ S"
  by (auto simp: reachable_def edges_def intro: rtrancl_into_rtrancl)

lemma reachable_closed:
  assumes "S \<subseteq> A" and "\<And>a b. a \<in> A \<Longrightarrow> b \<in> set (succ a) \<Longrightarrow> b \<in> A"
  shows "reachable succ S \<subseteq> A"
proof
  fix x assume "x \<in> reachable succ S"
  then obtain s where "s \<in> S" "(s, x) \<in> (edges succ)\<^sup>*" by (auto simp: reachable_def)
  from this(2,1) show "x \<in> A"
    by (induction rule: rtrancl_induct) (use assms in \<open>auto simp: edges_def\<close>)
qed

lemma list_try_map_ok [simp]: "list_try_map (\<lambda>r. r) (map Inr xs) = Inr xs"
  by (induction xs) auto

section \<open>Depth-first search\<close>

lemma dfs_loop_exact:
  fixes succ :: "'t \<Rightarrow> 't list"
  assumes "inj id_fn" and "finite (reachable succ S)" and "set work \<subseteq> reachable succ S" and "V \<subseteq> reachable succ S"
    and "\<forall>a \<in> V. set (succ a) \<subseteq> V \<union> set work"
  shows "\<exists>nodes. dfs_loop id_fn (\<lambda>n. map Inr (succ n)) (map Inr work) (id_fn ` V) = Some (map (Inr :: 't \<Rightarrow> ('e, 't) result) nodes) \<and>
    distinct nodes \<and> set nodes \<inter> V = {} \<and> set nodes \<subseteq> reachable succ S \<and> set work \<subseteq> V \<union> set nodes \<and>
    (\<forall>a \<in> V \<union> set nodes. set (succ a) \<subseteq> V \<union> set nodes)"
  using assms(3-5)
proof (induction "card (reachable succ S - V)" arbitrary: work V rule: less_induct)
  case less
  note IH = less(1)
  show ?case using less(2-4)
  proof (induction work)
    case Nil
    then show ?case by (subst dfs_loop.simps) (auto intro!: exI[of _ "[]"])
  next
    case (Cons c rest)
    show ?case
    proof (cases "c \<in> V")
      case True
      then have "\<forall>a \<in> V. set (succ a) \<subseteq> V \<union> set rest" using Cons.prems(3) by auto
      with Cons True show ?thesis by (subst dfs_loop.simps) auto
    next
      case False
      have c: "c \<in> reachable succ S" using Cons.prems by simp
      have smaller: "card (reachable succ S - insert c V) < card (reachable succ S - V)"
        using False c assms(2) by (intro psubset_card_mono) auto
      have pre: "set (rev (succ c) @ rest) \<subseteq> reachable succ S" "insert c V \<subseteq> reachable succ S"
        "\<forall>a \<in> insert c V. set (succ a) \<subseteq> insert c V \<union> set (rev (succ c) @ rest)"
        using Cons.prems c reachable_succ[OF c] by auto
      obtain nodes where n: "dfs_loop id_fn (\<lambda>n. map Inr (succ n)) (map Inr (rev (succ c) @ rest)) (id_fn ` insert c V) =
          Some (map (Inr :: 't \<Rightarrow> ('e, 't) result) nodes)" "distinct nodes" "set nodes \<inter> insert c V = {}" "set nodes \<subseteq> reachable succ S"
        "set (rev (succ c) @ rest) \<subseteq> insert c V \<union> set nodes"
        "\<forall>a \<in> insert c V \<union> set nodes. set (succ a) \<subseteq> insert c V \<union> set nodes"
        using IH[OF smaller pre] by blast
      have "id_fn c \<notin> id_fn ` V" using False assms(1) by (auto dest: injD)
      then have "dfs_loop id_fn (\<lambda>n. map Inr (succ n)) (map Inr (c # rest)) (id_fn ` V) = Some (map (Inr :: 't \<Rightarrow> ('e, 't) result) (c # nodes))"
        using n(1) by (subst dfs_loop.simps) (simp add: rev_map)
      with n c False show ?thesis by (intro exI[of _ "c # nodes"]) auto
    qed
  qed
qed

text \<open>
  (C27) The depth-first search over a graph with finitely many reachable nodes ends and yields every
  node that is reachable from the start nodes, each of them once.
\<close>
theorem dfs_exact:
  assumes "inj id_fn" and "finite (reachable succ (set start))"
  shows "\<exists>nodes. dfs start id_fn succ = Some nodes \<and> distinct nodes \<and> set nodes = reachable succ (set start)"
proof -
  obtain nodes where n: "dfs_loop id_fn (\<lambda>n. map Inr (succ n)) (map Inr (rev start)) (id_fn ` {}) = Some (map (Inr :: _ \<Rightarrow> (unit, _) result) nodes)"
    "distinct nodes" "set nodes \<subseteq> reachable succ (set start)" "set start \<subseteq> set nodes"
    "\<forall>a \<in> set nodes. set (succ a) \<subseteq> set nodes"
    using dfs_loop_exact[OF assms, of "rev start" "{}"] reachable_start[of "set start" succ] by auto
  have "ok_nodes (map Inr nodes) = nodes"
    by (simp add: ok_nodes_def List.map_filter_def comp_def)
  moreover have "reachable succ (set start) \<subseteq> set nodes"
    using n(4,5) by (intro reachable_closed) auto
  ultimately show ?thesis using n
    by (simp add: dfs_def dfs_ok_def to_ok_iter_def rev_map)
qed

definition sample_succ :: "nat \<Rightarrow> nat list" where
  "sample_succ n = (if n = 3 then [1, 2] else if n = 2 \<or> n = 1 then [0] else [])"

lemma sample_finite: "set xs \<subseteq> {0, 1, 2, 3} \<Longrightarrow> finite (reachable sample_succ (set xs))"
  by (rule finite_subset[OF reachable_closed[of _ "{0, 1, 2, 3}"]]) (auto simp: sample_succ_def split: if_splits)

theorem dfs_exact_witness:
  "\<exists>nodes. dfs [3] (\<lambda>n. n) sample_succ = Some nodes \<and> distinct nodes \<and> 0 \<in> set nodes"
proof -
  have "(3, 1) \<in> edges sample_succ" "(1, 0) \<in> edges sample_succ" by (simp_all add: edges_def sample_succ_def)
  then have "0 \<in> reachable sample_succ (set [3])" by (auto simp: reachable_def)
  with dfs_exact[of "\<lambda>n. n" sample_succ "[3]"] sample_finite[of "[3]"] show ?thesis by (auto simp: inj_def)
qed

section \<open>Topological order\<close>

definition topological :: "('t \<Rightarrow> 't list) \<Rightarrow> 't list \<Rightarrow> bool" where
  "topological succ res \<longleftrightarrow> (\<forall>xs y ys. res = xs @ y # ys \<longrightarrow> set (succ y) \<subseteq> set xs)"

lemma topological_snoc:
  "topological succ res \<Longrightarrow> set (succ n) \<subseteq> set res \<Longrightarrow> topological succ (res @ [n])"
  unfolding topological_def by (metis append_eq_append_conv2 append_is_Nil_conv butlast_append butlast_snoc list.distinct(1) last_snoc append_self_conv last_appendR list.inject butlast.simps(2))

text \<open>
  The stack: its markers are the nodes being visited. The neighbours of a marked node are emitted
  or lie above the marker, and each entry is a neighbour of the next marker below it.
\<close>

fun markers :: "('t \<times> bool) list \<Rightarrow> 't list" where
  "markers [] = []"
| "markers ((n, b) # rest) = (if b then n # markers rest else markers rest)"

fun stack_ok :: "('t \<Rightarrow> 't list) \<Rightarrow> 't set \<Rightarrow> 't set \<Rightarrow> ('t \<times> bool) list \<Rightarrow> bool" where
  "stack_ok succ R A [] = True"
| "stack_ok succ R A ((n, b) # rest) =
     ((b \<longrightarrow> set (succ n) \<subseteq> R \<union> A) \<and> stack_ok succ R (insert n A) rest)"

fun chain :: "('t \<Rightarrow> 't list) \<Rightarrow> ('t \<times> bool) list \<Rightarrow> bool" where
  "chain succ [] = True"
| "chain succ ((n, b) # rest) =
     ((case markers rest of [] \<Rightarrow> True | m # _ \<Rightarrow> n \<in> set (succ m)) \<and> chain succ rest)"

lemma stack_ok_mono:
  "stack_ok succ R A st \<Longrightarrow> R \<union> A \<subseteq> R' \<union> A' \<Longrightarrow> stack_ok succ R' A' st"
proof (induction st arbitrary: A A')
  case (Cons p st)
  obtain n b where p: "p = (n, b)" by force
  have "R \<union> insert n A \<subseteq> R' \<union> insert n A'" using Cons.prems(2) by auto
  with Cons p show ?case by auto
qed simp

lemma markers_append [simp]: "markers (xs @ ys) = markers xs @ markers ys"
  by (induction xs rule: markers.induct) auto

lemma markers_pushed [simp]: "markers (map (\<lambda>n. (n, False)) ns) = []"
  by (induction ns) auto

lemma stack_ok_pushed:
  "stack_ok succ R A (map (\<lambda>n. (n, False)) ns @ st) \<longleftrightarrow> stack_ok succ R (A \<union> set ns) st"
  by (induction ns arbitrary: A) auto

lemma chain_pushed:
  "chain succ (map (\<lambda>n. (n, False)) ns @ (m, True) # st) \<longleftrightarrow> set ns \<subseteq> set (succ m) \<and> chain succ ((m, True) # st)"
  by (induction ns) auto

lemma chain_reaches:
  assumes "chain succ ((n, b) # st)" and "m \<in> set (markers st)"
  shows "(m, n) \<in> (edges succ)\<^sup>+"
  using assms
proof (induction st arbitrary: n b)
  case (Cons p st)
  obtain k c where p: "p = (k, c)" by force
  show ?case
  proof (cases c)
    case True
    then have edge: "(k, n) \<in> (edges succ)\<^sup>+" using Cons.prems(1) p by (auto simp: edges_def)
    show ?thesis
    proof (cases "m = k")
      case False
      then have "(m, k) \<in> (edges succ)\<^sup>+" using Cons.IH[of k c] Cons.prems p True by simp
      with edge show ?thesis by simp
    qed (use edge in simp)
  next
    case False
    then show ?thesis using Cons.IH[of n b] Cons.prems p by auto
  qed
qed simp

definition topo_inv :: "('t \<Rightarrow> 't list) \<Rightarrow> 't set \<Rightarrow> ('t \<times> bool) list \<Rightarrow> 't list \<Rightarrow> bool" where
  "topo_inv succ S st res \<longleftrightarrow>
     distinct (markers st) \<and> distinct res \<and> set (markers st) \<inter> set res = {} \<and> topological succ res \<and>
     stack_ok succ (set res) {} st \<and> chain succ st \<and>
     fst ` set st \<subseteq> reachable succ S \<and> set res \<subseteq> reachable succ S \<and> S \<subseteq> set res \<union> fst ` set st"

lemma markers_fst: "set (markers st) \<subseteq> fst ` set st"
  by (induction st rule: markers.induct) auto

lemma topological_closed:
  assumes "topological succ res" and "a \<in> set res"
  shows "set (succ a) \<subseteq> set res"
  using assms by (metis UnI1 set_append split_list subsetI subsetD topological_def)

text \<open>What a run promises: an order of all reachable nodes, or a node on a cycle.\<close>

definition topo_outcome :: "('t \<Rightarrow> 't list) \<Rightarrow> 't set \<Rightarrow> ('t \<Rightarrow> 'e) \<Rightarrow> ('e, 't list) result option \<Rightarrow> bool" where
  "topo_outcome succ S cycle_fn out \<longleftrightarrow>
     (\<exists>res. out = Some (Inr res) \<and> distinct res \<and> set res = reachable succ S \<and> topological succ res) \<or>
     (\<exists>n. out = Some (Inl (cycle_fn n)) \<and> n \<in> reachable succ S \<and> (n, n) \<in> (edges succ)\<^sup>+)"

lemma topo_inv_skip:
  assumes "topo_inv succ S ((n, b) # rest) res" and "n \<in> set res"
  shows "\<not> b" and "topo_inv succ S rest res"
proof -
  show "\<not> b" using assms by (auto simp: topo_inv_def)
  then show "topo_inv succ S rest res"
    using assms stack_ok_mono[of succ "set res" "{n}" rest "set res" "{}"] by (auto simp: topo_inv_def)
qed

lemma topo_inv_pop:
  assumes "topo_inv succ S ((n, True) # rest) res"
  shows "topo_inv succ S rest (res @ [n])"
proof -
  have i: "n \<notin> set (markers rest)" "distinct (markers rest)" "distinct res" "n \<notin> set res"
    "set (markers rest) \<inter> set res = {}" "topological succ res" "set (succ n) \<subseteq> set res"
    "stack_ok succ (set res) {n} rest" "chain succ rest" "n \<in> reachable succ S" "fst ` set rest \<subseteq> reachable succ S"
    "set res \<subseteq> reachable succ S" "S \<subseteq> set res \<union> insert n (fst ` set rest)"
    using assms unfolding topo_inv_def by simp_all
  have "stack_ok succ (set (res @ [n])) {} rest" by (rule stack_ok_mono[OF i(8)]) simp
  moreover have "S \<subseteq> set (res @ [n]) \<union> fst ` set rest" using i(13) by simp
  ultimately show ?thesis
    unfolding topo_inv_def using i topological_snoc[OF i(6,7)] by simp
qed

lemma topo_inv_push:
  assumes "topo_inv succ S ((n, False) # rest) res" and "n \<notin> set res" and "n \<notin> set (markers rest)"
  shows "topo_inv succ S (map (\<lambda>n. (n, False)) (rev (succ n)) @ (n, True) # rest) res"
proof -
  have i: "distinct (markers rest)" "distinct res" "set (markers rest) \<inter> set res = {}" "topological succ res"
    "stack_ok succ (set res) {n} rest" "chain succ ((n, False) # rest)" "n \<in> reachable succ S"
    "fst ` set rest \<subseteq> reachable succ S" "set res \<subseteq> reachable succ S" "S \<subseteq> set res \<union> insert n (fst ` set rest)"
    using assms(1) unfolding topo_inv_def by simp_all
  have st: "stack_ok succ (set res) (insert n (set (succ n))) rest" by (rule stack_ok_mono[OF i(5)]) auto
  have ch: "chain succ ((n, True) # rest)" using i(6) by simp
  have "set (succ n) \<subseteq> reachable succ S" using reachable_succ[OF i(7)] by blast
  then have sub: "set (succ n) \<union> insert n (fst ` set rest) \<subseteq> reachable succ S"
    "S \<subseteq> set res \<union> (set (succ n) \<union> insert n (fst ` set rest))"
    using i(7,8,10) by blast+
  define st' where "st' = map (\<lambda>n. (n, False)) (rev (succ n)) @ (n, True) # rest"
  have nodes: "fst ` set st' = set (succ n) \<union> insert n (fst ` set rest)"
    by (simp add: st'_def image_Un image_image)
  have marks: "markers st' = n # markers rest" by (simp add: st'_def)
  have so: "stack_ok succ (set res) {} st'" unfolding st'_def stack_ok_pushed using st by simp
  have co: "chain succ st'" unfolding st'_def chain_pushed using ch by simp
  have "distinct (n # markers rest)" "set (n # markers rest) \<inter> set res = {}" using i(1,3) assms(2,3) by simp_all
  then show ?thesis
    unfolding topo_inv_def st'_def[symmetric] nodes marks using i(2,4,9) sub so co by blast
qed

lemma topo_inv_cycle:
  assumes "topo_inv succ S ((n, False) # rest) res" and "n \<in> set (markers rest)"
  shows "n \<in> reachable succ S \<and> (n, n) \<in> (edges succ)\<^sup>+"
  using assms chain_reaches[of succ n False rest n] by (auto simp: topo_inv_def)

lemma topo_inv_done:
  assumes "topo_inv succ S [] res"
  shows "set res = reachable succ S"
proof (rule subset_antisym)
  show "set res \<subseteq> reachable succ S" using assms by (simp add: topo_inv_def)
  have "topological succ res" "S \<subseteq> set res" using assms by (simp_all add: topo_inv_def)
  then show "reachable succ S \<subseteq> set res" using topological_closed[of succ res] by (intro reachable_closed) blast+
qed

abbreviation topo_run :: "('t \<Rightarrow> 'i) \<Rightarrow> ('t \<Rightarrow> 't list) \<Rightarrow> ('t \<Rightarrow> 'e) \<Rightarrow> ('t \<times> bool) list \<Rightarrow> 't list \<Rightarrow> ('e, 't list) result option" where
  "topo_run id_fn succ cycle_fn st res \<equiv>
     topo_loop id_fn (\<lambda>n. map Inr (succ n)) cycle_fn st (id_fn ` set (markers st)) (id_fn ` set res) res"

lemma topo_loop_exact:
  assumes inj: "inj id_fn" and fin: "finite (reachable succ S)" and "topo_inv succ S st res"
  shows "topo_outcome succ S cycle_fn (topo_run id_fn succ cycle_fn st res)"
  using assms(3)
proof (induction "card (reachable succ S - (set (markers st) \<union> set res))" arbitrary: st res rule: less_induct)
  case less
  let ?k = "card (reachable succ S - (set (markers st) \<union> set res))"
  have mem: "id_fn x \<in> id_fn ` A \<longleftrightarrow> x \<in> A" for x A using inj by (auto dest: injD)
  have "topo_outcome succ S cycle_fn (topo_run id_fn succ cycle_fn st' res')"
    if "topo_inv succ S st' res'" "card (reachable succ S - (set (markers st') \<union> set res')) \<le> ?k" for st' res'
    using that
  proof (induction st' arbitrary: res')
    case Nil
    then show ?case using topo_inv_done[OF Nil(1)]
      by (subst topo_loop.simps) (auto simp: topo_outcome_def topo_inv_def)
  next
    case (Cons p rest)
    obtain n b where p: "p = (n, b)" by force
    note inv = Cons.prems(1)[unfolded p]
    consider "n \<in> set res'" | "n \<notin> set res'" "b" | "n \<notin> set res'" "\<not> b" "n \<in> set (markers rest)"
      | "n \<notin> set res'" "\<not> b" "n \<notin> set (markers rest)" by blast
    then show ?case
    proof cases
      case 1
      with topo_inv_skip[OF inv 1] have "topo_outcome succ S cycle_fn (topo_run id_fn succ cycle_fn rest res')"
        using Cons.prems(2) p by (intro Cons.IH) auto
      with topo_inv_skip(1)[OF inv 1] 1 p mem show ?thesis by (subst topo_loop.simps) simp
    next
      case 2
      then have d: "n \<notin> set (markers rest)" using inv by (auto simp: topo_inv_def)
      have "topo_outcome succ S cycle_fn (topo_run id_fn succ cycle_fn rest (res' @ [n]))"
        using topo_inv_pop[of succ S n rest res'] inv 2 Cons.prems(2) p by (intro Cons.IH) (auto simp: Un_assoc)
      moreover have "insert (id_fn n) (id_fn ` set (markers rest)) - {id_fn n} = id_fn ` set (markers rest)"
        using d mem[of n "set (markers rest)"] by auto
      ultimately show ?thesis using 2 p mem by (subst topo_loop.simps) simp
    next
      case 3
      then show ?thesis using topo_inv_cycle[of succ S n rest res'] inv p mem
        by (subst topo_loop.simps) (auto simp: topo_outcome_def)
    next
      case 4
      let ?st = "map (\<lambda>n. (n, False)) (rev (succ n)) @ (n, True) # rest"
      have inv': "topo_inv succ S ?st res'" using topo_inv_push[of succ S n rest res'] inv 4 by simp
      have "n \<in> reachable succ S" using inv by (auto simp: topo_inv_def)
      then have "card (reachable succ S - (set (markers ?st) \<union> set res')) <
          card (reachable succ S - (set (markers rest) \<union> set res'))"
        using 4 fin by (intro psubset_card_mono) auto
      then have "topo_outcome succ S cycle_fn (topo_run id_fn succ cycle_fn ?st res')"
        using Cons.prems(2) p 4 inv' by (intro less(1)) auto
      then show ?thesis using 4 p mem by (subst topo_loop.simps) simp
    qed
  qed
  then show ?case using less(2) by blast
qed

lemma topo_start:
  "topo_inv succ (set start) (map (\<lambda>n. (n, False)) (rev start)) []"
proof -
  have "chain succ (map (\<lambda>n. (n, False)) ns)" for ns :: "'a list"
    by (induction ns) auto
  moreover have "stack_ok succ {} A (map (\<lambda>n. (n, False)) ns)" for ns :: "'a list" and A
    by (induction ns arbitrary: A) auto
  ultimately show ?thesis
    using reachable_start[of "set start" succ] by (auto simp: topo_inv_def topological_def image_image)
qed

lemma topological_acyclic:
  assumes "topological succ res" and "distinct res" and "n \<in> set res"
  shows "(n, n) \<notin> (edges succ)\<^sup>+"
proof -
  have before: "\<exists>xs zs ys. res = xs @ b # zs @ a # ys" if "(a, b) \<in> (edges succ)\<^sup>+" "a \<in> set res" for a b
    using that
  proof (induction rule: trancl_induct)
    case (base y)
    then obtain xs ys where x: "res = xs @ a # ys" by (meson split_list)
    with assms(1) base have "y \<in> set xs" by (auto simp: topological_def edges_def)
    with x show ?case by (metis append_Cons append_assoc split_list)
  next
    case (step y z)
    then obtain xs zs ys where x: "res = xs @ y # zs @ a # ys" by blast
    with assms(1) step have "z \<in> set xs" by (auto simp: topological_def edges_def)
    then obtain us vs where "xs = us @ z # vs" by (meson split_list)
    with x have "res = us @ z # (vs @ y # zs) @ a # ys" by simp
    then show ?case by blast
  qed
  show ?thesis
  proof
    assume "(n, n) \<in> (edges succ)\<^sup>+"
    from before[OF this assms(3)] assms(2) show False by auto
  qed
qed

text \<open>
  (C26) The topological sort of a graph with finitely many reachable nodes ends. If no reachable node
  lies on a cycle, it returns every reachable node once, each of them after all its neighbours;
  otherwise it calls the cycle handler with a node that lies on a cycle, and returns its error.
\<close>
theorem topo_order_forward_exact:
  assumes "inj id_fn" and "finite (reachable succ (set start))"
  shows "if \<exists>n \<in> reachable succ (set start). (n, n) \<in> (edges succ)\<^sup>+
    then \<exists>n \<in> reachable succ (set start). (n, n) \<in> (edges succ)\<^sup>+ \<and>
      topo_order_forward start id_fn succ cycle_fn = Some (Inl (cycle_fn n))
    else \<exists>res. topo_order_forward start id_fn succ cycle_fn = Some (Inr res) \<and> distinct res \<and>
      set res = reachable succ (set start) \<and> topological succ res"
proof -
  have "topo_outcome succ (set start) cycle_fn (topo_order_forward start id_fn succ cycle_fn)"
    using topo_loop_exact[OF assms topo_start, of cycle_fn]
    by (simp add: topo_order_forward_def topo_order_forward_ok_def to_ok_iter_def)
  then show ?thesis
    unfolding topo_outcome_def using topological_acyclic[of succ] by (auto split: if_splits)
qed

theorem topo_order_forward_exact_witness:
  "\<exists>n. (n, n) \<in> (edges (\<lambda>n :: nat. [n]))\<^sup>+ \<and>
     topo_order_forward [5] (\<lambda>n. n) (\<lambda>n. [n]) (\<lambda>n. n + 1) = Some (Inl (n + 1))"
proof -
  have "reachable (\<lambda>n :: nat. [n]) (set [5]) \<subseteq> {5}" by (rule reachable_closed) auto
  then have fin: "finite (reachable (\<lambda>n :: nat. [n]) (set [5]))" by (rule finite_subset) simp
  have "(5, 5) \<in> (edges (\<lambda>n :: nat. [n]))\<^sup>+" "5 \<in> reachable (\<lambda>n :: nat. [n]) (set [5])"
    by (auto simp: edges_def reachable_def)
  with topo_order_forward_exact[OF _ fin, of "\<lambda>n. n" "\<lambda>n. n + 1"] show ?thesis
    by (auto simp: inj_def split: if_splits)
qed

section \<open>Heads\<close>

lemma retain_new_exact:
  assumes "inj id_fn"
  shows "retain_new id_fn xs (id_fn ` V) = (kept, vis) \<Longrightarrow>
    set kept = set xs - V \<and> distinct kept \<and> vis = id_fn ` (V \<union> set xs)"
proof (induction xs arbitrary: V kept vis)
  case (Cons x xs)
  show ?case
  proof (cases "x \<in> V")
    case True
    then have "retain_new id_fn xs (id_fn ` V) = (kept, vis)" using Cons.prems by simp
    from Cons.IH[OF this] True show ?thesis by (auto simp: insert_absorb)
  next
    case False
    then have n: "id_fn x \<notin> id_fn ` V" using assms by (auto dest: injD)
    obtain kept' vis' where r: "retain_new id_fn xs (id_fn ` insert x V) = (kept', vis')" by force
    with Cons.prems n have "kept = x # kept'" "vis = vis'" by auto
    with Cons.IH[OF r] False show ?thesis by auto
  qed
qed simp

text \<open>The walk has expanded the visited nodes outside the frontier.\<close>

definition heads_inv ::
  "('t \<Rightarrow> 't list) \<Rightarrow> 't set \<Rightarrow> 't set \<Rightarrow> 't list \<Rightarrow> 't set \<Rightarrow> bool \<Rightarrow> bool" where
  "heads_inv succ S H F V root \<longleftrightarrow>
     S \<subseteq> V \<and> V \<subseteq> reachable succ S \<and> set F \<subseteq> V \<and>
     (\<forall>a \<in> V - set F. set (succ a) \<subseteq> V) \<and>
     H = S - (\<Union>a \<in> V - set F. set (succ a)) \<and>
     (\<not> root \<longrightarrow> (\<forall>a \<in> V - set F. succ a \<noteq> []))"

definition true_heads :: "('t \<Rightarrow> 't list) \<Rightarrow> 't set \<Rightarrow> 't set" where
  "true_heads succ S = {h \<in> S. \<forall>s \<in> S. (s, h) \<notin> (edges succ)\<^sup>+}"

lemma true_heads_iff: "h \<in> true_heads succ S \<longleftrightarrow> h \<in> S \<and> (\<forall>a \<in> reachable succ S. h \<notin> set (succ a))"
proof -
  have "(s, h) \<in> (edges succ)\<^sup>+ \<longleftrightarrow> (\<exists>a. (s, a) \<in> (edges succ)\<^sup>* \<and> h \<in> set (succ a))" for s
    unfolding trancl_unfold_right by (auto simp: edges_def)
  then show ?thesis by (auto simp: true_heads_def reachable_def)
qed

lemma heads_inv_step:
  assumes "heads_inv succ S H F V root" and "set kept = set (concat (map succ F)) - V"
  shows "heads_inv succ S (H - set (concat (map succ F))) kept (V \<union> set (concat (map succ F)))
    (root \<or> (\<exists>n \<in> set F. succ n = []))"
proof -
  have nxt: "set (concat (map succ F)) \<subseteq> reachable succ S"
  proof -
    have "set F \<subseteq> reachable succ S" using assms(1) unfolding heads_inv_def by blast
    then show ?thesis using reachable_succ[of _ succ S] by auto
  qed
  have expanded: "(V \<union> set (concat (map succ F))) - set kept = V" using assms(2) by blast
  have F: "set F \<subseteq> V" and H: "H = S - (\<Union>a \<in> V - set F. set (succ a))" using assms(1) by (auto simp: heads_inv_def)
  have "H - set (concat (map succ F)) = S - (\<Union>a \<in> V. set (succ a))"
    unfolding H using F by auto
  moreover have "\<forall>a \<in> V. set (succ a) \<subseteq> V \<union> set (concat (map succ F))"
    using assms(1) by (auto simp: heads_inv_def)
  moreover have "\<not> (root \<or> (\<exists>n \<in> set F. succ n = [])) \<longrightarrow> (\<forall>a \<in> V. succ a \<noteq> [])"
    using assms(1) by (auto simp: heads_inv_def)
  ultimately show ?thesis
    unfolding heads_inv_def expanded using assms nxt by (auto simp: heads_inv_def)
qed

lemma heads_inv_empty:
  assumes "heads_inv succ S H [] V root"
  shows "H = true_heads succ S"
proof -
  have "reachable succ S \<subseteq> V" using assms by (intro reachable_closed) (auto simp: heads_inv_def)
  with assms have V: "V = reachable succ S" and H: "H = S - (\<Union>a \<in> V. set (succ a))"
    by (auto simp: heads_inv_def)
  show ?thesis by (rule set_eqI) (simp add: H V true_heads_iff)
qed

lemma heads_inv_single:
  assumes inv: "heads_inv succ S H [n] V False" and fin: "finite (reachable succ S)"
    and acyclic: "\<forall>x \<in> reachable succ S. (x, x) \<notin> (edges succ)\<^sup>+"
  shows "H = true_heads succ S"
proof -
  let ?r = "edges succ \<inter> reachable succ S \<times> reachable succ S"
  have "?r\<^sup>+ \<subseteq> (edges succ)\<^sup>+" by (rule trancl_mono_subset) blast
  moreover have "x \<in> reachable succ S" if "(x, x) \<in> ?r\<^sup>+" for x using tranclD[OF that] by blast
  ultimately have "acyclic ?r" using acyclic unfolding acyclic_def by blast
  then have wf: "wf (?r\<inverse>)" using fin by (intro finite_acyclic_wf_converse) auto
  have V: "S \<subseteq> V" "V \<subseteq> reachable succ S" "n \<in> V" "\<And>a. a \<in> V \<Longrightarrow> a \<noteq> n \<Longrightarrow> set (succ a) \<subseteq> V \<and> succ a \<noteq> []"
    and H: "H = S - (\<Union>a \<in> V - {n}. set (succ a))"
    using inv by (auto simp: heads_inv_def)
  have down: "v \<in> V \<Longrightarrow> (v, n) \<in> (edges succ)\<^sup>*" for v
  proof (induction v rule: wf_induct_rule[OF wf])
    case (1 v)
    show ?case
    proof (cases "v = n")
      case False
      with V(4)[OF 1(2)] obtain u where u: "u \<in> set (succ v)" "u \<in> V" by (cases "succ v") auto
      then have "(v, u) \<in> ?r" using 1(2) V(2) by (auto simp: edges_def)
      with 1(1)[of u] u(2) show ?thesis by (auto intro: converse_rtrancl_into_rtrancl)
    qed simp
  qed
  have up: "x \<in> V - {n} \<or> (n, x) \<in> (edges succ)\<^sup>*" if "x \<in> reachable succ S" for x
  proof -
    let ?A = "(V - {n}) \<union> {y. (n, y) \<in> (edges succ)\<^sup>*}"
    have "reachable succ S \<subseteq> ?A"
      using V(1,4) by (intro reachable_closed) (auto simp: edges_def intro: rtrancl_into_rtrancl)
    with that show ?thesis by blast
  qed
  have "h \<notin> set (succ a)" if h: "h \<in> H" "a \<in> reachable succ S" for h a
  proof
    assume e: "h \<in> set (succ a)"
    with h(1) H have "a \<notin> V - {n}" by blast
    with up[OF h(2)] have "(n, h) \<in> (edges succ)\<^sup>+" using e by (auto simp: edges_def intro: rtrancl_into_trancl1)
    moreover have "(h, n) \<in> (edges succ)\<^sup>*" using down h(1) H V(1) by blast
    ultimately have "(h, h) \<in> (edges succ)\<^sup>+" by (rule rtrancl_trancl_trancl[rotated])
    moreover have "h \<in> reachable succ S" using h(1) H V(1,2) by blast
    ultimately show False using acyclic by blast
  qed
  moreover have "h \<in> H" if "h \<in> S" "\<forall>a \<in> reachable succ S. h \<notin> set (succ a)" for h
    using that H V(2) by blast
  moreover have "H \<subseteq> S" using H by blast
  ultimately show ?thesis by (intro set_eqI) (metis true_heads_iff subsetD)
qed

lemma heads_loop_exact:
  fixes succ :: "'t \<Rightarrow> 't list"
  assumes inj: "inj id_fn" and fin: "finite (reachable succ S)"
    and acyclic: "\<forall>x \<in> reachable succ S. (x, x) \<notin> (edges succ)\<^sup>+" and "heads_inv succ S H F V root"
  shows "heads_loop id_fn (\<lambda>n. map Inr (succ n)) H F (id_fn ` V) root = Some (Inr (true_heads succ S) :: ('e, _) result)"
  using assms(4)
proof (induction "card (reachable succ S - V)" arbitrary: H F V root rule: less_induct)
  case less
  have tried: "list_try_map (\<lambda>r. r) (concat (map (\<lambda>n. map Inr (succ n)) F)) = (Inr (concat (map succ F)) :: ('e, _) result)"
    using list_try_map_ok[of "concat (map succ F)"] by (simp add: map_concat comp_def)
  show ?case
  proof (cases "length F > 1 \<or> (F \<noteq> [] \<and> root)")
    case False
    then consider "F = []" | n where "F = [n]" "\<not> root"
      by (cases F; cases "tl F") auto
    then have "H = true_heads succ S"
      using heads_inv_empty[of succ S H V root] heads_inv_single[OF _ fin acyclic, of H _ V] less(2) by cases auto
    with False show ?thesis by (subst heads_loop.simps) auto
  next
    case True
    obtain kept vis where r: "retain_new id_fn (concat (map succ F)) (id_fn ` V) = (kept, vis)" by force
    note k = retain_new_exact[OF inj r]
    let ?V = "V \<union> set (concat (map succ F))"
    let ?root = "root \<or> (\<exists>n \<in> set F. succ n = [])"
    let ?H = "H - set (concat (map succ F))"
    have inv: "heads_inv succ S ?H kept ?V ?root" using heads_inv_step[OF less(2)] k by blast
    have "heads_loop id_fn (\<lambda>n. map Inr (succ n)) ?H kept (id_fn ` ?V) ?root = Some (Inr (true_heads succ S) :: ('e, _) result)"
    proof (cases "kept = []")
      case True
      with inv have "?H = true_heads succ S" using heads_inv_empty by blast
      with True show ?thesis by (subst heads_loop.simps) simp
    next
      case False
      then obtain x where "x \<in> set kept" by (cases kept) auto
      with k have x: "x \<in> ?V" "x \<notin> V" by auto
      moreover have "?V \<subseteq> reachable succ S" using inv by (simp add: heads_inv_def)
      ultimately have "card (reachable succ S - ?V) < card (reachable succ S - V)"
        using fin by (intro psubset_card_mono) blast+
      with inv show ?thesis by (rule less(1)[rotated])
    qed
    moreover have "list_ex (\<lambda>node. map Inr (succ node) = ([] :: ('e, _) result list)) F \<longleftrightarrow> (\<exists>n \<in> set F. succ n = [])"
      by (simp add: list_ex_iff)
    ultimately show ?thesis
      using True tried r k by (subst heads_loop.simps) (simp del: map_concat set_concat)
  qed
qed

text \<open>
  Over an acyclic graph with finitely many reachable nodes, the search for the heads ends and
  returns exactly the start nodes that no start node reaches, although it stops as soon as a single
  node is left in the frontier and no root has been seen: the early stop never keeps a node that a
  longer walk would have removed.
\<close>
theorem dag_heads_exact:
  assumes "inj id_fn" and "finite (reachable succ (set start))"
    and "\<forall>x \<in> reachable succ (set start). (x, x) \<notin> (edges succ)\<^sup>+" and "set (iter (set start)) = set start"
  shows "dag_heads iter start id_fn succ = Some {h \<in> set start. \<forall>s \<in> set start. (s, h) \<notin> (edges succ)\<^sup>+}"
proof -
  have "heads_inv succ (set start) (set start) (iter (set start)) (set start) False"
    using assms(4) reachable_start[of "set start" succ] by (auto simp: heads_inv_def)
  from heads_loop_exact[OF assms(1-3) this]
  have "heads_loop id_fn (\<lambda>n. map Inr (succ n)) (set start) (iter (set start)) (id_fn ` set start) False =
      Some (Inr (true_heads succ (set start)) :: (unit, _) result)" .
  then show ?thesis
    by (simp add: dag_heads_def heads_ok_def to_ok_iter_def true_heads_def)
qed

lemma sample_descends: "(a, b) \<in> (edges sample_succ)\<^sup>+ \<Longrightarrow> b < a"
  by (induction rule: trancl_induct) (auto simp: edges_def sample_succ_def split: if_splits)

theorem dag_heads_exact_witness: "\<exists>H. dag_heads sorted_list_of_set [1, 3] (\<lambda>n. n) sample_succ = Some H \<and> 1 \<notin> H"
proof -
  have "(3, 1) \<in> (edges sample_succ)\<^sup>+" by (auto simp: edges_def sample_succ_def)
  moreover have "inj (\<lambda>n :: nat. n)" by (simp add: inj_def)
  ultimately show ?thesis
    using dag_heads_exact[of "\<lambda>n. n" sample_succ "[1, 3]" sorted_list_of_set] sample_finite[of "[1, 3]"] sample_descends
    by fastforce
qed

end
