(* ===== verification/Hex_Util.thy ===== *)
theory Hex_Util
  imports Object_Ids "HOL-Library.Sublist"
begin

unbundle bit_operations_syntax

text \<open>
  Hexadecimal text of identifiers, \<open>jj/core/src/hex_util.rs\<close>, and identifier prefixes,
  \<open>jj/core/src/object_id.rs\<close>. Text is its bytes; the digits are ASCII, so the conversion of
  encoded bytes to a string cannot fail.
\<close>

section \<open>Encoding and decoding\<close>

definition FORWARD_HEX_CHARS :: bytes where
  "FORWARD_HEX_CHARS = [48, 49, 50, 51, 52, 53, 54, 55, 56, 57, 97, 98, 99, 100, 101, 102]"

definition REVERSE_HEX_CHARS :: bytes where
  "REVERSE_HEX_CHARS = [122, 121, 120, 119, 118, 117, 116, 115, 114, 113, 112, 111, 110, 109, 108, 107]"

definition forward_hex_value :: "8 word \<Rightarrow> 8 word option" where
  "forward_hex_value b =
     (if 48 \<le> b \<and> b \<le> 57 then Some (b - 48)
      else if 97 \<le> b \<and> b \<le> 102 then Some (b - 97 + 10)
      else if 65 \<le> b \<and> b \<le> 70 then Some (b - 65 + 10)
      else None)"

definition reverse_hex_value :: "8 word \<Rightarrow> 8 word option" where
  "reverse_hex_value b =
     (if 107 \<le> b \<and> b \<le> 122 then Some (122 - b)
      else if 75 \<le> b \<and> b \<le> 90 then Some (90 - b)
      else None)"

fun decode_chunks :: "(8 word \<Rightarrow> 8 word option) \<Rightarrow> bytes \<Rightarrow> bytes \<Rightarrow> (bytes \<times> bool) option" where
  "decode_chunks hex_value [] decoded = Some (decoded, False)"
| "decode_chunks hex_value [hi] decoded =
     Option.bind (hex_value hi) (\<lambda>h. Some (decoded @ [push_bit 4 h], True))"
| "decode_chunks hex_value (hi # lo # rest) decoded =
     Option.bind (hex_value hi) (\<lambda>h. Option.bind (hex_value lo) (\<lambda>l.
     decode_chunks hex_value rest (decoded @ [push_bit 4 h OR l])))"

definition decode_hex_prefix_inner :: "bytes \<Rightarrow> (8 word \<Rightarrow> 8 word option) \<Rightarrow> (bytes \<times> bool) option" where
  "decode_hex_prefix_inner hex hex_value = decode_chunks hex_value hex []"

definition decode_hex_inner :: "bytes \<Rightarrow> (8 word \<Rightarrow> 8 word option) \<Rightarrow> bytes option" where
  "decode_hex_inner hex hex_value =
     (if odd (length hex) then None else map_option fst (decode_hex_prefix_inner hex hex_value))"

definition decode_hex :: "bytes \<Rightarrow> bytes option" where
  "decode_hex hex = decode_hex_inner hex forward_hex_value"

definition decode_hex_prefix :: "bytes \<Rightarrow> (bytes \<times> bool) option" where
  "decode_hex_prefix hex = decode_hex_prefix_inner hex forward_hex_value"

definition decode_reverse_hex :: "bytes \<Rightarrow> bytes option" where
  "decode_reverse_hex reverse_hex = decode_hex_inner reverse_hex reverse_hex_value"

definition decode_reverse_hex_prefix :: "bytes \<Rightarrow> (bytes \<times> bool) option" where
  "decode_reverse_hex_prefix reverse_hex = decode_hex_prefix_inner reverse_hex reverse_hex_value"

definition encode_hex_inner :: "bytes \<Rightarrow> bytes \<Rightarrow> bytes" where
  "encode_hex_inner bs chars = concat (map (\<lambda>b. [chars ! unat (drop_bit 4 b), chars ! unat (b AND 15)]) bs)"

definition encode_hex :: "bytes \<Rightarrow> bytes" where
  "encode_hex bs = encode_hex_inner bs FORWARD_HEX_CHARS"

definition encode_reverse_hex :: "bytes \<Rightarrow> bytes" where
  "encode_reverse_hex bs = encode_hex_inner bs REVERSE_HEX_CHARS"

text \<open>The search of \<open>common_hex_len\<close> from position \<open>i\<close>.\<close>

fun common_from :: "nat \<Rightarrow> (8 word \<times> 8 word) list \<Rightarrow> nat option" where
  "common_from i [] = None"
| "common_from i ((a, b) # rest) =
     (let d = a XOR b in
      if d = 0 then common_from (i + 1) rest
      else if d AND 240 = 0 then Some (i * 2 + 1)
      else Some (i * 2))"

definition common_hex_len :: "bytes \<Rightarrow> bytes \<Rightarrow> nat" where
  "common_hex_len bytes_a bytes_b =
     (case common_from 0 (zip bytes_a bytes_b) of
        Some n \<Rightarrow> n
      | None \<Rightarrow> min (length bytes_a) (length bytes_b) * 2)"

section \<open>Prefixes\<close>

record hex_prefix =
  min_prefix_bytes :: bytes
  has_odd_byte :: bool

definition prefix_try_from_hex :: "bytes \<Rightarrow> hex_prefix option" where
  "prefix_try_from_hex hex =
     map_option (\<lambda>(bs, is_odd). \<lparr>min_prefix_bytes = bs, has_odd_byte = is_odd\<rparr>) (decode_hex_prefix hex)"

definition prefix_try_from_reverse_hex :: "bytes \<Rightarrow> hex_prefix option" where
  "prefix_try_from_reverse_hex hex =
     map_option (\<lambda>(bs, is_odd). \<lparr>min_prefix_bytes = bs, has_odd_byte = is_odd\<rparr>) (decode_reverse_hex_prefix hex)"

definition prefix_from_bytes :: "bytes \<Rightarrow> hex_prefix" where
  "prefix_from_bytes bs = \<lparr>min_prefix_bytes = bs, has_odd_byte = False\<rparr>"

text \<open>\<open>pop().unwrap()\<close> of a string and \<open>split_last().unwrap()\<close> of a slice panic when it is empty.\<close>

definition pop_last :: "'a list \<Rightarrow> 'a list exec" where
  "pop_last xs = (if xs = [] then Panics else Returns (butlast xs))"

definition prefix_hex :: "hex_prefix \<Rightarrow> bytes exec" where
  "prefix_hex p =
     (let hex_string = encode_hex (min_prefix_bytes p) in
      if has_odd_byte p then pop_last hex_string else Returns hex_string)"

definition prefix_reverse_hex :: "hex_prefix \<Rightarrow> bytes exec" where
  "prefix_reverse_hex p =
     (let hex_string = encode_reverse_hex (min_prefix_bytes p) in
      if has_odd_byte p then pop_last hex_string else Returns hex_string)"

definition as_full_bytes :: "hex_prefix \<Rightarrow> bytes option" where
  "as_full_bytes p = (if has_odd_byte p then None else Some (min_prefix_bytes p))"

definition split_odd_byte :: "hex_prefix \<Rightarrow> (8 word option \<times> bytes) exec" where
  "split_odd_byte p =
     (if has_odd_byte p
      then if min_prefix_bytes p = [] then Panics
           else Returns (Some (last (min_prefix_bytes p)), butlast (min_prefix_bytes p))
      else Returns (None, min_prefix_bytes p))"

definition prefix_matches :: "hex_prefix \<Rightarrow> bytes \<Rightarrow> bool exec" where
  "prefix_matches p id_bytes =
     exec_bind (split_odd_byte p) (\<lambda>(maybe_odd, bs).
     Returns (if prefix bs id_bytes
       then case maybe_odd of
              Some odd_byte \<Rightarrow>
                length bs < length id_bytes \<and> id_bytes ! length bs AND 240 = odd_byte
            | None \<Rightarrow> True
       else False))"

datatype 'a prefix_resolution = NoMatch | SingleMatch 'a | AmbiguousMatch

fun resolution_map :: "('a \<Rightarrow> 'b) \<Rightarrow> 'a prefix_resolution \<Rightarrow> 'b prefix_resolution" where
  "resolution_map f NoMatch = NoMatch"
| "resolution_map f (SingleMatch x) = SingleMatch (f x)"
| "resolution_map f AmbiguousMatch = AmbiguousMatch"

fun resolution_filter_map :: "('a \<Rightarrow> 'b option) \<Rightarrow> 'a prefix_resolution \<Rightarrow> 'b prefix_resolution" where
  "resolution_filter_map f NoMatch = NoMatch"
| "resolution_filter_map f (SingleMatch x) = (case f x of None \<Rightarrow> NoMatch | Some y \<Rightarrow> SingleMatch y)"
| "resolution_filter_map f AmbiguousMatch = AmbiguousMatch"

fun resolution_plus :: "'a prefix_resolution \<Rightarrow> 'a prefix_resolution \<Rightarrow> 'a prefix_resolution" where
  "resolution_plus NoMatch other = other"
| "resolution_plus res NoMatch = res"
| "resolution_plus AmbiguousMatch _ = AmbiguousMatch"
| "resolution_plus _ AmbiguousMatch = AmbiguousMatch"
| "resolution_plus (SingleMatch _) (SingleMatch _) = AmbiguousMatch"

end
