(* ===== verification/Hex_Laws.thy ===== *)
theory Hex_Laws
  imports Hex_Util
begin

unbundle bit_operations_syntax

text \<open>
  Laws of the hexadecimal text of identifiers. The two alphabets, \<open>0-f\<close> and \<open>z-k\<close>, are two
  interpretations of one interface: a table of sixteen digits and a reader that inverts it.
  Inside it decoding is related to the sequence of half bytes of the data, in which prefixes
  and common lengths are prefixes and common lengths of lists.
\<close>

section \<open>Half bytes\<close>

definition digits :: "bytes \<Rightarrow> 8 word list" where
  "digits bs = concat (map (\<lambda>b. [drop_bit 4 b, b AND 15]) bs)"

fun pack :: "8 word list \<Rightarrow> bytes" where
  "pack [] = []"
| "pack [h] = [push_bit 4 h]"
| "pack (h # l # ds) = (push_bit 4 h OR l) # pack ds"

lemma digits_simps [simp]:
  "digits [] = []" "digits (b # bs) = drop_bit 4 b # (b AND 15) # digits bs"
  by (simp_all add: digits_def)

lemma length_digits [simp]: "length (digits bs) = 2 * length bs"
  by (induction bs) simp_all

lemma digits_append [simp]: "digits (as @ bs) = digits as @ digits bs"
  by (simp add: digits_def)

lemma low_mask: "(15 :: 8 word) = mask 4" and high_mask: "(240 :: 8 word) = push_bit 4 (mask 4)"
  by (simp_all add: mask_eq_exp_minus_1)

lemma low_take: "(b :: 8 word) AND 15 = take_bit 4 b"
  by (simp add: low_mask take_bit_eq_mask)

lemma high_shift: "(b :: 8 word) AND 240 = push_bit 4 (drop_bit 4 b)"
  by (rule bit_word_eqI) (auto simp: high_mask bit_simps)

lemma nibble_bounds [simp]: "drop_bit 4 (b :: 8 word) < 16" "(b :: 8 word) AND 15 < 16"
proof -
  have "drop_bit 4 b = take_bit 4 (drop_bit 4 b)"
    by (rule bit_word_eqI) (auto simp: bit_simps dest: bit_imp_le_length)
  also have "\<dots> < 16"
    using and_mask_less_size[of 4 "drop_bit 4 b"] by (simp add: take_bit_eq_mask word_size)
  finally show "drop_bit 4 b < 16" .
  show "b AND 15 < 16"
    using and_mask_less_size[of 4 b] by (simp add: low_mask word_size)
qed

lemma nibble_take: "h < 16 \<Longrightarrow> take_bit 4 (h :: 8 word) = h"
  using less_mask_eq[of h 4] by (simp add: take_bit_eq_mask)

lemma nibble_unat: "h < 16 \<Longrightarrow> unat (h :: 8 word) < 16"
  by (simp add: word_less_nat_alt)

lemma halves_join [simp]: "push_bit 4 (drop_bit 4 (b :: 8 word)) OR (b AND 15) = b"
  by (rule bit_word_eqI) (auto simp: low_take bit_simps)

lemma join_halves:
  assumes "h < 16" "l < 16"
  shows "drop_bit 4 (push_bit 4 h OR l :: 8 word) = h" "(push_bit 4 h OR l) AND 15 = l"
    "drop_bit 4 (push_bit 4 h) = h" "push_bit 4 h AND 15 = 0"
proof -
  have bit_h: "n < 4" if "bit h n" for n
    using that nibble_take[OF assms(1)] bit_take_bit_iff[of 4 h n] by simp
  have bit_l: "n < 4" if "bit l n" for n
    using that nibble_take[OF assms(2)] bit_take_bit_iff[of 4 l n] by simp
  show "drop_bit 4 (push_bit 4 h OR l :: 8 word) = h"
    by (rule bit_word_eqI) (auto simp: bit_simps dest: bit_h bit_l)
  show "(push_bit 4 h OR l) AND 15 = l"
    by (rule bit_word_eqI) (auto simp: low_take bit_simps dest: bit_l)
  show "drop_bit 4 (push_bit 4 h) = h"
    by (rule bit_word_eqI) (auto simp: bit_simps dest: bit_h)
  show "push_bit 4 h AND 15 = 0"
    by (rule bit_word_eqI) (auto simp: low_take bit_simps)
qed

lemma nibble_cases:
  assumes "list_all P (map word_of_nat [0..<16])" "h < 16"
  shows "P (h :: 8 word)"
proof -
  have "unat h \<in> set [0..<16]" using nibble_unat[OF assms(2)] by simp
  then have "P (word_of_nat (unat h))" using assms(1) unfolding list_all_iff list.set_map by blast
  then show ?thesis by simp
qed

lemma pack_digits [simp]: "pack (digits bs) = bs"
  by (induction bs) simp_all

lemma digits_pack:
  "list_all (\<lambda>h. h < 16) ds \<Longrightarrow> digits (pack ds) = ds @ (if odd (length ds) then [0] else [])"
  by (induction ds rule: pack.induct) (simp_all add: join_halves del: drop_bit_or)

lemma digits_nibbles [simp]: "list_all (\<lambda>h. h < 16) (digits bs)"
  by (induction bs) simp_all

lemma digits_inj: "digits as = digits bs \<longleftrightarrow> as = bs"
  by (metis pack_digits)

section \<open>An alphabet of sixteen digits\<close>

text \<open>The ASCII lower case of a byte: both readers accept either case, the writers use lower case.\<close>

definition lower_byte :: "8 word \<Rightarrow> 8 word" where
  "lower_byte b = (if 65 \<le> b \<and> b \<le> 90 then b + 32 else b)"

locale hex_alphabet =
  fixes chars :: bytes and hex_value :: "8 word \<Rightarrow> 8 word option"
  assumes value_char: "h < 16 \<Longrightarrow> hex_value (chars ! unat h) = Some h"
    and value_bound: "hex_value b = Some h \<Longrightarrow> h < 16"
    and char_value: "hex_value b = Some h \<Longrightarrow> chars ! unat h = lower_byte b"
begin

lemma encode_digits: "encode_hex_inner bs chars = map (\<lambda>h. chars ! unat h) (digits bs)"
  by (induction bs) (simp_all add: encode_hex_inner_def)

lemma decode_chunks_digits:
  "decode_chunks hex_value hex acc =
     map_option (\<lambda>ds. (acc @ pack ds, odd (length ds))) (those (map hex_value hex))"
  by (induction hex_value hex acc rule: decode_chunks.induct)
    (auto split: option.splits bind_splits simp: option.map_comp o_def)

lemma those_chars: "list_all (\<lambda>h. h < 16) ds \<Longrightarrow>
    those (map (\<lambda>h. hex_value (chars ! unat h)) ds) = Some ds"
  by (induction ds) (simp_all add: value_char)

lemma those_values:
  "those (map hex_value hex) = Some ds \<Longrightarrow>
     list_all (\<lambda>h. h < 16) ds \<and> map (\<lambda>h. chars ! unat h) ds = map lower_byte hex"
  by (induction hex arbitrary: ds) (auto split: option.splits simp: value_bound char_value)

lemma decode_encode: "decode_hex_inner (encode_hex_inner bs chars) hex_value = Some bs"
  by (simp add: decode_hex_inner_def decode_hex_prefix_inner_def decode_chunks_digits encode_digits
      those_chars o_def)

lemma decode_prefix_cases:
  assumes "decode_hex_prefix_inner hex hex_value = Some (bs, is_odd)"
  obtains ds where "those (map hex_value hex) = Some ds" "bs = pack ds" "is_odd = odd (length ds)"
  using assms by (auto simp: decode_hex_prefix_inner_def decode_chunks_digits)

lemma encode_decode:
  assumes "decode_hex_inner hex hex_value = Some bs"
  shows "encode_hex_inner bs chars = map lower_byte hex"
proof -
  from assms obtain is_odd where "decode_hex_prefix_inner hex hex_value = Some (bs, is_odd)"
    and even: "even (length hex)"
    by (auto simp: decode_hex_inner_def split: if_splits)
  then obtain ds where ds: "those (map hex_value hex) = Some ds" "bs = pack ds" "is_odd = odd (length ds)"
    by (auto elim: decode_prefix_cases)
  from those_values[OF ds(1)] have "map (\<lambda>h. chars ! unat h) ds = map lower_byte hex" "list_all (\<lambda>h. h < 16) ds"
    by auto
  moreover from this(1) have "length ds = length hex" by (metis length_map)
  ultimately show ?thesis using even ds(2) by (simp add: encode_digits digits_pack)
qed

lemma char_inj: "(g :: 8 word) < 16 \<Longrightarrow> (h :: 8 word) < 16 \<Longrightarrow> chars ! unat g = chars ! unat h \<longleftrightarrow> g = h"
  using value_char[of g] value_char[of h] by (metis option.inject)

lemma prefix_chars:
  "list_all (\<lambda>h :: 8 word. h < 16) ds \<Longrightarrow> list_all (\<lambda>h :: 8 word. h < 16) es \<Longrightarrow>
     prefix (map (\<lambda>h. chars ! unat h) ds) (map (\<lambda>h. chars ! unat h) es) \<longleftrightarrow> prefix ds es"
proof (induction ds arbitrary: es)
  case (Cons d ds)
  then show ?case by (cases es) (auto simp: char_inj)
qed simp

lemma lcp_chars:
  "list_all (\<lambda>h :: 8 word. h < 16) ds \<Longrightarrow> list_all (\<lambda>h :: 8 word. h < 16) es \<Longrightarrow>
     length (longest_common_prefix (map (\<lambda>h. chars ! unat h) ds) (map (\<lambda>h. chars ! unat h) es)) =
     length (longest_common_prefix ds es)"
  by (induction ds es rule: longest_common_prefix.induct) (auto simp: char_inj)

end

text \<open>Both alphabets are instances; each law is checked digit by digit.\<close>

lemma forward_value_char: "h < 16 \<Longrightarrow> forward_hex_value (FORWARD_HEX_CHARS ! unat h) = Some h"
  by (rule nibble_cases[where h = h])
    (simp_all add: forward_hex_value_def FORWARD_HEX_CHARS_def upt_rec unsigned_of_nat)

lemma reverse_value_char: "h < 16 \<Longrightarrow> reverse_hex_value (REVERSE_HEX_CHARS ! unat h) = Some h"
  by (rule nibble_cases[where h = h])
    (simp_all add: reverse_hex_value_def REVERSE_HEX_CHARS_def upt_rec unsigned_of_nat)

lemma byte_range:
  assumes "lo \<le> b" "b \<le> hi" "list_all P (map word_of_nat [unat lo..<Suc (unat hi)])"
  shows "P (b :: 8 word)"
proof -
  have "unat b \<in> set [unat lo..<Suc (unat hi)]"
    using assms(1,2) by (auto simp: word_le_nat_alt)
  then have "P (word_of_nat (unat b))" using assms(3) unfolding list_all_iff list.set_map by blast
  then show ?thesis by simp
qed

definition digit_fits :: "bytes \<Rightarrow> (8 word \<Rightarrow> 8 word option) \<Rightarrow> 8 word \<Rightarrow> bool" where
  "digit_fits chars hex_value b \<longleftrightarrow>
     (case hex_value b of Some h \<Rightarrow> h < 16 \<and> chars ! unat h = lower_byte b | None \<Rightarrow> True)"

lemmas digit_evals = digit_fits_def forward_hex_value_def FORWARD_HEX_CHARS_def
  reverse_hex_value_def REVERSE_HEX_CHARS_def lower_byte_def upt_rec unsigned_of_nat

lemma forward_digit_fits: "digit_fits FORWARD_HEX_CHARS forward_hex_value b"
proof -
  consider "48 \<le> b" "b \<le> 57" | "97 \<le> b" "b \<le> 102" | "65 \<le> b" "b \<le> 70" | "forward_hex_value b = None"
    by (cases "forward_hex_value b") (auto simp: forward_hex_value_def split: if_splits)
  then show ?thesis
    by cases ((erule (1) byte_range, simp add: digit_evals) | simp add: digit_fits_def)+
qed

lemma reverse_digit_fits: "digit_fits REVERSE_HEX_CHARS reverse_hex_value b"
proof -
  consider "107 \<le> b" "b \<le> 122" | "75 \<le> b" "b \<le> 90" | "reverse_hex_value b = None"
    by (cases "reverse_hex_value b") (auto simp: reverse_hex_value_def split: if_splits)
  then show ?thesis
    by cases ((erule (1) byte_range, simp add: digit_evals) | simp add: digit_fits_def)+
qed

interpretation forward_hex: hex_alphabet FORWARD_HEX_CHARS forward_hex_value
proof
  show "forward_hex_value (FORWARD_HEX_CHARS ! unat h) = Some h" if "h < 16" for h
    by (rule forward_value_char[OF that])
  show "h < 16" "FORWARD_HEX_CHARS ! unat h = lower_byte b" if "forward_hex_value b = Some h" for b h
    using forward_digit_fits[of b] that by (simp_all add: digit_fits_def)
qed

interpretation reverse_hex: hex_alphabet REVERSE_HEX_CHARS reverse_hex_value
proof
  show "reverse_hex_value (REVERSE_HEX_CHARS ! unat h) = Some h" if "h < 16" for h
    by (rule reverse_value_char[OF that])
  show "h < 16" "REVERSE_HEX_CHARS ! unat h = lower_byte b" if "reverse_hex_value b = Some h" for b h
    using reverse_digit_fits[of b] that by (simp_all add: digit_fits_def)
qed

section \<open>Common length and prefixes\<close>

lemma xor_zero_iff: "a XOR b = 0 \<longleftrightarrow> a = (b :: 8 word)"
  by (metis xor.assoc xor.left_neutral xor_self_eq)

lemma xor_high_zero_iff: "(a XOR b) AND 240 = 0 \<longleftrightarrow> drop_bit 4 a = drop_bit 4 (b :: 8 word)"
proof -
  have "(a XOR b) AND 240 = 0 \<longleftrightarrow> drop_bit 4 (a XOR b) = 0"
    using join_halves(3)[OF nibble_bounds(1) nibble_bounds(1), of "a XOR b"]
    by (metis high_shift drop_bit_of_0 push_bit_of_0)
  then show ?thesis by (simp add: xor_zero_iff)
qed

lemma common_from_lcp:
  "(case common_from i (zip as bs) of Some n \<Rightarrow> n | None \<Rightarrow> 2 * i + 2 * min (length as) (length bs)) =
     2 * i + length (longest_common_prefix (digits as) (digits bs))"
proof (induction as arbitrary: bs i)
  case (Cons a as)
  show ?case
  proof (cases bs)
    case (Cons b bs')
    have "a = b" if "drop_bit 4 a = drop_bit 4 b" "a AND 15 = b AND 15"
      by (metis that halves_join)
    then show ?thesis using Cons.IH[of "i + 1" bs'] Cons by (auto simp: Let_def xor_zero_iff xor_high_zero_iff split: option.splits)
  qed simp
qed simp

lemma pack_Nil_iff [simp]: "pack ds = [] \<longleftrightarrow> ds = []"
  by (cases ds rule: pack.cases) simp_all

lemma high_eq_iff: "h < 16 \<Longrightarrow> b AND 240 = push_bit 4 h \<longleftrightarrow> h = drop_bit 4 (b :: 8 word)"
  by (metis high_shift join_halves(3) nibble_bounds(1))

lemma join_eq_iff: "h < 16 \<Longrightarrow> l < 16 \<Longrightarrow>
    (push_bit 4 h OR l :: 8 word) = b \<longleftrightarrow> h = drop_bit 4 b \<and> l = b AND 15"
  by (metis halves_join join_halves(1,2))

lemma prefix_matches_Cons:
  assumes "is_odd \<Longrightarrow> bs \<noteq> []"
  shows "prefix_matches \<lparr>min_prefix_bytes = x # bs, has_odd_byte = is_odd\<rparr> (b # id_bytes) =
    (if x = b then prefix_matches \<lparr>min_prefix_bytes = bs, has_odd_byte = is_odd\<rparr> id_bytes else Returns False)"
  using assms by (cases bs rule: rev_cases) (auto simp: prefix_matches_def split_odd_byte_def)

lemma prefix_matches_Nil:
  assumes "is_odd \<Longrightarrow> bs \<noteq> []"
  shows "prefix_matches \<lparr>min_prefix_bytes = x # bs, has_odd_byte = is_odd\<rparr> [] = Returns False"
  using assms by (cases bs rule: rev_cases) (auto simp: prefix_matches_def split_odd_byte_def)

lemma prefix_matches_digits:
  "list_all (\<lambda>h. h < 16) ds \<Longrightarrow>
     prefix_matches \<lparr>min_prefix_bytes = pack ds, has_odd_byte = odd (length ds)\<rparr> id_bytes =
     Returns (prefix ds (digits id_bytes))"
proof (induction ds arbitrary: id_bytes rule: pack.induct)
  case 1
  then show ?case by (simp add: prefix_matches_def split_odd_byte_def)
next
  case (2 h)
  then show ?case by (cases id_bytes) (auto simp: prefix_matches_def split_odd_byte_def high_eq_iff)
next
  case (3 h l ds)
  have "odd (length ds) \<Longrightarrow> pack ds \<noteq> []" by auto
  then show ?case using 3
    by (cases id_bytes) (auto simp: prefix_matches_Cons prefix_matches_Nil join_eq_iff)
qed

context hex_alphabet
begin

lemma decoded_prefix:
  assumes "decode_hex_prefix_inner hex hex_value = Some (bs, is_odd)"
  shows "prefix_matches \<lparr>min_prefix_bytes = bs, has_odd_byte = is_odd\<rparr> id_bytes =
      Returns (prefix (map lower_byte hex) (encode_hex_inner id_bytes chars))"
    and "(if is_odd then pop_last (encode_hex_inner bs chars) else Returns (encode_hex_inner bs chars)) =
      Returns (map lower_byte hex)"
proof -
  from assms obtain ds where ds: "those (map hex_value hex) = Some ds" "bs = pack ds" "is_odd = odd (length ds)"
    by (rule decode_prefix_cases)
  then have shown: "map (\<lambda>h. chars ! unat h) ds = map lower_byte hex" and nibbles: "list_all (\<lambda>h. h < 16) ds"
    using those_values by auto
  show "prefix_matches \<lparr>min_prefix_bytes = bs, has_odd_byte = is_odd\<rparr> id_bytes =
      Returns (prefix (map lower_byte hex) (encode_hex_inner id_bytes chars))"
    by (simp add: ds(2,3) prefix_matches_digits[OF nibbles] encode_digits prefix_chars nibbles flip: shown)
  show "(if is_odd then pop_last (encode_hex_inner bs chars) else Returns (encode_hex_inner bs chars)) =
      Returns (map lower_byte hex)"
    by (simp add: ds(2,3) encode_digits digits_pack[OF nibbles] pop_last_def shown)
qed

end

section \<open>Properties\<close>

text \<open>
  (C29) Hexadecimal text is a faithful name of its bytes in both alphabets: decoding what was
  encoded gives the bytes back, and whatever text decodes to some bytes is, up to the case of
  its letters, the text those bytes encode to. So two different identifiers never share a text,
  and a text never names two identifiers.
\<close>

theorem hex_roundtrip:
  "decode_hex (encode_hex d) = Some d \<and> decode_reverse_hex (encode_reverse_hex d) = Some d \<and>
   (decode_hex hex = Some d \<longrightarrow> encode_hex d = map lower_byte hex) \<and>
   (decode_reverse_hex hex = Some d \<longrightarrow> encode_reverse_hex d = map lower_byte hex)"
  by (simp add: decode_hex_def encode_hex_def decode_reverse_hex_def encode_reverse_hex_def
      forward_hex.decode_encode reverse_hex.decode_encode forward_hex.encode_decode reverse_hex.encode_decode)

theorem hex_roundtrip_witness:
  "decode_hex [65, 102, 48, 57] = Some [175, 9] \<and> encode_hex [175, 9] = [97, 102, 48, 57]"
proof -
  have "decode_hex [65, 102, 48, 57] = Some [175, 9]" by code_simp
  with hex_roundtrip[of "[175, 9]" "[65, 102, 48, 57]"] show ?thesis by (simp add: lower_byte_def)
qed

text \<open>
  (C28) A prefix typed by the user matches exactly the identifiers whose hexadecimal text starts
  with it, letters in either case and an odd number of digits included, and prints back as
  typed in lower case; the same holds of the \<open>z-k\<close> digits. Neither operation panics on a prefix
  that was read from text.
\<close>

theorem prefix_matches_exact:
  "(prefix_try_from_hex hex = Some p \<longrightarrow>
      prefix_matches p id_bytes = Returns (prefix (map lower_byte hex) (encode_hex id_bytes)) \<and>
      prefix_hex p = Returns (map lower_byte hex)) \<and>
   (prefix_try_from_reverse_hex hex = Some p \<longrightarrow>
      prefix_matches p id_bytes = Returns (prefix (map lower_byte hex) (encode_reverse_hex id_bytes)) \<and>
      prefix_reverse_hex p = Returns (map lower_byte hex))"
  by (auto simp: prefix_try_from_hex_def prefix_try_from_reverse_hex_def decode_hex_prefix_def
      decode_reverse_hex_prefix_def prefix_hex_def prefix_reverse_hex_def encode_hex_def encode_reverse_hex_def
      forward_hex.decoded_prefix reverse_hex.decoded_prefix)

theorem prefix_matches_exact_witness:
  "prefix_try_from_hex [97, 66, 57] = Some \<lparr>min_prefix_bytes = [171, 144], has_odd_byte = True\<rparr> \<and>
   prefix_matches \<lparr>min_prefix_bytes = [171, 144], has_odd_byte = True\<rparr> [171, 159] =
     Returns (prefix [97, 98, 57] (encode_hex [171, 159])) \<and>
   prefix_hex \<lparr>min_prefix_bytes = [171, 144], has_odd_byte = True\<rparr> = Returns [97, 98, 57]"
proof -
  have "prefix_try_from_hex [97, 66, 57] = Some \<lparr>min_prefix_bytes = [171, 144], has_odd_byte = True\<rparr>"
    by code_simp
  with prefix_matches_exact[of "[97, 66, 57]" "\<lparr>min_prefix_bytes = [171, 144], has_odd_byte = True\<rparr>" "[171, 159]"]
  show ?thesis by (simp add: lower_byte_def)
qed

text \<open>
  The common length of two identifiers is the number of leading digits their hexadecimal
  texts share, which is what the shortest unambiguous prefixes are computed from.
\<close>

theorem common_hex_len_exact:
  "common_hex_len as bs = length (longest_common_prefix (encode_hex as) (encode_hex bs))"
  using common_from_lcp[of 0 as bs]
  by (simp add: common_hex_len_def encode_hex_def forward_hex.encode_digits forward_hex.lcp_chars mult.commute
      split: option.splits)

end
