(* ===== verification/Native_Trees.thy ===== *)
theory Native_Trees
  imports Repo_Path Object_Ids
begin

text \<open>
  Mounts and trees of native projects, \<open>crates/jjosh-cli/src/native_project.rs\<close>: the checks of mount
  paths, and reading, wrapping and removing the subtree of a mount. The object store is the parameter
  \<open>tree_store\<close>. Its errors and the messages of the source are the constructors of \<open>native_error\<close>. A tree
  is its entries, which the type \<open>Tree\<close> of \<open>jj/core/src/backend.rs\<close> keeps sorted without duplicate
  names, so its binary search is the lookup in the list.
\<close>

datatype TreeId = TreeId bytes
datatype FileId = FileId bytes
datatype CopyId = CopyId bytes
datatype SymlinkId = SymlinkId bytes

datatype TreeValue =
    FileValue FileId bool CopyId
  | SymlinkValue SymlinkId
  | TreeRef TreeId
  | GitSubmodule CommitId

type_synonym tree = "(string \<times> TreeValue) list"

definition entry_value :: "tree \<Rightarrow> string \<Rightarrow> TreeValue option" where
  "entry_value t name = map_of t name"

record 'be tree_store =
  read_tree :: "RepoPath \<Rightarrow> TreeId \<Rightarrow> ('be, tree) result"
  write_tree :: "RepoPath \<Rightarrow> tree \<Rightarrow> ('be, TreeId) result"
  empty_tree_id :: TreeId

datatype 'be native_error =
    BackendError 'be
  | MountNotRelative string
  | MountInvalid invalid_new_repo_path
  | MountOutside string
  | MountsOverlap string RepoPath string RepoPath
  | MountIsRoot
  | MountNotDirectory RepoPath
  | MountNotDirectoryIn RepoPath CommitId
  | MountNotDirectoryAt string
  | AmbiguousCorrespondence CommitId
  | UnresolvedConflicts RepoPath
  | MetadataChanged CommitId
  | NothingToPublish

section \<open>Mounts\<close>

definition parse_mount :: "string \<Rightarrow> ('be native_error, RepoPath) result" where
  "parse_mount s =
     (if s = [] \<or> CHR 0x5C \<in> set s \<or> CHR 0x00 \<in> set s then Inl (MountNotRelative s)
      else res_bind (res_map_err MountInvalid (from_internal_string s)) (\<lambda>path.
        if is_root path \<or> \<not> list_all (\<lambda>name. name \<noteq> ''.'' \<and> name \<noteq> ''..'') (components path)
        then Inl (MountOutside s)
        else Inr path))"

definition default_mount :: "string \<Rightarrow> ('be native_error, RepoPath) result" where
  "default_mount project = parse_mount project"

definition mounts_overlap :: "RepoPath \<Rightarrow> RepoPath \<Rightarrow> bool" where
  "mounts_overlap left right \<longleftrightarrow> path_starts_with left right \<or> path_starts_with right left"

fun check_against ::
  "string \<times> RepoPath \<Rightarrow> (string \<times> RepoPath) list \<Rightarrow> ('be native_error, unit) result" where
  "check_against left [] = Inr ()"
| "check_against left (right # rest) =
     (if mounts_overlap (snd left) (snd right)
      then Inl (MountsOverlap (fst left) (snd left) (fst right) (snd right))
      else check_against left rest)"

fun check_mounts_disjoint :: "(string \<times> RepoPath) list \<Rightarrow> ('be native_error, unit) result" where
  "check_mounts_disjoint [] = Inr ()"
| "check_mounts_disjoint (left # rest) =
     res_bind (check_against left rest) (\<lambda>_. check_mounts_disjoint rest)"

section \<open>Reading below a mount\<close>

fun value_at_loop ::
  "('be, 'x) tree_store_scheme \<Rightarrow> TreeId \<Rightarrow> RepoPath \<Rightarrow> string list \<Rightarrow> ('be native_error, TreeValue option) result" where
  "value_at_loop S current directory [] = Inr None"
| "value_at_loop S current directory (component # rest) =
     res_bind (res_map_err BackendError (read_tree S directory current)) (\<lambda>tree.
     case entry_value tree component of
       None \<Rightarrow> Inr None
     | Some v \<Rightarrow>
         if rest = [] then Inr (Some v)
         else case v of
                TreeRef tid \<Rightarrow> value_at_loop S tid (path_join directory component) rest
              | _ \<Rightarrow> Inr (Some v))"

definition value_at_path ::
  "('be, 'x) tree_store_scheme \<Rightarrow> TreeId \<Rightarrow> RepoPath \<Rightarrow> ('be native_error, TreeValue option) result" where
  "value_at_path S tree_id path =
     (if is_root path then Inl MountIsRoot else value_at_loop S tree_id path_root (components path))"

text \<open>The terms of the tree of a commit, in order.\<close>

fun path_occupied ::
  "('be, 'x) tree_store_scheme \<Rightarrow> TreeId list \<Rightarrow> RepoPath \<Rightarrow> ('be native_error, bool) result" where
  "path_occupied S [] path = Inr False"
| "path_occupied S (tid # ids) path =
     res_bind (value_at_path S tid path) (\<lambda>v. if v \<noteq> None then Inr True else path_occupied S ids path)"

fun has_project_tree ::
  "('be, 'x) tree_store_scheme \<Rightarrow> CommitId \<Rightarrow> TreeId list \<Rightarrow> RepoPath \<Rightarrow> bool \<Rightarrow> ('be native_error, bool) result" where
  "has_project_tree S commit [] mount present = Inr present"
| "has_project_tree S commit (tid # ids) mount present =
     res_bind (value_at_path S tid mount) (\<lambda>v.
     case v of
       Some (TreeRef _) \<Rightarrow> has_project_tree S commit ids mount True
     | Some _ \<Rightarrow> Inl (MountNotDirectoryIn mount commit)
     | None \<Rightarrow> has_project_tree S commit ids mount present)"

definition tree_id_at_path ::
  "('be, 'x) tree_store_scheme \<Rightarrow> TreeId \<Rightarrow> RepoPath \<Rightarrow> ('be native_error, TreeId) result" where
  "tree_id_at_path S tree_id path =
     res_bind (value_at_path S tree_id path) (\<lambda>v.
     case v of
       Some (TreeRef tid) \<Rightarrow> Inr tid
     | None \<Rightarrow> Inr (empty_tree_id S)
     | Some _ \<Rightarrow> Inl (MountNotDirectory path))"

section \<open>Wrapping and removing\<close>

fun prefix_loop ::
  "('be, 'x) tree_store_scheme \<Rightarrow> string list \<Rightarrow> TreeId \<Rightarrow> ('be native_error, TreeId) result" where
  "prefix_loop S [] current = Inr current"
| "prefix_loop S (component # rest) current =
     res_bind (res_map_err BackendError (write_tree S path_root [(component, TreeRef current)])) (prefix_loop S rest)"

definition prefix_tree ::
  "('be, 'x) tree_store_scheme \<Rightarrow> RepoPath \<Rightarrow> TreeId \<Rightarrow> ('be native_error, TreeId) result" where
  "prefix_tree S mount inner =
     (if is_root mount then Inl MountIsRoot
      else if inner = empty_tree_id S then Inr inner
      else prefix_loop S (rev (components mount)) inner)"

text \<open>
  The way down to the mount collects the trees to rewrite, or finds nothing to remove (\<open>None\<close>); the
  way back writes them without the mount.
\<close>

fun without_descend ::
  "('be, 'x) tree_store_scheme \<Rightarrow> TreeId \<Rightarrow> string list \<Rightarrow> (tree \<times> string \<times> bool) list \<Rightarrow>
   ('be native_error, (tree \<times> string \<times> bool) list option) result" where
  "without_descend S current [] stack = Inr (Some stack)"
| "without_descend S current (component # rest) stack =
     res_bind (res_map_err BackendError (read_tree S path_root current)) (\<lambda>tree.
     let final = (rest = []) in
     case entry_value tree component of
       None \<Rightarrow> Inr None
     | Some (TreeRef tid) \<Rightarrow>
         without_descend S (if final then current else tid) rest ((tree, component, final) # stack)
     | Some _ \<Rightarrow>
         if final then without_descend S current rest ((tree, component, final) # stack)
         else Inl (MountNotDirectoryAt component))"

definition without_entry ::
  "TreeId \<Rightarrow> string \<Rightarrow> bool \<Rightarrow> TreeId option \<Rightarrow> string \<times> TreeValue \<Rightarrow> (string \<times> TreeValue) list" where
  "without_entry no_tree component final rewritten entry =
     (if fst entry \<noteq> component then [entry]
      else if final then []
      else case rewritten of
             Some sub \<Rightarrow> if sub \<noteq> no_tree then [(fst entry, TreeRef sub)] else []
           | None \<Rightarrow> [])"

fun without_rebuild ::
  "('be, 'x) tree_store_scheme \<Rightarrow> (tree \<times> string \<times> bool) list \<Rightarrow> TreeId option \<Rightarrow>
   ('be native_error, TreeId option) result" where
  "without_rebuild S [] rewritten = Inr rewritten"
| "without_rebuild S ((tree, component, final) # stack) rewritten =
     (let entries = concat (map (without_entry (empty_tree_id S) component final rewritten) tree) in
      if entries = [] then without_rebuild S stack (Some (empty_tree_id S))
      else res_bind (res_map_err BackendError (write_tree S path_root entries)) (\<lambda>tid.
           without_rebuild S stack (Some tid)))"

definition without_path ::
  "('be, 'x) tree_store_scheme \<Rightarrow> TreeId \<Rightarrow> RepoPath \<Rightarrow> ('be native_error, TreeId) result" where
  "without_path S tree_id path =
     (if components path = [] then Inl MountIsRoot
      else if tree_id = empty_tree_id S then Inr (empty_tree_id S)
      else res_bind (without_descend S tree_id (components path) []) (\<lambda>r.
        case r of
          None \<Rightarrow> Inr tree_id
        | Some stack \<Rightarrow>
            res_bind (without_rebuild S stack None) (\<lambda>rewritten.
            Inr (case rewritten of Some tid \<Rightarrow> tid | None \<Rightarrow> tree_id))))"

end
