(* ===== verification/Merged_Trees.thy ===== *)
theory Merged_Trees
  imports Native_Trees Merge_Expr Fallible
begin

text \<open>
  Trees that may be conflicted: the labels of \<open>jj/core/src/conflict_labels.rs\<close>, the type \<open>MergedTree\<close> of
  \<open>jj/lib/src/merged_tree.rs\<close> as far as projects use it, the commits of \<open>jj/core/src/backend.rs\<close>, and the
  tree of a project inside a commit, \<open>project_tree\<close> of \<open>crates/jjosh-cli/src/native_project.rs\<close>. The
  recursive merge of trees (\<open>jj/lib/src/tree_merge.rs\<close>) is the parameter \<open>merge_trees\<close> of a repository.
\<close>

section \<open>Conflict labels\<close>

datatype ConflictLabels = ConflictLabels (labels_as_merge: "string merge")

definition unlabeled :: ConflictLabels where
  "unlabeled = ConflictLabels (resolved [])"

definition labels_from_merge :: "string merge \<Rightarrow> ConflictLabels" where
  "labels_from_merge m =
     (if is_resolved m \<or> list_all (\<lambda>l. l = []) (merge_values m) then unlabeled else ConflictLabels m)"

definition labels_from_vec :: "string list \<Rightarrow> ConflictLabels exec" where
  "labels_from_vec ls = (if ls = [] then Returns unlabeled else exec_bind (from_vec ls) (\<lambda>m. Returns (labels_from_merge m)))"

definition has_labels :: "ConflictLabels \<Rightarrow> bool" where
  "has_labels l \<longleftrightarrow> \<not> is_resolved (labels_as_merge l)"

definition labels_num_sides :: "ConflictLabels \<Rightarrow> nat option" where
  "labels_num_sides l = (if has_labels l then Some (num_sides (labels_as_merge l)) else None)"

definition labels_as_slice :: "ConflictLabels \<Rightarrow> string list" where
  "labels_as_slice l = (if has_labels l then merge_values (labels_as_merge l) else [])"

definition nonempty_label :: "string option \<Rightarrow> string option" where
  "nonempty_label x = (case x of Some l \<Rightarrow> if l = [] then None else Some l | None \<Rightarrow> None)"

definition labels_get_add :: "ConflictLabels \<Rightarrow> nat \<Rightarrow> string option" where
  "labels_get_add l i = nonempty_label (get_add (labels_as_merge l) i)"

definition labels_get_remove :: "ConflictLabels \<Rightarrow> nat \<Rightarrow> string option" where
  "labels_get_remove l i = nonempty_label (get_remove (labels_as_merge l) i)"

definition simplify_with :: "ConflictLabels \<Rightarrow> 'a merge \<Rightarrow> (ConflictLabels \<times> 'a merge) exec" where
  "simplify_with l m =
     (if has_labels l
      then exec_bind (merge_zip (labels_as_merge l) m) (\<lambda>z.
           exec_bind (simplify_by snd z) (\<lambda>simplified.
           let (labels, items) = merge_unzip simplified in Returns (labels_from_merge labels, items)))
      else exec_bind (simplify m) (\<lambda>simplified. Returns (unlabeled, simplified)))"

section \<open>Merged trees\<close>

record merged_tree =
  mt_tree_ids :: "TreeId merge"
  mt_labels :: ConflictLabels

definition merged_tree_resolved :: "TreeId \<Rightarrow> merged_tree" where
  "merged_tree_resolved tid = \<lparr>mt_tree_ids = resolved tid, mt_labels = unlabeled\<rparr>"

definition merged_tree_new :: "TreeId merge \<Rightarrow> ConflictLabels \<Rightarrow> merged_tree exec" where
  "merged_tree_new ids l =
     (case labels_num_sides l of
        Some sides \<Rightarrow> if num_sides ids = sides then Returns \<lparr>mt_tree_ids = ids, mt_labels = l\<rparr> else Panics
      | None \<Rightarrow> Returns \<lparr>mt_tree_ids = ids, mt_labels = l\<rparr>)"

definition has_conflict :: "merged_tree \<Rightarrow> bool" where
  "has_conflict t \<longleftrightarrow> \<not> is_resolved (mt_tree_ids t)"

definition labels_by_term :: "merged_tree \<Rightarrow> string \<Rightarrow> string merge exec" where
  "labels_by_term t label =
     (if is_resolved (mt_tree_ids t) then if has_labels (mt_labels t) then Panics else Returns (resolved label)
      else if has_labels (mt_labels t)
           then if num_sides (labels_as_merge (mt_labels t)) = num_sides (mt_tree_ids t)
                then Returns (labels_as_merge (mt_labels t)) else Panics
           else repeated [] (num_sides (mt_tree_ids t)))"

section \<open>Commits\<close>

record signature =
  sig_name :: string
  sig_email :: string
  sig_millis :: int
  sig_tz_offset :: int

record backend_commit =
  bc_parents :: "CommitId list"
  bc_predecessors :: "CommitId list"
  bc_root_tree :: "TreeId merge"
  bc_conflict_labels :: "string merge"
  bc_change_id :: ChangeId
  bc_description :: string
  bc_author :: signature
  bc_committer :: signature
  bc_secure_sig :: "(bytes \<times> bytes) option"

record commit =
  cm_id :: CommitId
  cm_data :: backend_commit

definition commit_tree :: "commit \<Rightarrow> merged_tree exec" where
  "commit_tree c = merged_tree_new (bc_root_tree (cm_data c)) (labels_from_merge (bc_conflict_labels (cm_data c)))"

record 'be native_repo = "'be tree_store" +
  get_commit :: "CommitId \<Rightarrow> ('be, commit) result"
  root_commit_id :: CommitId
  merge_trees :: "TreeId merge \<Rightarrow> ('be, TreeId merge) result"

text \<open>The check with debug assertions on that merging the result again changes nothing is left out.\<close>

definition merged_tree_resolve ::
  "('be, 'x) native_repo_scheme \<Rightarrow> merged_tree \<Rightarrow> ('be native_error, merged_tree) result exec" where
  "merged_tree_resolve R t =
     er_bind (Returns (res_map_err BackendError (merge_trees R (mt_tree_ids t)))) (\<lambda>merged.
     if is_resolved merged then ok \<lparr>mt_tree_ids = merged, mt_labels = unlabeled\<rparr>
     else exec_bind (simplify_with (mt_labels t) merged) (\<lambda>(labels, ids).
          ok \<lparr>mt_tree_ids = ids, mt_labels = labels\<rparr>))"

section \<open>The tree of a project\<close>

definition commit_path_occupied ::
  "('be, 'x) native_repo_scheme \<Rightarrow> commit \<Rightarrow> RepoPath \<Rightarrow> ('be native_error, bool) result" where
  "commit_path_occupied R c path = path_occupied R (merge_values (bc_root_tree (cm_data c))) path"

definition commit_has_project_tree ::
  "('be, 'x) native_repo_scheme \<Rightarrow> commit \<Rightarrow> RepoPath \<Rightarrow> ('be native_error, bool) result" where
  "commit_has_project_tree R c mount = has_project_tree R (cm_id c) (merge_values (bc_root_tree (cm_data c))) mount False"

text \<open>The map \<open>terms\<close> of the source only saves repeated reads of one term.\<close>

definition project_tree ::
  "('be, 'x) native_repo_scheme \<Rightarrow> commit \<Rightarrow> RepoPath \<Rightarrow> ('be native_error, merged_tree) result exec" where
  "project_tree R c mount =
     er_bind (Returns (try_map (\<lambda>tid. tree_id_at_path R tid mount) (bc_root_tree (cm_data c)))) (\<lambda>ids.
     exec_bind (commit_tree c) (\<lambda>tree.
     exec_bind (merged_tree_new ids (mt_labels tree)) (merged_tree_resolve R)))"

end
