(* ===== verification/Project_History.thy ===== *)
theory Project_History
  imports Merged_Trees
begin

text \<open>
  The history of a project inside a repository, \<open>crates/jjosh-cli/src/native_project/history.rs\<close>, with
  its two users \<open>export.rs\<close> and \<open>validation.rs\<close>. The walk over the commits ends only if no commit is its
  own ancestor, so the loop is a partial function. A vector used as a stack has its last element
  first; a \<open>HashMap\<close> is a partial function. Writing a commit for export is the parameter
  \<open>write_commit_for_export\<close>.
\<close>

section \<open>Correspondence\<close>

fun reverse_anchors_loop ::
  "(CommitId \<times> CommitId) list \<Rightarrow> (CommitId \<rightharpoonup> CommitId) \<Rightarrow> ('be native_error, CommitId \<rightharpoonup> CommitId) result" where
  "reverse_anchors_loop [] m = Inr m"
| "reverse_anchors_loop ((raw, canonical) # known) m =
     (case m canonical of
        None \<Rightarrow> reverse_anchors_loop known (m(canonical \<mapsto> raw))
      | Some old \<Rightarrow> if old = raw then reverse_anchors_loop known m else Inl (AmbiguousCorrespondence canonical))"

definition reverse_anchors :: "(CommitId \<times> CommitId) list \<Rightarrow> ('be native_error, CommitId \<rightharpoonup> CommitId) result" where
  "reverse_anchors known = reverse_anchors_loop known Map.empty"

section \<open>Projecting a history\<close>

record 't history_node =
  node_id :: CommitId
  node_value :: "'t option"
  node_parents :: "nat list"
  node_has_conflict :: bool

record 't history =
  hist_nodes :: "'t history_node list"
  hist_heads :: "nat list"

record projected =
  proj_node :: nat
  proj_tree :: "TreeId merge"

datatype history_visit = ReadCommit CommitId | WriteCommit commit

definition lookup_exec :: "('k \<rightharpoonup> 'v) \<Rightarrow> 'k \<Rightarrow> 'v exec" where
  "lookup_exec m k = unwrap (m k)"

text \<open>A parent is its entry in \<open>mapped\<close> with the identifier of the node it names.\<close>

definition parent_entry ::
  "'t history_node list \<Rightarrow> (CommitId \<rightharpoonup> projected) \<Rightarrow> CommitId \<Rightarrow> (projected \<times> CommitId) exec" where
  "parent_entry nodes mapped cid =
     exec_bind (lookup_exec mapped cid) (\<lambda>p.
     exec_bind (index_exec nodes (proj_node p)) (\<lambda>node. Returns (p, node_id node)))"

text \<open>\<open>filter\<close> with \<open>seen.insert\<close> keeps the first entry of each identifier.\<close>

fun first_by_id :: "CommitId set \<Rightarrow> (projected \<times> CommitId) list \<Rightarrow> (projected \<times> CommitId) list" where
  "first_by_id seen [] = []"
| "first_by_id seen (q # qs) =
     (if snd q \<in> seen then first_by_id seen qs else q # first_by_id (insert (snd q) seen) qs)"

definition projected_parents :: "CommitId \<Rightarrow> (projected \<times> CommitId) list \<Rightarrow> (projected \<times> CommitId) list" where
  "projected_parents root qs =
     (let parents = first_by_id {} qs in
      if length parents > 1 then filter (\<lambda>q. snd q \<noteq> root) parents else parents)"

definition same_parent ::
  "(projected \<times> CommitId) list \<Rightarrow> (projected \<times> CommitId) list \<Rightarrow> TreeId merge \<Rightarrow> projected option" where
  "same_parent parents qs ids =
     (case parents of
        [parent] \<Rightarrow> map_option fst (find (\<lambda>q. snd q = snd parent \<and> proj_tree (fst q) = ids) qs)
      | _ \<Rightarrow> None)"

type_synonym ('be, 't) emit =
  "commit \<Rightarrow> merged_tree \<Rightarrow> CommitId list \<Rightarrow> ('be native_error, CommitId \<times> 't option) result"

definition read_step ::
  "('be, 'x) native_repo_scheme \<Rightarrow> RepoPath \<Rightarrow> (CommitId \<rightharpoonup> CommitId) \<Rightarrow> CommitId \<Rightarrow>
   't history_node list \<Rightarrow> (CommitId \<rightharpoonup> projected) \<Rightarrow>
   ('be native_error, history_visit list \<times> 't history_node list \<times> (CommitId \<rightharpoonup> projected)) result exec" where
  "read_step R mount boundary cid nodes mapped =
     (if mapped cid \<noteq> None then ok ([], nodes, mapped)
      else er_bind (Returns (res_map_err BackendError (get_commit R cid))) (\<lambda>commit.
        case boundary cid of
          Some representative \<Rightarrow>
            er_bind (project_tree R commit mount) (\<lambda>tree.
            ok ([], nodes @ [\<lparr>node_id = representative, node_value = None, node_parents = [], node_has_conflict = has_conflict tree\<rparr>],
              mapped(cid \<mapsto> \<lparr>proj_node = length nodes, proj_tree = mt_tree_ids tree\<rparr>)))
        | None \<Rightarrow>
            ok (map ReadCommit (rev (bc_parents (cm_data commit))) @ [WriteCommit commit], nodes, mapped)))"

definition write_step ::
  "('be, 'x) native_repo_scheme \<Rightarrow> RepoPath \<Rightarrow> ('be, 't) emit \<Rightarrow> commit \<Rightarrow>
   't history_node list \<Rightarrow> (CommitId \<rightharpoonup> projected) \<Rightarrow>
   ('be native_error, history_visit list \<times> 't history_node list \<times> (CommitId \<rightharpoonup> projected)) result exec" where
  "write_step R mount emit commit nodes mapped =
     er_bind (project_tree R commit mount) (\<lambda>tree.
     exec_bind (exec_map (parent_entry nodes mapped) (bc_parents (cm_data commit))) (\<lambda>qs.
     let parents = projected_parents (root_commit_id R) qs in
     case same_parent parents qs (mt_tree_ids tree) of
       Some p \<Rightarrow> ok ([], nodes, mapped(cm_id commit \<mapsto> p))
     | None \<Rightarrow>
         let indices = (if parents = [] then [0] else map (\<lambda>q. proj_node (fst q)) parents) in
         exec_bind (exec_map (index_exec nodes) indices) (\<lambda>parent_nodes.
         er_bind (Returns (emit commit tree (map node_id parent_nodes))) (\<lambda>(cid, v).
         ok ([], nodes @ [\<lparr>node_id = cid, node_value = v, node_parents = indices, node_has_conflict = has_conflict tree\<rparr>],
           mapped(cm_id commit \<mapsto> \<lparr>proj_node = length nodes, proj_tree = mt_tree_ids tree\<rparr>))))))"

definition project_step ::
  "('be, 'x) native_repo_scheme \<Rightarrow> RepoPath \<Rightarrow> (CommitId \<rightharpoonup> CommitId) \<Rightarrow> ('be, 't) emit \<Rightarrow> history_visit \<Rightarrow>
   't history_node list \<Rightarrow> (CommitId \<rightharpoonup> projected) \<Rightarrow>
   ('be native_error, history_visit list \<times> 't history_node list \<times> (CommitId \<rightharpoonup> projected)) result exec" where
  "project_step R mount boundary emit visit nodes mapped =
     (case visit of
        ReadCommit cid \<Rightarrow> read_step R mount boundary cid nodes mapped
      | WriteCommit commit \<Rightarrow> write_step R mount emit commit nodes mapped)"

partial_function (option) project_loop ::
  "('be, 'x) native_repo_scheme \<Rightarrow> RepoPath \<Rightarrow> (CommitId \<rightharpoonup> CommitId) \<Rightarrow> ('be, 't) emit \<Rightarrow> history_visit list \<Rightarrow>
   't history_node list \<Rightarrow> (CommitId \<rightharpoonup> projected) \<Rightarrow>
   ('be native_error, 't history_node list \<times> (CommitId \<rightharpoonup> projected)) result exec option" where
  "project_loop R mount boundary emit pending nodes mapped =
     (case pending of
        [] \<Rightarrow> Some (ok (nodes, mapped))
      | visit # rest \<Rightarrow>
          (case project_step R mount boundary emit visit nodes mapped of
             Panics \<Rightarrow> Some Panics
           | Returns (Inl e) \<Rightarrow> Some (err e)
           | Returns (Inr (pushed, nodes', mapped')) \<Rightarrow>
               project_loop R mount boundary emit (pushed @ rest) nodes' mapped'))"

definition root_node :: "CommitId \<Rightarrow> 't history_node" where
  "root_node root = \<lparr>node_id = root, node_value = None, node_parents = [], node_has_conflict = False\<rparr>"

text \<open>\<open>emit\<close> may write commits; the answer it gives is all the projection uses, so it is a function here.\<close>

definition project ::
  "('be, 'x) native_repo_scheme \<Rightarrow> RepoPath \<Rightarrow> CommitId list \<Rightarrow> (CommitId \<rightharpoonup> CommitId) \<Rightarrow> ('be, 't) emit \<Rightarrow>
   ('be native_error, 't history) result exec option" where
  "project R mount heads boundary emit =
     Option.bind (project_loop R mount boundary emit (map ReadCommit heads) [root_node (root_commit_id R)]
         [root_commit_id R \<mapsto> \<lparr>proj_node = 0, proj_tree = resolved (empty_tree_id R)\<rparr>]) (\<lambda>r.
     Some (er_bind r (\<lambda>(nodes, mapped).
       exec_bind (exec_map (lookup_exec mapped) heads) (\<lambda>ps.
       ok \<lparr>hist_nodes = nodes, hist_heads = map proj_node ps\<rparr>))))"

end
