(* ===== verification/Project_Export.thy ===== *)
theory Project_Export
  imports Project_History
begin

text \<open>
  The users of the projected history: the export of a project,
  \<open>crates/jjosh-cli/src/native_project/export.rs\<close>, and the commits that a push has to validate,
  \<open>crates/jjosh-cli/src/native_project/validation.rs\<close>. The Git backend that writes a commit is the
  parameter \<open>git\<close>: absent for a store of another kind. A \<open>HashMap\<close> that is iterated is a list of
  pairs; an iterator is the list of what it yields.
\<close>

section \<open>Exported projects\<close>

record export_node =
  en_raw :: CommitId
  en_canonical :: "CommitId option"
  en_parents :: "nat list"

record exported_project =
  ep_head :: nat
  ep_history :: "export_node list"

definition exported_id :: "exported_project \<Rightarrow> CommitId exec" where
  "exported_id e = exec_bind (index_exec (ep_history e) (ep_head e)) (\<lambda>node. Returns (en_raw node))"

function publications_loop ::
  "export_node list \<Rightarrow> (nat \<times> bool) list \<Rightarrow> nat set \<Rightarrow> CommitId set \<Rightarrow> (CommitId \<times> CommitId) list exec" where
  "publications_loop H [] visited emitted = Returns []"
| "publications_loop H ((i, ready) # rest) visited emitted =
     (if i < length H then
        if ready then
          (case en_canonical (H ! i) of
             Some canonical \<Rightarrow>
               if en_raw (H ! i) \<notin> emitted
               then exec_bind (publications_loop H rest visited (insert (en_raw (H ! i)) emitted))
                      (\<lambda>ps. Returns ((en_raw (H ! i), canonical) # ps))
               else publications_loop H rest visited emitted
           | None \<Rightarrow> publications_loop H rest visited emitted)
        else if i \<notin> visited
             then publications_loop H (map (\<lambda>p. (p, False)) (rev (en_parents (H ! i))) @ (i, True) # rest)
                    (insert i visited) emitted
             else publications_loop H rest visited emitted
      else Panics)"
  by pat_completeness auto
termination
proof (relation "(\<lambda>(H, pending, visited, _). card ({..<length H} - visited)) <*mlex*>
    measure (\<lambda>(H, pending, _, _). length pending)", goal_cases)
  case 1
  then show ?case by (simp add: wf_mlex)
next
  case (5 H i ready rest visited emitted)
  then have "{..<length H} - insert i visited \<subset> {..<length H} - visited" by auto
  then have "card ({..<length H} - insert i visited) < card ({..<length H} - visited)"
    by (intro psubset_card_mono) auto
  then show ?case by (simp add: mlex_less)
qed (simp_all add: mlex_leq)

definition publications :: "exported_project \<Rightarrow> (CommitId \<times> CommitId) list exec" where
  "publications e = publications_loop (ep_history e) [(ep_head e, False)] {} {}"

type_synonym 'be git_writer = "backend_commit \<Rightarrow> ('be, CommitId \<times> backend_commit) result"

definition export_contents :: "commit \<Rightarrow> merged_tree \<Rightarrow> CommitId list \<Rightarrow> backend_commit" where
  "export_contents c tree parents = (cm_data c)
     \<lparr>bc_parents := parents, bc_root_tree := mt_tree_ids tree, bc_conflict_labels := labels_as_merge (mt_labels tree),
      bc_predecessors := [], bc_secure_sig := None\<rparr>"

definition export_emit :: "'be git_writer \<Rightarrow> ('be, CommitId) emit" where
  "export_emit write c tree parents =
     (let contents = export_contents c tree parents in
      res_bind (res_map_err BackendError (write contents)) (\<lambda>(raw, exported).
      if exported \<noteq> contents then Inl (MetadataChanged (cm_id c)) else Inr (raw, Some (cm_id c))))"

fun check_heads ::
  "('be, 'x) native_repo_scheme \<Rightarrow> RepoPath \<Rightarrow> commit list \<Rightarrow> ('be native_error, unit) result exec" where
  "check_heads R mount [] = ok ()"
| "check_heads R mount (c # cs) =
     er_bind (project_tree R c mount) (\<lambda>tree.
     if has_conflict tree then err (UnresolvedConflicts mount) else check_heads R mount cs)"

definition export_arena :: "CommitId set \<Rightarrow> CommitId history_node list \<Rightarrow> export_node list" where
  "export_arena known nodes =
     map (\<lambda>node. \<lparr>en_raw = node_id node,
       en_canonical = (if node_id node \<in> known then None else node_value node),
       en_parents = node_parents node\<rparr>) nodes"

fun exported_heads ::
  "CommitId \<Rightarrow> export_node list \<Rightarrow> nat list \<Rightarrow> ('be native_error, exported_project list) result exec" where
  "exported_heads root H [] = ok []"
| "exported_heads root H (head # heads) =
     exec_bind (index_exec H head) (\<lambda>node.
     if en_raw node = root then err NothingToPublish
     else er_bind (exported_heads root H heads) (\<lambda>es. ok (\<lparr>ep_head = head, ep_history = H\<rparr> # es)))"

definition export_projects ::
  "('be, 'x) native_repo_scheme \<Rightarrow> ('be, 'be git_writer) result \<Rightarrow> RepoPath \<Rightarrow> commit list \<Rightarrow> (CommitId \<times> CommitId) list \<Rightarrow>
   ('be native_error, exported_project list) result exec option" where
  "export_projects R git mount heads known =
     (case er_bind (check_heads R mount heads) (\<lambda>_.
           er_bind (Returns (reverse_anchors known)) (\<lambda>reverse.
           er_bind (Returns (res_map_err BackendError git)) (\<lambda>write. ok (reverse, write)))) of
        Panics \<Rightarrow> Some Panics
      | Returns (Inl e) \<Rightarrow> Some (err e)
      | Returns (Inr (reverse, write)) \<Rightarrow>
          Option.bind (project R mount (map cm_id heads) reverse (export_emit write)) (\<lambda>r.
          Some (er_bind r (\<lambda>projected.
            exported_heads (root_commit_id R) (export_arena (fst ` set known) (hist_nodes projected)) (hist_heads projected)))))"

section \<open>Commits to validate before a push\<close>

record validation_commit =
  vc_commit :: commit
  vc_has_conflict :: bool

definition validation_emit :: "CommitId set \<Rightarrow> ('be, commit) emit" where
  "validation_emit selected c tree parents = Inr (cm_id c, if cm_id c \<in> selected then Some c else None)"

text \<open>Collecting into a map keeps the last entry of a key; taking an entry out yields it once.\<close>

definition surviving :: "commit history_node list \<Rightarrow> (CommitId \<rightharpoonup> validation_commit)" where
  "surviving nodes = map_of (rev (List.map_filter (\<lambda>node.
     map_option (\<lambda>c. (cm_id c, \<lparr>vc_commit = c, vc_has_conflict = node_has_conflict node\<rparr>)) (node_value node)) nodes))"

fun take_out :: "(CommitId \<rightharpoonup> validation_commit) \<Rightarrow> CommitId list \<Rightarrow> validation_commit list" where
  "take_out m [] = []"
| "take_out m (c # cs) =
     (case m c of
        None \<Rightarrow> take_out m cs
      | Some v \<Rightarrow> v # take_out (m(c := None)) cs)"

definition validation_commits ::
  "('be, 'x) native_repo_scheme \<Rightarrow> RepoPath \<Rightarrow> ('be native_error, CommitId list) result \<Rightarrow>
   ('be native_error, (CommitId \<times> CommitId) list) result \<Rightarrow>
   ('be native_error, validation_commit list) result exec option" where
  "validation_commits R mount candidates known =
     (case candidates of
        Inl e \<Rightarrow> Some (err e)
      | Inr [] \<Rightarrow> Some (ok [])
      | Inr ids \<Rightarrow>
          (case res_bind known reverse_anchors of
             Inl e \<Rightarrow> Some (err e)
           | Inr reverse \<Rightarrow>
               Option.bind (project R mount ids
                   (\<lambda>c. if c \<in> set ids then None else reverse c) (validation_emit (set ids))) (\<lambda>r.
               Some (er_bind r (\<lambda>history. ok (take_out (surviving (hist_nodes history)) ids))))))"

end
