(* ===== verification/Native_Tree_Laws.thy ===== *)
theory Native_Tree_Laws
  imports Native_Trees Repo_Path_Laws Sample_Wire
begin

text \<open>
  The trees of native projects against their leaves. \<open>has_leaf S tid names v\<close>: the tree has the file,
  link or submodule \<open>v\<close> at the path \<open>names\<close>. Wrapping a tree in a mount moves its leaves below the mount,
  reading the mount gives the tree back, and removing the mount removes exactly the leaves below it.
\<close>

section \<open>What is relied on of the store\<close>

text \<open>
  A Git backend: an object does not depend on the path it is read at, a tree that was written is read
  back, the empty tree has no entries, and the entries of a tree have distinct names. Git orders the entries
  of a tree by name and keeps no copy identifiers; the trees written here are made of entries of read ones.
\<close>

definition tree_store_law :: "('be, 'x) tree_store_scheme \<Rightarrow> bool" where
  "tree_store_law S \<longleftrightarrow>
     (\<forall>p q tid. read_tree S p tid = read_tree S q tid) \<and>
     (\<forall>p t tid. write_tree S p t = Inr tid \<longrightarrow> read_tree S p tid = Inr t) \<and>
     (\<forall>p. read_tree S p (empty_tree_id S) = Inr []) \<and>
     (\<forall>p tid t. read_tree S p tid = Inr t \<longrightarrow> distinct (map fst t))"

definition stored :: "('be, 'x) tree_store_scheme \<Rightarrow> TreeId \<Rightarrow> tree option" where
  "stored S tid = res_ok (read_tree S path_root tid)"

fun has_leaf :: "('be, 'x) tree_store_scheme \<Rightarrow> TreeId \<Rightarrow> string list \<Rightarrow> TreeValue \<Rightarrow> bool" where
  "has_leaf S tid [] v = False"
| "has_leaf S tid (n # ns) v =
     (case stored S tid of
        None \<Rightarrow> False
      | Some t \<Rightarrow>
          (case map_of t n of
             None \<Rightarrow> False
           | Some (TreeRef sub) \<Rightarrow> has_leaf S sub ns v
           | Some w \<Rightarrow> ns = [] \<and> v = w))"

lemma res_map_err_eq [simp]:
  "res_map_err f r = Inr x \<longleftrightarrow> r = Inr x"
  "res_map_err f (Inr x) = Inr x"
  by (auto simp: res_map_err_def split: sum.splits)

lemma store_reads:
  assumes "tree_store_law S"
  shows "read_tree S p tid = Inr t \<longleftrightarrow> stored S tid = Some t"
    "write_tree S p t = Inr tid \<Longrightarrow> stored S tid = Some t"
    "stored S (empty_tree_id S) = Some []"
    "stored S tid = Some t \<Longrightarrow> distinct (map fst t)"
proof -
  show 1: "read_tree S p tid = Inr t \<longleftrightarrow> stored S tid = Some t" for p tid t
    using assms by (metis tree_store_law_def stored_def res_ok_eq_Some)
  show "write_tree S p t = Inr tid \<Longrightarrow> stored S tid = Some t"
    using assms 1 by (auto simp: tree_store_law_def)
  show "stored S (empty_tree_id S) = Some []" "stored S tid = Some t \<Longrightarrow> distinct (map fst t)"
    using assms 1 unfolding tree_store_law_def by metis+
qed

lemma empty_has_no_leaf: "tree_store_law S \<Longrightarrow> \<not> has_leaf S (empty_tree_id S) ns v"
  by (cases ns) (simp_all add: store_reads(3))

section \<open>Reading\<close>

text \<open>The subtree at a path, without the errors.\<close>

lemma value_at_loop_step:
  assumes "tree_store_law S" "value_at_loop S tid p (n # ns) = Inr r"
  obtains t where "stored S tid = Some t" "map_of t n = None" "r = None"
  | t w where "stored S tid = Some t" "map_of t n = Some w" "r = Some w" "ns = [] \<or> (\<forall>i. w \<noteq> TreeRef i)"
  | t i where "stored S tid = Some t" "map_of t n = Some (TreeRef i)" "ns \<noteq> []"
      "value_at_loop S i (path_join p n) ns = Inr r"
proof -
  obtain t where t: "stored S tid = Some t" using assms by (auto simp: res_bind_eq_Inr store_reads(1)[OF assms(1)])
  then have "res_map_err BackendError (read_tree S p tid) = Inr t" by (simp add: store_reads(1)[OF assms(1)])
  then have step: "(case map_of t n of None \<Rightarrow> Inr None | Some w \<Rightarrow>
      if ns = [] then Inr (Some w) else case w of TreeRef i \<Rightarrow> value_at_loop S i (path_join p n) ns | _ \<Rightarrow> Inr (Some w)) = Inr r"
    using assms(2) by (simp add: entry_value_def del: res_map_err_eq)
  show thesis
  proof (cases "map_of t n")
    case None
    then show thesis using that(1) t step by simp
  next
    case (Some w)
    then show thesis using that(2,3) t step by (cases w; cases "ns = []") auto
  qed
qed

lemma value_at_loop_append:
  assumes "tree_store_law S" "value_at_loop S tid p ns = Inr (Some (TreeRef sub))" "ns \<noteq> []"
  shows "has_leaf S tid (ns @ rest) v \<longleftrightarrow> has_leaf S sub rest v"
  using assms(2,3)
proof (induction ns arbitrary: tid p)
  case (Cons n ns)
  from assms(1) Cons.prems(1) show ?case by (cases rule: value_at_loop_step) (auto simp: Cons.IH)
qed simp

lemma value_at_loop_None:
  assumes "tree_store_law S" "value_at_loop S tid p ns = Inr None" "ns \<noteq> []"
  shows "\<not> has_leaf S tid (ns @ rest) v"
  using assms(2,3)
proof (induction ns arbitrary: tid p)
  case (Cons n ns)
  from assms(1) Cons.prems(1) show ?case by (cases rule: value_at_loop_step) (auto simp: Cons.IH)
qed simp

lemma mount_names: "path_ok path \<Longrightarrow> components path = [] \<longleftrightarrow> is_root path"
  by (metis is_root_of names_ok_components path_of_components)

lemma tree_id_at_path_leaves:
  assumes "tree_store_law S" "path_ok path" "tree_id_at_path S tid path = Inr sub"
  shows "has_leaf S tid (components path @ rest) v \<longleftrightarrow> has_leaf S sub rest v"
proof -
  obtain r where r: "value_at_path S tid path = Inr r"
    using assms(3) by (auto simp: tree_id_at_path_def res_bind_eq_Inr)
  then have loop: "value_at_loop S tid path_root (components path) = Inr r" "components path \<noteq> []"
    using mount_names[OF assms(2)] by (auto simp: value_at_path_def split: if_splits)
  show ?thesis
  proof (cases r)
    case None
    then show ?thesis
      using assms(3) r loop value_at_loop_None[OF assms(1)] empty_has_no_leaf[OF assms(1)]
      by (auto simp: tree_id_at_path_def)
  next
    case (Some w)
    then show ?thesis
      using assms(3) r loop value_at_loop_append[OF assms(1)] by (cases w) (auto simp: tree_id_at_path_def)
  qed
qed

section \<open>Wrapping\<close>

lemma prefix_loop_snoc:
  "prefix_loop S (cs @ [n]) tid = res_bind (prefix_loop S cs tid) (\<lambda>i. res_map_err BackendError (write_tree S path_root [(n, TreeRef i)]))"
  by (induction cs arbitrary: tid) (auto simp: res_map_err_def res_bind_eq_Inr split: sum.splits)

lemma prefix_loop_reads:
  assumes "tree_store_law S" "prefix_loop S (rev ns) tid = Inr out"
  shows "has_leaf S out names v \<longleftrightarrow> (\<exists>rest. names = ns @ rest \<and> has_leaf S tid rest v)"
    and "ns \<noteq> [] \<Longrightarrow> value_at_loop S out p ns = Inr (Some (TreeRef tid))"
proof -
  have "(has_leaf S out names v \<longleftrightarrow> (\<exists>rest. names = ns @ rest \<and> has_leaf S tid rest v)) \<and>
      (ns \<noteq> [] \<longrightarrow> value_at_loop S out p ns = Inr (Some (TreeRef tid)))"
    using assms(2)
  proof (induction ns arbitrary: out names p)
    case (Cons n ns)
    then obtain i where i: "prefix_loop S (rev ns) tid = Inr i" "stored S out = Some [(n, TreeRef i)]"
      by (auto simp: prefix_loop_snoc res_bind_eq_Inr intro: store_reads(2)[OF assms(1)])
    have r: "read_tree S p out = Inr [(n, TreeRef i)]" using i(2) by (simp add: store_reads(1)[OF assms(1)])
    have "has_leaf S out names v \<longleftrightarrow> (\<exists>rest. names = (n # ns) @ rest \<and> has_leaf S tid rest v)"
      using i Cons.IH[OF i(1)] by (cases names) auto
    moreover have "value_at_loop S out p (n # ns) = Inr (Some (TreeRef tid))"
      using r i Cons.IH[OF i(1)] by (cases "ns = []") (auto simp: entry_value_def)
    ultimately show ?case by blast
  qed auto
  then show "has_leaf S out names v \<longleftrightarrow> (\<exists>rest. names = ns @ rest \<and> has_leaf S tid rest v)"
    and "ns \<noteq> [] \<Longrightarrow> value_at_loop S out p ns = Inr (Some (TreeRef tid))" by blast+
qed

section \<open>Removing\<close>

lemma map_of_without:
  "map_of (concat (map (without_entry e c final rewritten) t)) n =
     (if n \<noteq> c then map_of t n
      else if final \<or> map_of t c = None then None
      else case rewritten of Some sub \<Rightarrow> if sub \<noteq> e then Some (TreeRef sub) else None | None \<Rightarrow> None)"
proof (induction t)
  case (Cons x t)
  then show ?case by (cases x) (auto simp: without_entry_def split: option.splits)
qed simp

lemma without_rebuild_step:
  assumes "tree_store_law S" "without_rebuild S ((t, c, final) # stack) rewritten = Inr res"
  obtains mid where "without_rebuild S stack (Some mid) = Inr res"
    "stored S mid = Some (concat (map (without_entry (empty_tree_id S) c final rewritten) t))"
proof (cases "concat (map (without_entry (empty_tree_id S) c final rewritten) t) = []")
  case True
  then have "without_rebuild S stack (Some (empty_tree_id S)) = Inr res" using assms(2) by simp
  then show thesis using that store_reads(3)[OF assms(1)] True by metis
next
  case False
  then obtain mid where "write_tree S path_root (concat (map (without_entry (empty_tree_id S) c final rewritten) t)) = Inr mid"
      "without_rebuild S stack (Some mid) = Inr res"
    using assms(2) by (auto simp: Let_def res_bind_eq_Inr split: if_splits)
  then show thesis using that store_reads(2)[OF assms(1)] by blast
qed

lemma without_descend_step:
  assumes "tree_store_law S" "without_descend S cur (c # cs) stack = Inr r"
  obtains t where "stored S cur = Some t" "map_of t c = None" "r = None"
  | t w where "stored S cur = Some t" "map_of t c = Some w" "cs = []" "r = Some ((t, c, True) # stack)"
  | t i where "stored S cur = Some t" "map_of t c = Some (TreeRef i)" "cs \<noteq> []"
      "without_descend S i cs ((t, c, False) # stack) = Inr r"
proof -
  obtain t where t: "stored S cur = Some t" using assms by (auto simp: res_bind_eq_Inr store_reads(1)[OF assms(1)])
  then have read: "read_tree S path_root cur = Inr t" by (simp add: store_reads(1)[OF assms(1)])
  show thesis
  proof (cases "map_of t c")
    case None
    then show thesis using that(1) t assms(2) read by (simp add: entry_value_def Let_def)
  next
    case (Some w)
    then show thesis using that(2,3) t assms(2) read
      by (cases w; cases "cs = []") (auto simp: entry_value_def Let_def)
  qed
qed

lemma without_descend_None:
  assumes "tree_store_law S" "without_descend S cur cs stack = Inr None"
  shows "\<not> has_leaf S cur (cs @ rest) v"
  using assms(2)
proof (induction cs arbitrary: cur stack)
  case (Cons c cs)
  from assms(1) Cons.prems show ?case by (cases rule: without_descend_step) (auto simp: Cons.IH)
qed simp

lemma without_leaves:
  assumes "tree_store_law S" "cs \<noteq> []" "without_descend S cur cs stack = Inr (Some all)"
    and "without_rebuild S all None = Inr res"
  shows "\<exists>mid. without_rebuild S stack (Some mid) = Inr res \<and>
    (\<forall>names v. has_leaf S mid names v \<longleftrightarrow> has_leaf S cur names v \<and> \<not> prefix cs names)"
  using assms(2,3)
proof (induction cs arbitrary: cur stack)
  case (Cons c cs)
  note empty = empty_has_no_leaf[OF assms(1)]
  from assms(1) Cons.prems(2) show ?case
  proof (cases rule: without_descend_step)
    case (2 t w)
    then obtain mid where mid: "without_rebuild S stack (Some mid) = Inr res"
        "stored S mid = Some (concat (map (without_entry (empty_tree_id S) c True None) t))"
      using assms(4) without_rebuild_step[OF assms(1)] by (metis option.inject)
    have "has_leaf S mid names v \<longleftrightarrow> has_leaf S cur names v \<and> \<not> prefix (c # cs) names" for names v
      using mid(2) 2 by (cases names) (auto simp: map_of_without)
    then show ?thesis using mid(1) by blast
  next
    case (3 t i)
    then obtain sub where sub: "without_rebuild S ((t, c, False) # stack) (Some sub) = Inr res"
        "\<And>names v. has_leaf S sub names v \<longleftrightarrow> has_leaf S i names v \<and> \<not> prefix cs names"
      using Cons.IH by blast
    obtain mid where mid: "without_rebuild S stack (Some mid) = Inr res"
        "stored S mid = Some (concat (map (without_entry (empty_tree_id S) c False (Some sub)) t))"
      using without_rebuild_step[OF assms(1) sub(1)] .
    have "has_leaf S mid names v \<longleftrightarrow> has_leaf S cur names v \<and> \<not> prefix (c # cs) names" for names v
      using mid(2) 3(1,2) sub(2) empty by (cases names) (auto simp: map_of_without)
    then show ?thesis using mid(1) by blast
  qed simp
qed simp

section \<open>Properties\<close>

text \<open>
  (C11) Taking a project out of a tree removes exactly its content: the result of \<open>without_path\<close> has a
  file, link or submodule at a path exactly if the tree had it and the path is not below the mount.
  So importing one project never touches the content of another one.
\<close>

theorem without_path_exact:
  assumes "tree_store_law S" "without_path S tid mount = Inr out"
  shows "has_leaf S out names v \<longleftrightarrow> has_leaf S tid names v \<and> \<not> prefix (components mount) names"
proof -
  have m: "components mount \<noteq> []" using assms(2) by (auto simp: without_path_def)
  show ?thesis
  proof (cases "tid = empty_tree_id S")
    case True
    then show ?thesis using assms m empty_has_no_leaf[OF assms(1)] by (simp add: without_path_def)
  next
    case False
    then obtain r where r: "without_descend S tid (components mount) [] = Inr r"
      using assms(2) m by (auto simp: without_path_def res_bind_eq_Inr)
    show ?thesis
    proof (cases r)
      case None
      then have "out = tid" using assms(2) m False r by (simp add: without_path_def)
      then show ?thesis using without_descend_None[OF assms(1)] r None by (auto simp: prefix_def)
    next
      case (Some all)
      then obtain rw where rw: "without_rebuild S all None = Inr rw" "out = (case rw of Some i \<Rightarrow> i | None \<Rightarrow> tid)"
        using assms(2) m False r by (auto simp: without_path_def res_bind_eq_Inr)
      show ?thesis using without_leaves[OF assms(1) m _ rw(1)] r Some rw(2) by fastforce
    qed
  qed
qed

text \<open>
  (C14) Mounting and projecting are inverse: wrapping the tree of a project in its mount moves every
  leaf below the mount and adds none, and reading the mount of the wrapped tree gives the tree of the
  project back, the empty tree included.
\<close>

theorem mount_roundtrip:
  assumes "tree_store_law S" "path_ok mount" "prefix_tree S mount inner = Inr out"
  shows "tree_id_at_path S out mount = Inr inner \<and>
    (has_leaf S out names v \<longleftrightarrow> (\<exists>rest. names = components mount @ rest \<and> has_leaf S inner rest v))"
proof -
  have m: "components mount \<noteq> []" "\<not> is_root mount"
    using assms(3) mount_names[OF assms(2)] by (auto simp: prefix_tree_def split: if_splits)
  show ?thesis
  proof (cases "inner = empty_tree_id S")
    case True
    then have out: "out = inner" using assms(3) m by (simp add: prefix_tree_def)
    have "read_tree S path_root inner = Inr []" using True store_reads(1,3)[OF assms(1)] by metis
    then have "value_at_loop S inner path_root (components mount) = Inr None"
      using m(1) by (cases "components mount") (auto simp: entry_value_def)
    then show ?thesis
      using True out m empty_has_no_leaf[OF assms(1)] by (auto simp: tree_id_at_path_def value_at_path_def)
  next
    case False
    then have "prefix_loop S (rev (components mount)) inner = Inr out" using assms(3) m by (simp add: prefix_tree_def)
    from prefix_loop_reads[OF assms(1) this] m show ?thesis
      by (simp add: tree_id_at_path_def value_at_path_def)
  qed
qed

lemma check_mounts_sorted:
  "check_mounts_disjoint ms = (Inr () :: ('be native_error, unit) result) \<longleftrightarrow>
     sorted_wrt (\<lambda>x y. \<not> mounts_overlap (snd x) (snd y)) ms"
proof (induction ms)
  case (Cons m ms)
  have "check_against m ms = (Inr () :: ('be native_error, unit) result) \<longleftrightarrow> (\<forall>y \<in> set ms. \<not> mounts_overlap (snd m) (snd y))"
    by (induction ms) auto
  then show ?case using Cons by (simp add: res_bind_eq_Inr)
qed simp

lemma overlap_common:
  assumes "path_ok p" "path_ok q"
  shows "mounts_overlap p q \<longleftrightarrow> (\<exists>names. prefix (components p) names \<and> prefix (components q) names)"
  using assms prefix_same_cases
  by (fastforce simp: mounts_overlap_def starts_with_components)

text \<open>
  (C34) The check of the mounts of an import accepts them exactly if no path of the repository lies
  below two of them, so that no two imported sources ever write the same file.
\<close>

theorem mounts_disjoint_exact:
  assumes "\<forall>m \<in> set ms. path_ok (snd m)"
  shows "check_mounts_disjoint ms = (Inr () :: ('be native_error, unit) result) \<longleftrightarrow>
    (\<forall>i j names. i < j \<and> j < length ms \<longrightarrow>
      \<not> (prefix (components (snd (ms ! i))) names \<and> prefix (components (snd (ms ! j))) names))"
proof -
  have "mounts_overlap (snd (ms ! i)) (snd (ms ! j)) \<longleftrightarrow>
      (\<exists>names. prefix (components (snd (ms ! i))) names \<and> prefix (components (snd (ms ! j))) names)"
    if "i < j" "j < length ms" for i j
    using overlap_common assms that by auto
  then show ?thesis unfolding check_mounts_sorted sorted_wrt_iff_nth_less by blast
qed

section \<open>A sample store\<close>

text \<open>The identifier of a tree is the tree itself, written as bytes.\<close>

definition read_bytes :: "bytes reader" where
  "read_bytes = read_list (read_as of_nat read_nat)"

definition write_bytes :: "bytes \<Rightarrow> bytes" where
  "write_bytes = write_list (\<lambda>b. write_nat (unat b))"

lemma reads_bytes: "reads_back read_bytes write_bytes bs"
  unfolding read_bytes_def write_bytes_def by (intro reads_list ballI reads_as reads_nat) simp

definition value_fields :: "TreeValue \<Rightarrow> nat \<times> bytes \<times> bool \<times> bytes" where
  "value_fields v =
     (case v of
        FileValue (FileId f) x (CopyId c) \<Rightarrow> (0, f, x, c)
      | SymlinkValue (SymlinkId s) \<Rightarrow> (1, s, False, [])
      | TreeRef (TreeId t) \<Rightarrow> (2, t, False, [])
      | GitSubmodule (CommitId c) \<Rightarrow> (3, c, False, []))"

definition fields_value :: "nat \<times> bytes \<times> bool \<times> bytes \<Rightarrow> TreeValue" where
  "fields_value q =
     (case q of (k, a, x, c) \<Rightarrow>
        if k = 0 then FileValue (FileId a) x (CopyId c) else if k = 1 then SymlinkValue (SymlinkId a)
        else if k = 2 then TreeRef (TreeId a) else GitSubmodule (CommitId a))"

lemma fields_value_fields: "fields_value (value_fields v) = v"
  by (auto simp: fields_value_def value_fields_def split: TreeValue.splits FileId.splits CopyId.splits
      SymlinkId.splits TreeId.splits CommitId.splits)

definition read_entries :: "tree reader" where
  "read_entries = read_list (read_pair read_string
     (read_as fields_value (read_pair read_nat (read_pair read_bytes (read_pair read_bool read_bytes)))))"

definition write_entries :: "tree \<Rightarrow> bytes" where
  "write_entries = write_list (write_pair write_string
     (\<lambda>v. write_pair write_nat (write_pair write_bytes (write_pair write_bool write_bytes)) (value_fields v)))"

lemma reads_entries: "reads_back read_entries write_entries t"
  unfolding read_entries_def write_entries_def
  by (intro reads_list ballI reads_basic reads_bytes) (simp add: fields_value_fields)

definition sample_store :: "unit tree_store" where
  "sample_store =
     \<lparr>read_tree = (\<lambda>p tid. case tid of TreeId bs \<Rightarrow>
        (case read_entries bs of
           Some (t, []) \<Rightarrow> if distinct (map fst t) then Inr t else Inl ()
         | _ \<Rightarrow> Inl ())),
      write_tree = (\<lambda>p t. if distinct (map fst t) then Inr (TreeId (write_entries t)) else Inl ()),
      empty_tree_id = TreeId (write_entries [])\<rparr>"

lemma read_write_entries [simp]: "read_entries (write_entries t) = Some (t, [])"
  using reads_entries[of t] append_Nil2[of "write_entries t"] unfolding reads_back_def by metis

lemma write_entries_inject [simp]: "write_entries t = write_entries u \<longleftrightarrow> t = u"
  by (metis read_write_entries option.inject prod.inject)

lemma sample_store_law: "tree_store_law sample_store"
  by (auto simp: tree_store_law_def sample_store_def split: option.splits list.splits if_splits TreeId.splits)

lemma sample_store_simps:
  "read_tree sample_store p (TreeId (write_entries t)) = (if distinct (map fst t) then Inr t else Inl ())"
  "write_tree sample_store p t = (if distinct (map fst t) then Inr (TreeId (write_entries t)) else Inl ())"
  "empty_tree_id sample_store = TreeId (write_entries [])"
  by (simp_all add: sample_store_def)

definition sample_file :: TreeValue where
  "sample_file = FileValue (FileId [1]) False (CopyId [])"

definition sample_tree :: TreeId where
  "sample_tree = TreeId (write_entries [(''f'', sample_file)])"

definition sample_root :: TreeId where
  "sample_root = TreeId (write_entries [(''a'', TreeRef sample_tree), (''z'', sample_file)])"

lemma sample_mounts:
  "components (RepoPath ''a'') = [''a'']" "components (RepoPath ''a/b'') = [''a'', ''b'']" "path_ok (RepoPath ''a/b'')"
  "path_ok (RepoPath ''c'')" "components (RepoPath ''c'') = [''c'']"
  by code_simp+

theorem without_path_exact_witness:
  "\<exists>out. without_path sample_store sample_root (RepoPath ''a'') = Inr out \<and>
     has_leaf sample_store out [''z''] sample_file \<and> \<not> has_leaf sample_store out [''a'', ''f''] sample_file"
proof -
  have "without_path sample_store sample_root (RepoPath ''a'') = Inr (TreeId (write_entries [(''z'', sample_file)]))"
    by (simp add: without_path_def sample_mounts sample_root_def sample_store_simps entry_value_def without_entry_def)
  moreover have "has_leaf sample_store sample_root [''z''] sample_file"
    by (simp add: stored_def sample_root_def sample_store_simps sample_file_def)
  ultimately show ?thesis
    using without_path_exact[OF sample_store_law, of sample_root "RepoPath ''a''" "TreeId (write_entries [(''z'', sample_file)])"]
    by (simp add: sample_mounts del: has_leaf.simps)
qed

theorem mount_roundtrip_witness:
  "\<exists>out. prefix_tree sample_store (RepoPath ''a/b'') sample_tree = Inr out \<and>
     tree_id_at_path sample_store out (RepoPath ''a/b'') = Inr sample_tree \<and>
     has_leaf sample_store out [''a'', ''b'', ''f''] sample_file"
proof -
  have "\<exists>out. prefix_tree sample_store (RepoPath ''a/b'') sample_tree = Inr out"
    by (simp add: prefix_tree_def sample_mounts(2) sample_store_simps is_root_def sample_tree_def)
  then obtain out where out: "prefix_tree sample_store (RepoPath ''a/b'') sample_tree = Inr out" ..
  have "has_leaf sample_store sample_tree [''f''] sample_file"
    by (simp add: stored_def sample_tree_def sample_store_simps sample_file_def)
  then show ?thesis
    using out mount_roundtrip[OF sample_store_law sample_mounts(3) out, of "[''a'', ''b'', ''f'']" sample_file]
    by (simp add: sample_mounts(2) del: has_leaf.simps)
qed

theorem mounts_disjoint_exact_witness:
  "check_mounts_disjoint [(''p'', RepoPath ''a/b''), (''q'', RepoPath ''c'')] = (Inr () :: (unit native_error, unit) result)"
proof -
  have "\<not> (prefix [''a'', ''b''] names \<and> prefix [''c''] names)" for names by (cases names) auto
  moreover have "i < j \<and> j < 2 \<longleftrightarrow> i = 0 \<and> j = 1" for i j :: nat by auto
  ultimately show ?thesis
    using mounts_disjoint_exact[of "[(''p'', RepoPath ''a/b''), (''q'', RepoPath ''c'')]"]
    by (simp add: sample_mounts numeral_2_eq_2)
qed

end
