(* ===== verification/Project_History_Laws.thy ===== *)
theory Project_History_Laws
  imports Project_History Native_Tree_Laws Merge_Laws
begin

text \<open>
  The projection of a history: over commits that are not their own ancestors the walk ends without a
  panic, and it satisfies a recursive description of the projected graph (\<open>placed\<close>), from which the
  properties of the arena follow: parents come first, every head keeps its projected tree, and the
  parents of a node are distinct.
\<close>

section \<open>Trees of commits\<close>

text \<open>
  What the types and the documentation promise of stored commits: the tree is a merge with an odd
  number of terms, labelled for all of its terms or not at all; merging trees resolves a merge or keeps
  its number of terms.
\<close>

definition commit_ok :: "commit \<Rightarrow> bool" where
  "commit_ok c \<longleftrightarrow>
     merge_ok (bc_root_tree (cm_data c)) \<and>
     (has_labels (labels_from_merge (bc_conflict_labels (cm_data c))) \<longrightarrow>
        length (merge_values (bc_conflict_labels (cm_data c))) = length (merge_values (bc_root_tree (cm_data c))))"

definition merge_trees_law :: "('be, 'x) native_repo_scheme \<Rightarrow> bool" where
  "merge_trees_law R \<longleftrightarrow>
     (\<forall>m m'. merge_ok m \<longrightarrow> merge_trees R m = Inr m' \<longrightarrow>
        merge_ok m' \<and> (is_resolved m' \<or> length (merge_values m') = length (merge_values m)))"

lemma labels_from_merge_merge: "has_labels (labels_from_merge m) \<Longrightarrow> labels_as_merge (labels_from_merge m) = m"
  by (auto simp: labels_from_merge_def has_labels_def unlabeled_def is_resolved_def resolved_def split: if_splits)

lemma list_try_map_length: "list_try_map f xs = Inr ys \<Longrightarrow> length ys = length xs"
  by (induction xs arbitrary: ys) (auto simp: res_bind_eq_Inr)

lemma simplify_with_returns:
  assumes "merge_ok m" "has_labels l \<longrightarrow> length (merge_values (labels_as_merge l)) = length (merge_values m)"
  shows "\<exists>r. simplify_with l m = Returns r"
proof (cases "has_labels l")
  case True
  let ?z = "Merge (zip (merge_values (labels_as_merge l)) (merge_values m))"
  have z: "merge_zip (labels_as_merge l) m = Returns ?z" using True assms(2) by (simp add: merge_zip_def)
  have "merge_map_terms snd ?z = m" using True assms(2) by (simp add: merge_map_terms_def)
  then obtain ix where "get_simplified_mapping (merge_map_terms snd ?z) = Returns ix"
    using get_simplified_mapping_spec[OF assms(1)] by auto
  then show ?thesis using True z by (simp add: simplify_with_def simplify_by_def merge_unzip_def)
next
  case False
  obtain m' where "simplify m = Returns m'" using simplify_spec[OF assms(1)] by blast
  then show ?thesis using False by (simp add: simplify_with_def)
qed

lemma project_tree_returns:
  assumes "commit_ok c" "merge_trees_law R"
  shows "\<exists>r. project_tree R c mount = Returns r"
proof (cases "try_map (\<lambda>tid. tree_id_at_path R tid mount) (bc_root_tree (cm_data c))")
  case (Inl e)
  then show ?thesis by (simp add: project_tree_def er_bind_def)
next
  case (Inr ids)
  let ?root = "bc_root_tree (cm_data c)" and ?l = "labels_from_merge (bc_conflict_labels (cm_data c))"
  have len: "length (merge_values ids) = length (merge_values ?root)"
    using Inr list_try_map_length by (fastforce simp: try_map_def res_bind_eq_Inr)
  have ok: "merge_ok ids" using len assms(1) by (simp add: commit_ok_def merge_ok_def)
  have lab: "has_labels ?l \<longrightarrow> length (merge_values (labels_as_merge ?l)) = length (merge_values ?root)"
    using assms(1) labels_from_merge_merge by (auto simp: commit_ok_def)
  have new: "merged_tree_new m ?l = Returns \<lparr>mt_tree_ids = m, mt_labels = ?l\<rparr>"
    if "length (merge_values m) = length (merge_values ?root)" for m
    using lab that by (auto simp: merged_tree_new_def labels_num_sides_def num_sides_def split: option.splits)
  have "\<exists>r. merged_tree_resolve R \<lparr>mt_tree_ids = ids, mt_labels = ?l\<rparr> = Returns r"
  proof (cases "merge_trees R ids")
    case (Inr merged)
    then have m: "merge_ok merged" "is_resolved merged \<or> length (merge_values merged) = length (merge_values ids)"
      using assms(2) ok by (auto simp: merge_trees_law_def)
    show ?thesis
    proof (cases "is_resolved merged")
      case True
      then show ?thesis using Inr by (simp add: merged_tree_resolve_def er_bind_def ok_def)
    next
      case False
      then obtain r where "simplify_with ?l merged = Returns r"
        using simplify_with_returns[OF m(1)] m(2) lab len by fastforce
      then show ?thesis using Inr False by (cases r) (simp add: merged_tree_resolve_def er_bind_def ok_def)
    qed
  qed (simp add: merged_tree_resolve_def er_bind_def res_map_err_def)
  then show ?thesis using Inr new len by (simp add: project_tree_def er_bind_def commit_tree_def)
qed

section \<open>The projected graph\<close>

definition parent_of :: "('be, 'x) native_repo_scheme \<Rightarrow> CommitId \<Rightarrow> CommitId \<Rightarrow> bool" where
  "parent_of R p c \<longleftrightarrow> (\<exists>d. get_commit R c = Inr d \<and> p \<in> set (bc_parents (cm_data d)))"

text \<open>The commits that a walk from the heads meets: it stops at the root and at boundaries.\<close>

inductive met :: "('be, 'x) native_repo_scheme \<Rightarrow> (CommitId \<rightharpoonup> CommitId) \<Rightarrow> CommitId set \<Rightarrow> CommitId \<Rightarrow> bool"
  for R boundary heads where
  met_head: "c \<in> heads \<Longrightarrow> met R boundary heads c"
| met_parent: "met R boundary heads c \<Longrightarrow> c \<noteq> root_commit_id R \<Longrightarrow> boundary c = None \<Longrightarrow> parent_of R p c \<Longrightarrow>
    met R boundary heads p"

text \<open>
  Of stored commits: the identifier is the one asked for, no commit is its own ancestor, the trees are
  well formed. A walk may rely on it: identifiers are hashes of the content.
\<close>

definition history_law :: "('be, 'x) native_repo_scheme \<Rightarrow> bool" where
  "history_law R \<longleftrightarrow>
     (\<forall>c d. get_commit R c = Inr d \<longrightarrow> cm_id d = c \<and> commit_ok d) \<and> wfp (parent_of R) \<and> merge_trees_law R"

text \<open>The entries of the parents, and the place of a commit in the arena.\<close>

definition entries_of ::
  "'t history_node list \<Rightarrow> (CommitId \<rightharpoonup> projected) \<Rightarrow> CommitId list \<Rightarrow> (projected \<times> CommitId) list \<Rightarrow> bool" where
  "entries_of nodes mapped cs qs \<longleftrightarrow>
     list_all2 (\<lambda>c q. mapped c = Some (fst q) \<and> proj_node (fst q) < length nodes \<and> snd q = node_id (nodes ! proj_node (fst q))) cs qs"

definition parent_indices :: "(projected \<times> CommitId) list \<Rightarrow> nat list" where
  "parent_indices parents = (if parents = [] then [0] else map (\<lambda>q. proj_node (fst q)) parents)"

definition made ::
  "('be, 'x) native_repo_scheme \<Rightarrow> (CommitId \<rightharpoonup> CommitId) \<Rightarrow> ('be, 't) emit \<Rightarrow> commit \<Rightarrow> merged_tree \<Rightarrow>
   't history_node list \<Rightarrow> (projected \<times> CommitId) list \<Rightarrow> nat \<Rightarrow> bool" where
  "made R boundary emit d t nodes parents i \<longleftrightarrow>
     (\<forall>j \<in> set (parent_indices parents). j < i) \<and>
     (\<exists>cid v. emit d t (map (\<lambda>j. node_id (nodes ! j)) (parent_indices parents)) = Inr (cid, v) \<and>
        nodes ! i = \<lparr>node_id = cid, node_value = v, node_parents = parent_indices parents, node_has_conflict = has_conflict t\<rparr>)"

definition position ::
  "('be, 'x) native_repo_scheme \<Rightarrow> (CommitId \<rightharpoonup> CommitId) \<Rightarrow> ('be, 't) emit \<Rightarrow> commit \<Rightarrow> merged_tree \<Rightarrow>
   't history_node list \<Rightarrow> (CommitId \<rightharpoonup> projected) \<Rightarrow> CommitId \<Rightarrow> projected \<Rightarrow> bool" where
  "position R boundary emit d t nodes mapped c p \<longleftrightarrow>
     (case boundary c of
        Some r \<Rightarrow> nodes ! proj_node p = \<lparr>node_id = r, node_value = None, node_parents = [], node_has_conflict = has_conflict t\<rparr>
      | None \<Rightarrow>
          \<exists>qs. entries_of nodes mapped (bc_parents (cm_data d)) qs \<and>
            (case same_parent (projected_parents (root_commit_id R) qs) qs (mt_tree_ids t) of
               Some q \<Rightarrow> p = q
             | None \<Rightarrow> made R boundary emit d t nodes (projected_parents (root_commit_id R) qs) (proj_node p)))"

definition placed ::
  "('be, 'x) native_repo_scheme \<Rightarrow> RepoPath \<Rightarrow> (CommitId \<rightharpoonup> CommitId) \<Rightarrow> ('be, 't) emit \<Rightarrow>
   't history_node list \<Rightarrow> (CommitId \<rightharpoonup> projected) \<Rightarrow> CommitId \<Rightarrow> projected \<Rightarrow> bool" where
  "placed R mount boundary emit nodes mapped c p \<longleftrightarrow>
     proj_node p < length nodes \<and>
     (if c = root_commit_id R then p = \<lparr>proj_node = 0, proj_tree = resolved (empty_tree_id R)\<rparr>
      else \<exists>d t. get_commit R c = Inr d \<and> project_tree R d mount = ok t \<and> proj_tree p = mt_tree_ids t \<and>
        position R boundary emit d t nodes mapped c p)"

text \<open>A node other than the root is the boundary or the emitted form of a commit.\<close>

definition owns ::
  "('be, 'x) native_repo_scheme \<Rightarrow> RepoPath \<Rightarrow> (CommitId \<rightharpoonup> CommitId) \<Rightarrow> ('be, 't) emit \<Rightarrow>
   't history_node list \<Rightarrow> (CommitId \<rightharpoonup> projected) \<Rightarrow> CommitId \<Rightarrow> projected \<Rightarrow> bool" where
  "owns R mount boundary emit nodes mapped c p \<longleftrightarrow>
     c \<noteq> root_commit_id R \<and> mapped c = Some p \<and>
     (\<exists>d t. get_commit R c = Inr d \<and> project_tree R d mount = ok t \<and>
        (case boundary c of
           Some r \<Rightarrow> nodes ! proj_node p = \<lparr>node_id = r, node_value = None, node_parents = [], node_has_conflict = has_conflict t\<rparr>
         | None \<Rightarrow> \<exists>qs. entries_of nodes mapped (bc_parents (cm_data d)) qs \<and>
             made R boundary emit d t nodes (projected_parents (root_commit_id R) qs) (proj_node p)))"

definition history_inv ::
  "('be, 'x) native_repo_scheme \<Rightarrow> RepoPath \<Rightarrow> (CommitId \<rightharpoonup> CommitId) \<Rightarrow> ('be, 't) emit \<Rightarrow> CommitId set \<Rightarrow>
   't history_node list \<Rightarrow> (CommitId \<rightharpoonup> projected) \<Rightarrow> bool" where
  "history_inv R mount boundary emit heads nodes mapped \<longleftrightarrow>
     nodes \<noteq> [] \<and> nodes ! 0 = root_node (root_commit_id R) \<and>
     root_commit_id R \<in> dom mapped \<and>
     (\<forall>c p. mapped c = Some p \<longrightarrow>
        placed R mount boundary emit nodes mapped c p \<and> (c = root_commit_id R \<or> met R boundary heads c)) \<and>
     (\<forall>i. 0 < i \<and> i < length nodes \<longrightarrow> (\<exists>c p. owns R mount boundary emit nodes mapped c p \<and> proj_node p = i))"

definition extends ::
  "'t history_node list \<Rightarrow> (CommitId \<rightharpoonup> projected) \<Rightarrow> 't history_node list \<Rightarrow> (CommitId \<rightharpoonup> projected) \<Rightarrow> bool" where
  "extends nodes mapped nodes' mapped' \<longleftrightarrow> (\<exists>new. nodes' = nodes @ new) \<and> mapped \<subseteq>\<^sub>m mapped'"

lemma extends_refl: "extends nodes mapped nodes mapped"
  by (simp add: extends_def)

lemma extends_trans: "extends n1 m1 n2 m2 \<Longrightarrow> extends n2 m2 n3 m3 \<Longrightarrow> extends n1 m1 n3 m3"
  by (auto simp: extends_def intro: map_le_trans)

lemma extends_mapped: "extends nodes mapped nodes' mapped' \<Longrightarrow> mapped c = Some p \<Longrightarrow> mapped' c = Some p"
  by (auto simp: extends_def map_le_def domIff) (metis domI option.distinct(1))

lemma extends_nth: "extends nodes mapped nodes' mapped' \<Longrightarrow> i < length nodes \<Longrightarrow> i < length nodes' \<and> nodes' ! i = nodes ! i"
  by (auto simp: extends_def nth_append)

lemma entries_of_extends:
  "extends nodes mapped nodes' mapped' \<Longrightarrow> entries_of nodes mapped cs qs \<Longrightarrow> entries_of nodes' mapped' cs qs"
  unfolding entries_of_def by (erule list_all2_mono) (auto dest: extends_mapped extends_nth)

lemma made_extends:
  assumes "extends nodes mapped nodes' mapped'" "made R boundary emit d t nodes parents i" "i < length nodes"
  shows "made R boundary emit d t nodes' parents i"
proof -
  have n: "nodes' ! j = nodes ! j" if "j \<le> i" for j using extends_nth[OF assms(1), of j] that assms(3) by simp
  have "map (\<lambda>j. node_id (nodes' ! j)) (parent_indices parents) = map (\<lambda>j. node_id (nodes ! j)) (parent_indices parents)"
    using assms(2) n by (auto simp: made_def)
  moreover have "nodes' ! i = nodes ! i" using n by simp
  ultimately show ?thesis using assms(2) unfolding made_def by (simp only:) blast
qed

lemma position_extends:
  assumes "extends nodes mapped nodes' mapped'" "position R boundary emit d t nodes mapped c p" "proj_node p < length nodes"
  shows "position R boundary emit d t nodes' mapped' c p"
proof (cases "boundary c")
  case None
  then obtain qs where qs: "entries_of nodes mapped (bc_parents (cm_data d)) qs"
      "case same_parent (projected_parents (root_commit_id R) qs) qs (mt_tree_ids t) of
         Some q \<Rightarrow> p = q
       | None \<Rightarrow> made R boundary emit d t nodes (projected_parents (root_commit_id R) qs) (proj_node p)"
    using assms(2) by (auto simp: position_def)
  have "case same_parent (projected_parents (root_commit_id R) qs) qs (mt_tree_ids t) of
         Some q \<Rightarrow> p = q
       | None \<Rightarrow> made R boundary emit d t nodes' (projected_parents (root_commit_id R) qs) (proj_node p)"
    using qs(2) made_extends[OF assms(1) _ assms(3)] by (simp split: option.splits)
  then show ?thesis using entries_of_extends[OF assms(1) qs(1)] None unfolding position_def by auto
next
  case (Some r)
  then show ?thesis using assms(2) extends_nth[OF assms(1,3)] by (simp add: position_def)
qed

lemma placed_extends:
  assumes "extends nodes mapped nodes' mapped'" "placed R mount boundary emit nodes mapped c p"
  shows "placed R mount boundary emit nodes' mapped' c p"
  using assms position_extends[OF assms(1)] extends_nth[OF assms(1), of "proj_node p"] unfolding placed_def
  by (auto split: if_splits)

lemma owns_extends:
  assumes "extends nodes mapped nodes' mapped'" "owns R mount boundary emit nodes mapped c p" "proj_node p < length nodes"
  shows "owns R mount boundary emit nodes' mapped' c p"
proof -
  obtain d t where d: "c \<noteq> root_commit_id R" "mapped c = Some p" "get_commit R c = Inr d" "project_tree R d mount = ok t"
      "case boundary c of
         Some r \<Rightarrow> nodes ! proj_node p = \<lparr>node_id = r, node_value = None, node_parents = [], node_has_conflict = has_conflict t\<rparr>
       | None \<Rightarrow> \<exists>qs. entries_of nodes mapped (bc_parents (cm_data d)) qs \<and>
           made R boundary emit d t nodes (projected_parents (root_commit_id R) qs) (proj_node p)"
    using assms(2) unfolding owns_def by blast
  have "case boundary c of
         Some r \<Rightarrow> nodes' ! proj_node p = \<lparr>node_id = r, node_value = None, node_parents = [], node_has_conflict = has_conflict t\<rparr>
       | None \<Rightarrow> \<exists>qs. entries_of nodes' mapped' (bc_parents (cm_data d)) qs \<and>
           made R boundary emit d t nodes' (projected_parents (root_commit_id R) qs) (proj_node p)"
  proof (cases "boundary c")
    case None
    then obtain qs where "entries_of nodes mapped (bc_parents (cm_data d)) qs"
        "made R boundary emit d t nodes (projected_parents (root_commit_id R) qs) (proj_node p)"
      using d(5) by auto
    then have "entries_of nodes' mapped' (bc_parents (cm_data d)) qs"
        "made R boundary emit d t nodes' (projected_parents (root_commit_id R) qs) (proj_node p)"
      using entries_of_extends[OF assms(1)] made_extends[OF assms(1) _ assms(3)] by blast+
    then show ?thesis using None by auto
  next
    case (Some r)
    then show ?thesis using d(5) extends_nth[OF assms(1,3)] by simp
  qed
  then show ?thesis using d(1-4) extends_mapped[OF assms(1) d(2)] unfolding owns_def by blast
qed

lemma history_inv_owned:
  "history_inv R mount boundary emit heads nodes mapped \<Longrightarrow> 0 < i \<Longrightarrow> i < length nodes \<Longrightarrow>
     \<exists>c p. owns R mount boundary emit nodes mapped c p \<and> proj_node p = i"
  unfolding history_inv_def by (elim conjE) simp

lemma history_inv_placed:
  "history_inv R mount boundary emit heads nodes mapped \<Longrightarrow> mapped c = Some p \<Longrightarrow>
     placed R mount boundary emit nodes mapped c p \<and> (c = root_commit_id R \<or> met R boundary heads c)"
  unfolding history_inv_def by (elim conjE) simp

lemma history_inv_extends:
  assumes "history_inv R mount boundary emit heads nodes mapped" "extends nodes mapped nodes' mapped'"
    and "\<And>c p. mapped' c = Some p \<Longrightarrow> mapped c = None \<Longrightarrow>
      placed R mount boundary emit nodes' mapped' c p \<and> met R boundary heads c"
    and "\<And>i. length nodes \<le> i \<Longrightarrow> i < length nodes' \<Longrightarrow> \<exists>c p. owns R mount boundary emit nodes' mapped' c p \<and> proj_node p = i"
  shows "history_inv R mount boundary emit heads nodes' mapped'"
proof -
  have "placed R mount boundary emit nodes' mapped' c p \<and> (c = root_commit_id R \<or> met R boundary heads c)"
    if "mapped' c = Some p" for c p
  proof (cases "mapped c")
    case (Some q)
    then have "q = p" using extends_mapped[OF assms(2)] that by fastforce
    then have "placed R mount boundary emit nodes mapped c p" "c = root_commit_id R \<or> met R boundary heads c"
      using history_inv_placed[OF assms(1) Some] by simp_all
    then show ?thesis using placed_extends[OF assms(2)] by blast
  qed (use assms(3) that in blast)
  moreover have "root_commit_id R \<in> dom mapped'"
    using assms(1) extends_mapped[OF assms(2)] by (auto simp: history_inv_def)
  moreover have "nodes' \<noteq> []" "nodes' ! 0 = root_node (root_commit_id R)"
    using assms(1,2) extends_nth[OF assms(2), of 0] by (auto simp: history_inv_def extends_def)
  moreover have "\<exists>c p. owns R mount boundary emit nodes' mapped' c p \<and> proj_node p = i" if i: "0 < i" "i < length nodes'" for i
  proof (cases "i < length nodes")
    case True
    then obtain c p where p: "owns R mount boundary emit nodes mapped c p" "proj_node p = i"
      using history_inv_owned[OF assms(1) i(1)] by blast
    then have "owns R mount boundary emit nodes' mapped' c p" using owns_extends[OF assms(2) p(1)] True by simp
    then show ?thesis using p(2) by blast
  qed (use assms(4) i in simp)
  ultimately show ?thesis unfolding history_inv_def by (intro conjI allI impI) (simp_all only: not_False_eq_True)
qed

section \<open>One commit\<close>

definition blamed ::
  "('be, 'x) native_repo_scheme \<Rightarrow> RepoPath \<Rightarrow> (CommitId \<rightharpoonup> CommitId) \<Rightarrow> ('be, 't) emit \<Rightarrow> CommitId set \<Rightarrow> 'be native_error \<Rightarrow> bool" where
  "blamed R mount boundary emit heads e \<longleftrightarrow>
     (\<exists>c. met R boundary heads c \<and>
        ((\<exists>b. get_commit R c = Inl b \<and> e = BackendError b) \<or>
         (\<exists>d. get_commit R c = Inr d \<and>
            (project_tree R d mount = err e \<or> (\<exists>t ids. project_tree R d mount = ok t \<and> emit d t ids = Inl e)))))"

text \<open>Only ancestors of the commits \<open>cs\<close> are entered.\<close>

definition new_below ::
  "('be, 'x) native_repo_scheme \<Rightarrow> CommitId set \<Rightarrow> (CommitId \<rightharpoonup> projected) \<Rightarrow> (CommitId \<rightharpoonup> projected) \<Rightarrow> bool" where
  "new_below R cs mapped mapped' \<longleftrightarrow> (\<forall>x \<in> dom mapped' - dom mapped. \<exists>c \<in> cs. (parent_of R)\<^sup>*\<^sup>* x c)"

definition advances ::
  "('be, 'x) native_repo_scheme \<Rightarrow> RepoPath \<Rightarrow> (CommitId \<rightharpoonup> CommitId) \<Rightarrow> ('be, 't) emit \<Rightarrow> CommitId set \<Rightarrow>
   history_visit list \<Rightarrow> history_visit list \<Rightarrow> 't history_node list \<Rightarrow> (CommitId \<rightharpoonup> projected) \<Rightarrow> CommitId set \<Rightarrow> bool" where
  "advances R mount boundary emit heads pending rest nodes mapped cs \<longleftrightarrow>
     (\<exists>e. project_loop R mount boundary emit pending nodes mapped = Some (err e) \<and> blamed R mount boundary emit heads e) \<or>
     (\<exists>nodes' mapped'.
        project_loop R mount boundary emit pending nodes mapped = project_loop R mount boundary emit rest nodes' mapped' \<and>
        history_inv R mount boundary emit heads nodes' mapped' \<and> extends nodes mapped nodes' mapped' \<and> cs \<subseteq> dom mapped' \<and>
        new_below R cs mapped mapped')"

lemma project_loop_Cons:
  "project_loop R mount boundary emit (v # rest) nodes mapped =
     (case project_step R mount boundary emit v nodes mapped of
        Panics \<Rightarrow> Some Panics
      | Returns (Inl e) \<Rightarrow> Some (err e)
      | Returns (Inr (pushed, nodes', mapped')) \<Rightarrow> project_loop R mount boundary emit (pushed @ rest) nodes' mapped')"
  by (subst project_loop.simps) simp

lemma advances_fail:
  "project_step R mount boundary emit v nodes mapped = err e \<Longrightarrow> blamed R mount boundary emit heads e \<Longrightarrow>
     advances R mount boundary emit heads (v # rest) rest nodes mapped cs"
  by (auto simp: advances_def project_loop_Cons err_def)

lemma advances_done:
  "project_step R mount boundary emit v nodes mapped = ok ([], nodes', mapped') \<Longrightarrow>
     history_inv R mount boundary emit heads nodes' mapped' \<Longrightarrow> extends nodes mapped nodes' mapped' \<Longrightarrow> cs \<subseteq> dom mapped' \<Longrightarrow>
     dom mapped' \<subseteq> dom mapped \<union> cs \<Longrightarrow> advances R mount boundary emit heads (v # rest) rest nodes mapped cs"
proof -
  assume step: "project_step R mount boundary emit v nodes mapped = ok ([], nodes', mapped')"
    and inv: "history_inv R mount boundary emit heads nodes' mapped'" "extends nodes mapped nodes' mapped'" "cs \<subseteq> dom mapped'"
    and new: "dom mapped' \<subseteq> dom mapped \<union> cs"
  have "project_loop R mount boundary emit (v # rest) nodes mapped = project_loop R mount boundary emit rest nodes' mapped'"
    using step by (simp add: project_loop_Cons ok_def)
  moreover have "new_below R cs mapped mapped'" using new unfolding new_below_def by blast
  ultimately show ?thesis using inv unfolding advances_def by blast
qed

lemma set_first_by_id: "set (first_by_id seen qs) \<subseteq> set qs"
  by (induction seen qs rule: first_by_id.induct) auto

lemma set_projected_parents: "set (projected_parents root qs) \<subseteq> set qs"
  using set_first_by_id[of "{}" qs] by (auto simp: projected_parents_def Let_def)

lemma entries_of_bound: "entries_of nodes mapped cs qs \<Longrightarrow> q \<in> set qs \<Longrightarrow> proj_node (fst q) < length nodes"
  by (auto simp: entries_of_def list_all2_conv_all_nth in_set_conv_nth)

lemma parent_entries:
  assumes "history_inv R mount boundary emit heads nodes mapped" "set cs \<subseteq> dom mapped"
  shows "\<exists>qs. exec_map (parent_entry nodes mapped) cs = Returns qs \<and> entries_of nodes mapped cs qs"
  using assms(2)
proof (induction cs)
  case (Cons c cs)
  then obtain p qs where p: "mapped c = Some p" and qs: "exec_map (parent_entry nodes mapped) cs = Returns qs" "entries_of nodes mapped cs qs"
    by auto
  have "proj_node p < length nodes" using assms(1) p by (auto simp: history_inv_def placed_def)
  then have "parent_entry nodes mapped c = Returns (p, node_id (nodes ! proj_node p))"
      "entries_of nodes mapped (c # cs) ((p, node_id (nodes ! proj_node p)) # qs)"
    using p qs(2) by (simp_all add: parent_entry_def lookup_exec_def unwrap_def index_exec_def entries_of_def)
  then show ?case using qs(1) by simp
qed (simp add: entries_of_def)

lemma extends_new: "mapped c = None \<Longrightarrow> extends nodes mapped (nodes @ new) (mapped(c \<mapsto> p))"
  by (auto simp: extends_def map_le_def)

lemma add_commit:
  assumes "history_inv R mount boundary emit heads nodes mapped" "mapped c = None" "met R boundary heads c"
    and "c \<noteq> root_commit_id R" "get_commit R c = Inr d" "project_tree R d mount = ok t" "proj_tree p = mt_tree_ids t"
    and "proj_node p < length (nodes @ new)" "position R boundary emit d t (nodes @ new) (mapped(c \<mapsto> p)) c p"
    and "new = [] \<or> (\<exists>n. new = [n]) \<and> proj_node p = length nodes \<and> owns R mount boundary emit (nodes @ new) (mapped(c \<mapsto> p)) c p"
  shows "history_inv R mount boundary emit heads (nodes @ new) (mapped(c \<mapsto> p))"
proof (rule history_inv_extends[OF assms(1) extends_new[where mapped = mapped and c = c, OF assms(2)]])
  fix c' p' assume "(mapped(c \<mapsto> p)) c' = Some p'" "mapped c' = None"
  then have "c' = c" "p' = p" by (auto split: if_splits)
  moreover have "placed R mount boundary emit (nodes @ new) (mapped(c \<mapsto> p)) c p"
    using assms(4-9) unfolding placed_def by auto
  ultimately show "placed R mount boundary emit (nodes @ new) (mapped(c \<mapsto> p)) c' p' \<and> met R boundary heads c'"
    using assms(3) by simp
next
  fix i assume "length nodes \<le> i" "i < length (nodes @ new)"
  then show "\<exists>c' p'. owns R mount boundary emit (nodes @ new) (mapped(c \<mapsto> p)) c' p' \<and> proj_node p' = i"
    using assms(10) by (intro exI[of _ c] exI[of _ p]) auto
qed

lemma find_in: "find P xs = Some x \<Longrightarrow> x \<in> set xs \<and> P x"
  by (metis find_Some_iff nth_mem)

lemma same_parent_Some:
  "same_parent parents qs ids = Some p \<Longrightarrow>
     \<exists>parent q. parents = [parent] \<and> q \<in> set qs \<and> p = fst q \<and> snd q = snd parent \<and> proj_tree p = ids"
  by (auto simp: same_parent_def split: list.splits dest!: find_in)

lemma write_commit_advances:
  assumes "history_law R" "history_inv R mount boundary emit heads nodes mapped"
    and "mapped c = None" "met R boundary heads c" "c \<noteq> root_commit_id R" "boundary c = None"
    and "get_commit R c = Inr d" "set (bc_parents (cm_data d)) \<subseteq> dom mapped"
  shows "advances R mount boundary emit heads (WriteCommit d # rest) rest nodes mapped {c}"
proof -
  let ?root = "root_commit_id R"
  have id: "cm_id d = c" and "commit_ok d" "merge_trees_law R" using assms(1,7) by (auto simp: history_law_def)
  then obtain r where r: "project_tree R d mount = Returns r" using project_tree_returns by blast
  obtain qs where qs: "exec_map (parent_entry nodes mapped) (bc_parents (cm_data d)) = Returns qs"
      "entries_of nodes mapped (bc_parents (cm_data d)) qs"
    using parent_entries[OF assms(2,8)] by blast
  show ?thesis
  proof (cases r)
    case (Inl e)
    then have t: "project_tree R d mount = err e" using r by (simp add: err_def)
    then have "project_step R mount boundary emit (WriteCommit d) nodes mapped = err e"
      by (simp add: project_step_def write_step_def er_bind_def err_def)
    moreover have "blamed R mount boundary emit heads e" using t assms(4,7) unfolding blamed_def by blast
    ultimately show ?thesis by (rule advances_fail)
  next
    case (Inr t)
    then have t: "project_tree R d mount = ok t" using r by (simp add: ok_def)
    let ?ps = "projected_parents ?root qs"
    show ?thesis
    proof (cases "same_parent ?ps qs (mt_tree_ids t)")
      case (Some p)
      then have step: "project_step R mount boundary emit (WriteCommit d) nodes mapped = ok ([], nodes, mapped(c \<mapsto> p))"
        using t qs(1) id by (simp add: project_step_def write_step_def er_bind_def ok_def)
      have p: "\<exists>q \<in> set qs. p = fst q" "proj_tree p = mt_tree_ids t" using same_parent_Some[OF Some] by blast+
      have "position R boundary emit d t (nodes @ []) (mapped(c \<mapsto> p)) c p"
        using entries_of_extends[OF extends_new[where mapped = mapped and c = c, OF assms(3), of nodes "[]" p] qs(2)] Some assms(6)
        by (auto simp: position_def)
      moreover have "proj_node p < length (nodes @ [])" using p(1) entries_of_bound[OF qs(2)] by auto
      ultimately have "history_inv R mount boundary emit heads nodes (mapped(c \<mapsto> p))"
        using add_commit[OF assms(2-5,7) t p(2), of "[]"] by simp
      moreover have "extends nodes mapped nodes (mapped(c \<mapsto> p))" using extends_new[where mapped = mapped and c = c, OF assms(3), of nodes "[]"] by simp
      ultimately show ?thesis using step by (intro advances_done) auto
    next
      case None
      let ?is = "parent_indices ?ps"
      have bound: "\<forall>i \<in> set ?is. i < length nodes"
        using entries_of_bound[OF qs(2)] set_projected_parents[of ?root qs] assms(2)
        by (auto simp: parent_indices_def history_inv_def)
      then have ns: "exec_map (index_exec nodes) ?is = Returns (map ((!) nodes) ?is)"
        by (intro exec_map_Returns) (simp add: index_exec_def)
      have step: "project_step R mount boundary emit (WriteCommit d) nodes mapped =
          er_bind (Returns (emit d t (map node_id (map ((!) nodes) ?is)))) (\<lambda>(cid, v).
            ok ([], nodes @ [\<lparr>node_id = cid, node_value = v, node_parents = ?is, node_has_conflict = has_conflict t\<rparr>],
              mapped(c \<mapsto> \<lparr>proj_node = length nodes, proj_tree = mt_tree_ids t\<rparr>)))"
        using t qs(1) None id ns by (simp add: project_step_def write_step_def er_bind_def ok_def Let_def flip: parent_indices_def)
      show ?thesis
      proof (cases "emit d t (map node_id (map ((!) nodes) ?is))")
        case (Inl e)
        then have "blamed R mount boundary emit heads e" using t assms(4,7) unfolding blamed_def by blast
        then show ?thesis using step Inl by (intro advances_fail) (simp_all add: er_bind_def err_def)
      next
        case (Inr cv)
        obtain cid v where cv: "cv = (cid, v)" by (cases cv)
        let ?n = "\<lparr>node_id = cid, node_value = v, node_parents = ?is, node_has_conflict = has_conflict t\<rparr>"
        let ?p = "\<lparr>proj_node = length nodes, proj_tree = mt_tree_ids t\<rparr>"
        have ext: "extends nodes mapped (nodes @ [?n]) (mapped(c \<mapsto> ?p))"
          using extends_new[where mapped = mapped and c = c, OF assms(3)] .
        have ids: "map (\<lambda>j. node_id ((nodes @ [?n]) ! j)) ?is = map node_id (map ((!) nodes) ?is)"
          using bound by (simp add: nth_append)
        have "emit d t (map (\<lambda>j. node_id ((nodes @ [?n]) ! j)) ?is) = Inr (cid, v)"
          unfolding ids using Inr cv by (simp only:)
        then have "made R boundary emit d t (nodes @ [?n]) ?ps (length nodes)"
          unfolding made_def using bound by (intro conjI exI[of _ cid] exI[of _ v]) simp_all
        then have "position R boundary emit d t (nodes @ [?n]) (mapped(c \<mapsto> ?p)) c ?p"
            "owns R mount boundary emit (nodes @ [?n]) (mapped(c \<mapsto> ?p)) c ?p"
          using entries_of_extends[OF ext qs(2)] None assms(5-7) t by (auto simp: position_def owns_def)
        then have "history_inv R mount boundary emit heads (nodes @ [?n]) (mapped(c \<mapsto> ?p))"
          using add_commit[OF assms(2-5,7) t, of ?p "[?n]"] by simp
        moreover have "project_step R mount boundary emit (WriteCommit d) nodes mapped = ok ([], nodes @ [?n], mapped(c \<mapsto> ?p))"
          using step Inr cv by (simp add: er_bind_def ok_def)
        ultimately show ?thesis using ext by (intro advances_done) auto
      qed
    qed
  qed
qed

section \<open>The walk\<close>

lemma advances_trans:
  assumes "advances R mount boundary emit heads pending mid nodes mapped cs"
    and "\<And>nodes' mapped'. history_inv R mount boundary emit heads nodes' mapped' \<Longrightarrow> extends nodes mapped nodes' mapped' \<Longrightarrow>
      cs \<subseteq> dom mapped' \<Longrightarrow> new_below R cs mapped mapped' \<Longrightarrow> advances R mount boundary emit heads mid rest nodes' mapped' ds"
  shows "advances R mount boundary emit heads pending rest nodes mapped (cs \<union> ds)"
proof -
  consider (fail) e where "project_loop R mount boundary emit pending nodes mapped = Some (err e)" "blamed R mount boundary emit heads e"
    | (step) nodes' mapped' where "project_loop R mount boundary emit pending nodes mapped = project_loop R mount boundary emit mid nodes' mapped'"
        "history_inv R mount boundary emit heads nodes' mapped'" "extends nodes mapped nodes' mapped'" "cs \<subseteq> dom mapped'"
        "new_below R cs mapped mapped'"
    using assms(1) unfolding advances_def by blast
  then show ?thesis
  proof cases
    case fail
    then show ?thesis unfolding advances_def by blast
  next
    case step
    have sub: "cs \<subseteq> dom mapped''" if "extends nodes' mapped' nodes'' mapped''" for nodes'' mapped''
      using step(4) extends_mapped[OF that] by blast
    have new: "new_below R (cs \<union> ds) mapped mapped''" if "new_below R ds mapped' mapped''" for mapped''
      using step(5) that unfolding new_below_def by blast
    consider (fail) e where "project_loop R mount boundary emit mid nodes' mapped' = Some (err e)" "blamed R mount boundary emit heads e"
      | (more) nodes'' mapped'' where
          "project_loop R mount boundary emit mid nodes' mapped' = project_loop R mount boundary emit rest nodes'' mapped''"
          "history_inv R mount boundary emit heads nodes'' mapped''" "extends nodes' mapped' nodes'' mapped''" "ds \<subseteq> dom mapped''"
          "new_below R ds mapped' mapped''"
      using assms(2)[OF step(2-5)] unfolding advances_def by blast
    then show ?thesis
    proof cases
      case fail
      then show ?thesis unfolding advances_def step(1) by blast
    next
      case more
      then show ?thesis using extends_trans[OF step(3)] sub new unfolding advances_def step(1) by blast
    qed
  qed
qed

lemma advances_ancestors:
  assumes "advances R mount boundary emit heads pending rest nodes mapped (ps \<union> {c})" "\<And>p. p \<in> ps \<Longrightarrow> parent_of R p c"
  shows "advances R mount boundary emit heads pending rest nodes mapped {c}"
proof -
  have "new_below R {c} mapped mapped'" if "new_below R (ps \<union> {c}) mapped mapped'" for mapped'
    using that assms(2) unfolding new_below_def by (auto dest: rtranclp.rtrancl_into_rtrancl)
  then show ?thesis using assms(1) unfolding advances_def by blast
qed

lemma reads_advance:
  assumes "\<And>c rest nodes mapped. c \<in> set cs \<Longrightarrow> history_inv R mount boundary emit heads nodes mapped \<Longrightarrow>
      advances R mount boundary emit heads (ReadCommit c # rest) rest nodes mapped {c}"
    and "history_inv R mount boundary emit heads nodes mapped"
  shows "advances R mount boundary emit heads (map ReadCommit cs @ rest) rest nodes mapped (set cs)"
  using assms
proof (induction cs arbitrary: nodes mapped)
  case Nil
  then show ?case using extends_refl[of nodes mapped] unfolding advances_def by (auto simp: new_below_def)
next
  case (Cons c cs)
  have "advances R mount boundary emit heads (ReadCommit c # map ReadCommit cs @ rest) (map ReadCommit cs @ rest) nodes mapped {c}"
    using Cons.prems by simp
  from advances_trans[OF this, of rest "set cs"] show ?case using Cons by simp
qed

lemma read_commit_advances:
  assumes "history_law R" "met R boundary heads c" "history_inv R mount boundary emit heads nodes mapped"
  shows "advances R mount boundary emit heads (ReadCommit c # rest) rest nodes mapped {c}"
proof -
  have wf: "wfp (parent_of R)" using assms(1) by (simp add: history_law_def)
  show ?thesis using wf assms(2,3)
  proof (induction c arbitrary: nodes mapped rest rule: wfp_induct_rule)
    case (less c)
    show ?case
    proof (cases "mapped c = None")
      case False
      then have "project_step R mount boundary emit (ReadCommit c) nodes mapped = ok ([], nodes, mapped)"
        by (simp add: project_step_def read_step_def)
      then show ?thesis using less.prems False extends_refl by (intro advances_done) auto
    next
      case True
      then have root: "c \<noteq> root_commit_id R" using less.prems by (auto simp: history_inv_def)
      show ?thesis
      proof (cases "get_commit R c")
        case (Inl b)
        then have "blamed R mount boundary emit heads (BackendError b)" using less.prems unfolding blamed_def by blast
        then show ?thesis using True Inl
          by (intro advances_fail) (simp_all add: project_step_def read_step_def er_bind_def err_def res_map_err_def)
      next
        case (Inr d)
        show ?thesis
        proof (cases "boundary c")
          case None
          have step: "project_loop R mount boundary emit (ReadCommit c # rest) nodes mapped =
              project_loop R mount boundary emit (map ReadCommit (rev (bc_parents (cm_data d))) @ WriteCommit d # rest) nodes mapped"
            using True Inr None by (simp add: project_loop_Cons project_step_def read_step_def er_bind_def ok_def)
          have parent: "parent_of R p c" if "p \<in> set (rev (bc_parents (cm_data d)))" for p using that Inr by (auto simp: parent_of_def)
          have "advances R mount boundary emit heads (map ReadCommit (rev (bc_parents (cm_data d))) @ WriteCommit d # rest)
              (WriteCommit d # rest) nodes mapped (set (rev (bc_parents (cm_data d))))"
            using less.IH[OF parent] met_parent[OF less.prems(1) root None parent] less.prems(2) by (intro reads_advance) blast+
          then have "advances R mount boundary emit heads (map ReadCommit (rev (bc_parents (cm_data d))) @ WriteCommit d # rest)
              rest nodes mapped (set (rev (bc_parents (cm_data d))) \<union> {c})"
          proof (rule advances_trans)
            fix nodes' mapped'
            assume st: "history_inv R mount boundary emit heads nodes' mapped'" "extends nodes mapped nodes' mapped'"
              "set (rev (bc_parents (cm_data d))) \<subseteq> dom mapped'" "new_below R (set (rev (bc_parents (cm_data d)))) mapped mapped'"
            have "mapped' c = None"
            proof (rule ccontr)
              assume "mapped' c \<noteq> None"
              then obtain p where "parent_of R p c" "(parent_of R)\<^sup>*\<^sup>* c p"
                using st(4) True parent unfolding new_below_def by (metis DiffI domIff)
              then have "(parent_of R)\<^sup>+\<^sup>+ c c" by (rule rtranclp_into_tranclp1[rotated])
              then show False using wf by (simp add: wfp_def tranclp_unfold wf_not_refl wf_trancl)
            qed
            then show "advances R mount boundary emit heads (WriteCommit d # rest) rest nodes' mapped' {c}"
              using write_commit_advances[OF assms(1) st(1) _ less.prems(1) root None Inr] st(3) by simp
          qed
          from advances_ancestors[OF this parent] show ?thesis unfolding advances_def step .
        next
          case (Some r)
          obtain q where q: "project_tree R d mount = Returns q"
            using project_tree_returns assms(1) Inr unfolding history_law_def by blast
          show ?thesis
          proof (cases q)
            case (Inl e)
            then have t: "project_tree R d mount = err e" using q by (simp add: err_def)
            then have "blamed R mount boundary emit heads e" using Inr less.prems(1) unfolding blamed_def by blast
            moreover have "project_step R mount boundary emit (ReadCommit c) nodes mapped = err e"
              using t True Inr Some by (simp add: project_step_def read_step_def er_bind_def err_def)
            ultimately show ?thesis by (intro advances_fail)
          next
            case (Inr t)
            then have t: "project_tree R d mount = ok t" using q by (simp add: ok_def)
            let ?n = "\<lparr>node_id = r, node_value = None, node_parents = [], node_has_conflict = has_conflict t\<rparr>"
            let ?p = "\<lparr>proj_node = length nodes, proj_tree = mt_tree_ids t\<rparr>"
            have step: "project_step R mount boundary emit (ReadCommit c) nodes mapped = ok ([], nodes @ [?n], mapped(c \<mapsto> ?p))"
              using t True \<open>get_commit R c = Inr d\<close> Some by (simp add: project_step_def read_step_def er_bind_def ok_def)
            have "history_inv R mount boundary emit heads (nodes @ [?n]) (mapped(c \<mapsto> ?p))"
              using add_commit[OF less.prems(2) True less.prems(1) root \<open>get_commit R c = Inr d\<close> t, of ?p "[?n]"] Some
                root \<open>get_commit R c = Inr d\<close> t by (simp add: position_def owns_def)
            then show ?thesis
              using step extends_new[where mapped = mapped and c = c, OF True] by (intro advances_done) auto
          qed
        qed
      qed
    qed
  qed
qed

lemma project_returns:
  assumes "history_law R"
  shows "(\<exists>e. project R mount heads boundary emit = Some (err e) \<and> blamed R mount boundary emit (set heads) e) \<or>
    (\<exists>nodes mapped. project R mount heads boundary emit =
        Some (ok \<lparr>hist_nodes = nodes, hist_heads = map (\<lambda>c. proj_node (the (mapped c))) heads\<rparr>) \<and>
      history_inv R mount boundary emit (set heads) nodes mapped \<and> set heads \<subseteq> dom mapped)"
proof -
  let ?nodes = "[root_node (root_commit_id R)]"
  let ?mapped = "[root_commit_id R \<mapsto> \<lparr>proj_node = 0, proj_tree = resolved (empty_tree_id R)\<rparr>]"
  have "history_inv R mount boundary emit (set heads) ?nodes ?mapped"
    by (auto simp: history_inv_def placed_def split: if_splits)
  then have "advances R mount boundary emit (set heads) (map ReadCommit heads @ []) [] ?nodes ?mapped (set heads)"
    using read_commit_advances[OF assms] met_head by (intro reads_advance) blast+
  then consider (fail) e where "project_loop R mount boundary emit (map ReadCommit heads) ?nodes ?mapped = Some (err e)"
      "blamed R mount boundary emit (set heads) e"
    | (finish) nodes mapped where "project_loop R mount boundary emit (map ReadCommit heads) ?nodes ?mapped = Some (ok (nodes, mapped))"
      "history_inv R mount boundary emit (set heads) nodes mapped" "set heads \<subseteq> dom mapped"
    unfolding advances_def by (auto simp: project_loop.simps[of _ _ _ _ "[]"])
  then show ?thesis
  proof cases
    case fail
    then show ?thesis by (simp add: project_def er_bind_def err_def)
  next
    case finish
    have "exec_map (lookup_exec mapped) heads = Returns (map (\<lambda>c. the (mapped c)) heads)"
      using finish(3) by (intro exec_map_Returns) (auto simp: lookup_exec_def unwrap_def)
    then have "project R mount heads boundary emit =
        Some (ok \<lparr>hist_nodes = nodes, hist_heads = map (\<lambda>c. proj_node (the (mapped c))) heads\<rparr>)"
      using finish(1) by (simp add: project_def er_bind_def ok_def comp_def)
    then show ?thesis using finish(2,3) by blast
  qed
qed

section \<open>What a node stands for\<close>

definition projected_tree :: "('be, 'x) native_repo_scheme \<Rightarrow> RepoPath \<Rightarrow> CommitId \<Rightarrow> TreeId merge option" where
  "projected_tree R mount c =
     (if c = root_commit_id R then Some (resolved (empty_tree_id R))
      else case get_commit R c of
             Inr d \<Rightarrow> (case project_tree R d mount of Returns (Inr t) \<Rightarrow> Some (mt_tree_ids t) | _ \<Rightarrow> None)
           | Inl _ \<Rightarrow> None)"

definition stands_for ::
  "('be, 'x) native_repo_scheme \<Rightarrow> RepoPath \<Rightarrow> (CommitId \<rightharpoonup> CommitId) \<Rightarrow> ('be, 't) emit \<Rightarrow>
   't history_node list \<Rightarrow> CommitId \<Rightarrow> nat \<Rightarrow> bool" where
  "stands_for R mount boundary emit nodes c i \<longleftrightarrow>
     (if c = root_commit_id R then i = 0
      else \<exists>d t. get_commit R c = Inr d \<and> project_tree R d mount = ok t \<and> node_has_conflict (nodes ! i) = has_conflict t \<and>
        (case boundary c of
           Some r \<Rightarrow> node_id (nodes ! i) = r \<and> node_value (nodes ! i) = None \<and> node_parents (nodes ! i) = []
         | None \<Rightarrow> emit d t (map (\<lambda>j. node_id (nodes ! j)) (node_parents (nodes ! i))) =
             Inr (node_id (nodes ! i), node_value (nodes ! i))))"

definition represents ::
  "('be, 'x) native_repo_scheme \<Rightarrow> RepoPath \<Rightarrow> (CommitId \<rightharpoonup> CommitId) \<Rightarrow> ('be, 't) emit \<Rightarrow>
   't history_node list \<Rightarrow> CommitId \<Rightarrow> nat \<Rightarrow> bool" where
  "represents R mount boundary emit nodes c i \<longleftrightarrow>
     i < length nodes \<and> projected_tree R mount c \<noteq> None \<and>
     (\<exists>c0. (parent_of R)\<^sup>*\<^sup>* c0 c \<and> projected_tree R mount c0 = projected_tree R mount c \<and>
        stands_for R mount boundary emit nodes c0 i)"

lemma placed_tree: "placed R mount boundary emit nodes mapped c p \<Longrightarrow> projected_tree R mount c = Some (proj_tree p)"
  by (auto simp: placed_def projected_tree_def ok_def split: if_splits)

lemma owns_stands_for: "owns R mount boundary emit nodes mapped c p \<Longrightarrow> stands_for R mount boundary emit nodes c (proj_node p)"
  unfolding owns_def stands_for_def made_def by (auto split: option.splits)

lemma stands_for_root: "c = root_commit_id R \<and> i = 0 \<Longrightarrow> stands_for R mount boundary emit nodes c i"
  by (simp add: stands_for_def)

lemma entries_of_member:
  assumes "entries_of nodes mapped cs qs" "q \<in> set qs"
  obtains c where "c \<in> set cs" "mapped c = Some (fst q)" "snd q = node_id (nodes ! proj_node (fst q))"
proof -
  obtain i where "i < length qs" "qs ! i = q" using assms(2) by (auto simp: in_set_conv_nth)
  then show thesis using assms(1) that[of "cs ! i"] by (auto simp: entries_of_def list_all2_conv_all_nth)
qed

lemma placed_cases:
  assumes "placed R mount boundary emit nodes mapped c p" "mapped c = Some p"
  obtains "c = root_commit_id R" "proj_node p = 0"
  | "c \<noteq> root_commit_id R" "owns R mount boundary emit nodes mapped c p"
  | d t qs where "c \<noteq> root_commit_id R" "boundary c = None" "get_commit R c = Inr d" "project_tree R d mount = ok t"
      "entries_of nodes mapped (bc_parents (cm_data d)) qs"
      "same_parent (projected_parents (root_commit_id R) qs) qs (mt_tree_ids t) = Some p"
proof (cases "c = root_commit_id R")
  case True
  then show thesis using assms that(1) by (simp add: placed_def)
next
  case False
  then obtain d t where d: "get_commit R c = Inr d" "project_tree R d mount = ok t"
      "position R boundary emit d t nodes mapped c p"
    using assms(1) unfolding placed_def by auto
  show thesis
  proof (cases "boundary c")
    case (Some r)
    then have "owns R mount boundary emit nodes mapped c p"
      using d False assms(2) unfolding owns_def position_def by auto
    then show thesis using that(2) False by blast
  next
    case None
    then obtain qs where qs: "entries_of nodes mapped (bc_parents (cm_data d)) qs"
        "case same_parent (projected_parents (root_commit_id R) qs) qs (mt_tree_ids t) of
           Some q \<Rightarrow> p = q
         | None \<Rightarrow> made R boundary emit d t nodes (projected_parents (root_commit_id R) qs) (proj_node p)"
      using d(3) unfolding position_def by auto
    show thesis
    proof (cases "same_parent (projected_parents (root_commit_id R) qs) qs (mt_tree_ids t)")
      case (Some q)
      then show thesis using that(3) False None d(1,2) qs by simp
    next
      case nothing: None
      then have "owns R mount boundary emit nodes mapped c p"
        using d False assms(2) None qs unfolding owns_def by auto
      then show thesis using that(2) False by blast
    qed
  qed
qed

lemma owner_exists:
  assumes "history_law R" "history_inv R mount boundary emit heads nodes mapped" "mapped c = Some p"
  shows "\<exists>c0. (parent_of R)\<^sup>*\<^sup>* c0 c \<and> mapped c0 = Some p \<and>
    (c0 = root_commit_id R \<and> proj_node p = 0 \<or> owns R mount boundary emit nodes mapped c0 p)"
proof -
  have "wfp (parent_of R)" using assms(1) by (simp add: history_law_def)
  then show ?thesis using assms(3)
  proof (induction c rule: wfp_induct_rule)
    case (less c)
    have "placed R mount boundary emit nodes mapped c p" using history_inv_placed[OF assms(2) less.prems] by blast
    then show ?case using less.prems
    proof (cases rule: placed_cases)
      case 1
      then show ?thesis using less.prems by blast
    next
      case 2
      then show ?thesis using less.prems by blast
    next
      case (3 d t qs)
      then obtain q where "q \<in> set qs" "p = fst q" using same_parent_Some[OF 3(6)] by blast
      then obtain c' where c': "c' \<in> set (bc_parents (cm_data d))" "mapped c' = Some p" using entries_of_member[OF 3(5)] by metis
      then have par: "parent_of R c' c" using 3(3) by (auto simp: parent_of_def)
      then obtain c0 where "(parent_of R)\<^sup>*\<^sup>* c0 c'" "mapped c0 = Some p"
          "c0 = root_commit_id R \<and> proj_node p = 0 \<or> owns R mount boundary emit nodes mapped c0 p"
        using less.IH c'(2) by blast
      then show ?thesis using rtranclp.rtrancl_into_rtrancl[of "parent_of R" c0 c' c] par by (intro exI[of _ c0]) simp
    qed
  qed
qed

lemma mapped_represents:
  assumes "history_law R" "history_inv R mount boundary emit heads nodes mapped" "mapped c = Some p"
  shows "represents R mount boundary emit nodes c (proj_node p)"
proof -
  obtain c0 where c0: "(parent_of R)\<^sup>*\<^sup>* c0 c" "mapped c0 = Some p" "stands_for R mount boundary emit nodes c0 (proj_node p)"
    using owner_exists[OF assms] owns_stands_for stands_for_root by blast
  have "projected_tree R mount x = Some (proj_tree p)" if "mapped x = Some p" for x
    using history_inv_placed[OF assms(2) that] placed_tree by blast
  moreover have "proj_node p < length nodes" using history_inv_placed[OF assms(2,3)] by (auto simp: placed_def)
  ultimately show ?thesis using c0 assms(3) unfolding represents_def by auto
qed

lemma made_parents: "made R boundary emit d t nodes ps i \<Longrightarrow> j \<in> set (node_parents (nodes ! i)) \<Longrightarrow> j < i"
  unfolding made_def by (elim conjE exE) simp

lemma owns_parents:
  assumes "owns R mount boundary emit nodes mapped c p" "j \<in> set (node_parents (nodes ! proj_node p))"
  shows "j < proj_node p"
proof (cases "boundary c")
  case None
  then obtain d t ps where "made R boundary emit d t nodes ps (proj_node p)" using assms(1) unfolding owns_def by auto
  then show ?thesis using assms(2) by (rule made_parents)
next
  case (Some r)
  then show ?thesis using assms unfolding owns_def by auto
qed

lemma parents_first:
  assumes "history_inv R mount boundary emit heads nodes mapped" "i < length nodes" "j \<in> set (node_parents (nodes ! i))"
  shows "j < i"
proof (cases "i = 0")
  case True
  then show ?thesis using assms(1,3) by (simp add: history_inv_def root_node_def)
next
  case False
  then obtain c p where p: "owns R mount boundary emit nodes mapped c p" "proj_node p = i"
    using history_inv_owned[OF assms(1) _ assms(2)] by auto
  then show ?thesis using assms(3) owns_parents by blast
qed

section \<open>Properties\<close>

text \<open>
  (C4) Projecting a history ends without a panic, for any commits that are not their own ancestors; it
  fails only where reading a commit, computing the tree of the project or emitting a commit fails. In
  the result every node comes after its parents, and each head is represented, in the order asked, by a
  node that stands for the head or for an ancestor with the same projected tree: leaving out the
  commits that do not touch the project never changes the content that a head delivers.
\<close>

theorem project_keeps_content:
  assumes "history_law R"
  shows "case project R mount heads boundary emit of
      Some (Returns (Inr h)) \<Rightarrow>
        list_all2 (represents R mount boundary emit (hist_nodes h)) heads (hist_heads h) \<and>
        (\<forall>i < length (hist_nodes h). \<forall>j \<in> set (node_parents (hist_nodes h ! i)). j < i)
    | Some (Returns (Inl e)) \<Rightarrow> blamed R mount boundary emit (set heads) e
    | _ \<Rightarrow> False"
  using project_returns[OF assms, of mount heads boundary emit]
proof (elim disjE exE conjE)
  fix nodes mapped
  assume r: "project R mount heads boundary emit =
        Some (ok \<lparr>hist_nodes = nodes, hist_heads = map (\<lambda>c. proj_node (the (mapped c))) heads\<rparr>)"
    and inv: "history_inv R mount boundary emit (set heads) nodes mapped" "set heads \<subseteq> dom mapped"
  have "list_all2 (represents R mount boundary emit nodes) heads (map (\<lambda>c. proj_node (the (mapped c))) heads)"
    using inv mapped_represents[OF assms inv(1)] by (auto simp: list_all2_conv_all_nth) (metis domD nth_mem option.sel subsetD)
  then show ?thesis using r parents_first[OF inv(1)] by (simp add: ok_def)
qed (simp add: err_def)

lemma first_by_id_ids:
  "distinct (map snd (first_by_id seen qs)) \<and> snd ` set (first_by_id seen qs) = snd ` set qs - seen"
  by (induction seen qs rule: first_by_id.induct) auto

text \<open>The identifiers of the parents of a projected commit: the root counts only if there is no other.\<close>

definition proper_parents :: "CommitId \<Rightarrow> CommitId set \<Rightarrow> CommitId set" where
  "proper_parents root ids = (if ids \<subseteq> {root} then {root} else ids - {root})"

lemma projected_parents_ids:
  shows "distinct (map snd (projected_parents root qs))"
    and "qs \<noteq> [] \<Longrightarrow> snd ` set (projected_parents root qs) = proper_parents root (snd ` set qs)"
    and "projected_parents root qs = [] \<Longrightarrow> qs = []"
proof -
  let ?fs = "first_by_id {} qs"
  have fs: "distinct (map snd ?fs)" "snd ` set ?fs = snd ` set qs" using first_by_id_ids[of "{}" qs] by auto
  have len: "length ?fs = card (snd ` set qs)" using distinct_card[OF fs(1)] fs(2) by simp
  show "distinct (map snd (projected_parents root qs))"
    using fs(1) by (auto simp: projected_parents_def Let_def distinct_map intro: inj_on_subset)
  show ids: "snd ` set (projected_parents root qs) = proper_parents root (snd ` set qs)" if "qs \<noteq> []"
  proof (cases "length ?fs > 1")
    case True
    then have "\<not> snd ` set qs \<subseteq> {root}" using len card_mono[of "{root}" "snd ` set qs"] by auto
    moreover have "snd ` {q \<in> set ?fs. snd q \<noteq> root} = snd ` set qs - {root}" unfolding fs(2)[symmetric] by auto
    ultimately show ?thesis using True by (simp add: projected_parents_def proper_parents_def)
  next
    case False
    moreover have "card (snd ` set qs) \<noteq> 0" using that by simp
    ultimately obtain x where "snd ` set qs = {x}" using len by (metis card_1_singletonE less_one linorder_neqE_nat)
    then show ?thesis using False fs(2) by (auto simp: projected_parents_def proper_parents_def)
  qed
  show "qs = []" if "projected_parents root qs = []"
    using ids that by (cases "qs = []") (auto simp: proper_parents_def split: if_splits)
qed

lemma placed_entries:
  assumes "placed R mount boundary emit nodes mapped c p" "c \<noteq> root_commit_id R" "boundary c = None"
  obtains d t qs where "get_commit R c = Inr d" "project_tree R d mount = ok t"
    "entries_of nodes mapped (bc_parents (cm_data d)) qs"
    "same_parent (projected_parents (root_commit_id R) qs) qs (mt_tree_ids t) = Some p \<or>
     made R boundary emit d t nodes (projected_parents (root_commit_id R) qs) (proj_node p)"
proof -
  obtain d t where d: "get_commit R c = Inr d" "project_tree R d mount = ok t" "position R boundary emit d t nodes mapped c p"
    using assms unfolding placed_def by auto
  then obtain qs where qs: "entries_of nodes mapped (bc_parents (cm_data d)) qs"
      "case same_parent (projected_parents (root_commit_id R) qs) qs (mt_tree_ids t) of
         Some q \<Rightarrow> p = q
       | None \<Rightarrow> made R boundary emit d t nodes (projected_parents (root_commit_id R) qs) (proj_node p)"
    using assms(3) unfolding position_def by auto
  show thesis using that[OF d(1,2) qs(1)] qs(2) by (cases "same_parent (projected_parents (root_commit_id R) qs) qs (mt_tree_ids t)") auto
qed

lemma entries_of_parent: "entries_of nodes mapped cs qs \<Longrightarrow> c \<in> set cs \<Longrightarrow> \<exists>q \<in> set qs. mapped c = Some (fst q)"
  unfolding entries_of_def by (induction cs qs rule: list_all2_induct) auto

lemma met_mapped:
  assumes "history_inv R mount boundary emit heads nodes mapped" "heads \<subseteq> dom mapped" "met R boundary heads c"
  shows "c \<in> dom mapped"
  using assms(3)
proof induction
  case (met_parent c p)
  then obtain q where q: "mapped c = Some q" by auto
  then have "placed R mount boundary emit nodes mapped c q" using history_inv_placed[OF assms(1)] by blast
  then obtain d t qs where "get_commit R c = Inr d" "entries_of nodes mapped (bc_parents (cm_data d)) qs"
    using met_parent.hyps by (elim placed_entries) blast+
  then show ?case using met_parent.hyps entries_of_parent by (fastforce simp: parent_of_def)
qed (use assms(2) in auto)

lemma entries_of_ids:
  "entries_of nodes mapped cs qs \<Longrightarrow> (\<lambda>c. node_id (nodes ! proj_node (the (mapped c)))) ` set cs = snd ` set qs"
  unfolding entries_of_def by (induction cs qs rule: list_all2_induct) auto

lemma parents_in_graph:
  assumes "placed R mount boundary emit nodes mapped c p" "c \<noteq> root_commit_id R" "boundary c = None"
    and "node_id (nodes ! 0) = root_commit_id R" "mapped c = Some p"
  defines "node \<equiv> \<lambda>c. proj_node (the (mapped c))"
  shows "\<exists>d. get_commit R c = Inr d \<and>
    (let parents = bc_parents (cm_data d);
         ids = proper_parents (root_commit_id R) ((\<lambda>p. node_id (nodes ! node p)) ` set parents)
     in (\<exists>p \<in> set parents. node c = node p \<and> ids = {node_id (nodes ! node c)}) \<or>
        distinct (map (\<lambda>j. node_id (nodes ! j)) (node_parents (nodes ! node c))) \<and>
        (\<lambda>j. node_id (nodes ! j)) ` set (node_parents (nodes ! node c)) = ids)"
proof -
  let ?root = "root_commit_id R"
  obtain d t qs where d: "get_commit R c = Inr d" and qs: "entries_of nodes mapped (bc_parents (cm_data d)) qs"
    and pos: "same_parent (projected_parents ?root qs) qs (mt_tree_ids t) = Some p \<or>
      made R boundary emit d t nodes (projected_parents ?root qs) (proj_node p)"
    using placed_entries[OF assms(1-3)] by metis
  let ?pp = "projected_parents ?root qs"
  have ids: "(\<lambda>p. node_id (nodes ! node p)) ` set (bc_parents (cm_data d)) = snd ` set qs"
    unfolding node_def by (rule entries_of_ids[OF qs])
  have c: "node c = proj_node p" using assms(5) by (simp add: node_def)
  have snd: "snd q = node_id (nodes ! proj_node (fst q))" if "q \<in> set qs" for q
    using that by (elim entries_of_member[OF qs])
  from pos show ?thesis
  proof
    assume "same_parent ?pp qs (mt_tree_ids t) = Some p"
    from same_parent_Some[OF this] obtain parent q where q: "?pp = [parent]" "q \<in> set qs" "p = fst q" "snd q = snd parent"
      by (elim exE conjE)
    then have "proper_parents ?root (snd ` set qs) = {node_id (nodes ! node c)}"
      using projected_parents_ids(2)[of qs ?root] snd[OF q(2)] c by (cases qs) auto
    moreover obtain c' where "c' \<in> set (bc_parents (cm_data d))" "mapped c' = Some p"
      using entries_of_member[OF qs q(2)] q(3) by metis
    then have "\<exists>p \<in> set (bc_parents (cm_data d)). node c = node p" using c by (intro bexI[of _ c']) (simp_all add: node_def)
    ultimately show ?thesis using d ids by (auto simp: Let_def)
  next
    assume "made R boundary emit d t nodes ?pp (proj_node p)"
    then have np: "node_parents (nodes ! node c) = parent_indices ?pp" unfolding made_def c by auto
    let ?names = "if ?pp = [] then [?root] else map snd ?pp"
    have eq: "map (\<lambda>j. node_id (nodes ! j)) (parent_indices ?pp) = ?names"
      using snd set_projected_parents[of ?root qs] assms(4) by (auto simp: parent_indices_def)
    have "distinct (map (\<lambda>j. node_id (nodes ! j)) (node_parents (nodes ! node c)))"
      unfolding np eq using projected_parents_ids(1) by simp
    moreover have "(\<lambda>j. node_id (nodes ! j)) ` set (node_parents (nodes ! node c)) = set ?names"
      unfolding np eq[symmetric] by simp
    moreover have "set ?names = proper_parents ?root (snd ` set qs)"
    proof (cases "qs = []")
      case False
      then show ?thesis using projected_parents_ids(2,3)[where root = ?root and qs = qs] by auto
    qed (simp add: projected_parents_def proper_parents_def)
    ultimately show ?thesis using d unfolding ids[symmetric] Let_def by blast
  qed
qed

text \<open>
  (C13) The projected graph is the graph of the project: there is a node for every commit met by the
  walk, the nodes of the heads are reported in order, and for a commit that is neither the root nor a
  boundary, with \<open>ids\<close> the identifiers of the nodes of its parents, either the commit is left out and
  shares the node of one of its parents, the only proper parent, or its node has exactly the proper
  parents, each once. The synthetic root is a parent only of a commit without any other parent.
\<close>

theorem project_graph_exact:
  assumes "history_law R" "project R mount heads boundary emit = Some (ok h)"
  shows "\<exists>node. map node heads = hist_heads h \<and>
    (\<forall>c. met R boundary (set heads) c \<longrightarrow>
       node c < length (hist_nodes h) \<and> (c = root_commit_id R \<longrightarrow> node c = 0) \<and>
       (c \<noteq> root_commit_id R \<and> boundary c = None \<longrightarrow>
         (\<exists>d. get_commit R c = Inr d \<and>
           (let parents = bc_parents (cm_data d);
                ids = proper_parents (root_commit_id R) ((\<lambda>p. node_id (hist_nodes h ! node p)) ` set parents)
            in (\<exists>p \<in> set parents. node c = node p \<and> ids = {node_id (hist_nodes h ! node c)}) \<or>
               distinct (map (\<lambda>j. node_id (hist_nodes h ! j)) (node_parents (hist_nodes h ! node c))) \<and>
               (\<lambda>j. node_id (hist_nodes h ! j)) ` set (node_parents (hist_nodes h ! node c)) = ids))))"
proof -
  obtain nodes mapped where h: "h = \<lparr>hist_nodes = nodes, hist_heads = map (\<lambda>c. proj_node (the (mapped c))) heads\<rparr>"
    and inv: "history_inv R mount boundary emit (set heads) nodes mapped" "set heads \<subseteq> dom mapped"
    using project_returns[OF assms(1), of mount heads boundary emit] assms(2) by (auto simp: err_def ok_def)
  let ?node = "\<lambda>c. proj_node (the (mapped c))" and ?root = "root_commit_id R"
  have "?node c < length nodes \<and> (c = ?root \<longrightarrow> ?node c = 0) \<and>
       (c \<noteq> ?root \<and> boundary c = None \<longrightarrow>
         (\<exists>d. get_commit R c = Inr d \<and>
           (let parents = bc_parents (cm_data d);
                ids = proper_parents ?root ((\<lambda>p. node_id (nodes ! ?node p)) ` set parents)
            in (\<exists>p \<in> set parents. ?node c = ?node p \<and> ids = {node_id (nodes ! ?node c)}) \<or>
               distinct (map (\<lambda>j. node_id (nodes ! j)) (node_parents (nodes ! ?node c))) \<and>
               (\<lambda>j. node_id (nodes ! j)) ` set (node_parents (nodes ! ?node c)) = ids)))"
    if m: "met R boundary (set heads) c" for c
  proof -
    obtain p where p: "mapped c = Some p" using met_mapped[OF inv m] by blast
    have pl: "placed R mount boundary emit nodes mapped c p" using history_inv_placed[OF inv(1) p] by blast
    have "node_id (nodes ! 0) = ?root" using inv(1) by (simp add: history_inv_def root_node_def)
    note parents_in_graph[OF pl _ _ this p]
    moreover have "?node c < length nodes" "c = ?root \<longrightarrow> ?node c = 0" using pl p by (auto simp: placed_def)
    ultimately show ?thesis by blast
  qed
  then show ?thesis unfolding h by (intro exI[of _ ?node]) simp
qed

section \<open>A sample repository\<close>

text \<open>
  Three commits in a line: the root, a commit that creates the project at \<open>a\<close>, and one that changes
  only a file outside of it.
\<close>

definition sample_signature :: signature where
  "sample_signature = \<lparr>sig_name = ''n'', sig_email = ''e'', sig_millis = 0, sig_tz_offset = 0\<rparr>"

definition sample_data :: "CommitId list \<Rightarrow> TreeId \<Rightarrow> backend_commit" where
  "sample_data parents tree =
     \<lparr>bc_parents = parents, bc_predecessors = [], bc_root_tree = resolved tree, bc_conflict_labels = resolved [],
      bc_change_id = ChangeId [], bc_description = [], bc_author = sample_signature,
      bc_committer = sample_signature, bc_secure_sig = None\<rparr>"

definition sample_commit :: "nat \<Rightarrow> commit" where
  "sample_commit n =
     \<lparr>cm_id = CommitId [of_nat n],
      cm_data = (if n = 0 then sample_data [] (TreeId (write_entries []))
        else sample_data [CommitId [of_nat (n - 1)]]
          (if n = 1 then sample_root else TreeId (write_entries [(''a'', TreeRef sample_tree)])))\<rparr>"

definition sample_repo :: "unit native_repo" where
  "sample_repo = tree_store.extend sample_store
     \<lparr>get_commit = (\<lambda>c. if c = CommitId [0] then Inr (sample_commit 0)
        else if c = CommitId [1] then Inr (sample_commit 1)
        else if c = CommitId [2] then Inr (sample_commit 2) else Inl ()),
      root_commit_id = CommitId [0], merge_trees = Inr\<rparr>"

lemma sample_repo_simps [simp]:
  "read_tree sample_repo = read_tree sample_store" "write_tree sample_repo = write_tree sample_store"
  "empty_tree_id sample_repo = empty_tree_id sample_store" "root_commit_id sample_repo = CommitId [0]"
  "merge_trees sample_repo = Inr"
  by (simp_all add: sample_repo_def tree_store.defs)

lemma sample_repo_commits [simp]:
  "get_commit sample_repo (CommitId [0]) = Inr (sample_commit 0)"
  "get_commit sample_repo (CommitId [1]) = Inr (sample_commit (Suc 0))"
  "get_commit sample_repo (CommitId [2]) = Inr (sample_commit 2)"
  by (simp_all add: sample_repo_def tree_store.defs)

lemma sample_repo_commit: "get_commit sample_repo c = Inr d \<Longrightarrow> \<exists>n \<le> 2. d = sample_commit n \<and> c = CommitId [of_nat n]"
  by (auto simp: sample_repo_def tree_store.defs split: if_splits intro: exI[of _ 0] exI[of _ 1] exI[of _ 2])

lemma sample_parent: "parent_of sample_repo p c \<Longrightarrow> (p, c) \<in> {(CommitId [0], CommitId [1]), (CommitId [1], CommitId [2])}"
  by (auto simp: parent_of_def sample_repo_def tree_store.defs sample_commit_def sample_data_def split: if_splits)

lemma sample_repo_law: "history_law sample_repo"
proof -
  let ?rank = "\<lambda>c. case c of CommitId bs \<Rightarrow> unat (hd bs)"
  have "wf {(p, c). parent_of sample_repo p c}"
    by (intro wf_subset[OF wf_measure[of ?rank]]) (auto dest!: sample_parent)
  then have "wfp (parent_of sample_repo)" by (simp add: wfp_def)
  moreover have "cm_id d = c \<and> commit_ok d" if d: "get_commit sample_repo c = Inr d" for c d
  proof -
    obtain n where "d = sample_commit n" "c = CommitId [of_nat n]" using sample_repo_commit[OF d] by blast
    moreover have "\<exists>ps t. cm_data (sample_commit n) = sample_data ps t" by (auto simp: sample_commit_def)
    moreover have "cm_id (sample_commit n) = CommitId [of_nat n]" by (simp add: sample_commit_def)
    ultimately show ?thesis
      by (auto simp: sample_data_def commit_ok_def merge_ok_def resolved_def labels_from_merge_def
          has_labels_def unlabeled_def is_resolved_def)
  qed
  ultimately show ?thesis by (simp add: history_law_def merge_trees_law_def)
qed

lemma sample_project_trees [simp]:
  "project_tree sample_repo (sample_commit (Suc 0)) (RepoPath ''a'') = ok (merged_tree_resolved sample_tree)"
  "project_tree sample_repo (sample_commit 2) (RepoPath ''a'') = ok (merged_tree_resolved sample_tree)"
  by (simp_all add: project_tree_def sample_commit_def sample_data_def try_map_def resolved_def tree_id_at_path_def
      value_at_path_def sample_mounts sample_root_def sample_store_simps entry_value_def commit_tree_def merged_tree_new_def
      labels_from_merge_def is_resolved_def unlabeled_def labels_num_sides_def has_labels_def merged_tree_resolve_def
      merged_tree_resolved_def er_bind_def ok_def is_root_def)

lemma sample_parents [simp]:
  "cm_id (sample_commit n) = CommitId [of_nat n]"
  "bc_parents (cm_data (sample_commit (Suc 0))) = [CommitId [0]]" "bc_parents (cm_data (sample_commit 2)) = [CommitId [1]]"
  by (simp_all add: sample_commit_def sample_data_def)

definition sample_emit :: "(unit, unit) emit" where
  "sample_emit c tree parents = Inr (cm_id c, Some ())"

definition sample_history :: "unit history" where
  "sample_history =
     \<lparr>hist_nodes = [root_node (CommitId [0]), \<lparr>node_id = CommitId [1], node_value = Some (), node_parents = [0], node_has_conflict = False\<rparr>],
      hist_heads = [1, 0]\<rparr>"

lemmas sample_run =
  project_def project_loop_Cons project_loop.simps[of _ _ _ _ "[]"] project_step_def read_step_def write_step_def
  er_bind_def ok_def parent_entry_def lookup_exec_def unwrap_def index_exec_def projected_parents_def same_parent_def
  merged_tree_resolved_def sample_store_simps sample_tree_def root_node_def has_conflict_def resolved_def is_resolved_def

lemma sample_project:
  "project sample_repo (RepoPath ''a'') [CommitId [2], CommitId [0]] Map.empty sample_emit = Some (ok sample_history)"
  by (simp add: sample_run sample_emit_def sample_history_def)

theorem project_keeps_content_witness:
  "represents sample_repo (RepoPath ''a'') Map.empty sample_emit (hist_nodes sample_history) (CommitId [2]) 1"
  using project_keeps_content[OF sample_repo_law, where mount = "RepoPath ''a''" and heads = "[CommitId [2], CommitId [0]]"
      and boundary = Map.empty and emit = sample_emit] sample_project
  by (simp add: ok_def sample_history_def)

theorem project_graph_exact_witness:
  "\<exists>node. node (CommitId [2]) = Suc 0 \<and> node (CommitId [0]) = 0 \<and> node (CommitId [2]) < length (hist_nodes sample_history)"
  using project_graph_exact[OF sample_repo_law sample_project] met_head[of "CommitId [2]" "set [CommitId [2], CommitId [0]]" sample_repo Map.empty]
  by (fastforce simp: sample_history_def)

end
