(* ===== verification/Project_Export_Laws.thy ===== *)
theory Project_Export_Laws
  imports Project_Export Project_History_Laws "HOL-Library.Sublist"
begin

text \<open>
  What an export publishes. The walk over the arena of one result reports exactly the new
  correspondence that its head reaches; composed with the projection of the history this is the
  history of the head itself, never that of another head of the batch.
\<close>

section \<open>The walk over an arena\<close>

text \<open>The nodes that a walk from \<open>T\<close> reaches without entering \<open>V\<close>.\<close>

inductive fresh_reach :: "export_node list \<Rightarrow> nat set \<Rightarrow> nat set \<Rightarrow> nat \<Rightarrow> bool" for H V T where
  fresh_start: "i \<in> T \<Longrightarrow> i \<notin> V \<Longrightarrow> fresh_reach H V T i"
| fresh_step: "fresh_reach H V T i \<Longrightarrow> j \<in> set (en_parents (H ! i)) \<Longrightarrow> j \<notin> V \<Longrightarrow> fresh_reach H V T j"

lemma fresh_reach_mono: "fresh_reach H V T j \<Longrightarrow> T \<subseteq> T' \<Longrightarrow> fresh_reach H V T' j"
  by (induction rule: fresh_reach.induct) (auto intro: fresh_reach.intros)

lemma fresh_reach_visited: "i \<in> V \<Longrightarrow> fresh_reach H V (insert i T) j \<longleftrightarrow> fresh_reach H V T j"
proof
  show "i \<in> V \<Longrightarrow> fresh_reach H V (insert i T) j \<Longrightarrow> fresh_reach H V T j"
    by (rotate_tac, induction rule: fresh_reach.induct) (auto intro: fresh_reach.intros)
qed (auto intro: fresh_reach_mono)

lemma fresh_reach_enter:
  assumes "i \<notin> V"
  shows "fresh_reach H V (insert i T) j \<longleftrightarrow> j = i \<or> fresh_reach H (insert i V) (set (en_parents (H ! i)) \<union> T) j"
proof
  assume "fresh_reach H V (insert i T) j"
  then show "j = i \<or> fresh_reach H (insert i V) (set (en_parents (H ! i)) \<union> T) j"
    by (induction rule: fresh_reach.induct) (auto intro: fresh_reach.intros)
next
  have i: "fresh_reach H V (insert i T) i" using assms by (simp add: fresh_start)
  have "fresh_reach H V (insert i T) j" if "fresh_reach H (insert i V) (set (en_parents (H ! i)) \<union> T) j"
    using that
  proof (induction rule: fresh_reach.induct)
    case (fresh_start k)
    then show ?case using i by (auto intro: fresh_reach.intros)
  next
    case (fresh_step k l)
    then show ?case by (auto intro: fresh_reach.fresh_step)
  qed
  then show "j = i \<or> fresh_reach H (insert i V) (set (en_parents (H ! i)) \<union> T) j \<Longrightarrow> fresh_reach H V (insert i T) j"
    using i by blast
qed

definition arena_closed :: "export_node list \<Rightarrow> bool" where
  "arena_closed H \<longleftrightarrow> (\<forall>n \<in> set H. \<forall>j \<in> set (en_parents n). j < length H)"

text \<open>The nodes that a pending list still has to report.\<close>

definition to_report :: "export_node list \<Rightarrow> (nat \<times> bool) list \<Rightarrow> nat set \<Rightarrow> nat set" where
  "to_report H pending V = {i. (i, True) \<in> set pending} \<union> {j. fresh_reach H V {i. (i, False) \<in> set pending} j}"

definition reported :: "export_node list \<Rightarrow> nat set \<Rightarrow> CommitId set \<Rightarrow> (CommitId \<times> CommitId) list \<Rightarrow> bool" where
  "reported H I E ys \<longleftrightarrow>
     distinct (map fst ys) \<and> fst ` set ys = en_raw ` ((!) H ` {i \<in> I. en_canonical (H ! i) \<noteq> None}) - E \<and>
     (\<forall>(raw, c) \<in> set ys. \<exists>i \<in> I. en_raw (H ! i) = raw \<and> en_canonical (H ! i) = Some c)"

lemma to_report_ready: "to_report H ((i, True) # rest) V = insert i (to_report H rest V)"
  by (auto simp: to_report_def)

lemma to_report_visited: "i \<in> V \<Longrightarrow> to_report H ((i, False) # rest) V = to_report H rest V"
proof -
  assume "i \<in> V"
  moreover have "{k. (k, False) \<in> set ((i, False) # rest)} = insert i {k. (k, False) \<in> set rest}" by auto
  ultimately show ?thesis by (simp add: to_report_def fresh_reach_visited)
qed

lemma to_report_enter:
  assumes "i \<notin> V"
  shows "to_report H (map (\<lambda>p. (p, False)) (rev (en_parents (H ! i))) @ (i, True) # rest) (insert i V) =
    to_report H ((i, False) # rest) V"
proof -
  have "{k. (k, False) \<in> set ((i, False) # rest)} = insert i {k. (k, False) \<in> set rest}"
      "{k. (k, False) \<in> set (map (\<lambda>p. (p, False)) (rev (en_parents (H ! i))) @ (i, True) # rest)} =
       set (en_parents (H ! i)) \<union> {k. (k, False) \<in> set rest}"
      "{k. (k, True) \<in> set (map (\<lambda>p. (p, False)) (rev (en_parents (H ! i))) @ (i, True) # rest)} =
       insert i {k. (k, True) \<in> set rest}"
      "{k. (k, True) \<in> set ((i, False) # rest)} = {k. (k, True) \<in> set rest}" by auto
  then show ?thesis using fresh_reach_enter[OF assms, of H "{k. (k, False) \<in> set rest}"] unfolding to_report_def by (simp only:) blast
qed

lemma reported_in:
  "reported H I {} ys \<Longrightarrow> i \<in> I \<Longrightarrow> en_canonical (H ! i) \<noteq> None \<Longrightarrow> en_raw (H ! i) \<in> fst ` set ys"
  unfolding reported_def by (elim conjE) simp

lemma reported_skip:
  "en_canonical (H ! i) = None \<or> en_raw (H ! i) \<in> E \<Longrightarrow> reported H I E ys \<Longrightarrow> reported H (insert i I) E ys"
  unfolding reported_def by (elim conjE, intro conjI) auto

lemma reported_emit:
  assumes "en_canonical (H ! i) = Some c" "en_raw (H ! i) \<notin> E" "reported H I (insert (en_raw (H ! i)) E) ys"
  shows "reported H (insert i I) E ((en_raw (H ! i), c) # ys)"
proof -
  have "en_raw (H ! i) \<notin> fst ` set ys" using assms(3) unfolding reported_def by auto
  moreover have "fst ` set ((en_raw (H ! i), c) # ys) = en_raw ` ((!) H ` {k \<in> insert i I. en_canonical (H ! k) \<noteq> None}) - E"
    using assms unfolding reported_def by auto
  ultimately show ?thesis using assms(1,3) unfolding reported_def by (elim conjE, intro conjI) auto
qed

lemma publications_loop_reports:
  assumes "arena_closed H" "\<forall>(i, r) \<in> set pending. i < length H"
  shows "\<exists>ys. publications_loop H pending V E = Returns ys \<and> reported H (to_report H pending V) E ys"
  using assms
proof (induction H pending V E rule: publications_loop.induct)
  case (1 H V E)
  have "\<not> fresh_reach H V {} j" for j
  proof
    show "fresh_reach H V {} j \<Longrightarrow> False" by (induction rule: fresh_reach.induct) auto
  qed
  then show ?case by (simp add: reported_def to_report_def)
next
  case (2 H i ready rest V E)
  have i: "i < length H" and rest: "\<forall>(k, r) \<in> set rest. k < length H" using 2(7) by auto
  consider (emit) c where "ready" "en_canonical (H ! i) = Some c" "en_raw (H ! i) \<notin> E"
    | (skip) "ready" "en_canonical (H ! i) = None \<or> en_raw (H ! i) \<in> E"
    | (enter) "\<not> ready" "i \<notin> V" | (seen) "\<not> ready" "i \<in> V"
    by (cases "en_canonical (H ! i)") auto
  then show ?case
  proof cases
    case emit
    then obtain ys where "publications_loop H rest V (insert (en_raw (H ! i)) E) = Returns ys"
        "reported H (to_report H rest V) (insert (en_raw (H ! i)) E) ys"
      using 2(2)[OF i _ _ _ 2(6) rest] by blast
    then show ?thesis using emit i reported_emit by (simp add: to_report_ready)
  next
    case skip
    then obtain ys where ys: "publications_loop H rest V E = Returns ys" "reported H (to_report H rest V) E ys"
      using 2(1)[OF i _ _ 2(6) rest] 2(3)[OF i _ _ _ 2(6) rest] by (cases "en_canonical (H ! i)") auto
    moreover have "publications_loop H ((i, ready) # rest) V E = publications_loop H rest V E"
      using skip i by (auto split: option.splits)
    ultimately show ?thesis using skip reported_skip by (simp add: to_report_ready)
  next
    case enter
    have "\<forall>(k, r) \<in> set (map (\<lambda>p. (p, False)) (rev (en_parents (H ! i))) @ (i, True) # rest). k < length H"
      using 2(6) i rest nth_mem[OF i] by (auto simp: arena_closed_def)
    then show ?thesis using 2(4)[OF i enter 2(6)] enter i by (simp add: to_report_enter)
  next
    case seen
    then show ?thesis using 2(5)[OF i seen(1) _ 2(6) rest] i by (simp add: to_report_visited)
  qed
qed

section \<open>Correspondence\<close>

text \<open>A map from canonical to raw identifiers, without two raw identifiers for one canonical one.\<close>

definition one_to_one :: "(CommitId \<times> CommitId) set \<Rightarrow> bool" where
  "one_to_one K \<longleftrightarrow> (\<forall>raw raw' c. (raw, c) \<in> K \<and> (raw', c) \<in> K \<longrightarrow> raw = raw')"

definition pairs_of :: "(CommitId \<rightharpoonup> CommitId) \<Rightarrow> (CommitId \<times> CommitId) set" where
  "pairs_of m = {(raw, c). m c = Some raw}"

lemma one_to_one_pairs: "one_to_one (pairs_of m)"
  by (auto simp: one_to_one_def pairs_of_def)

lemma pairs_of_update: "m c = None \<Longrightarrow> pairs_of (m(c \<mapsto> raw)) = insert (raw, c) (pairs_of m)"
  by (auto simp: pairs_of_def)

lemma reverse_anchors_loop_spec:
  "case (reverse_anchors_loop known m :: ('be native_error, _) result) of
     Inr m' \<Rightarrow> one_to_one (pairs_of m \<union> set known) \<and> pairs_of m' = pairs_of m \<union> set known
   | Inl e \<Rightarrow> \<exists>c raw raw'. e = AmbiguousCorrespondence c \<and> raw \<noteq> raw' \<and> {(raw, c), (raw', c)} \<subseteq> pairs_of m \<union> set known"
proof (induction known m rule: reverse_anchors_loop.induct)
  case (1 m)
  then show ?case by (simp add: one_to_one_pairs)
next
  case (2 raw c known m)
  consider (new) "m c = None" | (same) "m c = Some raw" | (other) old where "m c = Some old" "old \<noteq> raw" by fastforce
  then show ?case
  proof cases
    case new
    then have eq: "pairs_of m \<union> set ((raw, c) # known) = pairs_of (m(c \<mapsto> raw)) \<union> set known" by (simp add: pairs_of_update)
    show ?thesis unfolding eq using 2(1)[OF new] new by (simp only: reverse_anchors_loop.simps option.case)
  next
    case same
    then have eq: "pairs_of m \<union> set ((raw, c) # known) = pairs_of m \<union> set known" by (auto simp: pairs_of_def)
    show ?thesis unfolding eq using 2(2)[OF same] same by simp
  next
    case other
    then show ?thesis by (auto simp: pairs_of_def)
  qed
qed

lemma reverse_anchors_spec:
  "case (reverse_anchors known :: ('be native_error, _) result) of
     Inr m \<Rightarrow> one_to_one (set known) \<and> pairs_of m = set known
   | Inl e \<Rightarrow> \<exists>c raw raw'. e = AmbiguousCorrespondence c \<and> raw \<noteq> raw' \<and> {(raw, c), (raw', c)} \<subseteq> set known"
  using reverse_anchors_loop_spec[where known = known and m = Map.empty and 'be = 'be]
  by (simp add: reverse_anchors_def pairs_of_def split: sum.splits)

lemma reverse_anchors_Some:
  "reverse_anchors known = (Inr m :: ('be native_error, _) result) \<Longrightarrow> m c = Some raw \<longleftrightarrow> (raw, c) \<in> set known"
  using reverse_anchors_spec[where known = known and 'be = 'be] by (auto simp: pairs_of_def)

section \<open>Exported histories\<close>

lemma Returns_ok:
  "Returns r = ok x \<longleftrightarrow> r = Inr x" "Returns (res_map_err f r') = ok x \<longleftrightarrow> r' = Inr x"
  by (auto simp: ok_def res_map_err_def split: sum.splits)

lemma check_heads_ok:
  "check_heads R mount cs = ok () \<longleftrightarrow> (\<forall>c \<in> set cs. \<exists>t. project_tree R c mount = ok t \<and> \<not> has_conflict t)"
  by (induction cs) (auto simp: er_bind_ok)

lemma exported_heads_ok:
  "exported_heads root H is = ok es \<Longrightarrow>
     es = map (\<lambda>i. \<lparr>ep_head = i, ep_history = H\<rparr>) is \<and> (\<forall>i \<in> set is. i < length H \<and> en_raw (H ! i) \<noteq> root)"
proof (induction "is" arbitrary: es)
  case (Cons i "is")
  then have "i < length H" by (auto simp: index_exec_def ok_def split: if_splits)
  then show ?case using Cons by (auto simp: index_exec_def er_bind_ok split: if_splits)
qed simp

lemma export_projects_ok:
  fixes R :: "('be, 'x) native_repo_scheme"
  assumes "export_projects R git mount heads known = Some (ok es)"
  obtains reverse writer h where "reverse_anchors known = (Inr reverse :: ('be native_error, _) result)" "git = Inr writer"
    "\<forall>c \<in> set heads. \<exists>t. project_tree R c mount = ok t \<and> \<not> has_conflict t"
    "project R mount (map cm_id heads) reverse (export_emit writer) = Some (ok h)"
    "exported_heads (root_commit_id R) (export_arena (fst ` set known) (hist_nodes h)) (hist_heads h) =
      (ok es :: ('be native_error, _) result exec)"
proof -
  let ?prep = "er_bind (check_heads R mount heads) (\<lambda>_.
      er_bind (Returns (reverse_anchors known)) (\<lambda>reverse.
      er_bind (Returns (res_map_err BackendError git)) (\<lambda>writer. ok (reverse, writer))))"
  obtain reverse writer where prep: "?prep = ok (reverse, writer)"
    using assms unfolding export_projects_def by (cases ?prep) (auto simp: err_def ok_def split: sum.splits)
  then have "check_heads R mount heads = ok ()" "reverse_anchors known = (Inr reverse :: ('be native_error, _) result)" "git = Inr writer"
    by (auto simp: er_bind_ok Returns_ok)
  moreover obtain h where "project R mount (map cm_id heads) reverse (export_emit writer) = Some (ok h)"
      "exported_heads (root_commit_id R) (export_arena (fst ` set known) (hist_nodes h)) (hist_heads h) =
      (ok es :: ('be native_error, _) result exec)"
    using assms prep by (auto simp: export_projects_def ok_def[of "(reverse, writer)"] er_bind_ok bind_eq_Some_conv)
  ultimately show thesis using that check_heads_ok by blast
qed

lemma arena_nth: "i < length nodes \<Longrightarrow> export_arena K nodes ! i =
    \<lparr>en_raw = node_id (nodes ! i), en_canonical = (if node_id (nodes ! i) \<in> K then None else node_value (nodes ! i)),
     en_parents = node_parents (nodes ! i)\<rparr>"
  by (simp add: export_arena_def)

lemma arena_length [simp]: "length (export_arena K nodes) = length nodes"
  by (simp add: export_arena_def)

lemma arena_parents_closed:
  assumes "history_inv R mount boundary emit heads nodes mapped"
  shows "arena_closed (export_arena K nodes)"
  unfolding arena_closed_def
proof (intro ballI)
  fix n j assume "n \<in> set (export_arena K nodes)" "j \<in> set (en_parents n)"
  then obtain i where "i < length nodes" "j \<in> set (node_parents (nodes ! i))"
    by (auto simp: in_set_conv_nth[of n] arena_nth)
  then show "j < length (export_arena K nodes)" using parents_first[OF assms] by fastforce
qed

lemma owned_parent:
  assumes "owns R mount boundary emit nodes mapped c p" "j \<in> set (node_parents (nodes ! proj_node p))"
  shows "j = 0 \<or> (\<exists>c' q. parent_of R c' c \<and> mapped c' = Some q \<and> proj_node q = j)"
proof (cases "boundary c")
  case None
  then obtain d t qs where d: "get_commit R c = Inr d" and qs: "entries_of nodes mapped (bc_parents (cm_data d)) qs"
      and made: "made R boundary emit d t nodes (projected_parents (root_commit_id R) qs) (proj_node p)"
    using assms(1) unfolding owns_def by auto
  then have "j = 0 \<or> (\<exists>q \<in> set (projected_parents (root_commit_id R) qs). j = proj_node (fst q))"
    using assms(2) by (auto simp: made_def parent_indices_def split: if_splits)
  then show ?thesis
  proof
    assume "\<exists>q \<in> set (projected_parents (root_commit_id R) qs). j = proj_node (fst q)"
    then obtain q where q: "q \<in> set qs" "j = proj_node (fst q)" using set_projected_parents by blast
    obtain c' where "c' \<in> set (bc_parents (cm_data d))" "mapped c' = Some (fst q)" using entries_of_member[OF qs q(1)] by blast
    then show ?thesis using d q(2) by (auto simp: parent_of_def)
  qed simp
next
  case (Some r)
  then show ?thesis using assms unfolding owns_def by auto
qed

lemma reached_ancestor:
  assumes "history_law R" "history_inv R mount boundary emit heads nodes mapped" "mapped c = Some p"
    and "fresh_reach (export_arena K nodes) {} {proj_node p} j"
  shows "j = 0 \<or> (\<exists>c' q. (parent_of R)\<^sup>*\<^sup>* c' c \<and> mapped c' = Some q \<and> proj_node q = j)"
  using assms(4)
proof induction
  case (fresh_start i)
  then show ?case using assms(3) by blast
next
  case (fresh_step i j)
  have root: "node_parents (nodes ! 0) = []" "nodes \<noteq> []" using assms(2) by (simp_all add: history_inv_def root_node_def)
  have "i \<noteq> 0"
  proof
    assume "i = 0"
    then show False using fresh_step(2) root by (simp add: arena_nth)
  qed
  then obtain c' q where q: "(parent_of R)\<^sup>*\<^sup>* c' c" "mapped c' = Some q" "proj_node q = i" using fresh_step(4) by blast
  then obtain c0 where c0: "(parent_of R)\<^sup>*\<^sup>* c0 c'" "owns R mount boundary emit nodes mapped c0 q"
    using owner_exists[OF assms(1,2) q(2)] \<open>i \<noteq> 0\<close> by auto
  have "i < length nodes" using history_inv_placed[OF assms(2) q(2)] q(3) by (auto simp: placed_def)
  then have "j = 0 \<or> (\<exists>c' q. parent_of R c' c0 \<and> mapped c' = Some q \<and> proj_node q = j)"
    using owned_parent[OF c0(2)] fresh_step(2) q(3) by (simp add: arena_nth)
  moreover have "(parent_of R)\<^sup>*\<^sup>* c' c" if "parent_of R c' c0" for c'
    using that c0(1) q(1) by (meson converse_rtranclp_into_rtranclp rtranclp_trans)
  ultimately show ?case by blast
qed

lemma reached_owner:
  assumes "history_law R" "history_inv R mount boundary emit heads nodes mapped" "mapped c = Some p"
    and "fresh_reach (export_arena K nodes) {} {proj_node p} j" "node_value (nodes ! j) \<noteq> None"
  obtains c0 q where "(parent_of R)\<^sup>*\<^sup>* c0 c" "owns R mount boundary emit nodes mapped c0 q" "proj_node q = j" "boundary c0 = None"
proof -
  have "node_value (nodes ! 0) = None" using assms(2) by (simp add: history_inv_def root_node_def)
  then have j: "j \<noteq> 0" using assms(5) by metis
  then obtain c' q where q: "(parent_of R)\<^sup>*\<^sup>* c' c" "mapped c' = Some q" "proj_node q = j"
    using reached_ancestor[OF assms(1-4)] by blast
  then obtain c0 where c0: "(parent_of R)\<^sup>*\<^sup>* c0 c'" "owns R mount boundary emit nodes mapped c0 q"
    using owner_exists[OF assms(1,2) q(2)] j by auto
  have "boundary c0 = None" using c0(2) assms(5) q(3) unfolding owns_def by (cases "boundary c0") auto
  moreover have "(parent_of R)\<^sup>*\<^sup>* c0 c" using c0(1) q(1) by simp
  ultimately show thesis using that[of c0 q] c0(2) q(3) by blast
qed

lemma export_emit_Inr:
  "export_emit w d t ps = Inr (raw, v) \<longleftrightarrow> v = Some (cm_id d) \<and> w (export_contents d t ps) = Inr (raw, export_contents d t ps)"
  by (auto simp: export_emit_def Let_def res_map_err_def split: sum.splits if_splits)

text \<open>A raw commit that the backend wrote for a commit without changing what it was given.\<close>

definition written_for ::
  "('be, 'x) native_repo_scheme \<Rightarrow> ('be, 'be git_writer) result \<Rightarrow> RepoPath \<Rightarrow> CommitId \<Rightarrow> CommitId \<Rightarrow> bool" where
  "written_for R git mount raw c \<longleftrightarrow>
     (\<exists>w d t parents. git = Inr w \<and> get_commit R c = Inr d \<and> project_tree R d mount = ok t \<and>
        w (export_contents d t parents) = Inr (raw, export_contents d t parents))"

lemma owns_written:
  assumes "history_law R" "owns R mount boundary (export_emit w) nodes mapped c p" "boundary c = None"
  shows "node_value (nodes ! proj_node p) = Some c \<and> written_for R (Inr w) mount (node_id (nodes ! proj_node p)) c"
proof -
  obtain d t ps where d: "get_commit R c = Inr d" "project_tree R d mount = ok t"
      and made: "made R boundary (export_emit w) d t nodes ps (proj_node p)"
    using assms(2,3) unfolding owns_def by auto
  have "cm_id d = c" using assms(1) d(1) by (simp add: history_law_def)
  then show ?thesis using made d unfolding made_def written_for_def by (auto simp: export_emit_Inr)
qed

lemma fresh_reach_bound:
  "fresh_reach H V T j \<Longrightarrow> arena_closed H \<Longrightarrow> T \<subseteq> {..<length H} \<Longrightarrow> j < length H"
  by (induction rule: fresh_reach.induct) (auto simp: arena_closed_def)

lemma published_own:
  fixes R :: "('be, 'x) native_repo_scheme"
  assumes "history_law R" "history_inv R mount reverse (export_emit w) heads nodes mapped" "mapped c = Some p"
    and "reverse_anchors known = (Inr reverse :: ('be native_error, _) result)"
    and "fresh_reach (export_arena (fst ` set known) nodes) {} {proj_node p} j"
    and "en_canonical (export_arena (fst ` set known) nodes ! j) = Some c'"
  shows "en_raw (export_arena (fst ` set known) nodes ! j) \<notin> fst ` set known \<and> c' \<notin> snd ` set known \<and>
    (parent_of R)\<^sup>*\<^sup>* c' c \<and> written_for R (Inr w) mount (en_raw (export_arena (fst ` set known) nodes ! j)) c'"
proof -
  have "proj_node p < length nodes" using history_inv_placed[OF assms(2,3)] by (auto simp: placed_def)
  then have j: "j < length nodes" using fresh_reach_bound[OF assms(5) arena_parents_closed[OF assms(2)]] by simp
  then have new: "node_id (nodes ! j) \<notin> fst ` set known" "node_value (nodes ! j) = Some c'"
    using assms(6) by (auto simp: arena_nth split: if_splits)
  then obtain c0 q where c0: "(parent_of R)\<^sup>*\<^sup>* c0 c" "owns R mount reverse (export_emit w) nodes mapped c0 q"
      "proj_node q = j" "reverse c0 = None"
    using reached_owner[OF assms(1-3,5)] by (metis option.distinct(1))
  have own: "node_value (nodes ! j) = Some c0" "written_for R (Inr w) mount (node_id (nodes ! j)) c0"
    using owns_written[OF assms(1) c0(2,4)] c0(3) by simp_all
  moreover have "c0 \<notin> snd ` set known" using c0(4) reverse_anchors_Some[OF assms(4), of c0] by force
  ultimately show ?thesis using new c0(1) j by (simp add: arena_nth)
qed

lemma head_covered:
  fixes R :: "('be, 'x) native_repo_scheme"
  assumes "history_law R" "history_inv R mount reverse (export_emit w) heads nodes mapped" "mapped c = Some p"
    and "reverse_anchors known = (Inr reverse :: ('be native_error, _) result)" "node_id (nodes ! proj_node p) \<noteq> root_commit_id R"
  shows "node_id (nodes ! proj_node p) \<in> fst ` set known \<or> en_canonical (export_arena (fst ` set known) nodes ! proj_node p) \<noteq> None"
proof -
  have i: "proj_node p < length nodes" using history_inv_placed[OF assms(2,3)] by (auto simp: placed_def)
  have "node_id (nodes ! 0) = root_commit_id R" using assms(2) by (simp add: history_inv_def root_node_def)
  then have "proj_node p \<noteq> 0" using assms(5) by metis
  then obtain c0 where own: "owns R mount reverse (export_emit w) nodes mapped c0 p"
    using owner_exists[OF assms(1-3)] by auto
  show ?thesis
  proof (cases "reverse c0")
    case None
    then have "node_value (nodes ! proj_node p) = Some c0" using owns_written[OF assms(1) own] by simp
    then show ?thesis using i by (simp add: arena_nth)
  next
    case (Some r)
    then have "node_id (nodes ! proj_node p) = r" using own unfolding owns_def by auto
    then show ?thesis using Some reverse_anchors_Some[OF assms(4), of c0 r] by force
  qed
qed

section \<open>Commits to validate\<close>

lemma take_out_spec:
  assumes "\<And>c v. m c = Some v \<Longrightarrow> cm_id (vc_commit v) = c"
  shows "subseq (map (\<lambda>v. cm_id (vc_commit v)) (take_out m cs)) cs \<and>
    distinct (map (\<lambda>v. cm_id (vc_commit v)) (take_out m cs)) \<and>
    set (take_out m cs) = {v. \<exists>c \<in> set cs. m c = Some v}"
  using assms
proof (induction m cs rule: take_out.induct)
  case (2 m c cs)
  show ?case
  proof (cases "m c")
    case None
    then show ?thesis using 2(1)[OF None 2(3)] by auto
  next
    case (Some v)
    let ?m = "m(c := None)"
    have keys: "cm_id (vc_commit v') = c'" if "?m c' = Some v'" for c' v' using 2(3) that by (auto split: if_splits)
    have v: "cm_id (vc_commit v) = c" using 2(3)[OF Some] .
    have IH: "subseq (map (\<lambda>v. cm_id (vc_commit v)) (take_out ?m cs)) cs"
        "distinct (map (\<lambda>v. cm_id (vc_commit v)) (take_out ?m cs))"
        "set (take_out ?m cs) = {v. \<exists>c \<in> set cs. ?m c = Some v}"
      using 2(2)[OF Some] keys by blast+
    have "{v'. \<exists>c' \<in> set (c # cs). m c' = Some v'} = insert v {v'. \<exists>c' \<in> set cs. ?m c' = Some v'}"
      using Some by (auto split: if_splits) (metis option.inject)
    moreover have "cm_id (vc_commit v') \<noteq> c" if "v' \<in> set (take_out ?m cs)" for v'
    proof -
      obtain c' where "?m c' = Some v'" using \<open>v' \<in> set (take_out ?m cs)\<close> unfolding IH(3) by blast
      then show ?thesis using keys[of c' v'] by (auto split: if_splits)
    qed
    then have "c \<notin> (\<lambda>v. cm_id (vc_commit v)) ` set (take_out ?m cs)" by auto
    ultimately show ?thesis using IH Some v by simp
  qed
qed simp

lemma surviving_Some:
  assumes "surviving nodes c = Some v"
  obtains n where "n \<in> set nodes" "node_value n = Some (vc_commit v)" "vc_has_conflict v = node_has_conflict n" "cm_id (vc_commit v) = c"
  using map_of_SomeD[OF assms[unfolded surviving_def]] by (auto simp: List.map_filter_def)

lemma surviving_dom: "n \<in> set nodes \<Longrightarrow> node_value n = Some d \<Longrightarrow> surviving nodes (cm_id d) \<noteq> None"
  unfolding surviving_def map_of_eq_None_iff by (force simp: List.map_filter_def)

lemma validation_node:
  assumes "history_law R" "history_inv R mount boundary (validation_emit S) heads nodes mapped" "n \<in> set nodes" "node_value n = Some d"
  shows "\<exists>t. get_commit R (cm_id d) = Inr d \<and> project_tree R d mount = ok t \<and> node_has_conflict n = has_conflict t"
proof -
  obtain i where i: "i < length nodes" "n = nodes ! i" using assms(3) by (auto simp: in_set_conv_nth)
  have "node_value (nodes ! 0) = None" using assms(2) by (simp add: history_inv_def root_node_def)
  then have "0 < i" using i(2) assms(4) by (cases i) auto
  then obtain c p where own: "owns R mount boundary (validation_emit S) nodes mapped c p" "proj_node p = i"
    using history_inv_owned[OF assms(2) _ i(1)] by auto
  have "boundary c = None" using own assms(4) i(2) unfolding owns_def by (cases "boundary c") auto
  then obtain d' t ps where d': "get_commit R c = Inr d'" "project_tree R d' mount = ok t"
      "made R boundary (validation_emit S) d' t nodes ps i"
    using own unfolding owns_def by auto
  then have "d = d'" "node_has_conflict n = has_conflict t"
    using assms(4) i(2) by (auto simp: made_def validation_emit_def split: if_splits)
  moreover have "cm_id d' = c" using assms(1) d'(1) by (simp add: history_law_def)
  ultimately show ?thesis using d' by auto
qed

lemma validation_omitted:
  assumes "history_law R" "history_inv R mount boundary (validation_emit S) heads nodes mapped" "mapped c = Some p"
    and "c \<in> S" "boundary c = None" "surviving nodes c = None"
  shows "c = root_commit_id R \<or> (\<exists>c'. parent_of R c' c \<and> projected_tree R mount c' = projected_tree R mount c)"
proof -
  have pl: "placed R mount boundary (validation_emit S) nodes mapped c p" using history_inv_placed[OF assms(2,3)] by blast
  from pl assms(3) show ?thesis
  proof (cases rule: placed_cases)
    case 2
    obtain d t ps where d: "get_commit R c = Inr d" "made R boundary (validation_emit S) d t nodes ps (proj_node p)"
      using 2(2) assms(5) unfolding owns_def by auto
    have id: "cm_id d = c" using assms(1) d(1) by (simp add: history_law_def)
    then have "node_value (nodes ! proj_node p) = Some d" using d(2) assms(4) by (auto simp: made_def validation_emit_def)
    moreover have "nodes ! proj_node p \<in> set nodes" using pl by (simp add: placed_def)
    ultimately show ?thesis using surviving_dom assms(6) id by metis
  next
    case (3 d t qs)
    obtain q where "q \<in> set qs" "p = fst q" using same_parent_Some[OF 3(6)] by blast
    then obtain c' where c': "c' \<in> set (bc_parents (cm_data d))" "mapped c' = Some p" using entries_of_member[OF 3(5)] by metis
    have "projected_tree R mount c' = projected_tree R mount c"
      using placed_tree[OF pl] placed_tree history_inv_placed[OF assms(2) c'(2)] by metis
    then show ?thesis using c'(1) 3(3) by (auto simp: parent_of_def)
  qed simp
qed

section \<open>Properties\<close>

text \<open>
  Inverting the known correspondence succeeds exactly if no canonical commit stands for two raw
  commits, and then it is the correspondence itself; otherwise the error names a canonical commit with
  two different raw ones.
\<close>

theorem reverse_anchors_exact:
  "case (reverse_anchors known :: ('be native_error, _) result) of
     Inr m \<Rightarrow> \<forall>raw c. m c = Some raw \<longleftrightarrow> (raw, c) \<in> set known
   | Inl e \<Rightarrow> \<exists>c raw raw'. e = AmbiguousCorrespondence c \<and> raw \<noteq> raw' \<and> (raw, c) \<in> set known \<and> (raw', c) \<in> set known"
  using reverse_anchors_spec[where known = known and 'be = 'be] by (auto simp: pairs_of_def set_eq_iff split: sum.splits)

text \<open>
  What one result of an export publishes: the walk ends, reports no raw commit twice, and reports
  the raw commits of exactly those nodes that the head of this result reaches in the arena and that
  were not witnessed before, each with the canonical commit of such a node. Nodes of the arena that
  only another head reaches are left out.
\<close>

theorem publications_exact:
  assumes "arena_closed (ep_history e)" "ep_head e < length (ep_history e)"
  defines "reached \<equiv> {n. \<exists>i. (\<lambda>i j. j \<in> set (en_parents (ep_history e ! i)))\<^sup>*\<^sup>* (ep_head e) i \<and> n = ep_history e ! i}"
  shows "\<exists>ys. publications e = Returns ys \<and> distinct (map fst ys) \<and>
    fst ` set ys = en_raw ` {n \<in> reached. en_canonical n \<noteq> None} \<and>
    (\<forall>(raw, c) \<in> set ys. \<exists>n \<in> reached. en_raw n = raw \<and> en_canonical n = Some c)"
proof -
  let ?H = "ep_history e" and ?step = "\<lambda>i j. j \<in> set (en_parents (ep_history e ! i))"
  have "fresh_reach ?H {} {ep_head e} j \<longleftrightarrow> ?step\<^sup>*\<^sup>* (ep_head e) j" for j
  proof
    show "fresh_reach ?H {} {ep_head e} j \<Longrightarrow> ?step\<^sup>*\<^sup>* (ep_head e) j"
      by (induction rule: fresh_reach.induct) (auto intro: rtranclp.rtrancl_into_rtrancl)
    show "?step\<^sup>*\<^sup>* (ep_head e) j \<Longrightarrow> fresh_reach ?H {} {ep_head e} j"
      by (induction rule: rtranclp_induct) (auto intro: fresh_reach.intros)
  qed
  then have "(!) ?H ` to_report ?H [(ep_head e, False)] {} = reached" by (auto simp: to_report_def reached_def)
  moreover obtain ys where "publications e = Returns ys" "reported ?H (to_report ?H [(ep_head e, False)] {}) {} ys"
    using publications_loop_reports[OF assms(1), of "[(ep_head e, False)]" "{}" "{}"] assms(2) unfolding publications_def by auto
  moreover have "(!) ?H ` {i \<in> I. en_canonical (?H ! i) \<noteq> None} = {n \<in> (!) ?H ` I. en_canonical n \<noteq> None}" for I by auto
  ultimately show ?thesis unfolding reported_def by fastforce
qed

text \<open>
  (C5) An export gives one result per head, in order; the walk over each result ends. The exported
  commit is never the synthetic root and is either known already or among the publications; and what is
  published with a head is the history of that head: each pair is a new raw commit, written by the
  backend for the project tree of a commit that is the head or one of its ancestors and had no raw
  commit before. Nothing of the other heads of the batch is published with it.
\<close>

theorem export_publishes_own_history:
  assumes "history_law R" "export_projects R git mount heads known = Some (ok es)"
  shows "list_all2 (\<lambda>h e. \<exists>raw ps. exported_id e = Returns raw \<and> raw \<noteq> root_commit_id R \<and>
      publications e = Returns ps \<and> distinct (map fst ps) \<and> raw \<in> fst ` set known \<union> fst ` set ps \<and>
      (\<forall>(raw, c) \<in> set ps. raw \<notin> fst ` set known \<and> c \<notin> snd ` set known \<and>
         (parent_of R)\<^sup>*\<^sup>* c (cm_id h) \<and> written_for R git mount raw c)) heads es"
proof -
  obtain reverse w h where rev: "reverse_anchors known = (Inr reverse :: ('a native_error, _) result)" and git: "git = Inr w"
    and h: "project R mount (map cm_id heads) reverse (export_emit w) = Some (ok h)"
    and es: "exported_heads (root_commit_id R) (export_arena (fst ` set known) (hist_nodes h)) (hist_heads h) =
      (ok es :: ('a native_error, _) result exec)"
    using assms(2) by (rule export_projects_ok)
  obtain nodes mapped where heq: "h = \<lparr>hist_nodes = nodes, hist_heads = map (\<lambda>c. proj_node (the (mapped c))) (map cm_id heads)\<rparr>"
    and inv: "history_inv R mount reverse (export_emit w) (set (map cm_id heads)) nodes mapped" "set (map cm_id heads) \<subseteq> dom mapped"
    using project_returns[OF assms(1), of mount "map cm_id heads" reverse "export_emit w"] h by (auto simp: err_def ok_def)
  let ?K = "fst ` set known" and ?H = "export_arena (fst ` set known) nodes"
  let ?node = "\<lambda>c. proj_node (the (mapped (cm_id c)))"
  note eh = exported_heads_ok[OF es]
  have es_eq: "es = map (\<lambda>c. \<lparr>ep_head = ?node c, ep_history = ?H\<rparr>) heads" using eh by (simp add: heq)
  have "\<exists>raw ps. exported_id \<lparr>ep_head = ?node c, ep_history = ?H\<rparr> = Returns raw \<and> raw \<noteq> root_commit_id R \<and>
      publications \<lparr>ep_head = ?node c, ep_history = ?H\<rparr> = Returns ps \<and> distinct (map fst ps) \<and> raw \<in> ?K \<union> fst ` set ps \<and>
      (\<forall>(raw, c') \<in> set ps. raw \<notin> ?K \<and> c' \<notin> snd ` set known \<and> (parent_of R)\<^sup>*\<^sup>* c' (cm_id c) \<and> written_for R git mount raw c')"
    if c: "c \<in> set heads" for c
  proof -
    obtain p where p: "mapped (cm_id c) = Some p" using inv(2) c by auto
    have i: "proj_node p < length nodes" "node_id (nodes ! proj_node p) \<noteq> root_commit_id R"
      using eh c p by (force simp: heq arena_nth)+
    let ?e = "\<lparr>ep_head = proj_node p, ep_history = ?H\<rparr>"
    obtain ps where ps: "publications ?e = Returns ps" "reported ?H (to_report ?H [(proj_node p, False)] {}) {} ps"
      using publications_loop_reports[OF arena_parents_closed[OF inv(1)], of "[(proj_node p, False)]" ?K "{}" "{}"] i(1)
      unfolding publications_def by auto
    have report: "to_report ?H [(proj_node p, False)] {} = {j. fresh_reach ?H {} {proj_node p} j}" by (simp add: to_report_def)
    have own: "raw \<notin> ?K \<and> c' \<notin> snd ` set known \<and> (parent_of R)\<^sup>*\<^sup>* c' (cm_id c) \<and> written_for R git mount raw c'"
      if pub: "(raw, c') \<in> set ps" for raw c'
    proof -
      obtain j where "fresh_reach ?H {} {proj_node p} j" "en_raw (?H ! j) = raw" "en_canonical (?H ! j) = Some c'"
        using ps(2) pub unfolding reported_def report by auto
      then show ?thesis using published_own[OF assms(1) inv(1) p rev] git by blast
    qed
    have "node_id (nodes ! proj_node p) \<in> ?K \<union> fst ` set ps"
    proof (rule UnCI)
      assume "node_id (nodes ! proj_node p) \<notin> fst ` set ps"
      moreover have "fresh_reach ?H {} {proj_node p} (proj_node p)" by (simp add: fresh_start)
      ultimately have "en_canonical (?H ! proj_node p) = None"
        using reported_in[OF ps(2)[unfolded report], of "proj_node p"] i(1) by (auto simp: arena_nth)
      then show "node_id (nodes ! proj_node p) \<in> ?K" using head_covered[OF assms(1) inv(1) p rev i(2)] by blast
    qed
    then show ?thesis using i ps(1) own p ps(2) unfolding reported_def
      by (auto simp: exported_id_def index_exec_def arena_nth)
  qed
  then show ?thesis unfolding es_eq by (simp add: list_all2_map2 list_all2_same)
qed

text \<open>
  (C12) The commits that a push has to validate: they come in the order of the candidates, each once and
  with the conflict state of the project's tree inside it, not of the whole commit. A candidate is left
  out only if it is the root or leaves the project as one of its parents has it, so that no commit that
  changes the project escapes the checks.
\<close>

theorem validation_commits_complete:
  assumes "history_law R" "validation_commits R mount (Inr cs) known = Some (ok vs)"
  shows "subseq (map (\<lambda>v. cm_id (vc_commit v)) vs) cs \<and> distinct (map (\<lambda>v. cm_id (vc_commit v)) vs) \<and>
    (\<forall>v \<in> set vs. \<exists>t. get_commit R (cm_id (vc_commit v)) = Inr (vc_commit v) \<and>
       project_tree R (vc_commit v) mount = ok t \<and> vc_has_conflict v = has_conflict t) \<and>
    (\<forall>c \<in> set cs. (\<exists>v \<in> set vs. cm_id (vc_commit v) = c) \<or> c = root_commit_id R \<or>
       (\<exists>c'. parent_of R c' c \<and> projected_tree R mount c' = projected_tree R mount c))"
proof (cases "cs = []")
  case True
  then show ?thesis using assms(2) by (simp add: validation_commits_def)
next
  case False
  then obtain reverse h where
      h: "project R mount cs (\<lambda>c. if c \<in> set cs then None else reverse c) (validation_emit (set cs)) = Some (ok h)"
      and vs: "vs = take_out (surviving (hist_nodes h)) cs"
    using assms(2) by (auto simp: validation_commits_def er_bind_ok bind_eq_Some_conv split: list.splits sum.splits)
  let ?b = "\<lambda>c. if c \<in> set cs then None else reverse c"
  obtain nodes mapped where nodes: "hist_nodes h = nodes"
      and inv: "history_inv R mount ?b (validation_emit (set cs)) (set cs) nodes mapped" "set cs \<subseteq> dom mapped"
    using project_returns[OF assms(1), of mount cs ?b "validation_emit (set cs)"] h by (auto simp: err_def ok_def)
  have keys: "cm_id (vc_commit v) = c" if "surviving nodes c = Some v" for c v using that by (elim surviving_Some)
  note spec = take_out_spec[of "surviving nodes" cs, OF keys]
  have set_vs: "set vs = {v. \<exists>c \<in> set cs. surviving nodes c = Some v}" using spec vs nodes by simp
  have "\<exists>t. get_commit R (cm_id (vc_commit v)) = Inr (vc_commit v) \<and>
       project_tree R (vc_commit v) mount = ok t \<and> vc_has_conflict v = has_conflict t" if v: "v \<in> set vs" for v
  proof -
    obtain c where "surviving nodes c = Some v" using v set_vs by auto
    then obtain n where "n \<in> set nodes" "node_value n = Some (vc_commit v)" "vc_has_conflict v = node_has_conflict n"
      by (elim surviving_Some)
    then show ?thesis using validation_node[OF assms(1) inv(1)] by metis
  qed
  moreover have "(\<exists>v \<in> set vs. cm_id (vc_commit v) = c) \<or> c = root_commit_id R \<or>
       (\<exists>c'. parent_of R c' c \<and> projected_tree R mount c' = projected_tree R mount c)" if c: "c \<in> set cs" for c
  proof (cases "surviving nodes c")
    case None
    obtain p where "mapped c = Some p" using inv(2) c by blast
    then show ?thesis using validation_omitted[OF assms(1) inv(1) _ c _ None] c by auto
  next
    case (Some v)
    then show ?thesis using set_vs keys[OF Some] Some c by auto
  qed
  ultimately show ?thesis using spec vs nodes by simp
qed

section \<open>Samples\<close>

definition sample_node :: "nat \<Rightarrow> nat list \<Rightarrow> bool \<Rightarrow> export_node" where
  "sample_node n parents witnessed =
     \<lparr>en_raw = CommitId [of_nat n], en_canonical = (if witnessed then None else Some (CommitId [1, of_nat n])), en_parents = parents\<rparr>"

definition sample_export :: exported_project where
  "sample_export = \<lparr>ep_head = 2,
     ep_history = [sample_node 0 [] True, sample_node 1 [0] False, sample_node 2 [1] False, sample_node 3 [1] False]\<rparr>"

theorem publications_exact_witness:
  "\<exists>ys. publications sample_export = Returns ys \<and> distinct (map fst ys) \<and>
     ys = [(CommitId [1], CommitId [1, 1]), (CommitId [2], CommitId [1, 2])]"
proof -
  have "arena_closed (ep_history sample_export)" "ep_head sample_export < length (ep_history sample_export)"
    by (simp_all add: arena_closed_def sample_export_def sample_node_def)
  from publications_exact[OF this] show ?thesis
    by (auto simp: publications_def sample_export_def sample_node_def)
qed

definition sample_git :: "(unit, unit git_writer) result" where
  "sample_git = Inr (\<lambda>contents. Inr (CommitId [7], contents))"

lemma sample_export_projects:
  "export_projects sample_repo sample_git (RepoPath ''a'') [sample_commit 2] [] =
     Some (ok [\<lparr>ep_head = 1, ep_history =
       [\<lparr>en_raw = CommitId [0], en_canonical = None, en_parents = []\<rparr>,
        \<lparr>en_raw = CommitId [7], en_canonical = Some (CommitId [1]), en_parents = [0]\<rparr>]\<rparr>])"
  by (simp add: export_projects_def reverse_anchors_def sample_git_def export_emit_def export_arena_def res_map_err_def sample_run)

theorem export_publishes_own_history_witness:
  "written_for sample_repo sample_git (RepoPath ''a'') (CommitId [7]) (CommitId [1])"
  using export_publishes_own_history[OF sample_repo_law sample_export_projects]
  by (auto simp: publications_def)

lemma sample_validation:
  "validation_commits sample_repo (RepoPath ''a'') (Inr [CommitId [2], CommitId [1]]) (Inr []) =
     Some (ok [\<lparr>vc_commit = sample_commit 1, vc_has_conflict = False\<rparr>])"
  by (simp add: validation_commits_def reverse_anchors_def validation_emit_def surviving_def List.map_filter_def sample_run)

theorem validation_commits_complete_witness:
  "\<exists>c. parent_of sample_repo c (CommitId [2]) \<and>
     projected_tree sample_repo (RepoPath ''a'') c = projected_tree sample_repo (RepoPath ''a'') (CommitId [2])"
  using validation_commits_complete[OF sample_repo_law sample_validation] by simp

end
