(* ===== verification/Content_Diff.thy ===== *)
theory Content_Diff
  imports BTree_Map Merge_Join Object_Ids Fallible
begin

text \<open>
  Comparing texts, \<open>jj/core/src/diff.rs\<close>: tokenizers, comparison of tokens, the longest common
  subsequence of rare tokens, the recursion between its elements, and the hunks of two or more inputs.

  A range is a pair of its bounds. The hasher is the parameter \<open>hash_builder\<close>, a function of what is fed
  to it; the order in which a hash table is iterated is the parameter \<open>iter_table\<close>. A hash table is the
  list of its entries; looking up a word finds the entry with its hash for which the closure holds. A
  vector that is only appended to is returned as the list of what is appended. \<open>debug_assert!\<close> panics.
\<close>

type_synonym range = "nat \<times> nat"
type_synonym byte = "8 word"

section \<open>Tokenizers\<close>

fun scan_ranges :: "nat \<Rightarrow> 'a list list \<Rightarrow> range list" where
  "scan_ranges start [] = []"
| "scan_ranges start (line # lines) = (start, start + length line) # scan_ranges (start + length line) lines"

definition find_line_ranges :: "bytes \<Rightarrow> range list" where
  "find_line_ranges text = scan_ranges 0 (split_inclusive (\<lambda>b. b = 10) text)"

definition is_word_byte :: "byte \<Rightarrow> bool" where
  "is_word_byte b \<longleftrightarrow>
     65 \<le> b \<and> b \<le> 90 \<or> 97 \<le> b \<and> b \<le> 122 \<or> 48 \<le> b \<and> b \<le> 57 \<or> b = 95 \<or> 128 \<le> b"

fun word_ranges_loop :: "nat \<Rightarrow> nat \<Rightarrow> bool \<Rightarrow> bytes \<Rightarrow> range list" where
  "word_ranges_loop i word_start_pos in_word [] =
     (if in_word \<and> word_start_pos < i then [(word_start_pos, i)] else [])"
| "word_ranges_loop i word_start_pos in_word (b # bs) =
     (if in_word \<and> \<not> is_word_byte b then (word_start_pos, i) # word_ranges_loop (Suc i) i False bs
      else if \<not> in_word \<and> is_word_byte b then word_ranges_loop (Suc i) i True bs
      else word_ranges_loop (Suc i) word_start_pos in_word bs)"

definition find_word_ranges :: "bytes \<Rightarrow> range list" where
  "find_word_ranges text = word_ranges_loop 0 0 False text"

definition find_nonword_ranges :: "bytes \<Rightarrow> range list" where
  "find_nonword_ranges text =
     map (\<lambda>i. (i, i + 1)) (map fst (filter (\<lambda>(i, b). \<not> is_word_byte b) (enumerate 0 text)))"

section \<open>Comparing tokens\<close>

definition is_ascii_whitespace :: "byte \<Rightarrow> bool" where
  "is_ascii_whitespace b \<longleftrightarrow> b \<in> {9, 10, 12, 13, 32}"

definition bytes_ignore_all_whitespace :: "bytes \<Rightarrow> bytes" where
  "bytes_ignore_all_whitespace text = filter (\<lambda>b. \<not> is_ascii_whitespace b) text"

fun ignore_whitespace_amount_loop :: "bool \<Rightarrow> bytes \<Rightarrow> bytes" where
  "ignore_whitespace_amount_loop prev_was_space [] = []"
| "ignore_whitespace_amount_loop prev_was_space (b # bs) =
     (if \<not> is_ascii_whitespace b then b # ignore_whitespace_amount_loop False bs
      else if \<not> prev_was_space then 32 # ignore_whitespace_amount_loop True bs
      else ignore_whitespace_amount_loop True bs)"

definition bytes_ignore_whitespace_amount :: "bytes \<Rightarrow> bytes" where
  "bytes_ignore_whitespace_amount text = ignore_whitespace_amount_loop False text"

text \<open>What is written to a hasher.\<close>

datatype hash_feed = WriteBytes bytes | WriteU8 byte | WriteUsize nat

definition hash_with_length_suffix :: "bytes \<Rightarrow> hash_feed list" where
  "hash_with_length_suffix d = map WriteU8 d @ [WriteUsize (length d)]"

record compare_bytes =
  cmp_eq :: "bytes \<Rightarrow> bytes \<Rightarrow> bool"
  cmp_hash :: "bytes \<Rightarrow> hash_feed list"

definition compare_bytes_exactly :: compare_bytes where
  "compare_bytes_exactly = \<lparr>cmp_eq = (\<lambda>l r. l = r), cmp_hash = (\<lambda>t. [WriteUsize (length t), WriteBytes t])\<rparr>"

definition compare_bytes_ignore_all_whitespace :: compare_bytes where
  "compare_bytes_ignore_all_whitespace =
     \<lparr>cmp_eq = (\<lambda>l r. bytes_ignore_all_whitespace l = bytes_ignore_all_whitespace r),
      cmp_hash = (\<lambda>t. hash_with_length_suffix (bytes_ignore_all_whitespace t))\<rparr>"

definition compare_bytes_ignore_whitespace_amount :: compare_bytes where
  "compare_bytes_ignore_whitespace_amount =
     \<lparr>cmp_eq = (\<lambda>l r. bytes_ignore_whitespace_amount l = bytes_ignore_whitespace_amount r),
      cmp_hash = (\<lambda>t. hash_with_length_suffix (bytes_ignore_whitespace_amount t))\<rparr>"

record hashed_word =
  hw_hash :: "64 word"
  hw_text :: bytes

record word_comparator =
  compare :: compare_bytes
  hash_builder :: "hash_feed list \<Rightarrow> 64 word"

definition comp_eq :: "word_comparator \<Rightarrow> bytes \<Rightarrow> bytes \<Rightarrow> bool" where
  "comp_eq wc l r = cmp_eq (compare wc) l r"

definition eq_hashed :: "word_comparator \<Rightarrow> hashed_word \<Rightarrow> hashed_word \<Rightarrow> bool" where
  "eq_hashed wc l r \<longleftrightarrow> hw_hash l = hw_hash r \<and> cmp_eq (compare wc) (hw_text l) (hw_text r)"

definition hash_one :: "word_comparator \<Rightarrow> bytes \<Rightarrow> 64 word" where
  "hash_one wc text = hash_builder wc (cmp_hash (compare wc) text)"

section \<open>Sources\<close>

definition slice :: "'a list \<Rightarrow> range \<Rightarrow> 'a list exec" where
  "slice xs r = (if fst r \<le> snd r \<and> snd r \<le> length xs then Returns (take (snd r - fst r) (drop (fst r) xs)) else Panics)"

record diff_source =
  ds_text :: bytes
  ds_ranges :: "range list"
  ds_hashes :: "64 word list"

definition diff_source_new :: "bytes \<Rightarrow> range list \<Rightarrow> word_comparator \<Rightarrow> diff_source exec" where
  "diff_source_new text ranges wc =
     exec_bind (exec_map (\<lambda>r. exec_bind (slice text r) (\<lambda>t. Returns (hash_one wc t))) ranges) (\<lambda>hashes.
     Returns \<lparr>ds_text = text, ds_ranges = ranges, ds_hashes = hashes\<rparr>)"

record local_diff_source =
  ls_text :: bytes
  ls_ranges :: "range list"
  ls_hashes :: "64 word list"
  ls_offset :: nat

definition local_source :: "diff_source \<Rightarrow> local_diff_source" where
  "local_source s = \<lparr>ls_text = ds_text s, ls_ranges = ds_ranges s, ls_hashes = ds_hashes s, ls_offset = 0\<rparr>"

definition range_at :: "diff_source \<Rightarrow> nat \<Rightarrow> range exec" where
  "range_at s position = index_exec (ds_ranges s) position"

definition map_to_global :: "local_diff_source \<Rightarrow> nat \<Rightarrow> nat" where
  "map_to_global s position = ls_offset s + position"

definition narrowed :: "local_diff_source \<Rightarrow> range \<Rightarrow> local_diff_source exec" where
  "narrowed s positions =
     exec_bind (slice (ls_ranges s) positions) (\<lambda>ranges.
     exec_bind (slice (ls_hashes s) positions) (\<lambda>hashes.
     Returns \<lparr>ls_text = ls_text s, ls_ranges = ranges, ls_hashes = hashes, ls_offset = map_to_global s (fst positions)\<rparr>))"

definition hashed_words :: "local_diff_source \<Rightarrow> hashed_word list exec" where
  "hashed_words s =
     exec_map (\<lambda>(r, hash). exec_bind (slice (ls_text s) r) (\<lambda>text. Returns \<lparr>hw_hash = hash, hw_text = text\<rparr>))
       (zip (ls_ranges s) (ls_hashes s))"

section \<open>Histogram\<close>

type_synonym histogram_entry = "hashed_word \<times> nat list"
type_synonym histogram = "histogram_entry list"

text \<open>
  What a lookup in the hash table finds. The table compares parts of the hash before it calls the closure;
  as the hash respects the comparison, comparing all of it selects the same entry.
\<close>

definition same_word :: "word_comparator \<Rightarrow> hashed_word \<Rightarrow> histogram_entry \<Rightarrow> bool" where
  "same_word wc word e \<longleftrightarrow> hw_hash (fst e) = hw_hash word \<and> comp_eq wc (hw_text (fst e)) (hw_text word)"

fun histogram_add :: "word_comparator \<Rightarrow> nat \<Rightarrow> nat \<Rightarrow> hashed_word \<Rightarrow> histogram \<Rightarrow> histogram" where
  "histogram_add wc max_occurrences pos word [] = [(word, [pos])]"
| "histogram_add wc max_occurrences pos word (e # es) =
     (if same_word wc word e
      then (fst e, if length (snd e) \<le> max_occurrences then snd e @ [pos] else snd e) # es
      else e # histogram_add wc max_occurrences pos word es)"

definition histogram_calculate :: "local_diff_source \<Rightarrow> word_comparator \<Rightarrow> nat \<Rightarrow> histogram exec" where
  "histogram_calculate source wc max_occurrences =
     exec_bind (hashed_words source) (\<lambda>words.
     Returns (fold (\<lambda>(i, word). histogram_add wc max_occurrences i word) (enumerate 0 words) []))"

definition push_entry :: "histogram_entry \<Rightarrow> (nat, histogram_entry list) btree \<Rightarrow> (nat, histogram_entry list) btree" where
  "push_entry e m =
     bt_insert (length (snd e)) ((case bt_get m (length (snd e)) of None \<Rightarrow> [] | Some es \<Rightarrow> es) @ [e]) m"

definition build_count_to_entries ::
  "(histogram \<Rightarrow> histogram) \<Rightarrow> histogram \<Rightarrow> (nat, histogram_entry list) btree" where
  "build_count_to_entries iter_table h = fold push_entry (iter_table h) bt_empty"

definition positions_by_word :: "histogram \<Rightarrow> hashed_word \<Rightarrow> word_comparator \<Rightarrow> nat list option" where
  "positions_by_word h word wc = map_option snd (find (same_word wc word) h)"

section \<open>Longest common subsequence\<close>

text \<open>
  An element of the chain: the length of the longest chain that ends there, the left position, and the
  previous right position; \<open>usize::MAX\<close>, which is no position of a slice, is \<open>None\<close>.
\<close>

type_synonym lcs_chain = "(nat \<times> nat \<times> nat option) list"

fun lcs_inner ::
  "lcs_chain \<Rightarrow> nat \<Rightarrow> nat \<Rightarrow> nat list \<Rightarrow> nat \<Rightarrow> nat option \<Rightarrow> nat \<Rightarrow> nat \<Rightarrow> nat \<times> nat option \<times> nat \<times> nat" where
  "lcs_inner ch left_pos right_pos [] longest_from_here previous_right_pos global_longest global_pos =
     (longest_from_here, previous_right_pos, global_longest, global_pos)"
| "lcs_inner ch left_pos right_pos (i # is) longest_from_here previous_right_pos global_longest global_pos =
     (let (previous_len, previous_left_pos, _) = ch ! i;
          len = previous_len + 1 in
      if previous_left_pos < left_pos \<and> len > longest_from_here
      then if len > global_longest then (len, Some i, len, right_pos)
           else lcs_inner ch left_pos right_pos is len (Some i) global_longest global_pos
      else lcs_inner ch left_pos right_pos is longest_from_here previous_right_pos global_longest global_pos)"

fun lcs_outer :: "(nat \<times> nat) list \<Rightarrow> lcs_chain \<Rightarrow> nat \<Rightarrow> nat \<Rightarrow> lcs_chain \<times> nat" where
  "lcs_outer [] ch global_longest global_pos = (ch, global_pos)"
| "lcs_outer ((right_pos, left_pos) # rest) ch global_longest global_pos =
     (let (longest_from_here, previous_right_pos, global_longest', global_pos') =
        lcs_inner ch left_pos right_pos (rev [0..<right_pos]) 1 None global_longest global_pos in
      lcs_outer rest (ch[right_pos := (longest_from_here, left_pos, previous_right_pos)]) global_longest' global_pos')"

text \<open>
  The walk back along the chain. Every step goes to a smaller position, so the number of positions is
  enough steps; running out of them counts as a panic, which \<open>find_lcs_spec\<close> excludes.
\<close>

fun lcs_trace :: "nat \<Rightarrow> lcs_chain \<Rightarrow> nat \<Rightarrow> (nat \<times> nat) list exec" where
  "lcs_trace 0 ch right_pos = Panics"
| "lcs_trace (Suc steps) ch right_pos =
     exec_bind (index_exec ch right_pos) (\<lambda>(_, left_pos, previous_right_pos).
     case previous_right_pos of
       None \<Rightarrow> Returns [(left_pos, right_pos)]
     | Some previous \<Rightarrow> exec_bind (lcs_trace steps ch previous) (\<lambda>ps. Returns ((left_pos, right_pos) # ps)))"

definition find_lcs :: "nat list \<Rightarrow> (nat \<times> nat) list exec" where
  "find_lcs input =
     (if input = [] then Returns []
      else let (ch, global_pos) = lcs_outer (enumerate 0 input) (replicate (length input) (0, 0, Some 0)) 0 0 in
        exec_bind (lcs_trace (length input) ch global_pos) (\<lambda>result. Returns (rev result)))"

section \<open>Unchanged words\<close>

definition both_positions ::
  "histogram \<Rightarrow> word_comparator \<Rightarrow> histogram_entry list \<Rightarrow> (nat list \<times> nat list) list" where
  "both_positions right_histogram wc left_entries =
     List.map_filter (\<lambda>(word, left_positions).
       case positions_by_word right_histogram word wc of
         None \<Rightarrow> None
       | Some right_positions \<Rightarrow>
           if length left_positions = length right_positions then Some (left_positions, right_positions) else None)
       left_entries"

fun uncommon_shared ::
  "histogram \<Rightarrow> word_comparator \<Rightarrow> histogram_entry list list \<Rightarrow> (nat list \<times> nat list) list option" where
  "uncommon_shared right_histogram wc [] = None"
| "uncommon_shared right_histogram wc (es # ess) =
     (let both = both_positions right_histogram wc es in
      if both \<noteq> [] then Some both else uncommon_shared right_histogram wc ess)"

text \<open>The positions of the shared words in both sides, ordered, and each right one's index on the left.\<close>

definition left_index_map :: "(nat \<times> nat) list \<Rightarrow> nat list" where
  "left_index_map left_positions =
     fold (\<lambda>(i, (_, serial)) m. m[serial := i]) (enumerate 0 left_positions) (replicate (length left_positions) 0)"

definition lcs_positions :: "(nat list \<times> nat list) list \<Rightarrow> (nat \<times> nat) list exec" where
  "lcs_positions uncommon =
     (let pairs = enumerate 0 (concat (map (\<lambda>(lefts, rights). zip lefts rights) uncommon));
          left_positions = sort_key fst (map (\<lambda>(serial, (left_pos, _)). (left_pos, serial)) pairs);
          right_positions = sort_key fst (map (\<lambda>(serial, (_, right_pos)). (right_pos, serial)) pairs);
          index_map = left_index_map left_positions in
      exec_bind (exec_map (\<lambda>(_, serial). index_exec index_map serial) right_positions) (\<lambda>left_index_by_right_index.
      exec_bind (find_lcs left_index_by_right_index) (\<lambda>lcs.
      exec_map (\<lambda>(left_index, right_index).
        exec_bind (index_exec left_positions left_index) (\<lambda>(left_position, _).
        exec_bind (index_exec right_positions right_index) (\<lambda>(right_position, _).
        Returns (left_position, right_position)))) lcs)))"

text \<open>The rare shared words that split two sources; none if there are none.\<close>

definition split_words ::
  "(histogram \<Rightarrow> histogram) \<Rightarrow> word_comparator \<Rightarrow> local_diff_source \<Rightarrow> local_diff_source \<Rightarrow> (nat \<times> nat) list exec" where
  "split_words iter_table wc left right =
     (let max_occurrences = 100 in
      exec_bind (histogram_calculate left wc max_occurrences) (\<lambda>left_histogram.
      let left_count_to_entries = build_count_to_entries iter_table left_histogram in
      case bt_keys left_count_to_entries of
        [] \<Rightarrow> Panics
      | k # _ \<Rightarrow>
          if k > max_occurrences then Returns []
          else exec_bind (histogram_calculate right wc max_occurrences) (\<lambda>right_histogram.
            case uncommon_shared right_histogram wc (bt_values left_count_to_entries) of
              None \<Rightarrow> Returns []
            | Some uncommon \<Rightarrow> lcs_positions uncommon)))"

text \<open>The parts between the splitting words, each with the word that follows it.\<close>

fun gaps ::
  "local_diff_source \<Rightarrow> local_diff_source \<Rightarrow> nat \<Rightarrow> nat \<Rightarrow> (nat \<times> nat) list \<Rightarrow>
   (local_diff_source \<times> local_diff_source \<times> (nat \<times> nat) list) list exec" where
  "gaps left right previous_left previous_right [] =
     exec_bind (narrowed left (previous_left, length (ls_ranges left))) (\<lambda>l.
     exec_bind (narrowed right (previous_right, length (ls_ranges right))) (\<lambda>r.
     Returns [(l, r, [])]))"
| "gaps left right previous_left previous_right ((left_position, right_position) # rest) =
     exec_bind (narrowed left (previous_left, left_position)) (\<lambda>l.
     exec_bind (narrowed right (previous_right, right_position)) (\<lambda>r.
     exec_bind (gaps left right (left_position + 1) (right_position + 1) rest) (\<lambda>gs.
     Returns ((l, r, [(map_to_global left left_position, map_to_global right right_position)]) # gs))))"

definition common_ends ::
  "word_comparator \<Rightarrow> local_diff_source \<Rightarrow> local_diff_source \<Rightarrow> (nat \<times> nat) list exec" where
  "common_ends wc left right =
     exec_bind (hashed_words left) (\<lambda>ls.
     exec_bind (hashed_words right) (\<lambda>rs.
     let common_leading_len = length (takeWhile (\<lambda>(l, r). eq_hashed wc l r) (zip ls rs));
         left_hashed_words = drop common_leading_len ls;
         right_hashed_words = drop common_leading_len rs;
         common_trailing_len =
           length (takeWhile (\<lambda>(l, r). eq_hashed wc l r) (zip (rev left_hashed_words) (rev right_hashed_words))) in
     Returns (map (\<lambda>i. (map_to_global left i, map_to_global right i)) [0..<common_leading_len] @
       map (\<lambda>i. (map_to_global left (length (ls_ranges left) - i), map_to_global right (length (ls_ranges right) - i)))
         (rev [1..<common_trailing_len + 1]))))"

text \<open>With a splitting word every part is smaller than the whole.\<close>

lemma length_narrowed:
  "narrowed s (i, j) = Returns l \<Longrightarrow> i \<le> j \<and> j \<le> length (ls_ranges s) \<and> length (ls_ranges l) = j - i"
  by (auto simp: narrowed_def slice_def exec_bind_eq_Returns split: if_splits)

lemma length_gaps:
  "gaps left right i j ws = Returns gs \<Longrightarrow>
     i + length ws \<le> length (ls_ranges left) \<and>
     (\<forall>(l, r, w) \<in> set gs. length (ls_ranges l) + length ws \<le> length (ls_ranges left) - i)"
proof (induction left right i j ws arbitrary: gs rule: gaps.induct)
  case (1 left right i j)
  then show ?case by (auto simp: exec_bind_eq_Returns dest!: length_narrowed)
next
  case (2 left right i j i' j' ws)
  then obtain l r gs' where l: "narrowed left (i, i') = Returns l" and r: "narrowed right (j, j') = Returns r" and gs': "gaps left right (i' + 1) (j' + 1) ws = Returns gs'"
      and gs: "gs = (l, r, [(map_to_global left i', map_to_global right j')]) # gs'"
    by (auto simp: exec_bind_eq_Returns)
  have "i' + 1 + length ws \<le> length (ls_ranges left) \<and>
      (\<forall>(l, r, w) \<in> set gs'. length (ls_ranges l) + length ws \<le> length (ls_ranges left) - (i' + 1))"
    using 2(1)[OF l r gs'] .
  then show ?case using length_narrowed[OF l] unfolding gs by fastforce
qed

text \<open>
  The two functions \<open>collect_unchanged_words\<close> and \<open>collect_unchanged_words_lcs\<close>, which call each other: the
  second one adds positions exactly if there are splitting words. If there are shared words, a longest common
  subsequence of them is never empty (\<open>find_lcs_spec\<close>), so the recursion always gets smaller.
\<close>

function collect_unchanged_words ::
  "(histogram \<Rightarrow> histogram) \<Rightarrow> word_comparator \<Rightarrow> local_diff_source \<Rightarrow> local_diff_source \<Rightarrow> (nat \<times> nat) list exec" where
  "collect_unchanged_words iter_table wc left right =
     (if ls_ranges left = [] \<or> ls_ranges right = [] then Returns []
      else exec_bind (split_words iter_table wc left right) (\<lambda>ws.
        if ws \<noteq> [] then
          exec_bind (gaps left right 0 0 ws) (\<lambda>gs.
          exec_bind (exec_map (\<lambda>(l, r, w).
            exec_bind (collect_unchanged_words iter_table wc l r) (\<lambda>found. Returns (found @ w))) gs) (\<lambda>found.
          Returns (concat found)))
        else common_ends wc left right))"
  by pat_completeness auto
termination
proof (relation "measure (\<lambda>(_, _, left, _). length (ls_ranges left))", goal_cases)
  case (2 iter_table wc left right ws gs g l r w)
  then have "length (ls_ranges l) + length ws \<le> length (ls_ranges left)"
    using length_gaps[of left right 0 0 ws gs] by auto
  then show ?case using 2 by (cases ws) auto
qed simp

declare collect_unchanged_words.simps [simp del]

definition intersect_unchanged_words ::
  "(nat \<times> nat list, nat \<times> nat) merge_join \<Rightarrow> (nat \<times> nat list) list \<Rightarrow> (nat \<times> nat) list \<Rightarrow> (nat \<times> nat list) list" where
  "intersect_unchanged_words merge_join_by current_positions new_positions =
     List.map_filter (\<lambda>entry. case entry of
         Both (base_pos, other_positions) (_, new_other_pos) \<Rightarrow> Some (base_pos, other_positions @ [new_other_pos])
       | _ \<Rightarrow> None)
       (merge_join_by (\<lambda>(cur_base_pos, _) (new_base_pos, _). cmp cur_base_pos new_base_pos) current_positions new_positions)"

section \<open>Unchanged regions\<close>

record unchanged_range =
  ur_base :: range
  ur_others :: "range list"

definition from_word_positions ::
  "diff_source \<Rightarrow> diff_source list \<Rightarrow> nat \<Rightarrow> nat list \<Rightarrow> unchanged_range exec" where
  "from_word_positions base_source other_sources base_position other_positions =
     (if length other_sources \<noteq> length other_positions then Panics
      else exec_bind (range_at base_source base_position) (\<lambda>base.
        exec_bind (exec_map (\<lambda>(source, pos). range_at source pos) (zip other_sources other_positions)) (\<lambda>others.
        Returns \<lparr>ur_base = base, ur_others = others\<rparr>)))"

definition range_is_empty :: "range \<Rightarrow> bool" where
  "range_is_empty r \<longleftrightarrow> \<not> fst r < snd r"

definition is_all_empty :: "unchanged_range \<Rightarrow> bool" where
  "is_all_empty u \<longleftrightarrow> range_is_empty (ur_base u) \<and> list_all range_is_empty (ur_others u)"

record content_diff =
  cd_base_input :: bytes
  cd_other_inputs :: "bytes list"
  cd_unchanged_regions :: "unchanged_range list"

definition touching :: "unchanged_range \<Rightarrow> unchanged_range \<Rightarrow> bool" where
  "touching previous current \<longleftrightarrow>
     snd (ur_base previous) = fst (ur_base current) \<and>
     list_all (\<lambda>(prev, cur). snd prev = fst cur) (zip (ur_others previous) (ur_others current))"

definition join_regions :: "unchanged_range \<Rightarrow> unchanged_range \<Rightarrow> unchanged_range" where
  "join_regions previous current =
     \<lparr>ur_base = (fst (ur_base previous), snd (ur_base current)),
      ur_others = map (\<lambda>(prev, cur). (fst prev, snd cur)) (zip (ur_others previous) (ur_others current))\<rparr>"

fun compact_loop :: "unchanged_range option \<Rightarrow> unchanged_range list \<Rightarrow> unchanged_range list" where
  "compact_loop maybe_previous [] = (case maybe_previous of None \<Rightarrow> [] | Some previous \<Rightarrow> [previous])"
| "compact_loop maybe_previous (current # rest) =
     (case maybe_previous of
        None \<Rightarrow> compact_loop (Some current) rest
      | Some previous \<Rightarrow>
          if touching previous current then compact_loop (Some (join_regions previous current)) rest
          else previous # compact_loop (Some current) rest)"

definition compact_unchanged_regions :: "unchanged_range list \<Rightarrow> unchanged_range list" where
  "compact_unchanged_regions regions = compact_loop None regions"

text \<open>The parameters that stand for the hash tables and for itertools.\<close>

record diff_params =
  dp_hash_builder :: "hash_feed list \<Rightarrow> 64 word"
  dp_iter_table :: "histogram \<Rightarrow> histogram"
  dp_merge_join_by :: "(nat \<times> nat list, nat \<times> nat) merge_join"

fun intersect_others ::
  "diff_params \<Rightarrow> word_comparator \<Rightarrow> diff_source \<Rightarrow> diff_source list \<Rightarrow> (nat \<times> nat list) list \<Rightarrow> (nat \<times> nat list) list exec" where
  "intersect_others P wc base_source [] current_positions = Returns current_positions"
| "intersect_others P wc base_source (other_source # others) current_positions =
     exec_bind (collect_unchanged_words (dp_iter_table P) wc (local_source base_source) (local_source other_source)) (\<lambda>new_positions.
     intersect_others P wc base_source others
       (intersect_unchanged_words (dp_merge_join_by P) current_positions new_positions))"

definition with_inputs_and_token_ranges ::
  "diff_params \<Rightarrow> bytes \<Rightarrow> bytes list \<Rightarrow> range list \<Rightarrow> range list list \<Rightarrow> compare_bytes \<Rightarrow> content_diff exec" where
  "with_inputs_and_token_ranges P base_input other_inputs base_token_ranges other_token_ranges cb =
     (if length other_inputs \<noteq> length other_token_ranges then Panics
      else let wc = \<lparr>compare = cb, hash_builder = dp_hash_builder P\<rparr> in
        exec_bind (diff_source_new base_input base_token_ranges wc) (\<lambda>base_source.
        exec_bind (exec_map (\<lambda>(input, token_ranges). diff_source_new input token_ranges wc) (zip other_inputs other_token_ranges))
          (\<lambda>other_sources.
        exec_bind
          (case other_sources of
             [] \<Rightarrow> Returns [\<lparr>ur_base = (0, length (ds_text base_source)), ur_others = []\<rparr>]
           | first_other_source # tail_other_sources \<Rightarrow>
               exec_bind (collect_unchanged_words (dp_iter_table P) wc (local_source base_source) (local_source first_other_source))
                 (\<lambda>first_positions.
               exec_bind
                 (intersect_others P wc base_source tail_other_sources
                   (map (\<lambda>(base_pos, other_pos). (base_pos, [other_pos])) first_positions)) (\<lambda>positions.
               exec_bind
                 (exec_map (\<lambda>(base_pos, other_positions). from_word_positions base_source other_sources base_pos other_positions)
                   positions) (\<lambda>regions.
               Returns (\<lparr>ur_base = (0, 0), ur_others = replicate (length other_inputs) (0, 0)\<rparr> #
                 regions @
                 [\<lparr>ur_base = (length base_input, length base_input),
                   ur_others = map (\<lambda>input. (length input, length input)) other_inputs\<rparr>])))))
          (\<lambda>unchanged_regions.
        Returns \<lparr>cd_base_input = base_input, cd_other_inputs = other_inputs,
          cd_unchanged_regions = compact_unchanged_regions unchanged_regions\<rparr>))))"

definition for_tokenizer ::
  "diff_params \<Rightarrow> bytes list \<Rightarrow> (bytes \<Rightarrow> range list) \<Rightarrow> compare_bytes \<Rightarrow> content_diff exec" where
  "for_tokenizer P inputs tokenizer cb =
     (case inputs of
        [] \<Rightarrow> Panics
      | base_input # other_inputs \<Rightarrow>
          if base_input = [] \<or> [] \<in> set other_inputs
          then with_inputs_and_token_ranges P base_input other_inputs [] (replicate (length other_inputs) []) cb
          else with_inputs_and_token_ranges P base_input other_inputs (tokenizer base_input) (map tokenizer other_inputs) cb)"

section \<open>Hunks\<close>

definition hunk_at :: "content_diff \<Rightarrow> unchanged_range \<Rightarrow> bytes list exec" where
  "hunk_at d u =
     exec_bind (slice (cd_base_input d) (ur_base u)) (\<lambda>base.
     exec_bind (exec_map (\<lambda>(input, r). slice input r) (zip (cd_other_inputs d) (ur_others u))) (\<lambda>others.
     Returns (base # others)))"

definition hunk_between :: "content_diff \<Rightarrow> unchanged_range \<Rightarrow> unchanged_range \<Rightarrow> bytes list exec" where
  "hunk_between d previous current =
     exec_bind (slice (cd_base_input d) (snd (ur_base previous), fst (ur_base current))) (\<lambda>base.
     exec_bind (exec_map (\<lambda>(input, prev, cur). slice input (snd prev, fst cur))
       (zip (cd_other_inputs d) (zip (ur_others previous) (ur_others current)))) (\<lambda>others.
     Returns (base # others)))"

definition shifted :: "unchanged_range \<Rightarrow> unchanged_range \<Rightarrow> unchanged_range" where
  "shifted previous refined =
     \<lparr>ur_base = (fst (ur_base refined) + snd (ur_base previous), snd (ur_base refined) + snd (ur_base previous)),
      ur_others = map (\<lambda>(refi, prev). (fst refi + snd prev, snd refi + snd prev)) (zip (ur_others refined) (ur_others previous))\<rparr>"

fun refine_loop ::
  "diff_params \<Rightarrow> content_diff \<Rightarrow> (bytes \<Rightarrow> range list) \<Rightarrow> compare_bytes \<Rightarrow> unchanged_range list \<Rightarrow> unchanged_range list exec" where
  "refine_loop P d tokenizer cb (previous # current # rest) =
     exec_bind (hunk_between d previous current) (\<lambda>contents.
     exec_bind (for_tokenizer P contents tokenizer cb) (\<lambda>refined_diff.
     exec_bind (refine_loop P d tokenizer cb (current # rest)) (\<lambda>regions.
     Returns (map (shifted previous) (cd_unchanged_regions refined_diff) @ current # regions))))"
| "refine_loop P d tokenizer cb regions = Returns []"

definition refine_changed_regions ::
  "diff_params \<Rightarrow> content_diff \<Rightarrow> (bytes \<Rightarrow> range list) \<Rightarrow> compare_bytes \<Rightarrow> content_diff exec" where
  "refine_changed_regions P d tokenizer cb =
     exec_bind (index_exec (cd_unchanged_regions d) 0) (\<lambda>first.
     exec_bind (refine_loop P d tokenizer cb (cd_unchanged_regions d)) (\<lambda>regions.
     Returns (d\<lparr>cd_unchanged_regions := compact_unchanged_regions (first # regions)\<rparr>)))"

definition unrefined :: "diff_params \<Rightarrow> bytes list \<Rightarrow> content_diff exec" where
  "unrefined P inputs = for_tokenizer P inputs (\<lambda>_. []) compare_bytes_exactly"

definition by_line :: "diff_params \<Rightarrow> bytes list \<Rightarrow> content_diff exec" where
  "by_line P inputs = for_tokenizer P inputs find_line_ranges compare_bytes_exactly"

definition by_word :: "diff_params \<Rightarrow> bytes list \<Rightarrow> content_diff exec" where
  "by_word P inputs =
     exec_bind (for_tokenizer P inputs find_word_ranges compare_bytes_exactly) (\<lambda>d.
     refine_changed_regions P d find_nonword_ranges compare_bytes_exactly)"

datatype DiffHunkKind = Matching | Different

record 'c diff_hunk =
  dh_kind :: DiffHunkKind
  dh_contents :: "'c list"

record hunk_iterator =
  hi_previous :: unchanged_range
  hi_unchanged_emitted :: bool
  hi_unchanged_iter :: "unchanged_range list"

definition hunk_iterator_new :: "content_diff \<Rightarrow> hunk_iterator exec" where
  "hunk_iterator_new d =
     (case cd_unchanged_regions d of
        [] \<Rightarrow> Panics
      | previous # rest \<Rightarrow>
          Returns \<lparr>hi_previous = previous, hi_unchanged_emitted = is_all_empty previous, hi_unchanged_iter = rest\<rparr>)"

definition next_with ::
  "(unchanged_range \<Rightarrow> 'h exec) \<Rightarrow> (unchanged_range \<Rightarrow> unchanged_range \<Rightarrow> 'h exec) \<Rightarrow> hunk_iterator \<Rightarrow>
   ('h exec \<times> hunk_iterator) option" where
  "next_with at between it =
     (if \<not> hi_unchanged_emitted it then Some (at (hi_previous it), it\<lparr>hi_unchanged_emitted := True\<rparr>)
      else case hi_unchanged_iter it of
        [] \<Rightarrow> None
      | current # rest \<Rightarrow>
          Some (between (hi_previous it) current,
            \<lparr>hi_previous = current, hi_unchanged_emitted = is_all_empty current, hi_unchanged_iter = rest\<rparr>))"

function collect_hunks ::
  "(unchanged_range \<Rightarrow> 'h exec) \<Rightarrow> (unchanged_range \<Rightarrow> unchanged_range \<Rightarrow> 'h exec) \<Rightarrow> hunk_iterator \<Rightarrow> 'h list exec" where
  "collect_hunks at between it =
     (case next_with at between it of
        None \<Rightarrow> Returns []
      | Some (hunk, it') \<Rightarrow> exec_bind hunk (\<lambda>h. exec_bind (collect_hunks at between it') (\<lambda>hs. Returns (h # hs))))"
  by pat_completeness auto
termination
  by (relation "measure (\<lambda>(_, _, it). 2 * length (hi_unchanged_iter it) + (if hi_unchanged_emitted it then 0 else 1))")
    (auto simp: next_with_def split: if_splits list.splits)

declare collect_hunks.simps [simp del]

text \<open>The texts of the hunks, and their ranges.\<close>

definition matching_hunk :: "content_diff \<Rightarrow> unchanged_range \<Rightarrow> bytes diff_hunk exec" where
  "matching_hunk d previous = exec_bind (hunk_at d previous) (\<lambda>c. Returns \<lparr>dh_kind = Matching, dh_contents = c\<rparr>)"

definition different_hunk :: "content_diff \<Rightarrow> unchanged_range \<Rightarrow> unchanged_range \<Rightarrow> bytes diff_hunk exec" where
  "different_hunk d previous current =
     exec_bind (hunk_between d previous current) (\<lambda>c.
     if list_ex (\<lambda>content. content \<noteq> []) c then Returns \<lparr>dh_kind = Different, dh_contents = c\<rparr> else Panics)"

definition hunks :: "content_diff \<Rightarrow> bytes diff_hunk list exec" where
  "hunks d = exec_bind (hunk_iterator_new d) (collect_hunks (matching_hunk d) (different_hunk d))"

definition matching_range :: "unchanged_range \<Rightarrow> range diff_hunk exec" where
  "matching_range previous = Returns \<lparr>dh_kind = Matching, dh_contents = ur_base previous # ur_others previous\<rparr>"

definition different_range :: "unchanged_range \<Rightarrow> unchanged_range \<Rightarrow> range diff_hunk exec" where
  "different_range previous current =
     (let ranges = (snd (ur_base previous), fst (ur_base current)) #
        map (\<lambda>(prev, cur). (snd prev, fst cur)) (zip (ur_others previous) (ur_others current)) in
      if list_ex (\<lambda>r. \<not> range_is_empty r) ranges then Returns \<lparr>dh_kind = Different, dh_contents = ranges\<rparr> else Panics)"

definition hunk_ranges :: "content_diff \<Rightarrow> range diff_hunk list exec" where
  "hunk_ranges d = exec_bind (hunk_iterator_new d) (collect_hunks matching_range different_range)"

definition diff_texts :: "diff_params \<Rightarrow> bytes list \<Rightarrow> bytes diff_hunk list exec" where
  "diff_texts P inputs =
     exec_bind (for_tokenizer P inputs find_line_ranges compare_bytes_exactly) (\<lambda>d.
     exec_bind (refine_changed_regions P d find_word_ranges compare_bytes_exactly) (\<lambda>d.
     exec_bind (refine_changed_regions P d find_nonword_ranges compare_bytes_exactly) hunks))"

end
