(* ===== verification/Lcs_Laws.thy ===== *)
theory Lcs_Laws
  imports Content_Diff
begin

text \<open>
  The search for a longest common subsequence: its result is a strictly increasing subsequence of the
  input, and no other one is longer. The early exit of the inner loop never misses a longer chain.
\<close>

definition rising :: "nat list \<Rightarrow> nat list \<Rightarrow> bool" where
  "rising input is \<longleftrightarrow> sorted_wrt (<) is \<and> set is \<subseteq> {..<length input} \<and> sorted_wrt (<) (map ((!) input) is)"

text \<open>Element \<open>i\<close> holds the length of a longest chain ending there, and the element before it.\<close>

definition chain_elem :: "nat list \<Rightarrow> lcs_chain \<Rightarrow> nat \<Rightarrow> nat \<times> nat \<times> nat option \<Rightarrow> bool" where
  "chain_elem input ch i e \<longleftrightarrow> (case e of (n, left, prev) \<Rightarrow>
     left = input ! i \<and> 1 \<le> n \<and>
     (case prev of None \<Rightarrow> n = 1 | Some j \<Rightarrow> j < i \<and> input ! j < input ! i \<and> n = Suc (fst (ch ! j))) \<and>
     (\<forall>j < i. input ! j < input ! i \<longrightarrow> Suc (fst (ch ! j)) \<le> n))"

definition chain_ok :: "nat list \<Rightarrow> lcs_chain \<Rightarrow> nat \<Rightarrow> bool" where
  "chain_ok input ch k \<longleftrightarrow> length ch = length input \<and> k \<le> length input \<and> (\<forall>i < k. chain_elem input ch i (ch ! i))"

definition global_ok :: "lcs_chain \<Rightarrow> nat \<Rightarrow> nat \<Rightarrow> nat \<Rightarrow> bool" where
  "global_ok ch k glob pos \<longleftrightarrow> (\<forall>i < k. fst (ch ! i) \<le> max glob 1) \<and>
     (if glob = 0 then pos = 0 else pos < k \<and> fst (ch ! pos) = glob \<and> 2 \<le> glob)"

lemma chain_elem_left: "chain_ok input ch k \<Longrightarrow> i < k \<Longrightarrow> \<exists>n prev. ch ! i = (n, input ! i, prev) \<and> 1 \<le> n"
  unfolding chain_ok_def chain_elem_def by (cases "ch ! i") fastforce

text \<open>The state of the inner loop after the elements from \<open>m\<close> on.\<close>

definition inner_ok :: "nat list \<Rightarrow> lcs_chain \<Rightarrow> nat \<Rightarrow> nat \<Rightarrow> nat \<Rightarrow> nat option \<Rightarrow> bool" where
  "inner_ok input ch k m n prev \<longleftrightarrow> 1 \<le> n \<and>
     (case prev of None \<Rightarrow> n = 1 | Some j \<Rightarrow> j < k \<and> input ! j < input ! k \<and> n = Suc (fst (ch ! j))) \<and>
     (\<forall>j < k. m \<le> j \<and> input ! j < input ! k \<longrightarrow> Suc (fst (ch ! j)) \<le> n)"

lemma lcs_inner_spec:
  assumes "chain_ok input ch k" "global_ok ch k glob pos"
  shows "m \<le> k \<Longrightarrow> inner_ok input ch k m n prev \<Longrightarrow> n \<le> max glob 1 \<Longrightarrow>
    \<exists>n' prev' glob' pos'. lcs_inner ch (input ! k) k (rev [0..<m]) n prev glob pos = (n', prev', glob', pos') \<and>
      inner_ok input ch k 0 n' prev' \<and> (glob' = glob \<and> pos' = pos \<and> n' \<le> max glob 1 \<or> glob' = n' \<and> pos' = k \<and> max glob 1 < n')"
proof (induction m arbitrary: n prev)
  case (Suc m)
  obtain l prev0 where e: "ch ! m = (l, input ! m, prev0)" "1 \<le> l" using chain_elem_left[OF assms(1), of m] Suc.prems(1) by auto
  have bound: "fst (ch ! j) \<le> max glob 1" if "j < k" for j using assms(2) that by (simp add: global_ok_def)
  have split: "rev [0..<Suc m] = m # rev [0..<m]" by simp
  consider (skip) "\<not> (input ! m < input ! k \<and> n < Suc l)"
    | (take) "input ! m < input ! k" "n < Suc l" "\<not> glob < Suc l"
    | (break) "input ! m < input ! k" "n < Suc l" "glob < Suc l" by blast
  then show ?case
  proof cases
    case skip
    have "inner_ok input ch k m n prev"
      using Suc.prems(2) skip e unfolding inner_ok_def by (auto simp: le_less_Suc_eq less_Suc_eq_le le_Suc_eq dest!: le_imp_less_or_eq)
    then show ?thesis using Suc.IH[of n prev] Suc.prems(1,3) skip e unfolding split by auto
  next
    case take
    have "inner_ok input ch k m (Suc l) (Some m)"
      using Suc.prems(1,2) take e unfolding inner_ok_def by (auto dest!: le_imp_less_or_eq[of m])
    then show ?thesis using Suc.IH[of "Suc l" "Some m"] Suc.prems(1) take e unfolding split by auto
  next
    case break
    have l: "max glob 1 = l" using bound[of m] break(3) e Suc.prems(1) by auto
    have "inner_ok input ch k 0 (Suc l) (Some m)"
      using Suc.prems(1) break e bound unfolding inner_ok_def l by auto
    then show ?thesis using break e l unfolding split by simp
  qed
qed auto

lemma chain_elem_update: "j \<ge> i \<Longrightarrow> chain_elem input (ch[j := e']) i e = chain_elem input ch i e"
  by (auto simp: chain_elem_def split: option.splits)

lemma lcs_outer_spec:
  assumes "drop k input = xs" "chain_ok input ch k" "global_ok ch k glob pos" "k = 0 \<longrightarrow> glob = 0"
  shows "\<exists>ch' glob' pos'. lcs_outer (enumerate k xs) ch glob pos = (ch', pos') \<and>
    chain_ok input ch' (length input) \<and> global_ok ch' (length input) glob' pos'"
  using assms
proof (induction xs arbitrary: k ch glob pos)
  case Nil
  then have "k = length input" by (simp add: chain_ok_def)
  then show ?case using Nil by auto
next
  case (Cons x xs)
  have k: "k < length input" "x = input ! k" "drop (Suc k) input = xs"
    using Cons.prems(1) by (auto simp: drop_Suc drop_tl nth_via_drop) (metis Cons.prems(1) drop_all linorder_not_le list.distinct(1))
  have "inner_ok input ch k k 1 None" by (simp add: inner_ok_def)
  from lcs_inner_spec[OF Cons.prems(2,3) le_refl this] obtain n prev glob' pos' where
    inner: "lcs_inner ch x k (rev [0..<k]) 1 None glob pos = (n, prev, glob', pos')" and ok: "inner_ok input ch k 0 n prev"
    and g: "glob' = glob \<and> pos' = pos \<and> n \<le> max glob 1 \<or> glob' = n \<and> pos' = k \<and> max glob 1 < n"
    using k(2) by auto
  let ?ch = "ch[k := (n, x, prev)]"
  have len: "k < length ch" using Cons.prems(2) k(1) by (simp add: chain_ok_def)
  have "chain_elem input ch k (n, x, prev)" using ok k(2) by (simp add: inner_ok_def chain_elem_def)
  then have chain: "chain_ok input ?ch (Suc k)"
    using Cons.prems(2) k(1) len by (auto simp: chain_ok_def chain_elem_update less_Suc_eq nth_list_update)
  have "global_ok ?ch (Suc k) glob' pos'"
    using Cons.prems(3) g len by (auto simp: global_ok_def less_Suc_eq nth_list_update split: if_splits)
  then show ?case using Cons.IH[OF k(3) chain] inner by simp
qed

lemma lcs_trace_spec:
  assumes "chain_ok input ch (length input)"
  shows "i < length input \<Longrightarrow> i < steps \<Longrightarrow> \<exists>ps. lcs_trace steps ch i = Returns ps \<and> length ps = fst (ch ! i) \<and>
    ps \<noteq> [] \<and> snd (hd ps) = i \<and> rising input (rev (map snd ps)) \<and> map fst ps = map ((!) input) (map snd ps)"
proof (induction steps arbitrary: i)
  case (Suc steps)
  have el: "chain_elem input ch i (ch ! i)" and len: "i < length ch" using assms Suc.prems(1) by (auto simp: chain_ok_def)
  obtain n prev where e: "ch ! i = (n, input ! i, prev)" using chain_elem_left[OF assms Suc.prems(1)] by blast
  show ?case
  proof (cases prev)
    case None
    then show ?thesis using el e len Suc.prems(1) by (simp add: chain_elem_def index_exec_def rising_def)
  next
    case (Some j)
    then have j: "j < i" "input ! j < input ! i" "n = Suc (fst (ch ! j))" using el e by (auto simp: chain_elem_def)
    then obtain ps where ps: "lcs_trace steps ch j = Returns ps" "length ps = fst (ch ! j)" "ps \<noteq> []" "snd (hd ps) = j"
        "rising input (rev (map snd ps))" "map fst ps = map ((!) input) (map snd ps)"
      using Suc.IH[of j] Suc.prems by auto
    obtain p ps' where split: "ps = p # ps'" using ps(3) by (cases ps) auto
    have le: "\<forall>x \<in> set (map snd ps). x \<le> j \<and> input ! x \<le> input ! j"
      using ps(4,5) unfolding split rising_def by (auto simp: sorted_wrt_append less_imp_le)
    have "rising input (rev (map snd ps) @ [i])"
      using ps(5) le j(1,2) Suc.prems(1) by (fastforce simp: rising_def sorted_wrt_append)
    then show ?thesis using ps e Some j(3) len by (simp add: index_exec_def)
  qed
qed simp

lemma rising_bound:
  assumes "chain_ok input ch (length input)"
  shows "rising input (is @ [i]) \<Longrightarrow> length (is @ [i]) \<le> fst (ch ! i)"
proof (induction "is" arbitrary: i rule: rev_induct)
  case Nil
  then show ?case using chain_elem_left[OF assms, of i] by (auto simp: rising_def)
next
  case (snoc j js)
  then have "rising input (js @ [j])" "j < i" "input ! j < input ! i" "i < length input"
    by (auto simp: rising_def sorted_wrt_append)
  moreover have "chain_elem input ch i (ch ! i)" using assms \<open>i < length input\<close> by (simp add: chain_ok_def)
  ultimately have "Suc (fst (ch ! j)) \<le> fst (ch ! i)" by (auto simp: chain_elem_def split: prod.splits)
  then show ?case using snoc.IH[OF \<open>rising input (js @ [j])\<close>] by simp
qed

lemma find_lcs_spec:
  "\<exists>rs. find_lcs input = Returns rs \<and> rising input (map snd rs) \<and> map fst rs = map ((!) input) (map snd rs) \<and>
     (input \<noteq> [] \<longrightarrow> rs \<noteq> []) \<and> (\<forall>is. rising input is \<longrightarrow> length is \<le> length rs)"
proof (cases "input = []")
  case True
  then show ?thesis by (auto simp: find_lcs_def rising_def)
next
  case False
  let ?ch = "replicate (length input) (0, 0, Some 0)"
  have "chain_ok input ?ch 0" "global_ok ?ch 0 0 0" by (auto simp: chain_ok_def global_ok_def)
  then obtain ch glob pos where out: "lcs_outer (enumerate 0 input) ?ch 0 0 = (ch, pos)"
      and ok: "chain_ok input ch (length input)" "global_ok ch (length input) glob pos"
    using lcs_outer_spec[of 0 input input ?ch 0 0] by auto
  have pos: "pos < length input" using ok(2) False by (auto simp: global_ok_def split: if_splits)
  obtain ps where ps: "lcs_trace (length input) ch pos = Returns ps" "length ps = fst (ch ! pos)" "ps \<noteq> []"
      "rising input (rev (map snd ps))" "map fst ps = map ((!) input) (map snd ps)"
    using lcs_trace_spec[OF ok(1) pos pos] by blast
  have max: "fst (ch ! i) \<le> fst (ch ! pos)" if "i < length input" for i
    using ok(2) that chain_elem_left[OF ok(1) pos] by (fastforce simp: global_ok_def split: if_splits)
  have "length is \<le> length ps" if r: "rising input is" for "is"
  proof (cases "is" rule: rev_cases)
    case (snoc js i)
    then have "length is \<le> fst (ch ! i)" "i < length input" using rising_bound[OF ok(1), of js i] r by (auto simp: rising_def)
    then show ?thesis using max ps(2) by fastforce
  qed simp
  then show ?thesis using False out ps by (auto simp: find_lcs_def rev_map)
qed

section \<open>Properties\<close>

text \<open>
  (C21) The longest common subsequence: for any positions, the search ends without a panic with pairs that
  are strictly increasing on both sides and taken from the input, and no strictly increasing
  subsequence of the input is longer.
\<close>

theorem find_lcs_longest:
  "\<exists>rs. find_lcs input = Returns rs \<and> sorted_wrt (\<lambda>p q. fst p < fst q \<and> snd p < snd q) rs \<and>
     (\<forall>(left, right) \<in> set rs. right < length input \<and> input ! right = left) \<and>
     (\<forall>is. sorted_wrt (<) is \<and> set is \<subseteq> {..<length input} \<and> sorted_wrt (<) (map ((!) input) is) \<longrightarrow> length is \<le> length rs)"
proof -
  obtain rs where rs: "find_lcs input = Returns rs" "rising input (map snd rs)" "map fst rs = map ((!) input) (map snd rs)"
      "\<forall>is. rising input is \<longrightarrow> length is \<le> length rs"
    using find_lcs_spec[of input] by blast
  have "sorted_wrt (<) (map fst rs)" "sorted_wrt (<) (map snd rs)" unfolding rs(3) using rs(2) by (simp_all only: rising_def)
  then have "sorted_wrt (\<lambda>p q. fst p < fst q \<and> snd p < snd q) rs" by (simp add: sorted_wrt_map sorted_wrt_iff_nth_less)
  moreover have "\<forall>(left, right) \<in> set rs. right < length input \<and> input ! right = left"
    using rs(2,3) by (fastforce simp: rising_def)
  ultimately show ?thesis using rs(1,4) unfolding rising_def by blast
qed

theorem find_lcs_longest_witness: "\<exists>rs. find_lcs [1, 0, 2] = Returns rs \<and> 2 \<le> length rs"
proof -
  obtain rs where "find_lcs [1, 0, 2] = Returns rs"
      "\<forall>is. sorted_wrt (<) is \<and> set is \<subseteq> {..<length [1, 0, 2 :: nat]} \<and> sorted_wrt (<) (map ((!) [1, 0, 2 :: nat]) is) \<longrightarrow> length is \<le> length rs"
    using find_lcs_longest[of "[1, 0, 2]"] by blast
  moreover from this(2) have "length [0 :: nat, 2] \<le> length rs" by (elim allE[of _ "[0, 2]"]) simp
  ultimately show ?thesis by simp
qed

end
