(* ===== verification/Diff_Words_Laws.thy ===== *)
theory Diff_Words_Laws
  imports Lcs_Laws
begin

text \<open>
  Unchanged words of two sources: the pairs found are strictly increasing on both sides and relate only
  equivalent words, whatever the hasher, the order of the hash tables and the comparison, as long as the
  comparison is an equivalence that the hash respects. That contract is the locale \<open>word_comparison\<close>; the
  three comparisons of the source are its instances.
\<close>

section \<open>The contract of a comparison\<close>

locale word_comparison =
  fixes wc :: word_comparator
  assumes eq_refl: "comp_eq wc s s"
    and eq_sym: "comp_eq wc s t \<Longrightarrow> comp_eq wc t s"
    and eq_trans: "comp_eq wc s t \<Longrightarrow> comp_eq wc t u \<Longrightarrow> comp_eq wc s u"
    and eq_hash: "comp_eq wc s t \<Longrightarrow> hash_one wc s = hash_one wc t"
    and eq_append: "comp_eq wc s t \<Longrightarrow> comp_eq wc s' t' \<Longrightarrow> comp_eq wc (s @ s') (t @ t')"

definition spaced :: "bool \<Rightarrow> bytes \<Rightarrow> bool" where
  "spaced prev bs = (if bs = [] then prev else is_ascii_whitespace (last bs))"

lemma ignore_amount_append:
  "ignore_whitespace_amount_loop prev (s @ t) =
     ignore_whitespace_amount_loop prev s @ ignore_whitespace_amount_loop (spaced prev s) t"
  by (induction s arbitrary: prev) (auto simp: spaced_def)

lemma ignore_amount_Nil: "ignore_whitespace_amount_loop False s = [] \<longleftrightarrow> s = []"
  by (cases s) auto

lemma ignore_amount_spaced:
  "(ignore_whitespace_amount_loop prev s = [] \<longrightarrow> spaced prev s = (s \<noteq> [] \<or> prev)) \<and>
   (ignore_whitespace_amount_loop prev s \<noteq> [] \<longrightarrow>
      spaced prev s = is_ascii_whitespace (last (ignore_whitespace_amount_loop prev s)))"
proof (induction s arbitrary: prev)
  case (Cons b s)
  show ?case
  proof (cases "is_ascii_whitespace b")
    case True
    have "is_ascii_whitespace 32" by (simp add: is_ascii_whitespace_def)
    then show ?thesis using Cons.IH[of True] True by (auto simp: spaced_def)
  next
    case False
    then show ?thesis using Cons.IH[of False] by (auto simp: spaced_def ignore_amount_Nil)
  qed
qed (simp add: spaced_def)

lemma ignore_amount_cong:
  assumes "bytes_ignore_whitespace_amount s = bytes_ignore_whitespace_amount t"
  shows "spaced False s = spaced False t"
  using ignore_amount_spaced[of False s] ignore_amount_spaced[of False t] ignore_amount_Nil assms
  unfolding bytes_ignore_whitespace_amount_def by metis

interpretation exactly: word_comparison "\<lparr>compare = compare_bytes_exactly, hash_builder = h\<rparr>" for h
  by unfold_locales (simp_all add: comp_eq_def hash_one_def compare_bytes_exactly_def)

interpretation ignore_all_whitespace: word_comparison "\<lparr>compare = compare_bytes_ignore_all_whitespace, hash_builder = h\<rparr>" for h
  by unfold_locales
    (simp_all add: comp_eq_def hash_one_def compare_bytes_ignore_all_whitespace_def bytes_ignore_all_whitespace_def)

lemma ignore_amount_True:
  "ignore_whitespace_amount_loop True s =
     (case ignore_whitespace_amount_loop False s of [] \<Rightarrow> [] | b # bs \<Rightarrow> if b = 32 then bs else b # bs)"
  by (cases s) (auto simp: is_ascii_whitespace_def)

lemma ignore_amount_append_cong:
  assumes "bytes_ignore_whitespace_amount s = bytes_ignore_whitespace_amount t"
    and "bytes_ignore_whitespace_amount s' = bytes_ignore_whitespace_amount t'"
  shows "bytes_ignore_whitespace_amount (s @ s') = bytes_ignore_whitespace_amount (t @ t')"
proof -
  have "ignore_whitespace_amount_loop True s' = ignore_whitespace_amount_loop True t'"
    using assms(2) by (simp add: ignore_amount_True bytes_ignore_whitespace_amount_def)
  then have "ignore_whitespace_amount_loop p s' = ignore_whitespace_amount_loop p t'" for p
    using assms(2) by (cases p) (auto simp: bytes_ignore_whitespace_amount_def)
  then show ?thesis
    using assms(1) ignore_amount_cong[OF assms(1)] by (simp add: bytes_ignore_whitespace_amount_def ignore_amount_append)
qed

interpretation ignore_whitespace_amount: word_comparison
    "\<lparr>compare = compare_bytes_ignore_whitespace_amount, hash_builder = h\<rparr>" for h
  by unfold_locales
    (auto simp: comp_eq_def hash_one_def compare_bytes_ignore_whitespace_amount_def intro: ignore_amount_append_cong)

section \<open>Sources\<close>

definition part :: "'a list \<Rightarrow> range \<Rightarrow> 'a list" where
  "part xs r = take (snd r - fst r) (drop (fst r) xs)"

definition range_in :: "'a list \<Rightarrow> range \<Rightarrow> bool" where
  "range_in xs r \<longleftrightarrow> fst r \<le> snd r \<and> snd r \<le> length xs"

lemma slice_part: "range_in xs r \<Longrightarrow> slice xs r = Returns (part xs r)"
  by (simp add: slice_def part_def range_in_def)

definition source_words :: "local_diff_source \<Rightarrow> bytes list" where
  "source_words s = map (part (ls_text s)) (ls_ranges s)"

definition source_ok :: "word_comparator \<Rightarrow> local_diff_source \<Rightarrow> bool" where
  "source_ok wc s \<longleftrightarrow> (\<forall>r \<in> set (ls_ranges s). range_in (ls_text s) r) \<and> ls_hashes s = map (hash_one wc) (source_words s)"

definition hashed :: "word_comparator \<Rightarrow> bytes \<Rightarrow> hashed_word" where
  "hashed wc t = \<lparr>hw_hash = hash_one wc t, hw_text = t\<rparr>"

lemma length_source_words [simp]: "length (source_words s) = length (ls_ranges s)"
  by (simp add: source_words_def)

lemma hashed_words_ok:
  assumes "source_ok wc s"
  shows "hashed_words s = Returns (map (hashed wc) (source_words s))"
proof -
  have z: "zip (ls_ranges s) (ls_hashes s) = map (\<lambda>r. (r, hash_one wc (part (ls_text s) r))) (ls_ranges s)"
    using assms by (simp add: source_ok_def source_words_def zip_map2 zip_same_conv_map)
  have "exec_map (\<lambda>(r, hash). exec_bind (slice (ls_text s) r) (\<lambda>text. Returns \<lparr>hw_hash = hash, hw_text = text\<rparr>))
      (zip (ls_ranges s) (ls_hashes s)) =
    Returns (map (\<lambda>(r, h). hashed wc (part (ls_text s) r)) (zip (ls_ranges s) (ls_hashes s)))"
    unfolding z using assms by (intro exec_map_Returns) (auto simp: source_ok_def slice_part hashed_def)
  then show ?thesis unfolding hashed_words_def z by (simp add: source_words_def o_def)
qed

lemma narrowed_ok:
  assumes "source_ok wc s" "i \<le> j" "j \<le> length (ls_ranges s)"
  shows "\<exists>l. narrowed s (i, j) = Returns l \<and> source_ok wc l \<and> source_words l = part (source_words s) (i, j) \<and>
    ls_offset l = ls_offset s + i"
proof -
  have "length (ls_hashes s) = length (ls_ranges s)" using assms(1) by (simp add: source_ok_def)
  then have "narrowed s (i, j) = Returns \<lparr>ls_text = ls_text s, ls_ranges = part (ls_ranges s) (i, j),
      ls_hashes = part (ls_hashes s) (i, j), ls_offset = ls_offset s + i\<rparr>" (is "_ = Returns ?l")
    using assms(2,3) by (simp add: narrowed_def slice_part range_in_def map_to_global_def)
  moreover have "source_words ?l = part (source_words s) (i, j)" by (simp add: source_words_def part_def take_map drop_map)
  moreover have "source_ok wc ?l"
    using assms(1) by (auto simp: source_ok_def part_def source_words_def take_map drop_map dest!: in_set_takeD in_set_dropD)
  ultimately show ?thesis by auto
qed

section \<open>Histogram\<close>

text \<open>
  Every position of the table belongs to one entry and holds a word that is equivalent to the entry's;
  the words of different entries are not equivalent.
\<close>

definition entries_ok :: "word_comparator \<Rightarrow> bytes list \<Rightarrow> nat \<Rightarrow> histogram_entry set \<Rightarrow> bool" where
  "entries_ok wc ts k es \<longleftrightarrow>
     (\<forall>(w, ps) \<in> es. w = hashed wc (hw_text w) \<and> ps \<noteq> [] \<and> distinct ps \<and> (\<forall>p \<in> set ps. p < k \<and> comp_eq wc (hw_text w) (ts ! p))) \<and>
     (\<forall>e \<in> es. \<forall>e' \<in> es. set (snd e) \<inter> set (snd e') \<noteq> {} \<or> comp_eq wc (hw_text (fst e)) (hw_text (fst e')) \<longrightarrow> e = e')"

lemma entries_ok_subset: "entries_ok wc ts k es \<Longrightarrow> es' \<subseteq> es \<Longrightarrow> entries_ok wc ts k es'"
  unfolding entries_ok_def by blast

lemma histogram_add_cases:
  obtains (new) "\<forall>e \<in> set h. \<not> same_word wc w e" "histogram_add wc m p w h = h @ [(w, [p])]"
  | (old) xs e ys where "h = xs @ e # ys" "same_word wc w e"
      "histogram_add wc m p w h = xs @ (fst e, if length (snd e) \<le> m then snd e @ [p] else snd e) # ys"
proof (induction h arbitrary: thesis)
  case (Cons e h)
  show ?case
  proof (cases "same_word wc w e")
    case True
    then show ?thesis using Cons.prems(2)[of "[]" e h] by simp
  next
    case False
    show ?thesis
    proof (rule Cons.IH)
      assume "\<forall>e \<in> set h. \<not> same_word wc w e" "histogram_add wc m p w h = h @ [(w, [p])]"
      then show thesis using False by (intro Cons.prems(1)) simp_all
    next
      fix xs e' ys assume "h = xs @ e' # ys" "same_word wc w e'"
        "histogram_add wc m p w h = xs @ (fst e', if length (snd e') \<le> m then snd e' @ [p] else snd e') # ys"
      then show thesis using False by (intro Cons.prems(2)[of "e # xs"]) simp_all
    qed
  qed
qed simp

context word_comparison
begin

lemma same_word_eq: "same_word wc (hashed wc t) e \<Longrightarrow> comp_eq wc (hw_text (fst e)) t"
  by (simp add: same_word_def hashed_def)

lemma eq_same_word:
  assumes "fst e = hashed wc (hw_text (fst e))" "comp_eq wc (hw_text (fst e)) t"
  shows "same_word wc (hashed wc t) e"
proof -
  have "hw_hash (fst e) = hash_one wc (hw_text (fst e))" using arg_cong[OF assms(1), of hw_hash] by (simp add: hashed_def)
  then show ?thesis using assms(2) eq_hash[OF assms(2)] by (simp add: same_word_def hashed_def)
qed

lemma entries_ok_entry:
  "entries_ok wc ts k es \<Longrightarrow> e \<in> es \<Longrightarrow> fst e = hashed wc (hw_text (fst e)) \<and> snd e \<noteq> [] \<and> distinct (snd e) \<and>
     (\<forall>p \<in> set (snd e). p < k \<and> comp_eq wc (hw_text (fst e)) (ts ! p))"
  unfolding entries_ok_def by (elim conjE) (drule bspec, assumption, simp add: split_beta)

lemma entries_ok_unique:
  "entries_ok wc ts k es \<Longrightarrow> e \<in> es \<Longrightarrow> e' \<in> es \<Longrightarrow>
     set (snd e) \<inter> set (snd e') \<noteq> {} \<or> comp_eq wc (hw_text (fst e)) (hw_text (fst e')) \<Longrightarrow> e = e'"
  unfolding entries_ok_def by blast

lemma entries_ok_insert:
  assumes "entries_ok wc ts k es" "fst e = hashed wc (hw_text (fst e))" "snd e \<noteq> []" "distinct (snd e)"
    and "\<forall>p \<in> set (snd e). p < k' \<and> comp_eq wc (hw_text (fst e)) (ts ! p)" "k \<le> k'"
    and "\<And>x. x \<in> es \<Longrightarrow> set (snd e) \<inter> set (snd x) = {} \<and> \<not> comp_eq wc (hw_text (fst e)) (hw_text (fst x))"
  shows "entries_ok wc ts k' (insert e es)"
  unfolding entries_ok_def
proof (intro conjI ballI impI)
  fix x assume "x \<in> insert e es"
  then have "fst x = hashed wc (hw_text (fst x)) \<and> snd x \<noteq> [] \<and> distinct (snd x) \<and>
      (\<forall>p \<in> set (snd x). p < k' \<and> comp_eq wc (hw_text (fst x)) (ts ! p))"
    using assms(2-6) entries_ok_entry[OF assms(1), of x] by fastforce
  then show "case x of (w, ps) \<Rightarrow> w = hashed wc (hw_text w) \<and> ps \<noteq> [] \<and> distinct ps \<and>
      (\<forall>p \<in> set ps. p < k' \<and> comp_eq wc (hw_text w) (ts ! p))" by (cases x) simp
next
  fix x y assume xy: "x \<in> insert e es" "y \<in> insert e es"
    "set (snd x) \<inter> set (snd y) \<noteq> {} \<or> comp_eq wc (hw_text (fst x)) (hw_text (fst y))"
  then show "x = y" using assms(7)[of x] assms(7)[of y] entries_ok_unique[OF assms(1)] eq_sym by blast
qed

lemma histogram_add_ok:
  assumes "distinct h" "entries_ok wc ts k (set h)" "k < length ts"
  shows "distinct (histogram_add wc m k (hashed wc (ts ! k)) h) \<and>
    entries_ok wc ts (Suc k) (set (histogram_add wc m k (hashed wc (ts ! k)) h))"
proof (cases rule: histogram_add_cases[of h wc "hashed wc (ts ! k)" m k])
  case new
  let ?e = "(hashed wc (ts ! k), [k])"
  have far: "k \<notin> set (snd x) \<and> \<not> comp_eq wc (ts ! k) (hw_text (fst x))" if "x \<in> set h" for x
    using entries_ok_entry[OF assms(2) that] new(1) that eq_same_word eq_sym by blast
  then have "entries_ok wc ts (Suc k) (insert ?e (set h))"
    using eq_refl by (intro entries_ok_insert[OF assms(2)]) (auto simp: hashed_def)
  then show ?thesis using new far assms(1) by fastforce
next
  case (old xs e ys)
  let ?e = "(fst e, if length (snd e) \<le> m then snd e @ [k] else snd e)" and ?rest = "set xs \<union> set ys"
  have e: "e \<in> set h" "e \<notin> ?rest" "?rest \<subseteq> set h" using old(1) assms(1) by auto
  note ent = entries_ok_entry[OF assms(2) e(1)]
  have far: "set (snd ?e) \<inter> set (snd x) = {} \<and> \<not> comp_eq wc (hw_text (fst ?e)) (hw_text (fst x))" if x: "x \<in> ?rest" for x
  proof -
    have "x \<noteq> e" "x \<in> set h" using x e by auto
    then have "set (snd e) \<inter> set (snd x) = {}" "\<not> comp_eq wc (hw_text (fst e)) (hw_text (fst x))"
      using entries_ok_unique[OF assms(2) e(1)] by blast+
    moreover have "k \<notin> set (snd x)" using entries_ok_entry[OF assms(2) \<open>x \<in> set h\<close>] by blast
    ultimately show ?thesis by auto
  qed
  have "comp_eq wc (hw_text (fst e)) (ts ! k)" using same_word_eq[OF old(2)] .
  then have "entries_ok wc ts (Suc k) (insert ?e ?rest)"
    using ent far by (intro entries_ok_insert[OF entries_ok_subset[OF assms(2) e(3)]]) auto
  moreover have "?e \<notin> ?rest"
  proof
    assume "?e \<in> ?rest"
    then show False using far[of ?e] eq_refl[of "hw_text (fst e)"] by simp
  qed
  ultimately show ?thesis using old(1,3) assms(1) by auto
qed

lemma histogram_fold_ok:
  assumes "distinct h" "entries_ok wc ts k (set h)" "k \<le> length ts"
  shows "distinct (fold (\<lambda>(i, word). histogram_add wc m i word) (enumerate k (map (hashed wc) (drop k ts))) h) \<and>
    entries_ok wc ts (length ts) (set (fold (\<lambda>(i, word). histogram_add wc m i word) (enumerate k (map (hashed wc) (drop k ts))) h))"
  using assms
proof (induction "length ts - k" arbitrary: k h)
  case 0
  then show ?case by simp
next
  case (Suc n)
  then have k: "k < length ts" "drop k ts = ts ! k # drop (Suc k) ts" by (simp_all add: Cons_nth_drop_Suc)
  note add = histogram_add_ok[OF Suc.prems(1,2) k(1), of m]
  show ?case using Suc.hyps(1)[of "Suc k", OF _ add[THEN conjunct1] add[THEN conjunct2]] Suc.hyps(2) k by simp
qed

lemma histogram_ok:
  assumes "source_ok wc s"
  shows "\<exists>h. histogram_calculate s wc m = Returns h \<and> distinct h \<and> entries_ok wc (source_words s) (length (source_words s)) (set h) \<and>
    (source_words s \<noteq> [] \<longrightarrow> h \<noteq> [])"
proof -
  let ?ts = "source_words s"
  let ?h = "fold (\<lambda>(i, word). histogram_add wc m i word) (enumerate 0 (map (hashed wc) ?ts)) []"
  have ne: "histogram_add wc m i w h \<noteq> []" for i w h by (cases h) auto
  have "fold (\<lambda>(i, word). histogram_add wc m i word) xs h \<noteq> []" if "xs \<noteq> [] \<or> h \<noteq> []" for xs h
    using that by (induction xs arbitrary: h) (auto simp: ne split: prod.splits)
  then have "?ts \<noteq> [] \<longrightarrow> ?h \<noteq> []" by (cases ?ts) auto
  moreover have "histogram_calculate s wc m = Returns ?h" using hashed_words_ok[OF assms] by (simp add: histogram_calculate_def)
  moreover have "entries_ok wc ?ts 0 (set [])" by (simp add: entries_ok_def)
  ultimately show ?thesis using histogram_fold_ok[of "[]" ?ts 0 m] by simp
qed

end

section \<open>Entries by their number of positions\<close>

definition listed :: "(nat, histogram_entry list) btree \<Rightarrow> nat \<Rightarrow> histogram_entry list" where
  "listed m k = (case bt_get m k of None \<Rightarrow> [] | Some es \<Rightarrow> es)"

lemma listed_push: "listed (push_entry e m) k = listed m k @ (if length (snd e) = k then [e] else [])"
  by (simp add: listed_def push_entry_def)

lemma listed_count_to_entries: "listed (build_count_to_entries it h) k = filter (\<lambda>e. length (snd e) = k) (it h)"
proof -
  have "listed (fold push_entry es m) k = listed m k @ filter (\<lambda>e. length (snd e) = k) es" for es m
    by (induction es arbitrary: m) (simp_all add: listed_push)
  then show ?thesis by (simp add: build_count_to_entries_def listed_def)
qed

lemma count_to_entries_values:
  assumes "es \<in> set (bt_values (build_count_to_entries it h))" "mset (it h) = mset h" "distinct h"
  shows "distinct es \<and> set es \<subseteq> set h"
proof -
  obtain k where "bt_get (build_count_to_entries it h) k = Some es" using assms(1) by auto
  then have "es = filter (\<lambda>e. length (snd e) = k) (it h)" using listed_count_to_entries[of it h k] by (simp add: listed_def)
  moreover have "distinct (it h)" "set (it h) = set h"
    using mset_eq_imp_distinct_iff[OF assms(2)] mset_eq_setD[OF assms(2)] assms(3) by simp_all
  ultimately show ?thesis by auto
qed

lemma count_to_entries_keys:
  assumes "mset (it h) = mset h" "h \<noteq> []"
  shows "bt_keys (build_count_to_entries it h) \<noteq> []"
proof -
  obtain e where "e \<in> set (it h)" using assms mset_eq_setD[OF assms(1)] by (cases h) auto
  then have "listed (build_count_to_entries it h) (length (snd e)) \<noteq> []"
    by (auto simp: listed_count_to_entries filter_empty_conv)
  then have "length (snd e) \<in> set (bt_keys (build_count_to_entries it h))"
    by (auto simp: listed_def split: option.splits)
  then show ?thesis by (metis empty_iff empty_set)
qed

section \<open>Shared words\<close>

definition paired_words :: "word_comparator \<Rightarrow> bytes list \<Rightarrow> bytes list \<Rightarrow> (nat \<times> nat) set \<Rightarrow> bool" where
  "paired_words wc ls rs ps \<longleftrightarrow> (\<forall>i j. (i, j) \<in> ps \<longrightarrow> i < length ls \<and> j < length rs \<and> comp_eq wc (ls ! i) (rs ! j))"

definition zipped :: "(nat list \<times> nat list) list \<Rightarrow> (nat \<times> nat) list" where
  "zipped uncommon = concat (map (\<lambda>(lefts, rights). zip lefts rights) uncommon)"

lemma find_SomeD: "find P xs = Some x \<Longrightarrow> x \<in> set xs \<and> P x"
  by (metis find_Some_iff nth_mem)

context word_comparison
begin

lemma both_positions_Cons:
  obtains (none) "both_positions R wc (e # es) = both_positions R wc es"
  | (some) e' where "e' \<in> set R" "comp_eq wc (hw_text (fst e')) (hw_text (fst e))" "length (snd e) = length (snd e')"
      "both_positions R wc (e # es) = (snd e, snd e') # both_positions R wc es"
proof (cases "find (same_word wc (fst e)) R")
  case None
  then have "both_positions R wc (e # es) = both_positions R wc es"
    by (cases e) (simp add: both_positions_def positions_by_word_def List.map_filter_simps)
  then show thesis by (rule none)
next
  case (Some e')
  then have e': "e' \<in> set R" "same_word wc (fst e) e'" using find_SomeD[OF Some] by simp_all
  have eq: "comp_eq wc (hw_text (fst e')) (hw_text (fst e))" using e'(2) by (simp add: same_word_def)
  have run: "both_positions R wc (e # es) =
      (if length (snd e) = length (snd e') then [(snd e, snd e')] else []) @ both_positions R wc es"
    using Some by (cases e) (simp add: both_positions_def positions_by_word_def List.map_filter_simps)
  show thesis
  proof (cases "length (snd e) = length (snd e')")
    case True
    then show thesis using some[OF e'(1) eq] run by simp
  next
    case False
    then show thesis using none run by simp
  qed
qed

lemma both_positions_spec:
  assumes "entries_ok wc ls (length ls) S" "entries_ok wc rs (length rs) (set R)"
  shows "distinct es \<Longrightarrow> set es \<subseteq> S \<Longrightarrow>
    distinct (map fst (zipped (both_positions R wc es))) \<and> distinct (map snd (zipped (both_positions R wc es))) \<and>
    paired_words wc ls rs (set (zipped (both_positions R wc es))) \<and>
    (both_positions R wc es \<noteq> [] \<longrightarrow> zipped (both_positions R wc es) \<noteq> []) \<and>
    (\<forall>p \<in> fst ` set (zipped (both_positions R wc es)). \<exists>e \<in> set es. p \<in> set (snd e)) \<and>
    (\<forall>p \<in> snd ` set (zipped (both_positions R wc es)). \<exists>e \<in> set es. \<exists>e' \<in> set R. p \<in> set (snd e') \<and>
       comp_eq wc (hw_text (fst e')) (hw_text (fst e)))"
proof (induction es)
  case Nil
  then show ?case by (simp add: both_positions_def zipped_def paired_words_def List.map_filter_simps)
next
  case (Cons e es)
  then have IH: "distinct (map fst (zipped (both_positions R wc es)))" "distinct (map snd (zipped (both_positions R wc es)))"
      "paired_words wc ls rs (set (zipped (both_positions R wc es)))"
      "both_positions R wc es \<noteq> [] \<longrightarrow> zipped (both_positions R wc es) \<noteq> []"
      "\<forall>p \<in> fst ` set (zipped (both_positions R wc es)). \<exists>e \<in> set es. p \<in> set (snd e)"
      "\<forall>p \<in> snd ` set (zipped (both_positions R wc es)). \<exists>e \<in> set es. \<exists>e' \<in> set R. p \<in> set (snd e') \<and>
         comp_eq wc (hw_text (fst e')) (hw_text (fst e))"
    and e: "e \<in> S" "e \<notin> set es" "set es \<subseteq> S" by auto
  show ?case
  proof (cases rule: both_positions_Cons[of R e es])
    case none
    then show ?thesis using IH by simp
  next
    case (some e')
    let ?z = "zip (snd e) (snd e')" and ?zs = "zipped (both_positions R wc es)"
    have z: "zipped (both_positions R wc (e # es)) = ?z @ ?zs" by (simp add: some(4) zipped_def)
    note le = entries_ok_entry[OF assms(1) e(1)] and re = entries_ok_entry[OF assms(2) some(1)]
    have maps: "map fst ?z = snd e" "map snd ?z = snd e'" using some(3) by simp_all
    have left: "set (snd e) \<inter> fst ` set ?zs = {}"
    proof (rule equals0I)
      fix p assume "p \<in> set (snd e) \<inter> fst ` set ?zs"
      then obtain x where "x \<in> set es" "p \<in> set (snd x) \<inter> set (snd e)" using IH(5) by blast
      then show False using entries_ok_unique[OF assms(1), of x e] e by blast
    qed
    have right: "set (snd e') \<inter> snd ` set ?zs = {}"
    proof (rule equals0I)
      fix p assume "p \<in> set (snd e') \<inter> snd ` set ?zs"
      then obtain x x' where x: "x \<in> set es" "x' \<in> set R" "p \<in> set (snd x') \<inter> set (snd e')"
          "comp_eq wc (hw_text (fst x')) (hw_text (fst x))" using IH(6) by blast
      then have "x' = e'" using entries_ok_unique[OF assms(2)] some(1) by blast
      then have "comp_eq wc (hw_text (fst x)) (hw_text (fst e))" using x(4) some(2) eq_sym eq_trans by blast
      then show False using entries_ok_unique[OF assms(1), of x e] e x(1) by blast
    qed
    have "i < length ls \<and> j < length rs \<and> comp_eq wc (ls ! i) (rs ! j)" if ij: "(i, j) \<in> set ?z" for i j
    proof -
      have i: "i < length ls" "comp_eq wc (hw_text (fst e)) (ls ! i)" using set_zip_leftD[OF ij] le by blast+
      have j: "j < length rs" "comp_eq wc (hw_text (fst e')) (rs ! j)" using set_zip_rightD[OF ij] re by blast+
      have "comp_eq wc (hw_text (fst e)) (rs ! j)" using eq_trans[OF eq_sym[OF some(2)] j(2)] .
      then show ?thesis using i(1) j(1) eq_trans[OF eq_sym[OF i(2)]] by blast
    qed
    then have "paired_words wc ls rs (set ?z)" unfolding paired_words_def by blast
    then have "paired_words wc ls rs (set (?z @ ?zs))" using IH(3) by (auto simp: paired_words_def)
    moreover have "?z \<noteq> []" using le some(3) by (cases "snd e"; cases "snd e'") auto
    moreover have "fst ` set ?z = set (snd e)" "snd ` set ?z = set (snd e')" using maps by (metis set_map)+
    ultimately show ?thesis unfolding z using IH(1,2,5,6) left right maps le re some(1,2)
      by (simp add: image_Un) blast
  qed
qed

end

section \<open>The splitting words\<close>

text \<open>The sorted positions of one side with their serials.\<close>

lemma sorted_positions:
  fixes f :: "nat \<times> nat \<Rightarrow> nat"
  assumes "distinct (map f zs)"
  defines "ps \<equiv> sort_key fst (map (\<lambda>(serial, z). (f z, serial)) (enumerate 0 zs))"
  shows "length ps = length zs" "sorted_wrt (<) (map fst ps)" "distinct (map snd ps)"
    "\<And>i. i < length zs \<Longrightarrow> snd (ps ! i) < length zs \<and> fst (ps ! i) = f (zs ! snd (ps ! i))"
    "\<And>s. s < length zs \<Longrightarrow> \<exists>i < length zs. snd (ps ! i) = s"
proof -
  let ?qs = "map (\<lambda>(serial, z). (f z, serial)) (enumerate 0 zs)"
  have ms: "mset ps = mset ?qs" by (simp add: ps_def)
  show len: "length ps = length zs" using ms by (metis length_enumerate length_map size_mset)
  have "map fst ?qs = map f (map snd (enumerate 0 zs))" "map snd ?qs = map fst (enumerate 0 zs)"
    by (simp_all only: map_map comp_def split_beta fst_conv snd_conv)
  then have fsts: "map fst ?qs = map f zs" and snds: "map snd ?qs = [0..<length zs]"
    by (simp_all only: map_fst_enumerate map_snd_enumerate) simp
  have perm: "mset (map g ps) = mset (map g ?qs)" for g :: "nat \<times> nat \<Rightarrow> nat" using ms by (simp only: mset_map)
  have "distinct (map fst ps)" "distinct (map snd ps)"
    unfolding mset_eq_imp_distinct_iff[OF perm] fsts snds using assms(1) by simp_all
  moreover have "sorted (map fst ps)" by (simp add: ps_def)
  ultimately show "sorted_wrt (<) (map fst ps)" "distinct (map snd ps)" by (simp_all add: strict_sorted_iff)
  have sets: "set ps = set ?qs" using mset_eq_setD[OF ms] .
  show "snd (ps ! i) < length zs \<and> fst (ps ! i) = f (zs ! snd (ps ! i))" if "i < length zs" for i
  proof -
    have "ps ! i \<in> set ?qs" using that len sets nth_mem by metis
    then show ?thesis by (auto simp: in_set_enumerate_eq)
  qed
  show "\<exists>i < length zs. snd (ps ! i) = s" if "s < length zs" for s
  proof -
    have "s \<in> set (map snd ps)" using that snds sets by (metis atLeast0LessThan lessThan_iff list.set_map set_upt)
    then obtain i where "i < length (map snd ps)" "map snd ps ! i = s" by (metis in_set_conv_nth)
    then show ?thesis using len by auto
  qed
qed

lemma left_index_map_nth:
  assumes "distinct (map snd ps)" "\<forall>p \<in> set ps. snd p < length ps"
  shows "length (left_index_map ps) = length ps" "\<And>i. i < length ps \<Longrightarrow> left_index_map ps ! snd (ps ! i) = i"
proof -
  have len: "length (fold (\<lambda>(i, (_, serial)) m. m[serial := i]) xs m) = length m" for xs :: "(nat \<times> nat \<times> nat) list" and m :: "nat list"
    by (induction xs arbitrary: m) auto
  show "length (left_index_map ps) = length ps" by (simp add: left_index_map_def len)
  have keep: "fold (\<lambda>(i, (_, serial)) m. m[serial := i]) (enumerate k xs) m ! s = m ! s"
    if "s \<notin> set (map snd xs)" for k and xs :: "(nat \<times> nat) list" and m s
    using that by (induction xs arbitrary: k m) auto
  have "fold (\<lambda>(i, (_, serial)) m. m[serial := i]) (enumerate k xs) m ! snd (xs ! i) = k + i"
    if "distinct (map snd xs)" "\<forall>p \<in> set xs. snd p < length m" "i < length xs" for k and xs :: "(nat \<times> nat) list" and m i
    using that
  proof (induction xs arbitrary: k m i)
    case (Cons x xs)
    show ?case
    proof (cases i)
      case 0
      then show ?thesis using Cons.prems by (cases x) (simp add: keep)
    next
      case (Suc j)
      then show ?thesis using Cons.IH[of "m[snd x := k]" j "Suc k"] Cons.prems by (cases x) simp
    qed
  qed simp
  from this[of ps "replicate (length ps) 0" _ 0] show "left_index_map ps ! snd (ps ! i) = i" if "i < length ps" for i
    using assms that by (simp add: left_index_map_def)
qed

definition ascending :: "(nat \<times> nat) list \<Rightarrow> bool" where
  "ascending ps \<longleftrightarrow> sorted_wrt (\<lambda>p q. fst p < fst q \<and> snd p < snd q) ps"

lemma lcs_positions_spec:
  assumes "distinct (map fst (zipped uncommon))" "distinct (map snd (zipped uncommon))"
  shows "\<exists>ws. lcs_positions uncommon = Returns ws \<and> ascending ws \<and> set ws \<subseteq> set (zipped uncommon) \<and>
    (zipped uncommon \<noteq> [] \<longrightarrow> ws \<noteq> [])"
proof -
  let ?zs = "zipped uncommon"
  define lp where "lp = sort_key fst (map (\<lambda>(serial, z). (fst z, serial)) (enumerate 0 ?zs))"
  define rp where "rp = sort_key fst (map (\<lambda>(serial, z). (snd z, serial)) (enumerate 0 ?zs))"
  note L = sorted_positions[OF assms(1), folded lp_def] and R = sorted_positions[OF assms(2), folded rp_def]
  let ?m = "left_index_map lp"
  have "\<forall>p \<in> set lp. snd p < length lp" using L(1,4) by (metis in_set_conv_nth)
  note M = left_index_map_nth[OF L(3) this]
  define input where "input = map (\<lambda>(_, s). ?m ! s) rp"
  have run1: "exec_map (\<lambda>(_, serial). index_exec ?m serial) rp = Returns input"
    unfolding input_def
  proof (rule exec_map_Returns)
    fix x assume "x \<in> set rp"
    then have "snd x < length ?m" using R(1,4) L(1) M(1) by (metis in_set_conv_nth)
    then show "(case x of (_, serial) \<Rightarrow> index_exec ?m serial) = Returns (case x of (_, s) \<Rightarrow> ?m ! s)"
      by (cases x) (simp add: index_exec_def)
  qed
  obtain rs where rs: "find_lcs input = Returns rs" "rising input (map snd rs)" "map fst rs = map ((!) input) (map snd rs)"
      "input \<noteq> [] \<longrightarrow> rs \<noteq> []"
    using find_lcs_spec[of input] by blast
  have len: "length input = length ?zs" by (simp add: input_def R(1))
  have elem: "fst p < length lp \<and> snd p < length rp \<and> snd (lp ! fst p) = snd (rp ! snd p)" if p: "p \<in> set rs" for p
  proof -
    obtain k where k: "k < length rs" "p = rs ! k" using p by (metis in_set_conv_nth)
    have "snd p < length ?zs" using rs(2) p len by (auto simp: rising_def)
    moreover have "fst p = input ! snd p" using arg_cong[OF rs(3), of "\<lambda>xs. xs ! k"] k by simp
    moreover obtain i where "i < length ?zs" "snd (lp ! i) = snd (rp ! snd p)" using R(4) L(5) calculation(1) by blast
    ultimately have "fst p = i" using M(2)[of i] L(1) R(1) by (simp add: input_def split_beta)
    then show ?thesis using \<open>i < length ?zs\<close> \<open>snd (lp ! i) = _\<close> \<open>snd p < _\<close> L(1) R(1) by simp
  qed
  let ?ws = "map (\<lambda>p. (fst (lp ! fst p), fst (rp ! snd p))) rs"
  have run2: "exec_map (\<lambda>(left_index, right_index).
      exec_bind (index_exec lp left_index) (\<lambda>(left_position, _).
      exec_bind (index_exec rp right_index) (\<lambda>(right_position, _). Returns (left_position, right_position)))) rs = Returns ?ws"
    using elem by (intro exec_map_Returns) (auto simp: index_exec_def split_beta)
  have "lcs_positions uncommon = Returns ?ws"
    using run1 rs(1) run2 by (simp add: lcs_positions_def Let_def lp_def rp_def zipped_def split_beta')
  moreover have "set ?ws \<subseteq> set ?zs"
  proof
    fix w assume "w \<in> set ?ws"
    then obtain p where p: "p \<in> set rs" "w = (fst (lp ! fst p), fst (rp ! snd p))" by auto
    then have "w = ?zs ! snd (rp ! snd p)" "snd (rp ! snd p) < length ?zs"
      using elem[OF p(1)] L(1,4) R(1,4) by (metis prod.collapse)+
    then show "w \<in> set ?zs" by simp
  qed
  moreover have "ascending ?ws"
  proof -
    have "sorted_wrt (\<lambda>p q. fst p < fst q \<and> snd p < snd q) rs"
    proof -
      have "sorted_wrt (<) (map fst rs)" "sorted_wrt (<) (map snd rs)" unfolding rs(3) using rs(2) by (simp_all only: rising_def)
      then show ?thesis by (simp add: sorted_wrt_map sorted_wrt_iff_nth_less)
    qed
    moreover have "fst (lp ! i) < fst (lp ! j)" if "i < j" "j < length lp" for i j
      using L(2) that by (simp add: sorted_wrt_iff_nth_less)
    moreover have "fst (rp ! i) < fst (rp ! j)" if "i < j" "j < length rp" for i j
      using R(2) that by (simp add: sorted_wrt_iff_nth_less)
    ultimately show ?thesis using elem unfolding ascending_def sorted_wrt_map
      by (auto elim!: sorted_wrt_mono_rel[rotated])
  qed
  ultimately show ?thesis using rs(4) len by auto
qed

section \<open>Unchanged words\<close>

text \<open>The pairs found between two sources, as positions of the whole texts.\<close>

definition matched :: "word_comparator \<Rightarrow> local_diff_source \<Rightarrow> local_diff_source \<Rightarrow> (nat \<times> nat) list \<Rightarrow> bool" where
  "matched wc left right ps \<longleftrightarrow> ascending ps \<and>
     (\<forall>a b. (a, b) \<in> set ps \<longrightarrow>
        (\<exists>i j. a = ls_offset left + i \<and> b = ls_offset right + j \<and>
           i < length (source_words left) \<and> j < length (source_words right) \<and>
           comp_eq wc (source_words left ! i) (source_words right ! j)))"

lemma matched_pair:
  "matched wc left right ps \<Longrightarrow> (a, b) \<in> set ps \<Longrightarrow>
     \<exists>i j. a = ls_offset left + i \<and> b = ls_offset right + j \<and> i < length (source_words left) \<and> j < length (source_words right) \<and>
       comp_eq wc (source_words left ! i) (source_words right ! j)"
  unfolding matched_def by blast

lemma ascending_append:
  "ascending (ps @ qs) \<longleftrightarrow> ascending ps \<and> ascending qs \<and> (\<forall>p \<in> set ps. \<forall>q \<in> set qs. fst p < fst q \<and> snd p < snd q)"
  by (simp add: ascending_def sorted_wrt_append)

lemma length_part: "range_in xs r \<Longrightarrow> length (part xs r) = snd r - fst r"
  by (auto simp: part_def range_in_def)

lemma nth_part: "range_in xs r \<Longrightarrow> i < snd r - fst r \<Longrightarrow> part xs r ! i = xs ! (fst r + i)"
  by (simp add: part_def range_in_def)

context word_comparison
begin

lemma split_words_spec:
  assumes "\<And>h. mset (iter_table h) = mset h" "source_ok wc left" "source_ok wc right" "source_words left \<noteq> []"
  shows "\<exists>ws. split_words iter_table wc left right = Returns ws \<and> ascending ws \<and>
    paired_words wc (source_words left) (source_words right) (set ws)"
proof -
  obtain L where L: "histogram_calculate left wc 100 = Returns L" "distinct L" "L \<noteq> []"
      "entries_ok wc (source_words left) (length (source_words left)) (set L)"
    using histogram_ok[OF assms(2), of 100] assms(4) by blast
  obtain R where R: "histogram_calculate right wc 100 = Returns R" "entries_ok wc (source_words right) (length (source_words right)) (set R)"
    using histogram_ok[OF assms(3), of 100] by blast
  let ?m = "build_count_to_entries iter_table L"
  obtain k ks where k: "bt_keys ?m = k # ks" using count_to_entries_keys[of iter_table L] assms(1) L(3) by (cases "bt_keys ?m") auto
  have shared: "\<exists>es \<in> set ess. uncommon = both_positions R wc es" if "uncommon_shared R wc ess = Some uncommon" for ess uncommon
    using that by (induction ess) (auto simp: Let_def split: if_splits)
  have none: "ascending [] \<and> paired_words wc (source_words left) (source_words right) (set [])"
    by (simp add: ascending_def paired_words_def)
  show ?thesis
  proof (cases "k > 100 \<or> uncommon_shared R wc (bt_values ?m) = None")
    case True
    then have "split_words iter_table wc left right = Returns []" using L(1) R(1) k by (auto simp: split_words_def Let_def)
    then show ?thesis using none by blast
  next
    case False
    then obtain uncommon where u: "uncommon_shared R wc (bt_values ?m) = Some uncommon" "\<not> k > 100" by auto
    then obtain es where es: "es \<in> set (bt_values ?m)" "uncommon = both_positions R wc es" using shared by blast
    then have "distinct es" "set es \<subseteq> set L" using count_to_entries_values[of es iter_table L] assms(1) L(2) by simp_all
    then have z: "distinct (map fst (zipped uncommon))" "distinct (map snd (zipped uncommon))"
        "paired_words wc (source_words left) (source_words right) (set (zipped uncommon))"
      using both_positions_spec[OF L(4) R(2), of es] es(2) by simp_all
    obtain ws where "lcs_positions uncommon = Returns ws" "ascending ws" "set ws \<subseteq> set (zipped uncommon)"
      using lcs_positions_spec[OF z(1,2)] by blast
    moreover have "split_words iter_table wc left right = lcs_positions uncommon"
      using u L(1) R(1) k by (simp add: split_words_def Let_def)
    ultimately show ?thesis using z(3) unfolding paired_words_def by auto
  qed
qed

lemma common_ends_spec:
  assumes "source_ok wc left" "source_ok wc right"
  shows "\<exists>ps. common_ends wc left right = Returns ps \<and> matched wc left right ps"
proof -
  let ?ls = "source_words left" and ?rs = "source_words right"
  let ?eq = "\<lambda>(l, r). eq_hashed wc l r"
  let ?z = "zip (map (hashed wc) ?ls) (map (hashed wc) ?rs)"
  define n where "n = length (takeWhile ?eq ?z)"
  let ?z' = "zip (rev (drop n (map (hashed wc) ?ls))) (rev (drop n (map (hashed wc) ?rs)))"
  define k where "k = length (takeWhile ?eq ?z')"
  have n: "n \<le> length ?ls" "n \<le> length ?rs" using length_takeWhile_le[of ?eq ?z] by (simp_all add: n_def)
  have k: "k \<le> length ?ls - n" "k \<le> length ?rs - n" using length_takeWhile_le[of ?eq ?z'] by (simp_all add: k_def)
  have eqD: "comp_eq wc (hw_text l) (hw_text r)" if "eq_hashed wc l r" for l r using that by (simp add: eq_hashed_def comp_eq_def)
  have lead: "comp_eq wc (?ls ! i) (?rs ! i)" if "i < n" for i
  proof -
    have "?eq (?z ! i)" using that nth_mem[of i "takeWhile ?eq ?z"] set_takeWhileD[of _ ?eq ?z] takeWhile_nth[of i ?eq ?z]
      unfolding n_def by metis
    then show ?thesis using that n eqD[of "hashed wc (?ls ! i)" "hashed wc (?rs ! i)"] by (simp add: hashed_def)
  qed
  have trail: "comp_eq wc (?ls ! (length ?ls - i)) (?rs ! (length ?rs - i))" if i: "1 \<le> i" "i \<le> k" for i
  proof -
    have "i - 1 < length (takeWhile ?eq ?z')" using i by (simp add: k_def)
    then have "?eq (?z' ! (i - 1))" using nth_mem set_takeWhileD takeWhile_nth by metis
    moreover have "?z' ! (i - 1) = (hashed wc (?ls ! (length ?ls - i)), hashed wc (?rs ! (length ?rs - i)))"
      using i k by (simp add: rev_nth)
    ultimately show ?thesis using eqD by (fastforce simp: hashed_def)
  qed
  define ps where "ps = map (\<lambda>i. (map_to_global left i, map_to_global right i)) [0..<n] @
    map (\<lambda>i. (map_to_global left (length ?ls - i), map_to_global right (length ?rs - i))) (rev [1..<k + 1])"
  have run: "common_ends wc left right = Returns ps"
    using hashed_words_ok[OF assms(1)] hashed_words_ok[OF assms(2)]
    by (simp add: common_ends_def Let_def ps_def n_def k_def)
  have "sorted_wrt (\<lambda>p q. fst p < fst q \<and> snd p < snd q)
      (map (\<lambda>i. (map_to_global left (length ?ls - i), map_to_global right (length ?rs - i))) (rev [1..<k + 1]))"
    unfolding sorted_wrt_map sorted_wrt_rev
    by (rule sorted_wrt_mono_rel[OF _ sorted_wrt_upt]) (use k in \<open>auto simp: map_to_global_def\<close>)
  moreover have "sorted_wrt (\<lambda>p q. fst p < fst q \<and> snd p < snd q) (map (\<lambda>i. (map_to_global left i, map_to_global right i)) [0..<n])"
    by (auto simp: sorted_wrt_map map_to_global_def intro!: sorted_wrt_mono_rel[OF _ sorted_wrt_upt])
  ultimately have "ascending ps" using n k by (auto simp: ascending_def ps_def sorted_wrt_append map_to_global_def)
  moreover have "\<exists>i j. a = ls_offset left + i \<and> b = ls_offset right + j \<and> i < length ?ls \<and> j < length ?rs \<and> comp_eq wc (?ls ! i) (?rs ! j)"
    if ab: "(a, b) \<in> set ps" for a b
  proof -
    consider i where "i < n" "a = map_to_global left i" "b = map_to_global right i"
      | i where "1 \<le> i" "i \<le> k" "a = map_to_global left (length ?ls - i)" "b = map_to_global right (length ?rs - i)"
      using ab by (auto simp: ps_def)
    then show ?thesis
    proof cases
      case (1 i)
      then show ?thesis using n lead[of i] by (intro exI[of _ i]) (simp add: map_to_global_def)
    next
      case (2 i)
      then show ?thesis using k trail[of i] by (rule_tac exI[of _ "length ?ls - i"], rule_tac exI[of _ "length ?rs - i"]) (auto simp: map_to_global_def)
    qed
  qed
  ultimately show ?thesis using run unfolding matched_def by blast
qed

text \<open>One part between two splitting words, and the words found in it.\<close>

lemma matched_narrowed:
  assumes "source_ok wc left" "source_ok wc right" "narrowed left (i, i') = Returns l" "narrowed right (j, j') = Returns r"
    and "i \<le> i'" "i' \<le> length (ls_ranges left)" "j \<le> j'" "j' \<le> length (ls_ranges right)" "matched wc l r ps"
  shows "matched wc left right ps \<and> (\<forall>(a, b) \<in> set ps.
    ls_offset left + i \<le> a \<and> a < ls_offset left + i' \<and> ls_offset right + j \<le> b \<and> b < ls_offset right + j')"
proof -
  have l: "source_words l = part (source_words left) (i, i')" "ls_offset l = ls_offset left + i"
    using narrowed_ok[OF assms(1,5,6)] assms(3) by auto
  have r: "source_words r = part (source_words right) (j, j')" "ls_offset r = ls_offset right + j"
    using narrowed_ok[OF assms(2,7,8)] assms(4) by auto
  have ri: "range_in (source_words left) (i, i')" "range_in (source_words right) (j, j')"
    using assms(5-8) by (simp_all add: range_in_def)
  have "\<exists>x y. a = ls_offset left + i + x \<and> b = ls_offset right + j + y \<and> x < i' - i \<and> y < j' - j \<and>
      comp_eq wc (source_words left ! (i + x)) (source_words right ! (j + y))" if ab: "(a, b) \<in> set ps" for a b
  proof -
    obtain x y where "a = ls_offset left + i + x" "b = ls_offset right + j + y" "x < i' - i" "y < j' - j"
        "comp_eq wc (part (source_words left) (i, i') ! x) (part (source_words right) (j, j') ! y)"
      using matched_pair[OF assms(9) ab] unfolding l r length_part[OF ri(1)] length_part[OF ri(2)] fst_conv snd_conv by blast
    then show ?thesis using nth_part[OF ri(1), of x] nth_part[OF ri(2), of y] by auto
  qed
  note found = this
  have "\<exists>x y. a = ls_offset left + x \<and> b = ls_offset right + y \<and> x < length (source_words left) \<and> y < length (source_words right) \<and>
      comp_eq wc (source_words left ! x) (source_words right ! y)" if ab: "(a, b) \<in> set ps" for a b
  proof -
    obtain x y where "a = ls_offset left + i + x" "b = ls_offset right + j + y" "x < i' - i" "y < j' - j"
        "comp_eq wc (source_words left ! (i + x)) (source_words right ! (j + y))" using found[OF ab] by blast
    then show ?thesis using assms(5-8) by (rule_tac exI[of _ "i + x"], rule_tac exI[of _ "j + y"]) auto
  qed
  moreover have "ascending ps" using assms(9) by (simp add: matched_def)
  moreover have "\<forall>(a, b) \<in> set ps. ls_offset left + i \<le> a \<and> a < ls_offset left + i' \<and> ls_offset right + j \<le> b \<and> b < ls_offset right + j'"
    using found by fastforce
  ultimately show ?thesis unfolding matched_def by blast
qed

text \<open>Collecting between the splitting words from \<open>(i, j)\<close> on, given that collecting in a part works.\<close>

lemma collect_gaps:
  assumes "source_ok wc left" "source_ok wc right" "i \<le> length (ls_ranges left)" "j \<le> length (ls_ranges right)"
    and "ascending ws" "paired_words wc (source_words left) (source_words right) (set ws)" "\<forall>(a, b) \<in> set ws. i \<le> a \<and> j \<le> b"
    and "\<And>l r. source_ok wc l \<Longrightarrow> source_ok wc r \<Longrightarrow> length (ls_ranges l) + length ws \<le> length (ls_ranges left) - i \<Longrightarrow>
      \<exists>ps. collect l r = Returns ps \<and> matched wc l r ps"
  shows "\<exists>gs pss. gaps left right i j ws = Returns gs \<and>
    exec_map (\<lambda>(l, r, w). exec_bind (collect l r) (\<lambda>found. Returns (found @ w))) gs = Returns pss \<and>
    matched wc left right (concat pss) \<and>
    (\<forall>(a, b) \<in> set (concat pss). ls_offset left + i \<le> a \<and> ls_offset right + j \<le> b)"
  using assms(3-8)
proof (induction ws arbitrary: i j)
  case Nil
  obtain l where l: "narrowed left (i, length (ls_ranges left)) = Returns l" "source_ok wc l" "length (ls_ranges l) = length (ls_ranges left) - i"
    using narrowed_ok[OF assms(1) Nil.prems(1) le_refl] length_narrowed by metis
  obtain r where r: "narrowed right (j, length (ls_ranges right)) = Returns r" "source_ok wc r"
    using narrowed_ok[OF assms(2) Nil.prems(2) le_refl] by blast
  obtain ps where ps: "collect l r = Returns ps" "matched wc l r ps" using Nil.prems(6)[OF l(2) r(2)] l(3) by auto
  show ?case using l(1) r(1) ps(1) matched_narrowed[OF assms(1,2) l(1) r(1) Nil.prems(1) le_refl Nil.prems(2) le_refl ps(2)] by fastforce
next
  case (Cons w ws)
  obtain a b where w: "w = (a, b)" by (cases w)
  have bounds: "i \<le> a" "j \<le> b" "a < length (ls_ranges left)" "b < length (ls_ranges right)"
      "comp_eq wc (source_words left ! a) (source_words right ! b)"
    using Cons.prems(4,5) unfolding w paired_words_def by auto
  obtain l where l: "narrowed left (i, a) = Returns l" "source_ok wc l" "length (ls_ranges l) = a - i"
    using narrowed_ok[OF assms(1) bounds(1)] bounds(3) length_narrowed by (metis less_imp_le)
  obtain r where r: "narrowed right (j, b) = Returns r" "source_ok wc r"
    using narrowed_ok[OF assms(2) bounds(2)] bounds(4) by (metis less_imp_le)
  have after: "\<forall>(a', b') \<in> set ws. a + 1 \<le> a' \<and> b + 1 \<le> b'" "ascending ws"
    using Cons.prems(3) by (auto simp: w ascending_def)
  have "\<exists>gs pss. gaps left right (a + 1) (b + 1) ws = Returns gs \<and>
      exec_map (\<lambda>(l, r, w). exec_bind (collect l r) (\<lambda>found. Returns (found @ w))) gs = Returns pss \<and>
      matched wc left right (concat pss) \<and>
      (\<forall>(a', b') \<in> set (concat pss). ls_offset left + (a + 1) \<le> a' \<and> ls_offset right + (b + 1) \<le> b')"
  proof (rule Cons.IH[OF _ _ after(2) _ after(1)])
    show "paired_words wc (source_words left) (source_words right) (set ws)" using Cons.prems(4) by (simp add: paired_words_def)
    show "\<exists>ps. collect l' r' = Returns ps \<and> matched wc l' r' ps"
      if "source_ok wc l'" "source_ok wc r'" "length (ls_ranges l') + length ws \<le> length (ls_ranges left) - (a + 1)" for l' r'
      using that Cons.prems(6)[of l' r'] bounds(1,3) by simp
  qed (use bounds in simp_all)
  then obtain gs pss where gs: "gaps left right (a + 1) (b + 1) ws = Returns gs"
      "exec_map (\<lambda>(l, r, w). exec_bind (collect l r) (\<lambda>found. Returns (found @ w))) gs = Returns pss"
      "matched wc left right (concat pss)" "\<forall>(a', b') \<in> set (concat pss). ls_offset left + (a + 1) \<le> a' \<and> ls_offset right + (b + 1) \<le> b'"
    by blast
  have len: "length ws + (a + 1) \<le> length (ls_ranges left)" using length_gaps[OF gs(1)] by simp
  have "length (ls_ranges l) + length (w # ws) \<le> length (ls_ranges left) - i" using l(3) len bounds(1) by simp
  then obtain ps where ps: "collect l r = Returns ps" "matched wc l r ps" using Cons.prems(6)[OF l(2) r(2)] by blast
  note part = matched_narrowed[OF assms(1,2) l(1) r(1) bounds(1) _ bounds(2) _ ps(2)]
  let ?w = "(ls_offset left + a, ls_offset right + b)"
  have run: "gaps left right i j (w # ws) = Returns ((l, r, [?w]) # gs)"
    using l(1) r(1) gs(1) by (simp add: w map_to_global_def)
  have part': "matched wc left right ps"
      "\<forall>(x, y) \<in> set ps. ls_offset left + i \<le> x \<and> x < ls_offset left + a \<and> ls_offset right + j \<le> y \<and> y < ls_offset right + b"
    using part bounds(3,4) by simp_all
  have "ascending ((ps @ [?w]) @ concat pss)"
    using part' gs(3,4) unfolding matched_def ascending_append by (fastforce simp: ascending_def)
  moreover have "\<exists>x y. c = ls_offset left + x \<and> d = ls_offset right + y \<and> x < length (source_words left) \<and> y < length (source_words right) \<and>
      comp_eq wc (source_words left ! x) (source_words right ! y)" if cd: "(c, d) \<in> set ((ps @ [?w]) @ concat pss)" for c d
  proof -
    consider "(c, d) \<in> set ps" | "(c, d) = ?w" | "(c, d) \<in> set (concat pss)" using cd by auto
    then show ?thesis
    proof cases
      case 2
      then show ?thesis using bounds by auto
    qed (use matched_pair[OF part'(1)] matched_pair[OF gs(3)] in blast)+
  qed
  ultimately have "matched wc left right (concat ((ps @ [?w]) # pss))" unfolding matched_def by simp
  moreover have "\<forall>(c, d) \<in> set (concat ((ps @ [?w]) # pss)). ls_offset left + i \<le> c \<and> ls_offset right + j \<le> d"
    using part'(2) gs(4) bounds(1,2) by fastforce
  moreover have "exec_map (\<lambda>(l, r, w). exec_bind (collect l r) (\<lambda>found. Returns (found @ w))) ((l, r, [?w]) # gs) =
      Returns ((ps @ [?w]) # pss)" using ps(1) gs(2) by simp
  ultimately show ?case using run by blast
qed

lemma collect_spec:
  assumes "\<And>h. mset (iter_table h) = mset h"
  shows "source_ok wc left \<Longrightarrow> source_ok wc right \<Longrightarrow>
    \<exists>ps. collect_unchanged_words iter_table wc left right = Returns ps \<and> matched wc left right ps"
proof (induction "length (ls_ranges left)" arbitrary: left right rule: less_induct)
  case less
  show ?case
  proof (cases "ls_ranges left = [] \<or> ls_ranges right = []")
    case True
    then show ?thesis by (simp add: collect_unchanged_words.simps[of _ _ left] matched_def ascending_def)
  next
    case False
    then have "source_words left \<noteq> []" by (simp add: source_words_def)
    then obtain ws where ws: "split_words iter_table wc left right = Returns ws" "ascending ws"
        "paired_words wc (source_words left) (source_words right) (set ws)"
      using split_words_spec[OF assms less.prems] by blast
    show ?thesis
    proof (cases "ws = []")
      case True
      then show ?thesis using False ws(1) common_ends_spec[OF less.prems] by (simp add: collect_unchanged_words.simps[of _ _ left])
    next
      case nonempty: False
      have sub: "\<exists>ps. collect_unchanged_words iter_table wc l r = Returns ps \<and> matched wc l r ps"
        if "source_ok wc l" "source_ok wc r" "length (ls_ranges l) + length ws \<le> length (ls_ranges left) - 0" for l r
        using less.hyps[of l r] that nonempty by (cases ws) auto
      obtain gs pss where "gaps left right 0 0 ws = Returns gs"
          "exec_map (\<lambda>(l, r, w). exec_bind (collect_unchanged_words iter_table wc l r) (\<lambda>found. Returns (found @ w))) gs = Returns pss"
          "matched wc left right (concat pss)"
        using collect_gaps[of left right 0 0 ws "collect_unchanged_words iter_table wc", OF less.prems le0 le0 ws(2,3) _ sub] by auto
      then show ?thesis using False nonempty ws(1) by (simp add: collect_unchanged_words.simps[of _ _ left])
    qed
  qed
qed

end

end
