(* ===== verification/Content_Diff_Laws.thy ===== *)
theory Content_Diff_Laws
  imports Diff_Words_Laws
begin

text \<open>
  The hunks of a comparison: they never lose or invent a byte. Joined in order, the contents of each side
  give back that input; matching hunks are equivalent on all sides, different hunks are not empty.
\<close>

section \<open>Parts of a text\<close>

lemma part_append:
  assumes "i \<le> j" "j \<le> k"
  shows "part xs (i, j) @ part xs (j, k) = part xs (i, k)"
proof -
  obtain x y where "j = i + x" "k = i + x + y" using assms by (metis le_Suc_ex)
  then show ?thesis by (simp add: part_def take_add add.commute)
qed

lemma part_part: "j \<le> e - s \<Longrightarrow> part (part xs (s, e)) (i, j) = part xs (s + i, s + j)"
  by (auto simp: part_def drop_take min_def add.commute)

lemma part_all: "part xs (0, length xs) = xs"
  by (simp add: part_def)

lemma part_empty [simp]: "part xs (i, i) = []"
  by (simp add: part_def)

section \<open>Regions\<close>

definition sides :: "unchanged_range \<Rightarrow> range list" where
  "sides u = ur_base u # ur_others u"

fun ordered :: "nat \<Rightarrow> nat \<Rightarrow> range list \<Rightarrow> bool" where
  "ordered a b [] \<longleftrightarrow> a \<le> b"
| "ordered a b (r # rs) \<longleftrightarrow> a \<le> fst r \<and> fst r \<le> snd r \<and> ordered (snd r) b rs"

definition region_ok :: "word_comparator \<Rightarrow> bytes list \<Rightarrow> unchanged_range \<Rightarrow> bool" where
  "region_ok wc ins u \<longleftrightarrow> length (sides u) = length ins \<and>
     (\<forall>k < length ins. comp_eq wc (part (ins ! 0) (sides u ! 0)) (part (ins ! k) (sides u ! k)))"

definition regions_ok :: "word_comparator \<Rightarrow> bytes list \<Rightarrow> (nat \<Rightarrow> nat) \<Rightarrow> unchanged_range list \<Rightarrow> bool" where
  "regions_ok wc ins a us \<longleftrightarrow> (\<forall>u \<in> set us. region_ok wc ins u) \<and>
     (\<forall>k < length ins. ordered (a k) (length (ins ! k)) (map (\<lambda>u. sides u ! k) us))"

definition begins :: "bytes list \<Rightarrow> unchanged_range list \<Rightarrow> (nat \<Rightarrow> nat)" where
  "begins ins us k = fst (sides (hd us) ! k)"

definition ends :: "bytes list \<Rightarrow> unchanged_range list \<Rightarrow> (nat \<Rightarrow> nat)" where
  "ends ins us k = snd (sides (last us) ! k)"

definition apart :: "unchanged_range list \<Rightarrow> bool" where
  "apart us \<longleftrightarrow> (\<forall>i. Suc i < length us \<longrightarrow> \<not> touching (us ! i) (us ! Suc i))"

lemma regions_ok_Cons:
  "regions_ok wc ins a (u # us) \<longleftrightarrow> region_ok wc ins u \<and>
     (\<forall>k < length ins. a k \<le> fst (sides u ! k) \<and> fst (sides u ! k) \<le> snd (sides u ! k)) \<and>
     regions_ok wc ins (\<lambda>k. snd (sides u ! k)) us"
  by (auto simp: regions_ok_def)

lemma ordered_bound: "ordered a b rs \<Longrightarrow> a \<le> b"
  by (induction rs arbitrary: a) fastforce+

lemma regions_ok_range:
  assumes "regions_ok wc ins a (u # us)" "k < length ins"
  shows "range_in (ins ! k) (sides u ! k)"
  using assms ordered_bound unfolding regions_ok_def range_in_def by fastforce

lemma apart_Cons: "apart (u # v # us) \<longleftrightarrow> \<not> touching u v \<and> apart (v # us)"
  by (auto simp: apart_def less_Suc_eq_0_disj nth_Cons')

lemma touching_sides:
  assumes "length (sides u) = n" "length (sides v) = n"
  shows "touching u v \<longleftrightarrow> (\<forall>k < n. snd (sides u ! k) = fst (sides v ! k))"
proof -
  have "touching u v \<longleftrightarrow> list_all (\<lambda>(prev, cur). snd prev = fst cur) (zip (sides u) (sides v))"
    by (simp add: touching_def sides_def)
  then show ?thesis using assms by (simp add: list_all_length)
qed

lemma sides_join:
  assumes "length (sides u) = n" "length (sides v) = n" "k < n"
  shows "sides (join_regions u v) ! k = (fst (sides u ! k), snd (sides v ! k))"
proof -
  have "sides (join_regions u v) = map (\<lambda>(prev, cur). (fst prev, snd cur)) (zip (sides u) (sides v))" by (simp add: join_regions_def sides_def)
  then show ?thesis using assms by simp
qed

lemma length_join: "length (sides u) = n \<Longrightarrow> length (sides v) = n \<Longrightarrow> length (sides (join_regions u v)) = n"
  by (auto simp: join_regions_def sides_def)

context word_comparison
begin

lemma regions_ok_joined:
  assumes "regions_ok wc ins a (u # v # us)" "touching u v"
  shows "regions_ok wc ins a (join_regions u v # us)"
proof -
  have u: "region_ok wc ins u" and v: "region_ok wc ins v" and us: "regions_ok wc ins (\<lambda>k. snd (sides v ! k)) us"
    and ord: "\<And>k. k < length ins \<Longrightarrow> a k \<le> fst (sides u ! k) \<and> fst (sides u ! k) \<le> snd (sides u ! k) \<and>
      fst (sides v ! k) \<le> snd (sides v ! k)"
    using assms(1) by (auto simp: regions_ok_Cons)
  have len: "length (sides u) = length ins" "length (sides v) = length ins" using u v by (simp_all only: region_ok_def)
  note s = sides_join[OF len]
  have t: "snd (sides u ! k) = fst (sides v ! k)" if "k < length ins" for k
    using assms(2) that unfolding touching_sides[OF len] by blast
  have whole: "part (ins ! k) (sides (join_regions u v) ! k) = part (ins ! k) (sides u ! k) @ part (ins ! k) (sides v ! k)" if "k < length ins" for k
    using part_append[of "fst (sides u ! k)" "snd (sides u ! k)" "snd (sides v ! k)" "ins ! k"] ord[OF that] t[OF that] s[OF that]
    by (metis prod.collapse)
  have ne: "0 < length ins" using len(1) by (simp add: sides_def flip: len(1))
  have "comp_eq wc (part (ins ! 0) (sides (join_regions u v) ! 0)) (part (ins ! k) (sides (join_regions u v) ! k))" if "k < length ins" for k
    unfolding whole[OF that] whole[OF ne] using u v that by (intro eq_append) (simp_all only: region_ok_def)
  then have "region_ok wc ins (join_regions u v)" using length_join[OF len] unfolding region_ok_def by blast
  moreover have "regions_ok wc ins (\<lambda>k. snd (sides (join_regions u v) ! k)) us"
    using us s unfolding regions_ok_def by simp
  moreover have "a k \<le> fst (sides (join_regions u v) ! k) \<and> fst (sides (join_regions u v) ! k) \<le> snd (sides (join_regions u v) ! k)"
    if "k < length ins" for k using ord[OF that] s[OF that] t[OF that] by simp
  ultimately show ?thesis unfolding regions_ok_Cons by blast
qed

lemma compact_loop_ok:
  assumes "regions_ok wc ins a (p # us)"
  shows "compact_loop (Some p) us \<noteq> [] \<and> regions_ok wc ins a (compact_loop (Some p) us) \<and> apart (compact_loop (Some p) us) \<and>
    (\<forall>k < length ins. begins ins (compact_loop (Some p) us) k = begins ins (p # us) k \<and>
       ends ins (compact_loop (Some p) us) k = ends ins (p # us) k)"
  using assms
proof (induction us arbitrary: p a)
  case Nil
  then show ?case by (simp add: apart_def)
next
  case (Cons u us)
  have len: "length (sides p) = length ins" "length (sides u) = length ins"
    using Cons.prems by (simp_all add: regions_ok_Cons region_ok_def)
  show ?case
  proof (cases "touching p u")
    case True
    then have "regions_ok wc ins a (join_regions p u # us)" using regions_ok_joined[OF Cons.prems] by blast
    from Cons.IH[OF this] show ?thesis using True sides_join[OF len] by (auto simp: begins_def ends_def)
  next
    case False
    have "regions_ok wc ins (\<lambda>k. snd (sides p ! k)) (u # us)" using Cons.prems by (subst (asm) regions_ok_Cons) blast
    note IH = Cons.IH[OF this]
    obtain v vs where v: "compact_loop (Some u) us = v # vs" using IH by (cases "compact_loop (Some u) us") auto
    have same: "fst (sides v ! k) = fst (sides u ! k)" if "k < length ins" for k using IH that by (simp add: v begins_def)
    have "length (sides v) = length ins" using IH by (simp add: v regions_ok_Cons region_ok_def)
    then have "\<not> touching p v" using False same unfolding touching_sides[OF len] touching_sides[OF len(1) \<open>length (sides v) = _\<close>] by simp
    then have "apart (p # v # vs)" using IH by (simp add: apart_Cons v)
    moreover have "regions_ok wc ins a (p # v # vs)" using IH Cons.prems by (simp add: v regions_ok_Cons[of wc ins a])
    ultimately show ?thesis using False IH by (simp add: v begins_def ends_def)
  qed
qed

end

section \<open>From positions to regions\<close>

definition tokens_ok :: "bytes \<Rightarrow> range list \<Rightarrow> bool" where
  "tokens_ok text rs \<longleftrightarrow> sorted_wrt (\<lambda>r r'. snd r \<le> fst r') rs \<and> (\<forall>r \<in> set rs. range_in text r)"

definition source_of :: "word_comparator \<Rightarrow> bytes \<Rightarrow> range list \<Rightarrow> diff_source" where
  "source_of wc text rs = \<lparr>ds_text = text, ds_ranges = rs, ds_hashes = map (\<lambda>r. hash_one wc (part text r)) rs\<rparr>"

lemma diff_source_new_ok:
  assumes "tokens_ok text rs"
  shows "diff_source_new text rs wc = Returns (source_of wc text rs)"
proof -
  have "exec_map (\<lambda>r. exec_bind (slice text r) (\<lambda>t. Returns (hash_one wc t))) rs = Returns (map (\<lambda>r. hash_one wc (part text r)) rs)"
    using assms by (intro exec_map_Returns) (simp add: tokens_ok_def slice_part)
  then show ?thesis by (simp add: diff_source_new_def source_of_def)
qed

lemma source_of_ok:
  assumes "tokens_ok text rs"
  shows "source_ok wc (local_source (source_of wc text rs))"
    and "source_words (local_source (source_of wc text rs)) = map (part text) rs"
  using assms by (simp_all add: source_ok_def source_words_def local_source_def source_of_def tokens_ok_def o_def)

text \<open>The positions in the base and in the first \<open>m\<close> other sources; \<open>W k\<close> are the words of source \<open>k\<close>.\<close>

definition step_up :: "nat \<Rightarrow> nat \<times> nat list \<Rightarrow> nat \<times> nat list \<Rightarrow> bool" where
  "step_up m p q \<longleftrightarrow> fst p < fst q \<and> (\<forall>k < m. snd p ! k < snd q ! k)"

definition position_ok :: "word_comparator \<Rightarrow> bytes list list \<Rightarrow> nat \<Rightarrow> nat \<times> nat list \<Rightarrow> bool" where
  "position_ok wc ws m p \<longleftrightarrow> length (snd p) = m \<and> fst p < length (ws ! 0) \<and>
     (\<forall>k < m. snd p ! k < length (ws ! Suc k) \<and> comp_eq wc (ws ! 0 ! fst p) (ws ! Suc k ! (snd p ! k)))"

definition positions_ok :: "word_comparator \<Rightarrow> bytes list list \<Rightarrow> nat \<Rightarrow> (nat \<times> nat list) list \<Rightarrow> bool" where
  "positions_ok wc ws m ps \<longleftrightarrow> sorted_wrt (step_up m) ps \<and> (\<forall>p \<in> set ps. position_ok wc ws m p)"

lemma intersect_simps:
  assumes "merge_join_law mj"
  shows "intersect_unchanged_words mj [] ys = []" "intersect_unchanged_words mj xs [] = []"
    "intersect_unchanged_words mj ((b, os) # xs) ((c, w) # ys) =
       (if b < c then intersect_unchanged_words mj xs ((c, w) # ys)
        else if b = c then (b, os @ [w]) # intersect_unchanged_words mj xs ys
        else intersect_unchanged_words mj ((b, os) # xs) ys)"
proof -
  let ?both = "\<lambda>entry :: (nat \<times> nat list, nat \<times> nat) either_or_both. case entry of
      Both (base_pos, other_positions) (_, new_other_pos) \<Rightarrow> Some (base_pos, other_positions @ [new_other_pos]) | _ \<Rightarrow> None"
  have "List.map_filter ?both (map either_or_both.Right ys) = []" by (induction ys) (simp_all add: List.map_filter_simps)
  moreover have "List.map_filter ?both (map either_or_both.Left xs) = []" by (induction xs) (simp_all add: List.map_filter_simps)
  ultimately show "intersect_unchanged_words mj [] ys = []" "intersect_unchanged_words mj xs [] = []"
    using assms by (simp_all add: merge_join_law_def intersect_unchanged_words_def)
  show "intersect_unchanged_words mj ((b, os) # xs) ((c, w) # ys) =
       (if b < c then intersect_unchanged_words mj xs ((c, w) # ys)
        else if b = c then (b, os @ [w]) # intersect_unchanged_words mj xs ys
        else intersect_unchanged_words mj ((b, os) # xs) ys)"
    using assms by (simp add: merge_join_law_def intersect_unchanged_words_def cmp_def List.map_filter_simps)
qed

lemma intersect_spec:
  assumes "merge_join_law mj"
  shows "sorted_wrt (step_up m) cur \<Longrightarrow> ascending new \<Longrightarrow> \<forall>p \<in> set cur. length (snd p) = m \<Longrightarrow>
    sorted_wrt (step_up (Suc m)) (intersect_unchanged_words mj cur new) \<and>
    (\<forall>p \<in> set (intersect_unchanged_words mj cur new). \<exists>os w. p = (fst p, os @ [w]) \<and> (fst p, os) \<in> set cur \<and> (fst p, w) \<in> set new)"
proof (induction "length cur + length new" arbitrary: cur new rule: less_induct)
  case less
  note simps = intersect_simps[OF assms]
  show ?case
  proof (cases cur)
    case Nil
    then show ?thesis by (simp add: simps)
  next
    case cur: (Cons x xs)
    obtain b os where x: "x = (b, os)" by (cases x)
    show ?thesis
    proof (cases new)
      case Nil
      then show ?thesis by (simp add: simps)
    next
      case new: (Cons y ys)
      obtain c w where y: "y = (c, w)" by (cases y)
      have xs: "sorted_wrt (step_up m) xs" "\<forall>p \<in> set xs. step_up m x p \<and> length (snd p) = m" "length os = m"
        and ys: "ascending ys" "\<forall>p \<in> set ys. fst y < fst p \<and> snd y < snd p"
        using less.prems cur new x by (auto simp: ascending_def)
      consider "b < c" | "c < b" | "b = c" by linarith
      then show ?thesis
      proof cases
        case 1
        then show ?thesis using less.hyps[of xs new] less.prems cur new x y xs by (fastforce simp: simps)
      next
        case 2
        then show ?thesis using less.hyps[of cur ys] less.prems cur new x y ys by (fastforce simp: simps)
      next
        case 3
        let ?J = "intersect_unchanged_words mj xs ys"
        have IH: "sorted_wrt (step_up (Suc m)) ?J"
            "\<forall>p \<in> set ?J. \<exists>os w. p = (fst p, os @ [w]) \<and> (fst p, os) \<in> set xs \<and> (fst p, w) \<in> set ys"
          using less.hyps[of xs ys] less.prems cur new xs ys by auto
        have "step_up (Suc m) (b, os @ [w]) p" if p: "p \<in> set ?J" for p
        proof -
          obtain os' w' where p': "p = (fst p, os' @ [w'])" "(fst p, os') \<in> set xs" "(fst p, w') \<in> set ys" using IH(2) p by blast
          then have "step_up m (b, os) (fst p, os')" "length os' = m" "w < w'" using xs(2) ys(2) x y by auto
          then show ?thesis using xs(3) by (subst p'(1)) (auto simp: step_up_def nth_append less_Suc_eq)
        qed
        then show ?thesis using 3 IH cur new x y by (fastforce simp: simps)
      qed
    qed
  qed
qed

definition params_ok :: "diff_params \<Rightarrow> bool" where
  "params_ok P \<longleftrightarrow> (\<forall>h. mset (dp_iter_table P h) = mset h) \<and> merge_join_law (dp_merge_join_by P)"

context word_comparison
begin

lemma collect_global:
  assumes "params_ok P" "source_ok wc (local_source b)" "source_ok wc (local_source s)"
  shows "\<exists>ps. collect_unchanged_words (dp_iter_table P) wc (local_source b) (local_source s) = Returns ps \<and> ascending ps \<and>
    (\<forall>i j. (i, j) \<in> set ps \<longrightarrow> i < length (source_words (local_source b)) \<and> j < length (source_words (local_source s)) \<and>
       comp_eq wc (source_words (local_source b) ! i) (source_words (local_source s) ! j))"
proof -
  have "\<And>h. mset (dp_iter_table P h) = mset h" using assms(1) by (simp add: params_ok_def)
  from collect_spec[OF this assms(2,3)] obtain ps where
    ps: "collect_unchanged_words (dp_iter_table P) wc (local_source b) (local_source s) = Returns ps"
      "matched wc (local_source b) (local_source s) ps" by blast
  have "ls_offset (local_source x) = 0" for x by (simp add: local_source_def)
  then show ?thesis using ps matched_pair[OF ps(2)] unfolding matched_def by auto
qed

lemma intersect_others_ok:
  assumes "params_ok P" "source_ok wc (local_source b)" "source_words (local_source b) = ws ! 0"
  shows "positions_ok wc ws m cur \<Longrightarrow>
    \<forall>i < length ss. source_ok wc (local_source (ss ! i)) \<and> source_words (local_source (ss ! i)) = ws ! Suc (m + i) \<Longrightarrow>
    \<exists>ps. intersect_others P wc b ss cur = Returns ps \<and> positions_ok wc ws (m + length ss) ps"
proof (induction ss arbitrary: cur m)
  case (Cons s ss)
  have s: "source_ok wc (local_source s)" "source_words (local_source s) = ws ! Suc m" using Cons.prems(2) by (auto dest: spec[of _ 0])
  obtain new where new: "collect_unchanged_words (dp_iter_table P) wc (local_source b) (local_source s) = Returns new" "ascending new"
      "\<And>i j. (i, j) \<in> set new \<Longrightarrow> i < length (ws ! 0) \<and> j < length (ws ! Suc m) \<and> comp_eq wc (ws ! 0 ! i) (ws ! Suc m ! j)"
    using collect_global[OF assms(1,2) s(1)] unfolding s(2) assms(3) by blast
  let ?J = "intersect_unchanged_words (dp_merge_join_by P) cur new"
  have cur: "sorted_wrt (step_up m) cur" "\<And>p. p \<in> set cur \<Longrightarrow> position_ok wc ws m p"
    using Cons.prems(1) by (simp_all add: positions_ok_def)
  have mj: "merge_join_law (dp_merge_join_by P)" using assms(1) by (simp add: params_ok_def)
  have "\<forall>p \<in> set cur. length (snd p) = m" using cur(2) by (simp add: position_ok_def)
  note J = intersect_spec[OF mj cur(1) new(2) this]
  have "position_ok wc ws (Suc m) p" if p: "p \<in> set ?J" for p
  proof -
    obtain os w where p': "p = (fst p, os @ [w])" "(fst p, os) \<in> set cur" "(fst p, w) \<in> set new" using J p by blast
    have snd: "snd p = os @ [w]" using p'(1) by (metis snd_conv)
    show ?thesis using cur(2)[OF p'(2)] new(3)[OF p'(3)] by (auto simp: position_ok_def snd nth_append less_Suc_eq)
  qed
  then have "positions_ok wc ws (Suc m) ?J" using J by (simp add: positions_ok_def)
  moreover have "\<forall>i < length ss. source_ok wc (local_source (ss ! i)) \<and> source_words (local_source (ss ! i)) = ws ! Suc (Suc m + i)"
    using Cons.prems(2) by auto
  ultimately show ?case using Cons.IH[of "Suc m" ?J] new(1) by simp
qed simp

end

text \<open>The region of a position.\<close>

definition token_region :: "range list list \<Rightarrow> nat \<times> nat list \<Rightarrow> unchanged_range" where
  "token_region toks p = \<lparr>ur_base = toks ! 0 ! fst p, ur_others = map (\<lambda>k. toks ! Suc k ! (snd p ! k)) [0..<length (snd p)]\<rparr>"

definition position_at :: "nat \<times> nat list \<Rightarrow> nat \<Rightarrow> nat" where
  "position_at p k = (case k of 0 \<Rightarrow> fst p | Suc i \<Rightarrow> snd p ! i)"

lemma sides_token_region:
  "length (sides (token_region toks p)) = Suc (length (snd p))"
  "k \<le> length (snd p) \<Longrightarrow> sides (token_region toks p) ! k = toks ! k ! position_at p k"
  by (simp_all add: sides_def token_region_def position_at_def split: nat.splits)

lemma ordered_tokens:
  assumes "tokens_ok text rs"
  shows "sorted_wrt (<) is \<Longrightarrow> \<forall>i \<in> set is. i < length rs \<and> a \<le> fst (rs ! i) \<Longrightarrow> a \<le> length text \<Longrightarrow>
    ordered a (length text) (map ((!) rs) is)"
proof (induction "is" arbitrary: a)
  case (Cons i "is")
  have i: "range_in text (rs ! i)" using assms Cons.prems(2) by (simp add: tokens_ok_def)
  have "snd (rs ! i) \<le> fst (rs ! j)" if "j \<in> set is" for j
  proof -
    have "i < j" "j < length rs" using Cons.prems(1,2) that by auto
    moreover have "sorted_wrt (\<lambda>r r'. snd r \<le> fst r') rs" using assms by (simp add: tokens_ok_def)
    ultimately show ?thesis by (simp add: sorted_wrt_iff_nth_less)
  qed
  then have "ordered (snd (rs ! i)) (length text) (map ((!) rs) is)"
    using Cons.prems i by (intro Cons.IH) (auto simp: range_in_def)
  then show ?case using Cons.prems(2) i by (simp add: range_in_def)
qed simp

lemma ordered_framed: "ordered a b rs \<Longrightarrow> ordered a b (rs @ [(b, b)])"
  by (induction rs arbitrary: a) auto

context word_comparison
begin

lemma token_regions_ok:
  assumes "length ins = Suc m" "length toks = Suc m" "\<forall>k \<le> m. tokens_ok (ins ! k) (toks ! k)"
    and "positions_ok wc (map2 (\<lambda>text. map (part text)) ins toks) m ps"
  shows "regions_ok wc ins (\<lambda>_. 0) (map (token_region toks) ps)"
proof -
  let ?ws = "map2 (\<lambda>text. map (part text)) ins toks"
  have ws: "?ws ! k = map (part (ins ! k)) (toks ! k)" if "k \<le> m" for k using that assms(1,2) by simp
  have pos: "length (snd p) = m \<and> (\<forall>k \<le> m. position_at p k < length (toks ! k)) \<and>
      (\<forall>k \<le> m. comp_eq wc (part (ins ! 0) (toks ! 0 ! position_at p 0)) (part (ins ! k) (toks ! k ! position_at p k)))"
    if p: "p \<in> set ps" for p
  proof -
    have ok: "position_ok wc ?ws m p" using assms(4) p by (simp add: positions_ok_def)
    have zero: "fst p < length (toks ! 0)" using ok ws[of 0] by (simp add: position_ok_def)
    have "position_at p k < length (toks ! k) \<and> comp_eq wc (part (ins ! 0) (toks ! 0 ! fst p)) (part (ins ! k) (toks ! k ! position_at p k))"
      if k: "k \<le> m" for k
    proof (cases k)
      case 0
      then show ?thesis using zero eq_refl by (simp add: position_at_def)
    next
      case (Suc i)
      then have "snd p ! i < length (?ws ! Suc i) \<and> comp_eq wc (?ws ! 0 ! fst p) (?ws ! Suc i ! (snd p ! i))"
        using ok k by (simp add: position_ok_def)
      then show ?thesis using ws[OF k] ws[of 0] zero Suc by (auto simp: position_at_def)
    qed
    moreover have "position_at p 0 = fst p" by (simp add: position_at_def)
    ultimately show ?thesis using ok by (simp add: position_ok_def)
  qed
  have "region_ok wc ins (token_region toks p)" if "p \<in> set ps" for p
    using pos[OF that] assms(1) sides_token_region(1)[of toks p] sides_token_region(2)[of _ p toks] unfolding region_ok_def by simp
  moreover have "ordered 0 (length (ins ! k)) (map (\<lambda>p. sides (token_region toks p) ! k) ps)" if k: "k \<le> m" for k
  proof -
    have eq: "map (\<lambda>p. sides (token_region toks p) ! k) ps = map ((!) (toks ! k)) (map (\<lambda>p. position_at p k) ps)"
      using pos k by (simp add: sides_token_region)
    have "sorted_wrt (<) (map (\<lambda>p. position_at p k) ps)"
    proof -
      have "sorted_wrt (step_up m) ps" using assms(4) by (simp add: positions_ok_def)
      then show ?thesis unfolding sorted_wrt_map
        by (rule sorted_wrt_mono_rel[rotated]) (use k in \<open>auto simp: step_up_def position_at_def split: nat.splits\<close>)
    qed
    moreover have "\<forall>i \<in> set (map (\<lambda>p. position_at p k) ps). i < length (toks ! k) \<and> 0 \<le> fst (toks ! k ! i)" using pos k by auto
    ultimately show ?thesis unfolding eq using ordered_tokens[of "ins ! k" "toks ! k" _ 0] assms(3) k by blast
  qed
  ultimately show ?thesis using assms(1) by (auto simp: regions_ok_def o_def less_Suc_eq_le)
qed

end

section \<open>Comparisons\<close>

definition tokenizer_ok :: "(bytes \<Rightarrow> range list) \<Rightarrow> bool" where
  "tokenizer_ok tokenizer \<longleftrightarrow> (\<forall>text. tokens_ok text (tokenizer text))"

definition diff_inputs :: "content_diff \<Rightarrow> bytes list" where
  "diff_inputs d = cd_base_input d # cd_other_inputs d"

text \<open>A well-formed comparison: the regions are ordered on every side, cover its begin and end, and do not touch.\<close>

definition diff_ok :: "word_comparator \<Rightarrow> content_diff \<Rightarrow> bool" where
  "diff_ok wc d \<longleftrightarrow> (let ins = diff_inputs d; us = cd_unchanged_regions d in
     us \<noteq> [] \<and> regions_ok wc ins (\<lambda>_. 0) us \<and> apart us \<and>
     (\<forall>k < length ins. begins ins us k = 0 \<and> ends ins us k = length (ins ! k)))"

context word_comparison
begin

lemma compacted_ok:
  assumes "us \<noteq> []" "regions_ok wc (b # bs) (\<lambda>_. 0) us"
    and "\<forall>k < length (b # bs). begins (b # bs) us k = 0 \<and> ends (b # bs) us k = length ((b # bs) ! k)"
  shows "diff_ok wc \<lparr>cd_base_input = b, cd_other_inputs = bs, cd_unchanged_regions = compact_unchanged_regions us\<rparr>"
proof -
  obtain p rest where us: "us = p # rest" using assms(1) by (cases us) auto
  show ?thesis using compact_loop_ok[OF assms(2)[unfolded us]] assms(3)
    by (simp add: diff_ok_def diff_inputs_def compact_unchanged_regions_def us)
qed

lemma framed_ok:
  assumes "regions_ok wc ins (\<lambda>_. 0) us" "length ins = Suc m"
  defines "first \<equiv> \<lparr>ur_base = (0, 0), ur_others = replicate m (0, 0)\<rparr>"
    and "final \<equiv> \<lparr>ur_base = (length (hd ins), length (hd ins)), ur_others = map (\<lambda>input. (length input, length input)) (tl ins)\<rparr>"
  shows "regions_ok wc ins (\<lambda>_. 0) (first # us @ [final])"
    and "\<forall>k < length ins. begins ins (first # us @ [final]) k = 0 \<and> ends ins (first # us @ [final]) k = length (ins ! k)"
proof -
  have ne: "ins \<noteq> []" using assms(2) by auto
  have f: "sides first ! k = (0, 0)" if "k < length ins" for k
    using that assms(2) by (cases k) (simp_all add: sides_def first_def)
  have l: "sides final ! k = (length (ins ! k), length (ins ! k))" if "k < length ins" for k
    using that ne by (cases ins; cases k) (simp_all add: sides_def final_def)
  have len: "length (sides first) = length ins" "length (sides final) = length ins"
    using assms(2) ne by (simp_all add: sides_def first_def final_def)
  have "region_ok wc ins first" "region_ok wc ins final" using f l len eq_refl ne by (simp_all add: region_ok_def)
  moreover have "ordered 0 (length (ins ! k)) (map (\<lambda>u. sides u ! k) (first # us @ [final]))" if "k < length ins" for k
    using assms(1) that f l ordered_framed[of 0 "length (ins ! k)" "map (\<lambda>u. sides u ! k) us"] by (simp add: regions_ok_def)
  ultimately show "regions_ok wc ins (\<lambda>_. 0) (first # us @ [final])" using assms(1) by (auto simp: regions_ok_def)
  show "\<forall>k < length ins. begins ins (first # us @ [final]) k = 0 \<and> ends ins (first # us @ [final]) k = length (ins ! k)"
    using f l by (simp add: begins_def ends_def)
qed

lemma from_word_positions_ok:
  assumes "length others = m" "length rss = m" "position_ok wc (map2 (\<lambda>text. map (part text)) (b # others) (rs # rss)) m p"
  shows "from_word_positions (source_of wc b rs) (map2 (source_of wc) others rss) (fst p) (snd p) = Returns (token_region (rs # rss) p)"
proof -
  let ?ws = "map2 (\<lambda>text. map (part text)) (b # others) (rs # rss)"
  have len: "length (snd p) = m" "fst p < length rs" using assms(3) by (simp_all add: position_ok_def)
  have lt: "snd p ! k < length (rss ! k)" if "k < m" for k
  proof -
    have "snd p ! k < length (?ws ! Suc k)" using assms(3) that by (simp add: position_ok_def)
    then show ?thesis using that assms(1,2) by simp
  qed
  let ?zs = "zip (map2 (source_of wc) others rss) (snd p)"
  have "exec_map (\<lambda>(source, pos). range_at source pos) ?zs = Returns (map (\<lambda>(source, pos). ds_ranges source ! pos) ?zs)"
  proof (rule exec_map_Returns)
    fix x assume "x \<in> set ?zs"
    then obtain k where k: "k < m" "x = (source_of wc (others ! k) (rss ! k), snd p ! k)"
      using assms(1,2) len by (auto simp: in_set_zip)
    then show "(case x of (source, pos) \<Rightarrow> range_at source pos) = Returns (case x of (source, pos) \<Rightarrow> ds_ranges source ! pos)"
      using lt by (simp add: range_at_def index_exec_def source_of_def)
  qed
  moreover have "map (\<lambda>(source, pos). ds_ranges source ! pos) ?zs = map (\<lambda>k. rss ! k ! (snd p ! k)) [0..<length (snd p)]"
    using assms(1,2) len by (intro nth_equalityI) (simp_all add: source_of_def)
  moreover have "range_at (source_of wc b rs) (fst p) = Returns (rs ! fst p)"
    using len by (simp add: range_at_def index_exec_def source_of_def)
  ultimately show ?thesis using assms(1,2) len by (simp add: from_word_positions_def token_region_def)
qed

lemma with_inputs_ok:
  assumes "params_ok P" "wc = \<lparr>compare = cb, hash_builder = dp_hash_builder P\<rparr>"
    and "tokens_ok b rs" "length others = length rss" "\<forall>k < length others. tokens_ok (others ! k) (rss ! k)"
  shows "\<exists>d. with_inputs_and_token_ranges P b others rs rss cb = Returns d \<and> diff_inputs d = b # others \<and> diff_ok wc d"
proof -
  let ?ins = "b # others" and ?toks = "rs # rss" and ?ss = "map2 (source_of wc) others rss"
  have src: "exec_map (\<lambda>(input, token_ranges). diff_source_new input token_ranges wc) (zip others rss) = Returns ?ss"
  proof (rule exec_map_Returns)
    fix x assume x: "x \<in> set (zip others rss)"
    obtain t r where tr: "x = (t, r)" by (cases x)
    show "(case x of (input, token_ranges) \<Rightarrow> diff_source_new input token_ranges wc) = Returns (case x of (t, r) \<Rightarrow> source_of wc t r)"
      using assms(5) x unfolding tr by (auto simp: in_set_zip diff_source_new_ok)
  qed
  show ?thesis
  proof (cases others)
    case Nil
    have "region_ok wc [b] \<lparr>ur_base = (0, length b), ur_others = []\<rparr>" using eq_refl by (simp add: region_ok_def sides_def)
    then have "diff_ok wc \<lparr>cd_base_input = b, cd_other_inputs = [],
        cd_unchanged_regions = compact_unchanged_regions [\<lparr>ur_base = (0, length b), ur_others = []\<rparr>]\<rparr>"
      by (intro compacted_ok) (auto simp: regions_ok_def begins_def ends_def sides_def)
    moreover have "with_inputs_and_token_ranges P b others rs rss cb = Returns \<lparr>cd_base_input = b, cd_other_inputs = [],
        cd_unchanged_regions = compact_unchanged_regions [\<lparr>ur_base = (0, length b), ur_others = []\<rparr>]\<rparr>"
      using Nil assms(2,4) diff_source_new_ok[OF assms(3), of wc] by (simp add: with_inputs_and_token_ranges_def source_of_def)
    ultimately show ?thesis using Nil by (auto simp: diff_inputs_def)
  next
    case (Cons o1 others')
    then obtain r1 rss' where rss: "rss = r1 # rss'" using assms(4) by (cases rss) auto
    let ?ws = "map2 (\<lambda>text. map (part text)) ?ins ?toks" and ?m = "length others"
    have all: "\<forall>k \<le> ?m. tokens_ok (?ins ! k) (?toks ! k)" using assms(3,5) by (auto simp: nth_Cons split: nat.splits)
    have words: "source_ok wc (local_source (?ss ! k)) \<and> source_words (local_source (?ss ! k)) = ?ws ! Suc k" if "k < ?m" for k
      using that assms(4,5) source_of_ok by simp
    have base: "source_ok wc (local_source (source_of wc b rs))" "source_words (local_source (source_of wc b rs)) = ?ws ! 0"
      using source_of_ok[OF assms(3)] by simp_all
    have w1: "source_ok wc (local_source (source_of wc o1 r1))" "source_words (local_source (source_of wc o1 r1)) = ?ws ! 1"
      using words[of 0] by (simp_all add: Cons rss)
    obtain first where first: "collect_unchanged_words (dp_iter_table P) wc (local_source (source_of wc b rs)) (local_source (source_of wc o1 r1)) = Returns first"
        "ascending first" "\<And>i j. (i, j) \<in> set first \<Longrightarrow> i < length (?ws ! 0) \<and> j < length (?ws ! 1) \<and> comp_eq wc (?ws ! 0 ! i) (?ws ! 1 ! j)"
      using collect_global[OF assms(1) base(1) w1(1)] unfolding base(2) w1(2) by blast
    let ?cur = "map (\<lambda>(base_pos, other_pos). (base_pos, [other_pos])) first"
    have "positions_ok wc ?ws 1 ?cur" unfolding positions_ok_def
    proof (intro conjI ballI)
      show "sorted_wrt (step_up 1) ?cur" unfolding sorted_wrt_map
        by (rule sorted_wrt_mono_rel[OF _ first(2)[unfolded ascending_def]]) (simp add: step_up_def split_beta)
      fix p assume "p \<in> set ?cur"
      then obtain i j where "p = (i, [j])" "(i, j) \<in> set first" by auto
      then show "position_ok wc ?ws 1 p" using first(3)[of i j] by (auto simp: position_ok_def)
    qed
    moreover have "\<forall>i < length (tl ?ss). source_ok wc (local_source (tl ?ss ! i)) \<and> source_words (local_source (tl ?ss ! i)) = ?ws ! Suc (1 + i)"
    proof (intro allI impI)
      fix i assume "i < length (tl ?ss)"
      then show "source_ok wc (local_source (tl ?ss ! i)) \<and> source_words (local_source (tl ?ss ! i)) = ?ws ! Suc (1 + i)"
        using words[of "Suc i"] assms(4) by (simp add: nth_tl del: zip_Cons_Cons)
    qed
    ultimately obtain ps where ps: "intersect_others P wc (source_of wc b rs) (tl ?ss) ?cur = Returns ps" "positions_ok wc ?ws (1 + length (tl ?ss)) ps"
      using intersect_others_ok[OF assms(1) base, of 1 ?cur "tl ?ss"] by blast
    have m: "1 + length (tl ?ss) = ?m" using assms(4) Cons by simp
    note pos = ps(2)[unfolded m]
    let ?us = "map (token_region ?toks) ps"
    have regs: "exec_map (\<lambda>(base_pos, other_positions). from_word_positions (source_of wc b rs) ?ss base_pos other_positions) ps = Returns ?us"
    proof (rule exec_map_Returns)
      fix p assume "p \<in> set ps"
      then have "position_ok wc ?ws ?m p" using pos unfolding positions_ok_def by blast
      note from_word_positions_ok[OF refl assms(4)[symmetric] this]
      then show "(case p of (base_pos, other_positions) \<Rightarrow> from_word_positions (source_of wc b rs) ?ss base_pos other_positions) =
          Returns (token_region ?toks p)"
        by (simp only: split_beta)
    qed
    have ok: "regions_ok wc ?ins (\<lambda>_. 0) ?us" using token_regions_ok[of ?ins ?m ?toks ps] pos all assms(4) by simp
    note frame = framed_ok[OF ok, of ?m, simplified]
    let ?regions = "\<lparr>ur_base = (0, 0), ur_others = replicate ?m (0, 0)\<rparr> # ?us @
      [\<lparr>ur_base = (length b, length b), ur_others = map (\<lambda>input. (length input, length input)) others\<rparr>]"
    have "with_inputs_and_token_ranges P b others rs rss cb =
        Returns \<lparr>cd_base_input = b, cd_other_inputs = others, cd_unchanged_regions = compact_unchanged_regions ?regions\<rparr>"
      using src diff_source_new_ok[OF assms(3), of wc] first(1) ps(1) regs assms(2,4)
      by (simp add: with_inputs_and_token_ranges_def Cons rss Let_def)
    moreover have "diff_ok wc \<lparr>cd_base_input = b, cd_other_inputs = others, cd_unchanged_regions = compact_unchanged_regions ?regions\<rparr>"
      using frame by (intro compacted_ok) simp_all
    ultimately show ?thesis by (auto simp: diff_inputs_def)
  qed
qed

lemma for_tokenizer_ok:
  assumes "params_ok P" "wc = \<lparr>compare = cb, hash_builder = dp_hash_builder P\<rparr>" "tokenizer_ok tokenizer" "inputs \<noteq> []"
  shows "\<exists>d. for_tokenizer P inputs tokenizer cb = Returns d \<and> diff_inputs d = inputs \<and> diff_ok wc d"
proof -
  obtain b others where inputs: "inputs = b # others" using assms(4) by (cases inputs) auto
  have empty: "tokens_ok t []" for t by (simp add: tokens_ok_def)
  have tok: "tokens_ok t (tokenizer t)" for t using assms(3) by (simp add: tokenizer_ok_def)
  show ?thesis
    using with_inputs_ok[OF assms(1,2) empty, of others "replicate (length others) []" b]
      with_inputs_ok[OF assms(1,2) tok, of others "map tokenizer others" b] empty tok
    by (auto simp: for_tokenizer_def inputs)
qed

end

section \<open>Hunks\<close>

definition hunk_ok :: "word_comparator \<Rightarrow> nat \<Rightarrow> bytes diff_hunk \<Rightarrow> bool" where
  "hunk_ok wc n h \<longleftrightarrow> length (dh_contents h) = n \<and>
     (case dh_kind h of
        Matching \<Rightarrow> \<forall>c \<in> set (dh_contents h). comp_eq wc (hd (dh_contents h)) c
      | Different \<Rightarrow> \<exists>c \<in> set (dh_contents h). c \<noteq> [])"

definition side_text :: "nat \<Rightarrow> bytes diff_hunk list \<Rightarrow> bytes" where
  "side_text k hs = concat (map (\<lambda>h. dh_contents h ! k) hs)"

lemma exec_map_zip:
  assumes "length xs = length ys" "\<And>k. k < length xs \<Longrightarrow> f (xs ! k, ys ! k) = Returns (g k)"
  shows "exec_map f (zip xs ys) = Returns (map g [0..<length xs])"
proof -
  define h where "h = (\<lambda>z. case f z of Returns y \<Rightarrow> y)"
  have z: "zip xs ys ! k = (xs ! k, ys ! k)" if "k < length xs" for k using that assms(1) by simp
  have "f z = Returns (h z)" if "z \<in> set (zip xs ys)" for z
    using that assms by (auto simp: set_zip h_def)
  then have "exec_map f (zip xs ys) = Returns (map h (zip xs ys))" by (rule exec_map_Returns)
  moreover have "map h (zip xs ys) = map g [0..<length xs]"
    using assms z by (intro nth_equalityI) (simp_all add: h_def)
  ultimately show ?thesis by simp
qed

context word_comparison
begin

lemma hunk_at_ok:
  assumes "regions_ok wc (diff_inputs d) a (u # us)"
  shows "hunk_at d u = Returns (map (\<lambda>k. part (diff_inputs d ! k) (sides u ! k)) [0..<length (diff_inputs d)])"
proof -
  have "hunk_at d u = exec_map (\<lambda>(input, r). slice input r) (zip (diff_inputs d) (sides u))"
    by (simp add: hunk_at_def diff_inputs_def sides_def)
  moreover have "length (diff_inputs d) = length (sides u)" using assms by (simp add: regions_ok_Cons region_ok_def)
  ultimately show ?thesis using slice_part[OF regions_ok_range[OF assms]] by (simp only: exec_map_zip split_conv)
qed

lemma hunk_between_ok:
  assumes "regions_ok wc (diff_inputs d) a (u # v # us)"
  shows "hunk_between d u v =
    Returns (map (\<lambda>k. part (diff_inputs d ! k) (snd (sides u ! k), fst (sides v ! k))) [0..<length (diff_inputs d)])"
    and "\<And>k. k < length (diff_inputs d) \<Longrightarrow> range_in (diff_inputs d ! k) (snd (sides u ! k), fst (sides v ! k))"
proof -
  let ?ins = "diff_inputs d"
  have run: "hunk_between d u v = exec_map (\<lambda>(input, prev, cur). slice input (snd prev, fst cur)) (zip ?ins (zip (sides u) (sides v)))"
    by (simp add: hunk_between_def diff_inputs_def sides_def)
  have len: "length ?ins = length (sides u)" "length ?ins = length (sides v)" using assms by (simp_all add: regions_ok_Cons region_ok_def)
  have v: "regions_ok wc ?ins (\<lambda>k. snd (sides u ! k)) (v # us)" using assms by (simp add: regions_ok_Cons[of wc ?ins a])
  show range: "range_in (?ins ! k) (snd (sides u ! k), fst (sides v ! k))" if "k < length ?ins" for k
    using regions_ok_range[OF v that] v that by (fastforce simp: regions_ok_Cons range_in_def)
  show "hunk_between d u v = Returns (map (\<lambda>k. part (?ins ! k) (snd (sides u ! k), fst (sides v ! k))) [0..<length ?ins])"
    unfolding run using len slice_part[OF range] by (intro exec_map_zip) simp_all
qed

lemma matching_hunk_ok:
  assumes "regions_ok wc (diff_inputs d) a (u # us)"
  shows "\<exists>h. matching_hunk d u = Returns h \<and> hunk_ok wc (length (diff_inputs d)) h \<and>
    (\<forall>k < length (diff_inputs d). dh_contents h ! k = part (diff_inputs d ! k) (sides u ! k))"
proof -
  let ?ins = "diff_inputs d"
  have "\<forall>k < length ?ins. comp_eq wc (part (?ins ! 0) (sides u ! 0)) (part (?ins ! k) (sides u ! k))"
    using assms by (simp add: regions_ok_Cons region_ok_def)
  moreover have "0 < length ?ins" by (simp add: diff_inputs_def)
  ultimately show ?thesis
    by (simp add: matching_hunk_def hunk_at_ok[OF assms] hunk_ok_def hd_map)
qed

lemma different_hunk_ok:
  assumes "regions_ok wc (diff_inputs d) a (u # v # us)" "\<not> touching u v"
  shows "\<exists>h. different_hunk d u v = Returns h \<and> hunk_ok wc (length (diff_inputs d)) h \<and>
    (\<forall>k < length (diff_inputs d). dh_contents h ! k = part (diff_inputs d ! k) (snd (sides u ! k), fst (sides v ! k)))"
proof -
  let ?ins = "diff_inputs d" and ?c = "\<lambda>k. part (diff_inputs d ! k) (snd (sides u ! k), fst (sides v ! k))"
  note between = hunk_between_ok[OF assms(1)]
  have len: "length (sides u) = length ?ins" "length (sides v) = length ?ins" using assms(1) by (simp_all add: regions_ok_Cons region_ok_def)
  obtain k where k: "k < length ?ins" "snd (sides u ! k) \<noteq> fst (sides v ! k)" using assms(2) touching_sides[OF len] by blast
  then have "length (?c k) \<noteq> 0" using length_part[OF between(2)[OF k(1)]] between(2)[OF k(1)] by (simp add: range_in_def)
  then have ex: "\<exists>c \<in> set (map ?c [0..<length ?ins]). c \<noteq> []" using k(1) by fastforce
  then have "different_hunk d u v = Returns \<lparr>dh_kind = Different, dh_contents = map ?c [0..<length ?ins]\<rparr>"
    by (simp only: different_hunk_def between(1) exec_bind.simps list_ex_iff if_True)
  then show ?thesis using ex by (simp add: hunk_ok_def)
qed

text \<open>The hunks from a region on: they are well formed, and on each side give the rest of the text.\<close>

definition hunks_from :: "content_diff \<Rightarrow> (nat \<Rightarrow> nat) \<Rightarrow> (nat \<Rightarrow> nat) \<Rightarrow> bytes diff_hunk list exec \<Rightarrow> bool" where
  "hunks_from d a b r \<longleftrightarrow> (\<exists>hs. r = Returns hs \<and> (\<forall>h \<in> set hs. hunk_ok wc (length (diff_inputs d)) h) \<and>
     (\<forall>k < length (diff_inputs d). side_text k hs = part (diff_inputs d ! k) (a k, b k)))"

lemma regions_end:
  assumes "regions_ok wc ins a (u # us)" "k < length ins"
  shows "snd (sides u ! k) \<le> ends ins (u # us) k"
  using assms
proof (induction us arbitrary: u a)
  case (Cons v us)
  have "regions_ok wc ins (\<lambda>k. snd (sides u ! k)) (v # us)" using Cons.prems(1) by (simp add: regions_ok_Cons[of wc ins a])
  from Cons.IH[OF this Cons.prems(2)] this show ?case using Cons.prems(2) by (fastforce simp: regions_ok_Cons ends_def)
qed (simp add: ends_def)

lemma hunks_from_Cons:
  assumes "h0 = Returns h" "hunk_ok wc (length (diff_inputs d)) h" "hunks_from d a' b r"
    and "\<And>k. k < length (diff_inputs d) \<Longrightarrow> dh_contents h ! k = part (diff_inputs d ! k) (a k, a' k) \<and> a k \<le> a' k \<and> a' k \<le> b k"
  shows "hunks_from d a b (exec_bind h0 (\<lambda>h. exec_bind r (\<lambda>hs. Returns (h # hs))))"
proof -
  obtain hs where hs: "r = Returns hs" "\<forall>h \<in> set hs. hunk_ok wc (length (diff_inputs d)) h"
      "\<forall>k < length (diff_inputs d). side_text k hs = part (diff_inputs d ! k) (a' k, b k)"
    using assms(3) unfolding hunks_from_def by blast
  have "side_text k (h # hs) = part (diff_inputs d ! k) (a k, b k)" if "k < length (diff_inputs d)" for k
    using hs(3) assms(4)[OF that] that part_append[of "a k" "a' k" "b k" "diff_inputs d ! k"] by (simp add: side_text_def)
  then show ?thesis using assms(1,2) hs(1,2) by (simp add: hunks_from_def)
qed

lemma collect_hunks_ok:
  assumes "regions_ok wc (diff_inputs d) a (u # us)" "apart (u # us)"
  shows "hunks_from d (\<lambda>k. if e then snd (sides u ! k) else fst (sides u ! k)) (ends (diff_inputs d) (u # us))
    (collect_hunks (matching_hunk d) (different_hunk d) \<lparr>hi_previous = u, hi_unchanged_emitted = e, hi_unchanged_iter = us\<rparr>)"
  using assms
proof (induction us arbitrary: u a e)
  let ?ins = "diff_inputs d"
  let ?collect = "\<lambda>u e us. collect_hunks (matching_hunk d) (different_hunk d) \<lparr>hi_previous = u, hi_unchanged_emitted = e, hi_unchanged_iter = us\<rparr>"
  have emit: "hunks_from d (\<lambda>k. if e then snd (sides u ! k) else fst (sides u ! k)) (ends ?ins (u # us)) (?collect u e us)"
    if ok: "regions_ok wc ?ins a (u # us)" and rest: "hunks_from d (\<lambda>k. snd (sides u ! k)) (ends ?ins (u # us)) (?collect u True us)"
    for a u e us
  proof (cases e)
    case False
    obtain h where h: "matching_hunk d u = Returns h" "hunk_ok wc (length ?ins) h" "\<forall>k < length ?ins. dh_contents h ! k = part (?ins ! k) (sides u ! k)"
      using matching_hunk_ok[OF ok] by blast
    have "?collect u False us = exec_bind (matching_hunk d u) (\<lambda>h. exec_bind (?collect u True us) (\<lambda>hs. Returns (h # hs)))"
      by (subst collect_hunks.simps) (simp add: next_with_def)
    moreover have "hunks_from d (\<lambda>k. fst (sides u ! k)) (ends ?ins (u # us)) \<dots>"
      using h ok regions_end[OF ok] by (intro hunks_from_Cons[OF h(1,2) rest]) (simp add: regions_ok_Cons)
    ultimately show ?thesis using False by simp
  qed (use rest in simp)
  {
    case Nil
    have "?collect u True [] = Returns []" by (subst collect_hunks.simps) (simp add: next_with_def)
    then have "hunks_from d (\<lambda>k. snd (sides u ! k)) (ends ?ins [u]) (?collect u True [])" by (simp add: hunks_from_def side_text_def ends_def)
    then show ?case by (rule emit[OF Nil(1)])
  next
    case (Cons v us)
    have ok: "regions_ok wc ?ins (\<lambda>k. snd (sides u ! k)) (v # us)" using Cons.prems(1) by (simp add: regions_ok_Cons[of wc ?ins a])
    have ap: "\<not> touching u v" "apart (v # us)" using Cons.prems(2) by (simp_all add: apart_Cons)
    obtain h where h: "different_hunk d u v = Returns h" "hunk_ok wc (length ?ins) h"
        "\<forall>k < length ?ins. dh_contents h ! k = part (?ins ! k) (snd (sides u ! k), fst (sides v ! k))"
      using different_hunk_ok[OF Cons.prems(1) ap(1)] by blast
    let ?e = "is_all_empty v"
    have len: "length (sides v) = length ?ins" using ok by (simp add: regions_ok_Cons region_ok_def)
    have ends_eq: "ends ?ins (u # v # us) = ends ?ins (v # us)" by (simp add: ends_def fun_eq_iff)
    have start: "(if ?e then snd (sides v ! k) else fst (sides v ! k)) = fst (sides v ! k) \<and>
        snd (sides u ! k) \<le> fst (sides v ! k) \<and> fst (sides v ! k) \<le> ends ?ins (v # us) k" if k: "k < length ?ins" for k
    proof -
      have "range_is_empty (sides v ! k)" if "?e"
        using that k len by (cases k) (auto simp: is_all_empty_def sides_def list_all_length)
      then show ?thesis using ok k regions_end[OF ok k] by (fastforce simp: regions_ok_Cons range_is_empty_def)
    qed
    have "?collect u True (v # us) = exec_bind (different_hunk d u v) (\<lambda>h. exec_bind (?collect v ?e us) (\<lambda>hs. Returns (h # hs)))"
      by (subst collect_hunks.simps) (simp add: next_with_def)
    moreover have "hunks_from d (\<lambda>k. snd (sides u ! k)) (ends ?ins (u # v # us)) \<dots>"
      unfolding ends_eq using h(3) start by (intro hunks_from_Cons[OF h(1,2) Cons.IH[OF ok ap(2), of ?e]]) simp
    ultimately have "hunks_from d (\<lambda>k. snd (sides u ! k)) (ends ?ins (u # v # us)) (?collect u True (v # us))" by simp
    then show ?case by (rule emit[OF Cons.prems(1)])
  }
qed

lemma hunks_ok:
  assumes "diff_ok wc d"
  shows "\<exists>hs. hunks d = Returns hs \<and> (\<forall>h \<in> set hs. hunk_ok wc (length (diff_inputs d)) h) \<and>
    (\<forall>k < length (diff_inputs d). side_text k hs = diff_inputs d ! k)"
proof -
  let ?ins = "diff_inputs d"
  obtain u us where us: "cd_unchanged_regions d = u # us" using assms by (cases "cd_unchanged_regions d") (auto simp: diff_ok_def Let_def)
  have ok: "regions_ok wc ?ins (\<lambda>_. 0) (u # us)" "apart (u # us)"
      "\<And>k. k < length ?ins \<Longrightarrow> begins ?ins (u # us) k = 0 \<and> ends ?ins (u # us) k = length (?ins ! k)"
    using assms by (simp_all add: diff_ok_def Let_def us)
  have "hunks_from d (\<lambda>k. if is_all_empty u then snd (sides u ! k) else fst (sides u ! k)) (ends ?ins (u # us)) (hunks d)"
    using collect_hunks_ok[OF ok(1,2), of "is_all_empty u"] by (simp add: hunks_def hunk_iterator_new_def us)
  then obtain hs where hs: "hunks d = Returns hs" "\<forall>h \<in> set hs. hunk_ok wc (length ?ins) h"
      "\<forall>k < length ?ins. side_text k hs = part (?ins ! k) (if is_all_empty u then snd (sides u ! k) else fst (sides u ! k), ends ?ins (u # us) k)"
    unfolding hunks_from_def by blast
  have "(if is_all_empty u then snd (sides u ! k) else fst (sides u ! k)) = 0" if k: "k < length ?ins" for k
  proof -
    have len: "length (sides u) = length ?ins" using ok(1) by (simp add: regions_ok_Cons region_ok_def)
    have "range_is_empty (sides u ! k)" if "is_all_empty u"
      using that k len by (cases k) (auto simp: is_all_empty_def sides_def list_all_length)
    then show ?thesis using ok(3)[OF k] by (auto simp: begins_def range_is_empty_def)
  qed
  then show ?thesis using hs ok(3) part_all by auto
qed

end

section \<open>Refinement\<close>

lemma ordered_append: "ordered a b xs \<Longrightarrow> ordered b c ys \<Longrightarrow> ordered a c (xs @ ys)"
proof (induction xs arbitrary: a)
  case Nil
  then show ?case using ordered_bound by (cases ys) fastforce+
qed simp

lemma ordered_shift: "ordered a b rs \<Longrightarrow> ordered (a + s) (b + s) (map (\<lambda>r. (fst r + s, snd r + s)) rs)"
  by (induction rs arbitrary: a) auto

lemma sides_shifted:
  assumes "length (sides u) = n" "length (sides r) = n" "k < n"
  shows "sides (shifted u r) ! k = (fst (sides r ! k) + snd (sides u ! k), snd (sides r ! k) + snd (sides u ! k))"
    and "length (sides (shifted u r)) = n"
proof -
  have "sides (shifted u r) = map (\<lambda>(refi, prev). (fst refi + snd prev, snd refi + snd prev)) (zip (sides r) (sides u))"
    by (simp add: shifted_def sides_def)
  then show "sides (shifted u r) ! k = (fst (sides r ! k) + snd (sides u ! k), snd (sides r ! k) + snd (sides u ! k))"
    "length (sides (shifted u r)) = n" using assms by simp_all
qed

context word_comparison
begin

lemma shifted_region_ok:
  assumes u: "length (sides u) = length ins" and range: "\<And>k. k < length ins \<Longrightarrow> range_in (ins ! k) (snd (sides u ! k), fst (sides v ! k))"
    and cs: "cs = map (\<lambda>k. part (ins ! k) (snd (sides u ! k), fst (sides v ! k))) [0..<length ins]"
    and us: "regions_ok wc cs (\<lambda>_. 0) us"
  shows "\<forall>r \<in> set us. region_ok wc ins (shifted u r)"
    and "\<And>k. k < length ins \<Longrightarrow> ordered (snd (sides u ! k)) (fst (sides v ! k)) (map (\<lambda>r. sides (shifted u r) ! k) us)"
proof -
  have len: "length cs = length ins" by (simp add: cs)
  have r_len: "length (sides r) = length ins" if "r \<in> set us" for r using us that len by (simp add: regions_ok_def region_ok_def)
  have c: "cs ! k = part (ins ! k) (snd (sides u ! k), fst (sides v ! k))" if "k < length ins" for k using that by (simp add: cs)
  have c_len: "length (cs ! k) = fst (sides v ! k) - snd (sides u ! k)" if "k < length ins" for k
    using length_part[OF range[OF that]] c[OF that] by simp
  have r_ord: "ordered 0 (length (cs ! k)) (map (\<lambda>r. sides r ! k) us)" if "k < length ins" for k
    using us that len by (simp add: regions_ok_def)
  have bound: "r \<in> set rs \<Longrightarrow> ordered a b rs \<Longrightarrow> snd r \<le> b" for r a b rs
    using ordered_bound by (induction rs arbitrary: a) auto
  have parts: "part (ins ! k) (sides (shifted u r) ! k) = part (cs ! k) (sides r ! k)" if r: "r \<in> set us" and k: "k < length ins" for r k
  proof -
    have "snd (sides r ! k) \<le> length (cs ! k)" using bound[OF _ r_ord[OF k]] r by auto
    then show ?thesis
      using part_part[of "snd (sides r ! k)" "fst (sides v ! k)" "snd (sides u ! k)" "ins ! k" "fst (sides r ! k)"] c_len[OF k] c[OF k]
        sides_shifted(1)[OF u r_len[OF r] k]
      by (simp add: add.commute)
  qed
  show "\<forall>r \<in> set us. region_ok wc ins (shifted u r)"
  proof
    fix r assume r: "r \<in> set us"
    then have "region_ok wc cs r" using us by (simp add: regions_ok_def)
    moreover have ne: "0 < length ins" using u by (simp add: sides_def flip: u)
    ultimately show "region_ok wc ins (shifted u r)"
      using sides_shifted(2)[OF u r_len[OF r] ne] parts[OF r] len by (simp add: region_ok_def)
  qed
  show "ordered (snd (sides u ! k)) (fst (sides v ! k)) (map (\<lambda>r. sides (shifted u r) ! k) us)" if k: "k < length ins" for k
  proof -
    have eq: "map (\<lambda>r. sides (shifted u r) ! k) us = map (\<lambda>r. (fst r + snd (sides u ! k), snd r + snd (sides u ! k))) (map (\<lambda>r. sides r ! k) us)"
      using sides_shifted(1)[OF u r_len k] by simp
    have "length (cs ! k) + snd (sides u ! k) = fst (sides v ! k)" using c_len[OF k] range[OF k] by (simp add: range_in_def)
    then show ?thesis unfolding eq using ordered_shift[OF r_ord[OF k], of "snd (sides u ! k)"] by simp
  qed
qed

lemma refine_loop_ok:
  assumes "params_ok P" "wc = \<lparr>compare = cb, hash_builder = dp_hash_builder P\<rparr>" "tokenizer_ok tokenizer"
  shows "regions_ok wc (diff_inputs d) a (u # us) \<Longrightarrow>
    \<exists>rs. refine_loop P d tokenizer cb (u # us) = Returns rs \<and> regions_ok wc (diff_inputs d) a (u # rs) \<and>
      ends (diff_inputs d) (u # rs) = ends (diff_inputs d) (u # us)"
proof (induction us arbitrary: u a)
  case (Cons v us)
  let ?ins = "diff_inputs d"
  let ?cs = "map (\<lambda>k. part (?ins ! k) (snd (sides u ! k), fst (sides v ! k))) [0..<length ?ins]"
  note between = hunk_between_ok[OF Cons.prems]
  have "?cs \<noteq> []" by (simp add: diff_inputs_def)
  then obtain e where e: "for_tokenizer P ?cs tokenizer cb = Returns e" "diff_inputs e = ?cs" "diff_ok wc e"
    using for_tokenizer_ok[OF assms] by blast
  have v: "regions_ok wc ?ins (\<lambda>k. snd (sides u ! k)) (v # us)" using Cons.prems by (simp add: regions_ok_Cons[of wc ?ins a])
  obtain rs where rs: "refine_loop P d tokenizer cb (v # us) = Returns rs" "regions_ok wc ?ins (\<lambda>k. snd (sides u ! k)) (v # rs)"
      "ends ?ins (v # rs) = ends ?ins (v # us)"
    using Cons.IH[OF v] by blast
  let ?R = "map (shifted u) (cd_unchanged_regions e)"
  have run: "refine_loop P d tokenizer cb (u # v # us) = Returns (?R @ v # rs)"
    using between(1) e(1) rs(1) by simp
  have len: "length (sides u) = length ?ins" using Cons.prems by (simp add: regions_ok_Cons region_ok_def)
  have reg: "regions_ok wc ?cs (\<lambda>_. 0) (cd_unchanged_regions e)" using e(2,3) by (simp add: diff_ok_def Let_def)
  have sh: "\<forall>r \<in> set (cd_unchanged_regions e). region_ok wc ?ins (shifted u r)"
      "\<And>k. k < length ?ins \<Longrightarrow> ordered (snd (sides u ! k)) (fst (sides v ! k)) (map (\<lambda>r. sides (shifted u r) ! k) (cd_unchanged_regions e))"
    using shifted_region_ok[of u ?ins v ?cs "cd_unchanged_regions e"] len between(2) reg by blast+
  have "ordered (snd (sides u ! k)) (length (?ins ! k)) (map (\<lambda>r. sides r ! k) (?R @ v # rs))" if k: "k < length ?ins" for k
  proof -
    have "ordered (fst (sides v ! k)) (length (?ins ! k)) (map (\<lambda>r. sides r ! k) (v # rs))"
      using rs(2) k by (simp add: regions_ok_def)
    then show ?thesis using ordered_append[OF sh(2)[OF k]] by (simp add: o_def)
  qed
  then have "regions_ok wc ?ins (\<lambda>k. snd (sides u ! k)) (?R @ v # rs)"
    using sh(1) rs(2) by (auto simp: regions_ok_def)
  then have "regions_ok wc ?ins a (u # ?R @ v # rs)" using Cons.prems by (simp add: regions_ok_Cons[of wc ?ins a])
  moreover have "ends ?ins (u # ?R @ v # rs) = ends ?ins (u # v # us)" using rs(3) by (simp add: ends_def fun_eq_iff)
  ultimately show ?case using run by blast
qed simp

lemma refine_ok:
  assumes "params_ok P" "wc = \<lparr>compare = cb, hash_builder = dp_hash_builder P\<rparr>" "tokenizer_ok tokenizer" "diff_ok wc d"
  shows "\<exists>d'. refine_changed_regions P d tokenizer cb = Returns d' \<and> diff_inputs d' = diff_inputs d \<and> diff_ok wc d'"
proof -
  let ?ins = "diff_inputs d"
  obtain u us where us: "cd_unchanged_regions d = u # us" using assms(4) by (cases "cd_unchanged_regions d") (auto simp: diff_ok_def Let_def)
  have ok: "regions_ok wc ?ins (\<lambda>_. 0) (u # us)" "\<And>k. k < length ?ins \<Longrightarrow> begins ?ins (u # us) k = 0 \<and> ends ?ins (u # us) k = length (?ins ! k)"
    using assms(4) by (simp_all add: diff_ok_def Let_def us)
  obtain rs where rs: "refine_loop P d tokenizer cb (u # us) = Returns rs" "regions_ok wc ?ins (\<lambda>_. 0) (u # rs)"
      "ends ?ins (u # rs) = ends ?ins (u # us)"
    using refine_loop_ok[OF assms(1-3) ok(1)] by blast
  have "diff_ok wc \<lparr>cd_base_input = cd_base_input d, cd_other_inputs = cd_other_inputs d,
      cd_unchanged_regions = compact_unchanged_regions (u # rs)\<rparr>"
    using rs(2,3) ok(2) by (intro compacted_ok) (simp_all add: diff_inputs_def begins_def)
  moreover have "refine_changed_regions P d tokenizer cb = Returns (d\<lparr>cd_unchanged_regions := compact_unchanged_regions (u # rs)\<rparr>)"
    using rs(1) by (simp add: refine_changed_regions_def us index_exec_def)
  ultimately show ?thesis by (cases d) (simp add: diff_inputs_def)
qed

end

section \<open>Tokenizers\<close>

lemma scan_ranges_ok:
  "sorted_wrt (\<lambda>r r'. snd r \<le> fst r') (scan_ranges s ls) \<and>
   (\<forall>r \<in> set (scan_ranges s ls). s \<le> fst r \<and> fst r \<le> snd r \<and> snd r \<le> s + length (concat ls))"
  by (induction ls arbitrary: s) fastforce+

lemma line_tokens: "tokenizer_ok find_line_ranges"
proof -
  have "tokens_ok t (find_line_ranges t)" for t
    using scan_ranges_ok[of 0 "split_inclusive (\<lambda>b. b = 10) t"] unfolding concat_split_inclusive
    by (simp add: tokens_ok_def find_line_ranges_def range_in_def)
  then show ?thesis by (simp add: tokenizer_ok_def)
qed

lemma word_ranges_loop_ok:
  "s \<le> i \<Longrightarrow> sorted_wrt (\<lambda>r r'. snd r \<le> fst r') (word_ranges_loop i s w bs) \<and>
   (\<forall>r \<in> set (word_ranges_loop i s w bs). s \<le> fst r \<and> fst r \<le> snd r \<and> snd r \<le> i + length bs)"
proof (induction i s w bs rule: word_ranges_loop.induct)
  case (2 i s w b bs)
  show ?case
  proof (cases "w \<and> \<not> is_word_byte b")
    case True
    then show ?thesis using 2(1)[OF True] 2(4) by fastforce
  next
    case False
    then show ?thesis using 2(2,3)[OF False] 2(4) by (cases "\<not> w \<and> is_word_byte b") fastforce+
  qed
qed auto

lemma word_tokens: "tokenizer_ok find_word_ranges"
  using word_ranges_loop_ok[of 0 0 False]
  by (simp add: tokenizer_ok_def tokens_ok_def find_word_ranges_def range_in_def)

lemma nonword_tokens: "tokenizer_ok find_nonword_ranges"
proof -
  have "sorted_wrt (<) (map fst (filter (\<lambda>(i, b). \<not> is_word_byte b) (enumerate 0 t)))" for t
  proof -
    have "sorted_wrt (\<lambda>x y. fst x < fst y) (enumerate 0 t)"
      using sorted_wrt_map[of "(<)" fst "enumerate 0 t"] by (simp add: sorted_wrt_upt)
    then show ?thesis by (simp add: sorted_wrt_map sorted_wrt_filter)
  qed
  then have "sorted_wrt (\<lambda>r r'. snd r \<le> fst r') (find_nonword_ranges t)" for t
    unfolding find_nonword_ranges_def sorted_wrt_map by (rule sorted_wrt_mono_rel[rotated]) simp
  moreover have "\<forall>r \<in> set (find_nonword_ranges t). range_in t r" for t
    by (auto simp: find_nonword_ranges_def range_in_def in_set_enumerate_eq)
  ultimately show ?thesis by (simp add: tokenizer_ok_def tokens_ok_def)
qed

section \<open>Properties\<close>

text \<open>
  (C6) Comparing texts by lines and then by words and by single other characters never panics and never loses
  or invents a byte: for every side, the contents of the hunks in order give back the input. Every hunk
  has the contents of all sides; those of a matching hunk are equal, those of a different hunk are not all
  empty. This holds for any hasher and any order in which the hash tables are iterated.
\<close>

theorem diff_texts_reassembles:
  assumes "params_ok P" "inputs \<noteq> []"
  shows "\<exists>hs. diff_texts P inputs = Returns hs \<and>
    (\<forall>k < length inputs. concat (map (\<lambda>h. dh_contents h ! k) hs) = inputs ! k) \<and>
    (\<forall>h \<in> set hs. length (dh_contents h) = length inputs \<and>
       (dh_kind h = Matching \<longrightarrow> (\<forall>c \<in> set (dh_contents h). c = hd (dh_contents h))) \<and>
       (dh_kind h = Different \<longrightarrow> (\<exists>c \<in> set (dh_contents h). c \<noteq> [])))"
proof -
  let ?wc = "\<lparr>compare = compare_bytes_exactly, hash_builder = dp_hash_builder P\<rparr>"
  obtain d where d: "for_tokenizer P inputs find_line_ranges compare_bytes_exactly = Returns d" "diff_inputs d = inputs" "diff_ok ?wc d"
    using exactly.for_tokenizer_ok[OF assms(1) refl line_tokens assms(2)] by blast
  obtain d' where d': "refine_changed_regions P d find_word_ranges compare_bytes_exactly = Returns d'" "diff_inputs d' = inputs" "diff_ok ?wc d'"
    using exactly.refine_ok[OF assms(1) refl word_tokens d(3)] d(2) by auto
  obtain d'' where d'': "refine_changed_regions P d' find_nonword_ranges compare_bytes_exactly = Returns d''" "diff_inputs d'' = inputs" "diff_ok ?wc d''"
    using exactly.refine_ok[OF assms(1) refl nonword_tokens d'(3)] d'(2) by auto
  obtain hs where hs: "hunks d'' = Returns hs" "\<forall>h \<in> set hs. hunk_ok ?wc (length inputs) h" "\<forall>k < length inputs. side_text k hs = inputs ! k"
    using exactly.hunks_ok[OF d''(3)] d''(2) by auto
  have "comp_eq ?wc s t \<longleftrightarrow> s = t" for s t by (simp add: comp_eq_def compare_bytes_exactly_def)
  then show ?thesis using d(1) d'(1) d''(1) hs
    by (auto simp: diff_texts_def hunk_ok_def side_text_def split: DiffHunkKind.splits)
qed

text \<open>
  (C20) The same for one comparison with any tokenizer that yields ordered ranges, and for the comparisons
  that ignore white space: nothing is lost, and the sides of a matching hunk differ in nothing but white
  space, respectively in its amount, also where a hunk joins several tokens.
\<close>

theorem whitespace_diff_reassembles:
  assumes "params_ok P" "inputs \<noteq> []" "tokenizer_ok tokenizer"
    and "cb \<in> {compare_bytes_exactly, compare_bytes_ignore_all_whitespace, compare_bytes_ignore_whitespace_amount}"
  shows "\<exists>d hs. for_tokenizer P inputs tokenizer cb = Returns d \<and> hunks d = Returns hs \<and>
    (\<forall>k < length inputs. concat (map (\<lambda>h. dh_contents h ! k) hs) = inputs ! k) \<and>
    (\<forall>h \<in> set hs. length (dh_contents h) = length inputs \<and>
       (dh_kind h = Matching \<longrightarrow> (\<forall>c \<in> set (dh_contents h). cmp_eq cb (hd (dh_contents h)) c)) \<and>
       (dh_kind h = Different \<longrightarrow> (\<exists>c \<in> set (dh_contents h). c \<noteq> [])))"
proof -
  let ?wc = "\<lparr>compare = cb, hash_builder = dp_hash_builder P\<rparr>"
  have wc: "word_comparison ?wc"
    using assms(4) exactly.word_comparison_axioms ignore_all_whitespace.word_comparison_axioms
      ignore_whitespace_amount.word_comparison_axioms by blast
  obtain d where d: "for_tokenizer P inputs tokenizer cb = Returns d" "diff_inputs d = inputs" "diff_ok ?wc d"
    using word_comparison.for_tokenizer_ok[OF wc assms(1) refl assms(3,2)] by blast
  obtain hs where hs: "hunks d = Returns hs" "\<forall>h \<in> set hs. hunk_ok ?wc (length inputs) h" "\<forall>k < length inputs. side_text k hs = inputs ! k"
    using word_comparison.hunks_ok[OF wc d(3)] d(2) by auto
  then show ?thesis using d(1)
    by (auto simp: hunk_ok_def side_text_def comp_eq_def split: DiffHunkKind.splits)
qed

definition sample_params :: diff_params where
  "sample_params = \<lparr>dp_hash_builder = (\<lambda>_. 0), dp_iter_table = (\<lambda>h. h), dp_merge_join_by = merge_join_ref\<rparr>"

lemma sample_params_ok: "params_ok sample_params"
  by (simp add: params_ok_def sample_params_def merge_join_ref_law)

theorem diff_texts_reassembles_witness:
  "\<exists>hs. diff_texts sample_params [[97, 32, 98, 10], [97, 32, 99, 10]] = Returns hs \<and>
     concat (map (\<lambda>h. dh_contents h ! 1) hs) = [97, 32, 99, 10]"
  using diff_texts_reassembles[OF sample_params_ok, of "[[97, 32, 98, 10], [97, 32, 99, 10]]"] by fastforce

theorem whitespace_diff_reassembles_witness:
  "\<exists>d hs. for_tokenizer sample_params [[97, 32, 98], [97, 98, 32]] find_word_ranges compare_bytes_ignore_all_whitespace = Returns d \<and>
     hunks d = Returns hs \<and> concat (map (\<lambda>h. dh_contents h ! 1) hs) = [97, 98, 32]"
  using whitespace_diff_reassembles[OF sample_params_ok _ word_tokens, of "[[97, 32, 98], [97, 98, 32]]" compare_bytes_ignore_all_whitespace]
  by fastforce

end
