(* ===== verification/Spec2Isabelle.thy ===== *)
theory Spec2Isabelle
  imports Op_Store_Laws Ref_Laws Commit_Heads Patterns_Codec Str_Util_Laws Remote_Laws View_Reachable
    Dag_Walk_Laws Hex_Laws Project_Export_Laws Content_Diff_Laws
begin

text \<open>
  jjosh, the operation-owned state of a repository: a verification of the Rust code under \<open>src/\<close>.

  \<^bold>\<open>The program.\<close> jjosh is a patched Jujutsu (\<open>src/jj\<close>) with a command line of its own
  (\<open>src/crates/jjosh-cli\<close>) and Josh (\<open>src/josh\<close>). Every operation of a repository stores a view:
  heads, bookmarks, tags, working copies, the remotes with what was observed of them, and the
  definitions of the projects that the repository is composed of. Concurrent operations are merged;
  a value that cannot be merged is kept as a signed expression. The development models that state
  and the logic that reads, validates, changes, merges and restores it.

  \<^bold>\<open>Parts, theories and sources.\<close>

  \<^item> \<open>Jjosh_Prelude\<close>: outcomes (\<open>exec\<close> for code that may panic, \<open>result\<close> for \<open>Result\<close>), iterators,
    signed occurrences, and the interface locale \<open>keyed_store\<close>. \<open>BTree_Map\<close>: \<open>BTreeMap\<close> as its
    sorted entries, an instance of \<open>keyed_store\<close>. \<open>Object_Ids\<close>: identifiers and names.
  \<^item> \<open>Merge_Expr\<close> models \<open>jj/core/src/merge.rs\<close>: \<open>Diff\<close>, \<open>Merge\<close>, \<open>MergeBuilder\<close>, trivial merging,
    simplification and flattening. \<open>Merge_Laws\<close>: each operation against the signed number of
    occurrences of every value; round trips of the two encodings.
  \<^item> \<open>Project_State\<close> models \<open>jj/core/src/project.rs\<close>. \<open>Project_Merge_Laws\<close>: the three-way merge keeps
    the maps well formed, fast-forwards, commutes and never drops a conflict. \<open>Project_Laws\<close>: the
    diagnostics decide a declarative notion of consistency, and the lookups answer only what is
    settled among all candidates.
  \<^item> \<open>Op_Store\<close> models the data of \<open>jj/core/src/op_store.rs\<close> and its iterators; \<open>Op_Store_Laws\<close> shows
    that the joined iteration lists every name once with its local and remote references.
  \<^item> \<open>Refs\<close> models \<open>jj/lib/src/refs.rs\<close> and \<open>iter_util.rs\<close>. \<open>Ref_Laws\<close>: comparing, pushing and merging
    references, in the locale \<open>ancestry\<close>, which states what merging needs of an index.
  \<^item> \<open>Bit_Set\<close>, \<open>Commit_Index\<close> model \<open>jj/lib/src/default_index/\<close> (\<open>bit_set.rs\<close>, \<open>composite.rs\<close>,
    \<open>mutable.rs\<close>, \<open>entry.rs\<close>): the segments, adding a commit, ancestry, heads, common ancestors.
    \<open>Commit_Index_Laws\<close> and \<open>Commit_Heads\<close>: the invariant \<open>index_ok\<close>, the exactness of the queries
    against reachability along the parents, and the interpretation of \<open>ancestry\<close> on the index.
  \<^item> \<open>Remote_Identity\<close>, \<open>Remote_Observations\<close>, \<open>Restore_View\<close> model the files of \<open>jj/lib/src/view/\<close>;
    \<open>Repo_View\<close> (reading and validating) and \<open>View_Ops\<close> (listing and changing) model
    \<open>jj/lib/src/view.rs\<close>. \<open>Remote_Observation_Laws\<close>: relocation, removal and remapping are exact.
    \<open>View_Laws\<close>: the setters are keyed stores and keep a view tidy. \<open>Remote_Laws\<close>: identities, name
    resolution and renaming of remotes. \<open>Restore_Laws\<close>: which field of a restored view comes from which
    view, and that it never gives tracking state to a connection that did not own it.
    \<open>View_Reachable\<close>: the step relation \<open>view_step\<close> over the operations, with restored views installed
    among them, and the invariant of every view it reaches.
  \<^item> \<open>Str_Util\<close> models \<open>jj/core/src/str_util.rs\<close>; \<open>Str_Util_Laws\<close>: the matchers mean what the
    expressions mean, unions are balanced.
  \<^item> \<open>Dag_Walk\<close> models \<open>jj/core/src/dag_walk.rs\<close>: depth-first search, topological order with its
    detection of cycles, and heads. \<open>Dag_Walk_Laws\<close>: over a graph with finitely many reachable nodes
    each walk ends, with exactly the promised nodes or the error of a cycle.
  \<^item> \<open>Hex_Util\<close> models \<open>jj/core/src/hex_util.rs\<close> and the prefixes of \<open>jj/core/src/object_id.rs\<close>;
    \<open>Hex_Laws\<close>: the locale \<open>hex_alphabet\<close> with both alphabets as instances, round trips, and
    prefixes and common lengths as those of the texts.
  \<^item> \<open>Repo_Path\<close> models \<open>jj/core/src/repo_path.rs\<close>; \<open>Repo_Path_Laws\<close>: the operations on the strings are
    those on lists of components, every path produced is well formed, and conversion from and to
    file system paths. \<open>Matchers\<close> models \<open>jj/core/src/matchers.rs\<close>; \<open>Matcher_Laws\<close>: \<open>visit\<close> is sound for
    \<open>matches\<close>, and the built trees match exactly what was added.
  \<^item> \<open>Working_Copy_Patterns\<close> models \<open>jj/core/src/working_copy_patterns.rs\<close>: sparse expressions, ordered
    rules, mappings, their validation and the translation of paths; \<open>Patterns_Codec\<close> its stored form.
    \<open>Working_Copy_Laws\<close>: compiled and direct selection agree, coverage abstracts selection, and a
    validated layout is invertible and free of collisions between directory mappings;
    \<open>exact_mapping_collision\<close> shows that a mapping of a single file can still collide.
  \<^item> \<open>Fallible\<close> and \<open>Sample_Wire\<close> are shared: errors together with panics, and a byte format from which
    the concrete instances of parameters are built.
  \<^item> \<open>Native_Trees\<close> models the mounts and the subtrees of projects, \<open>crates/jjosh-cli/src/native_project.rs\<close>;
    \<open>Native_Tree_Laws\<close>: a tree wrapped at a mount is read back, removing a mount keeps exactly the rest,
    and mounts accepted together are disjoint. \<open>Merged_Trees\<close> models the conflict labels
    (\<open>jj/core/src/conflict_labels.rs\<close>), what projects use of \<open>jj/lib/src/merged_tree.rs\<close>, and commits.
  \<^item> \<open>Project_History\<close> models \<open>native_project/history.rs\<close>: the projection of a history onto the subtree
    of a project, an explicit stack of visits over an arena of nodes. \<open>Project_History_Laws\<close>: the walk
    ends, and its result is described by a recursion over the commits (\<open>placed\<close>), from which follow
    that the heads keep their content and that the edges are those of the project.
    \<open>Project_Export\<close> models \<open>native_project/export.rs\<close> and \<open>native_project/validation.rs\<close>;
    \<open>Project_Export_Laws\<close>: what is published with a head is the history of that head, and no commit
    that changes a project escapes the checks of a push.
  \<^item> \<open>Content_Diff\<close> models \<open>jj/core/src/diff.rs\<close>. \<open>Lcs_Laws\<close>: the search for a longest common subsequence
    is optimal in spite of its early exit. \<open>Diff_Words_Laws\<close>: the locale \<open>word_comparison\<close>, the contract of
    a comparison of tokens, with the three comparisons of the source as instances; the unchanged words
    found are increasing and equivalent. \<open>Content_Diff_Laws\<close>: the hunks of any number of inputs reassemble
    to the inputs, through every refinement.
  \<^item> This theory holds the property that spans the view and the index: the normalization of heads.

  \<^bold>\<open>State and operations.\<close> A struct is a record, an enum a datatype, a method one definition with the
  method's name; a method that changes its receiver returns the new value. The variants of an
  error type are constructors, with the values that the source formats into the text. \<open>u8\<close> data of
  identifiers and the words of the bit sets are words of their width; positions and generation
  numbers, \<open>u32\<close> in the source, are natural numbers: an index of \<open>2^32\<close> commits is outside the model.

  \<^bold>\<open>Parameters.\<close> \<open>kmerge_by\<close> and \<open>merge_join_by\<close> of itertools (\<open>kmerge_law\<close>, \<open>merge_join_law\<close>), the crates
  globset and regex (\<open>engine_law\<close> for names, \<open>path_engine_law\<close> for paths), the wire format of prost
  (\<open>config_codec_law\<close>), the store of trees (\<open>tree_store_law\<close>), the store of commits and the recursive
  merge of trees (\<open>history_law\<close>, \<open>merge_trees_law\<close>), the Git backend's writer of commits, and the
  iteration order of a \<open>HashSet\<close> are arguments of the
  definitions that use them; the laws state their documented behaviour and are shown to hold of
  concrete functions. \<open>path_engine_law\<close> is idealised where the code calls \<open>expect\<close>: every parsed glob
  compiles and is anchored.

  \<^bold>\<open>Termination.\<close> No definition uses fuel, apart from the walk back along a common subsequence, which counts
  its positions down and is shown never to run out: a loop of the source is a total function, with a measure
  where the recursion is not structural (the ancestor walks decrease a multiset of positions). Only
  the graph walks may run forever, on a graph without end; they are partial functions to \<open>option\<close>,
  and that they return is proved for graphs with finitely many reachable nodes, for the projection of
  a history if no commit is its own ancestor.

  \<^bold>\<open>Not modelled.\<close> Serialisation (apart from working-copy patterns) and content hashes, random generation of identifiers, the stores on
  disk, Git transport, the command lines, the revset and template languages, Josh filters over Git
  trees, and the vendored gitoxide: input and output, generated parsers or third-party code. Of the
  commit index the prefix lookups, the file format and the revset engine are left out; so is the view
  that a project import builds (\<open>project_import.rs\<close>).
\<close>

section \<open>Normalizing the heads of a view against the commit index\<close>

lemma maximal_above:
  assumes ok: "index_ok s" and fin: "finite H" and idx: "\<forall>i \<in> H. indexed s i" and h: "h \<in> H"
  shows "\<exists>m \<in> H. ancestor s h m \<and> (\<forall>i \<in> H. ancestor s m i \<longrightarrow> i = m)"
proof -
  let ?id = "\<lambda>p. ge_commit_id (all_entries s ! p)"
  let ?P = "{p. p < num_commits s \<and> ?id p \<in> H \<and> ancestor s h (?id p)}"
  obtain p0 where "p0 < num_commits s" "?id p0 = h" using idx h indexed_iff[OF ok] by blast
  then have "p0 \<in> ?P" using h ancestor_refl[OF ok] idx by auto
  then have p: "Max ?P \<in> ?P" by (intro Max_in) auto
  have "i = ?id (Max ?P)" if i: "i \<in> H" "ancestor s (?id (Max ?P)) i" for i
  proof -
    obtain q r where q: "r < num_commits s" "q < num_commits s" "?id r = ?id (Max ?P)" "?id q = i" "reach s q r"
      using i(2) unfolding ancestor_def by blast
    have "r = Max ?P" using ids_injective[OF ok q(1) _ q(3)] p by blast
    then have "Max ?P \<le> q" using reach_less[OF ok q(5)] by auto
    moreover have "q \<in> ?P" using q(2,4) i ancestor_trans[OF ok _ i(2), of h] p by auto
    then have "q \<le> Max ?P" by (intro Max_ge) auto
    ultimately show ?thesis using q(4) by simp
  qed
  with p show ?thesis by blast
qed

text \<open>
  (C17) Over a well-formed index that knows the heads, normalizing the heads of a view ends without
  an error, whatever order the hash set iterates in, and sets the flag. The heads become the
  maximal ones among the old heads without the root, or the root alone if there were none; they are
  an antichain, every old head but the root remains an ancestor of a new one, and nothing else of
  the view changes.
\<close>
theorem normalize_heads_exact:
  assumes "index_ok s" and "finite (head_ids (data v))" and "\<forall>i \<in> head_ids (data v). indexed s i"
    and "\<And>S. finite S \<Longrightarrow> set (iter S) = S" and "\<not> head_normalized v"
  shows "\<exists>v'. normalize_heads iter (heads s) root v = Returns (Inr (), v') \<and> head_normalized v' \<and>
    head_ids (data v') =
      (if head_ids (data v) = {} then {root}
       else if card (head_ids (data v)) = 1 then head_ids (data v)
       else {h \<in> head_ids (data v) - {root}. \<forall>i \<in> head_ids (data v) - {root}. ancestor s h i \<longrightarrow> i = h}) \<and>
    (\<forall>a \<in> head_ids (data v'). \<forall>b \<in> head_ids (data v'). ancestor s a b \<longrightarrow> a = b) \<and>
    (\<forall>h \<in> head_ids (data v) - {root}. \<exists>h' \<in> head_ids (data v'). ancestor s h h') \<and>
    data v' = (data v)\<lparr>head_ids := head_ids (data v')\<rparr>"
proof -
  let ?H = "head_ids (data v)"
  let ?R = "?H - {root}"
  let ?M = "{h \<in> ?R. \<forall>i \<in> ?R. ancestor s h i \<longrightarrow> i = h}"
  have R: "finite ?R" "\<forall>i \<in> set (iter ?R). indexed s i" "set (iter ?R) = ?R" using assms by auto
  obtain hs where hs: "heads s (iter ?R) = Returns (Inr hs)" "set hs = ?M"
    using heads_correct[OF assms(1) R(2)] R(3) by auto
  have above: "\<exists>h' \<in> ?M. ancestor s h h'" if "h \<in> ?R" for h
    using maximal_above[OF assms(1) R(1) _ that] assms(3) by blast
  consider "?H = {}" | "card ?H = 1" | "card ?H > 1"
    using card_0_eq[OF assms(2)] by linarith
  then show ?thesis
  proof cases
    case 1
    have "normalize_heads iter (heads s) root v =
        Returns (Inr (), v\<lparr>data := (data v)\<lparr>head_ids := {root}\<rparr>, head_normalized := True\<rparr>)"
      using 1 assms(5) by (simp add: normalize_heads_def)
    with 1 show ?thesis
      by (intro exI[of _ "v\<lparr>data := (data v)\<lparr>head_ids := {root}\<rparr>, head_normalized := True\<rparr>"]) simp
  next
    case 2
    then obtain h where h: "?H = {h}" by (auto simp: card_1_singleton_iff)
    have "normalize_heads iter (heads s) root v =
        Returns (Inr (), v\<lparr>data := (data v)\<lparr>head_ids := {h}\<rparr>, head_normalized := True\<rparr>)"
      using h assms(5) by (simp add: normalize_heads_def)
    with h ancestor_refl[OF assms(1)] assms(3) show ?thesis
      by (intro exI[of _ "v\<lparr>data := (data v)\<lparr>head_ids := {h}\<rparr>, head_normalized := True\<rparr>"]) simp
  next
    case 3
    have "?R \<noteq> {}"
    proof
      assume "?R = {}"
      then have "?H \<subseteq> {root}" by blast
      then show False using 3 card_mono[of "{root}" ?H] by simp
    qed
    then obtain h where "h \<in> ?R" by blast
    then have "?M \<noteq> {}" using above by (metis (lifting) empty_iff)
    then have "set hs \<noteq> {}" unfolding hs(2) .
    moreover have "?H \<noteq> {}" "card ?H \<noteq> 1" using 3 by auto
    ultimately have "normalize_heads iter (heads s) root v =
        Returns (Inr (), v\<lparr>data := (data v)\<lparr>head_ids := ?M\<rparr>, head_normalized := True\<rparr>)"
      using 3 assms(5) hs by (simp add: normalize_heads_def Let_def)
    note run = this
    let ?v = "v\<lparr>data := (data v)\<lparr>head_ids := ?M\<rparr>, head_normalized := True\<rparr>"
    have d: "head_ids (data ?v) = ?M" by simp
    show ?thesis
    proof (rule exI[of _ ?v], intro conjI)
      show "head_ids (data ?v) = (if ?H = {} then {root} else if card ?H = 1 then ?H else ?M)"
        unfolding d if_not_P[OF \<open>?H \<noteq> {}\<close>] if_not_P[OF \<open>card ?H \<noteq> 1\<close>] by (rule refl)
      show "\<forall>a \<in> head_ids (data ?v). \<forall>b \<in> head_ids (data ?v). ancestor s a b \<longrightarrow> a = b"
        unfolding d by blast
      show "\<forall>h \<in> ?R. \<exists>h' \<in> head_ids (data ?v). ancestor s h h'" unfolding d using above by blast
    qed (use run in simp_all)
  qed
qed

definition sample_heads_view :: repo_view where
  "sample_heads_view =
     (view_new (make_root (nth_commit 0)) False)\<lparr>data := (make_root (nth_commit 0))\<lparr>head_ids := {nth_commit 0, nth_commit 1, nth_commit 2}\<rparr>\<rparr>"

theorem normalize_heads_exact_witness:
  "\<exists>v'. normalize_heads sorted_list_of_set (heads sample_index) (nth_commit 0) sample_heads_view = Returns (Inr (), v') \<and>
     nth_commit 1 \<notin> head_ids (data v') \<and> (\<exists>h \<in> head_ids (data v'). ancestor sample_index (nth_commit 2) h)"
proof -
  have ids: "head_ids (data sample_heads_view) = {nth_commit 0, nth_commit 1, nth_commit 2}" "\<not> head_normalized sample_heads_view"
    by (simp_all add: sample_heads_view_def view_new_def)
  have idx: "\<forall>i \<in> head_ids (data sample_heads_view). indexed sample_index i"
    using sample_indexed ids by auto
  have c: "nth_commit 1 \<noteq> nth_commit 0" "nth_commit 2 \<noteq> nth_commit 0" "nth_commit 2 \<noteq> nth_commit 1" using nth_commit_inject by auto
  have "card {nth_commit 0, nth_commit 1, nth_commit 2} \<noteq> 1" using c by (simp add: card_insert_if)
  with normalize_heads_exact[OF sample_index_ok _ idx _ ids(2), of sorted_list_of_set "nth_commit 0"] ids c sample_ancestor(2)
  show ?thesis by auto
qed

end
